(* ===== verification/Prelude.thy ===== *)
theory Prelude
  imports Main "HOL-Library.Word"
begin

text \<open>
  What every component of the library shares: the machine types of the C++ sources as
  words, the little-endian memory image of an integer (the code serialises integers by
  writing their bytes in memory order, see \<^verbatim>\<open>include/coin/Serialization.h\<close>), the
  reader type of an input stream with its error values, and generic lemmas on lists.
\<close>

type_synonym byte = "8 word"
type_synonym u16 = "16 word"
type_synonym u32 = "32 word"
type_synonym u64 = "64 word"
type_synonym uint160 = "160 word"
type_synonym uint256 = "256 word"

named_theorems wire \<open>round-trip facts of the wire format\<close>

section \<open>Words\<close>

lemma unat_ucast_eq: "unat (ucast (w :: 'a::len word) :: 'b::len word) = unat w mod 2 ^ LENGTH('b)"
  by (simp add: unsigned_ucast_eq take_bit_eq_mod)

lemma unat_ucast_small:
  "unat (w :: 'a::len word) < 2 ^ LENGTH('b::len) \<Longrightarrow> unat (ucast w :: 'b word) = unat w"
  by (simp add: unat_ucast_eq)

lemma ucast_ucast_small:
  assumes "unat (n :: 'a::len word) < 2 ^ LENGTH('b::len)"
  shows "ucast (ucast n :: 'b word) = n"
proof -
  have "unat (ucast (ucast n :: 'b word) :: 'a word) = unat n"
    using assms by (simp add: unat_ucast_eq)
  then show ?thesis by (simp add: word_unat_eq_iff)
qed

lemma unat_word_of_nat_small:
  "n < 2 ^ LENGTH('a::len) \<Longrightarrow> unat (word_of_nat n :: 'a word) = n"
  by (simp add: unat_of_nat)

section \<open>Little-endian memory images\<close>

primrec le_bytes :: "nat \<Rightarrow> nat \<Rightarrow> byte list" where
  "le_bytes 0 v = []"
| "le_bytes (Suc n) v = of_nat v # le_bytes n (v div 256)"

primrec le_value :: "byte list \<Rightarrow> nat" where
  "le_value [] = 0"
| "le_value (b # bs) = unat b + 256 * le_value bs"

lemma length_le_bytes [simp]: "length (le_bytes n v) = n"
  by (induction n arbitrary: v) auto

lemma unat_byte_less: "unat (b :: byte) < 256"
  using unsigned_less [of b] by simp

lemma le_value_less: "le_value bs < 256 ^ length bs"
proof (induction bs)
  case Nil
  then show ?case by simp
next
  case (Cons b bs)
  have "unat b + 256 * le_value bs < 256 + 256 * le_value bs"
    using unat_byte_less [of b] by simp
  also have "\<dots> \<le> 256 * 256 ^ length bs"
    using Cons.IH by simp
  finally show ?case by simp
qed

lemma le_value_le_bytes: "le_value (le_bytes n v) = v mod 256 ^ n"
proof (induction n arbitrary: v)
  case 0
  then show ?case by simp
next
  case (Suc n)
  have "v mod 256 + 256 * (v div 256 mod 256 ^ n) = v mod (256 * 256 ^ n)"
    by (simp add: mod_mult2_eq)
  then show ?case
    by (simp add: Suc.IH unat_of_nat)
qed

lemma le_bytes_le_value [simp]: "le_bytes (length bs) (le_value bs) = bs"
proof (induction bs)
  case Nil
  then show ?case by simp
next
  case (Cons b bs)
  have "(unat b + 256 * le_value bs) div 256 = le_value bs"
    using unat_byte_less [of b] by simp
  moreover have "(of_nat (unat b + 256 * le_value bs) :: byte) = b"
    by (rule word_unat_eq_iff [THEN iffD2])
      (use unat_byte_less [of b] in \<open>simp only: unat_of_nat, simp\<close>)
  ultimately show ?case
    by (simp add: Cons.IH del: of_nat_add of_nat_mult)
qed

lemma le_value_append: "le_value (xs @ ys) = le_value xs + 256 ^ length xs * le_value ys"
  by (induction xs) (auto simp: algebra_simps)

section \<open>Readers over an input stream\<close>

text \<open>
  An input stream is the list of its remaining bytes. \<open>Eof\<close>: a read past the end (the
  stream's failbit is set, and what the code leaves in the variable is not determined by the
  input); \<open>Too_large\<close>: the exception of a size above its limit; \<open>Null_write\<close>: the code
  writes through a null pointer.
\<close>

datatype io_error = Eof | Too_large | Null_write

type_synonym 'a reader = "byte list \<Rightarrow> io_error + 'a \<times> byte list"

definition and_then :: "'e + 'a \<Rightarrow> ('a \<Rightarrow> 'e + 'b) \<Rightarrow> 'e + 'b" where
  "and_then r f = (case r of Inl e \<Rightarrow> Inl e | Inr x \<Rightarrow> f x)"

lemma and_then_simps [simp]:
  "and_then (Inl e) f = Inl e"
  "and_then (Inr x) f = f x"
  by (simp_all add: and_then_def)

lemma and_then_Inr_iff: "and_then r f = Inr y \<longleftrightarrow> (\<exists>x. r = Inr x \<and> f x = Inr y)"
  by (cases r) auto

definition read_bytes :: "nat \<Rightarrow> byte list reader" where
  "read_bytes n bs = (if length bs < n then Inl Eof else Inr (take n bs, drop n bs))"

lemma read_bytes_append [wire]: "length xs = n \<Longrightarrow> read_bytes n (xs @ rest) = Inr (xs, rest)"
  by (simp add: read_bytes_def)

section \<open>Generic lemmas on lists\<close>

lemma nth_append_shift: "(xs @ ys) ! (length xs + i) = ys ! i"
  by simp

lemma butlast_snoc_last: "xs \<noteq> [] \<Longrightarrow> butlast xs @ [last xs] = xs"
  by simp

lemma concat_map_append_length:
  "(\<And>x. x \<in> set xs \<Longrightarrow> length (f x) = k) \<Longrightarrow> length (concat (map f xs)) = k * length xs"
  by (induction xs) auto

end
