(* ===== verification/Serialization.thy ===== *)
theory Serialization
  imports Prelude
begin

text \<open>
  The wire format of \<^verbatim>\<open>include/coin/Serialization.h\<close> and
  \<^verbatim>\<open>src/coin/Serialization.cpp\<close>: basic types as their memory image, variable length
  integers, strings and vectors as a length followed by the elements. The interface every
  serialisable type offers is the locale \<open>codec\<close>; vectors are treated once inside it.
\<close>

section \<open>Basic types: \<open>const_binary\<close> and \<open>binary\<close>\<close>

definition put_word :: "'a::len word \<Rightarrow> byte list" where
  "put_word w = le_bytes (LENGTH('a) div 8) (unat w)"

definition get_word :: "'a::len word reader" where
  "get_word bs = and_then (read_bytes (LENGTH('a) div 8) bs)
     (\<lambda>(v, rest). Inr (word_of_nat (le_value v), rest))"

lemma length_put_word [simp]: "length (put_word (w :: 'a::len word)) = LENGTH('a) div 8"
  by (simp add: put_word_def)

lemma get_put_word [wire]:
  assumes "8 dvd LENGTH('a::len)"
  shows "get_word (put_word (w :: 'a word) @ rest) = Inr (w, rest)"
proof -
  let ?n = "LENGTH('a) div 8"
  have "(256::nat) ^ ?n = 2 ^ (8 * ?n)"
    by (simp add: power_mult)
  also have "\<dots> = 2 ^ LENGTH('a)"
    using assms by simp
  finally have "unat w mod 256 ^ ?n = unat w"
    using unsigned_less [of w, where ?'a = nat] by simp
  then have "le_value (put_word w) = unat w"
    by (simp add: put_word_def le_value_le_bytes)
  then show ?thesis
    by (simp add: get_word_def read_bytes_append)
qed

section \<open>Variable length integers\<close>

definition MAX_VARINT_SIZE :: nat where
  "MAX_VARINT_SIZE = 0x02000000"

definition put_varint :: "u64 \<Rightarrow> byte list" where
  "put_varint n =
     (if n < 253 then put_word (ucast n :: byte)
      else if n \<le> 65535 then put_word (253 :: byte) @ put_word (ucast n :: u16)
      else if n \<le> 4294967295 then put_word (254 :: byte) @ put_word (ucast n :: u32)
      else put_word (255 :: byte) @ put_word n)"

text \<open>
  In the last branch the code reads into \<open>(char*)var._int\<close>, the value of the integer taken
  as an address; it was set to zero on entry, so this is a write through the null pointer.
\<close>

definition get_varint :: "u64 reader" where
  "get_varint bs =
     and_then (get_word bs :: io_error + byte \<times> byte list) (\<lambda>(s, bs1).
     and_then
       (if s < 253 then Inr (ucast s, bs1)
        else if s = 253 then
          and_then (get_word bs1 :: io_error + u16 \<times> byte list) (\<lambda>(d, r). Inr (ucast d, r))
        else if s = 254 then
          and_then (get_word bs1 :: io_error + u32 \<times> byte list) (\<lambda>(d, r). Inr (ucast d, r))
        else Inl Null_write)
     (\<lambda>(v :: u64, r). if unat v > MAX_VARINT_SIZE then Inl Too_large else Inr (v, r)))"

lemma get_varint_put_varint:
  "get_varint (put_varint n @ rest) =
     (if unat n \<le> MAX_VARINT_SIZE then Inr (n, rest)
      else if unat n \<le> 4294967295 then Inl Too_large else Inl Null_write)"
proof -
  note [simp] = get_varint_def put_varint_def get_put_word
  consider (a) "n < 253" | (b) "\<not> n < 253" "n \<le> 65535"
    | (c) "\<not> n \<le> 65535" "n \<le> 4294967295" | (d) "\<not> n \<le> 4294967295"
    by fastforce
  then show ?thesis
  proof cases
    case a
    then have u: "unat n < 253" by (simp add: word_less_nat_alt)
    then have "unat (ucast n :: byte) = unat n" by (simp add: unat_ucast_eq)
    then have "(ucast n :: byte) < 253" using u by (simp add: word_less_nat_alt)
    moreover have "ucast (ucast n :: byte) = n" using u by (simp add: ucast_ucast_small)
    ultimately show ?thesis using a u by (simp add: MAX_VARINT_SIZE_def)
  next
    case b
    then have u: "unat n \<le> 65535" by (simp add: word_le_nat_alt)
    then have "ucast (ucast n :: u16) = n" by (simp add: ucast_ucast_small)
    then show ?thesis using b u by (simp add: MAX_VARINT_SIZE_def)
  next
    case c
    then have u: "unat n \<le> 4294967295" by (simp add: word_le_nat_alt)
    then have "ucast (ucast n :: u32) = n" by (simp add: ucast_ucast_small)
    moreover have "\<not> n < 253" using c by (simp add: word_less_nat_alt word_le_nat_alt)
    ultimately show ?thesis using c u by simp
  next
    case d
    then have u: "\<not> unat n \<le> 4294967295" by (simp add: word_le_nat_alt)
    moreover have "\<not> n < 253" "\<not> n \<le> 65535"
      using u by (simp_all add: word_less_nat_alt word_le_nat_alt)
    ultimately show ?thesis using d by (simp add: MAX_VARINT_SIZE_def)
  qed
qed

section \<open>The interface of a serialisable type\<close>

text \<open>
  What a type promises: reading what was written gives the value back and leaves the rest of
  the stream. \<open>ok\<close> bounds the values (a vector longer than \<open>MAX_VARINT_SIZE\<close> is refused
  by the reader).
\<close>

primrec get_n :: "'a reader \<Rightarrow> nat \<Rightarrow> 'a list reader" where
  "get_n get 0 bs = Inr ([], bs)"
| "get_n get (Suc n) bs = and_then (get bs) (\<lambda>(x, r).
     and_then (get_n get n r) (\<lambda>(xs, r'). Inr (x # xs, r')))"

definition put_vector :: "('a \<Rightarrow> byte list) \<Rightarrow> 'a list \<Rightarrow> byte list" where
  "put_vector put xs = put_varint (word_of_nat (length xs)) @ concat (map put xs)"

definition get_vector :: "'a reader \<Rightarrow> 'a list reader" where
  "get_vector get bs = and_then (get_varint bs) (\<lambda>(size, r). get_n get (unat size) r)"

definition vector_ok :: "('a \<Rightarrow> bool) \<Rightarrow> 'a list \<Rightarrow> bool" where
  "vector_ok ok xs \<longleftrightarrow> length xs \<le> MAX_VARINT_SIZE \<and> list_all ok xs"

locale codec =
  fixes put :: "'a \<Rightarrow> byte list"
    and get :: "'a reader"
    and ok :: "'a \<Rightarrow> bool"
  assumes get_put: "ok x \<Longrightarrow> get (put x @ rest) = Inr (x, rest)"
begin

lemma put_inject:
  assumes "ok x" and "ok y" and "put x @ r = put y @ s"
  shows "x = y \<and> r = s"
proof -
  have "Inr (x, r) = get (put x @ r)" by (rule get_put [OF assms(1), symmetric])
  also have "\<dots> = Inr (y, s)" unfolding assms(3) by (rule get_put [OF assms(2)])
  finally show ?thesis by simp
qed

lemma get_n_put: "list_all ok xs \<Longrightarrow> get_n get (length xs) (concat (map put xs) @ rest) = Inr (xs, rest)"
  by (induction xs) (simp_all add: get_put)

lemma get_vector_put:
  assumes "vector_ok ok xs"
  shows "get_vector get (put_vector put xs @ rest) = Inr (xs, rest)"
proof -
  have len: "length xs \<le> MAX_VARINT_SIZE" and all: "list_all ok xs"
    using assms by (simp_all add: vector_ok_def)
  then have "unat (word_of_nat (length xs) :: u64) = length xs"
    by (simp add: unat_word_of_nat_small MAX_VARINT_SIZE_def)
  with len all show ?thesis
    by (simp add: get_vector_def put_vector_def get_varint_put_varint get_n_put)
qed

lemma vector_codec: "codec (put_vector put) (get_vector get) (vector_ok ok)"
  by unfold_locales (rule get_vector_put)

end

lemma codec_word: "8 dvd LENGTH('a::len) \<Longrightarrow> codec (put_word :: 'a word \<Rightarrow> _) get_word (\<lambda>_. True)"
  by unfold_locales (simp add: get_put_word)

interpretation byte_codec: codec "put_word :: byte \<Rightarrow> byte list" get_word "\<lambda>_. True"
  by (rule codec_word) simp

interpretation u32_codec: codec "put_word :: u32 \<Rightarrow> byte list" get_word "\<lambda>_. True"
  by (rule codec_word) simp

interpretation u64_codec: codec "put_word :: u64 \<Rightarrow> byte list" get_word "\<lambda>_. True"
  by (rule codec_word) simp

interpretation uint256_codec: codec "put_word :: uint256 \<Rightarrow> byte list" get_word "\<lambda>_. True"
  by (rule codec_word) simp

interpretation varint_codec: codec put_varint get_varint "\<lambda>n. unat n \<le> MAX_VARINT_SIZE"
  by unfold_locales (simp add: get_varint_put_varint)

section \<open>Strings and byte vectors\<close>

definition put_varstr :: "byte list \<Rightarrow> byte list" where
  "put_varstr s = put_varint (word_of_nat (length s)) @ (if s \<noteq> [] then s else [])"

definition get_varstr :: "byte list reader" where
  "get_varstr bs = and_then (get_varint bs) (\<lambda>(size, r).
     if unat size \<noteq> 0 then read_bytes (unat size) r else Inr ([], r))"

lemma get_put_varstr:
  assumes "length s \<le> MAX_VARINT_SIZE"
  shows "get_varstr (put_varstr s @ rest) = Inr (s, rest)"
proof -
  have "unat (word_of_nat (length s) :: u64) = length s"
    using assms by (simp add: unat_word_of_nat_small MAX_VARINT_SIZE_def)
  with assms show ?thesis
    by (auto simp add: get_varstr_def put_varstr_def get_varint_put_varint read_bytes_append)
qed

interpretation varstr_codec: codec put_varstr get_varstr "\<lambda>s. length s \<le> MAX_VARINT_SIZE"
  by unfold_locales (rule get_put_varstr)

interpretation bytes_codec: codec "put_vector (put_word :: byte \<Rightarrow> byte list)" "get_vector get_word" "vector_ok (\<lambda>_. True)"
  by (rule byte_codec.vector_codec)

lemma concat_map_put_byte: "concat (map (put_word :: byte \<Rightarrow> byte list) bs) = bs"
  by (induction bs) (simp_all add: put_word_def)

text \<open>A byte vector and a string have the same image: a script can be read as either.\<close>

lemma put_vector_bytes: "put_vector (put_word :: byte \<Rightarrow> byte list) bs = put_varstr bs"
  by (simp add: put_vector_def put_varstr_def concat_map_put_byte)

end
