(* ===== verification/Transaction.thy ===== *)
theory Transaction
  imports Serialization
begin

text \<open>
  Coins, inputs, outputs and transactions of \<^verbatim>\<open>include/coin/Transaction.h\<close> and
  \<^verbatim>\<open>src/coin/Transaction.cpp\<close>: the data, their serialisation, the double hash of
  \<^verbatim>\<open>include/coin/util.h\<close>, the comparison of two versions of a transaction and the fee
  rules. SHA256 is OpenSSL's: it is the parameter \<open>sha\<close> of every definition that hashes.
\<close>

section \<open>Hashing\<close>

type_synonym digest_fn = "byte list \<Rightarrow> byte list"

definition bytes_to_uint256 :: "byte list \<Rightarrow> uint256" where
  "bytes_to_uint256 bs = word_of_nat (le_value bs)"

definition Hash :: "digest_fn \<Rightarrow> byte list \<Rightarrow> uint256" where
  "Hash sha bs = (let hash1 = sha bs; hash2 = sha hash1 in bytes_to_uint256 hash2)"

definition Hash2 :: "digest_fn \<Rightarrow> byte list \<Rightarrow> byte list \<Rightarrow> uint256" where
  "Hash2 sha bs1 bs2 = (let hash1 = sha (bs1 @ bs2); hash2 = sha hash1 in bytes_to_uint256 hash2)"

section \<open>Data\<close>

datatype coin = Coin (coin_hash: uint256) (coin_index: u32)

definition null_coin :: coin where
  "null_coin = Coin 0 0xffffffff"

definition coin_isNull :: "coin \<Rightarrow> bool" where
  "coin_isNull c \<longleftrightarrow> coin_hash c = 0 \<and> coin_index c = 0xffffffff"

definition coin_less :: "coin \<Rightarrow> coin \<Rightarrow> bool" where
  "coin_less a b \<longleftrightarrow> coin_hash a < coin_hash b \<or> (coin_hash a = coin_hash b \<and> coin_index a < coin_index b)"

instantiation coin :: linorder
begin

definition less_coin :: "coin \<Rightarrow> coin \<Rightarrow> bool" where
  "less_coin = coin_less"

definition less_eq_coin :: "coin \<Rightarrow> coin \<Rightarrow> bool" where
  "less_eq_coin a b \<longleftrightarrow> a < b \<or> a = (b :: coin)"

instance
proof
  fix x y z :: coin
  show "x < y \<longleftrightarrow> x \<le> y \<and> \<not> y \<le> x"
    by (auto simp: less_coin_def coin_less_def less_eq_coin_def)
  show "x \<le> x"
    by (simp add: less_eq_coin_def)
  show "x \<le> y \<Longrightarrow> y \<le> z \<Longrightarrow> x \<le> z"
    by (auto simp: less_coin_def coin_less_def less_eq_coin_def)
  show "x \<le> y \<Longrightarrow> y \<le> x \<Longrightarrow> x = y"
    by (auto simp: less_coin_def coin_less_def less_eq_coin_def)
  show "x \<le> y \<or> y \<le> x"
    by (cases x; cases y) (auto simp: less_coin_def coin_less_def less_eq_coin_def)
qed

end

type_synonym script = "byte list"

definition UINT_MAX :: u32 where
  "UINT_MAX = 0xffffffff"

record tx_in =
  prevout :: coin
  signature :: script
  input_sequence :: u32

record tx_out =
  out_value :: u64
  out_script :: script

record transaction =
  tx_version :: u32
  tx_inputs :: "tx_in list"
  tx_outputs :: "tx_out list"
  tx_lockTime :: u32

definition isFinal :: "tx_in \<Rightarrow> bool" where
  "isFinal i \<longleftrightarrow> input_sequence i = UINT_MAX"

definition isSubsidy :: "tx_in \<Rightarrow> bool" where
  "isSubsidy i \<longleftrightarrow> coin_isNull (prevout i)"

definition null_output :: tx_out where
  "null_output = \<lparr>out_value = -1, out_script = []\<rparr>"

definition output_isNull :: "tx_out \<Rightarrow> bool" where
  "output_isNull out \<longleftrightarrow> out_value out = -1"

definition null_transaction :: transaction where
  "null_transaction = \<lparr>tx_version = 1, tx_inputs = [], tx_outputs = [], tx_lockTime = 0\<rparr>"

definition tx_isNull :: "transaction \<Rightarrow> bool" where
  "tx_isNull txn \<longleftrightarrow> tx_inputs txn = [] \<and> tx_outputs txn = []"

definition isCoinBase :: "transaction \<Rightarrow> bool" where
  "isCoinBase txn \<longleftrightarrow> length (tx_inputs txn) = 1 \<and> isSubsidy (tx_inputs txn ! 0)"

section \<open>Serialisation\<close>

definition put_coin :: "coin \<Rightarrow> byte list" where
  "put_coin c = put_word (coin_hash c) @ put_word (coin_index c)"

definition get_coin :: "coin reader" where
  "get_coin bs = and_then (get_word bs) (\<lambda>(h, r). and_then (get_word r) (\<lambda>(i, r'). Inr (Coin h i, r')))"

definition put_script :: "script \<Rightarrow> byte list" where
  "put_script s = put_vector put_word s"

definition get_script :: "script reader" where
  "get_script = get_vector get_word"

definition put_input :: "tx_in \<Rightarrow> byte list" where
  "put_input i = put_coin (prevout i) @ put_script (signature i) @ put_word (input_sequence i)"

definition get_input :: "tx_in reader" where
  "get_input bs =
     and_then (get_coin bs) (\<lambda>(c, r).
     and_then (get_script r) (\<lambda>(s, r).
     and_then (get_word r) (\<lambda>(q, r).
       Inr (\<lparr>prevout = c, signature = s, input_sequence = q\<rparr>, r))))"

definition put_output :: "tx_out \<Rightarrow> byte list" where
  "put_output out = put_word (out_value out) @ put_script (out_script out)"

definition get_output :: "tx_out reader" where
  "get_output bs =
     and_then (get_word bs) (\<lambda>(v, r).
     and_then (get_script r) (\<lambda>(s, r). Inr (\<lparr>out_value = v, out_script = s\<rparr>, r)))"

definition put_transaction :: "transaction \<Rightarrow> byte list" where
  "put_transaction txn =
     put_word (tx_version txn) @ put_vector put_input (tx_inputs txn)
     @ put_vector put_output (tx_outputs txn) @ put_word (tx_lockTime txn)"

definition get_transaction :: "transaction reader" where
  "get_transaction bs =
     and_then (get_word bs) (\<lambda>(v, r).
     and_then (get_vector get_input r) (\<lambda>(is, r).
     and_then (get_vector get_output r) (\<lambda>(os, r).
     and_then (get_word r) (\<lambda>(l, r).
       Inr (\<lparr>tx_version = v, tx_inputs = is, tx_outputs = os, tx_lockTime = l\<rparr>, r)))))"

definition script_ok :: "script \<Rightarrow> bool" where
  "script_ok s \<longleftrightarrow> length s \<le> MAX_VARINT_SIZE"

definition transaction_ok :: "transaction \<Rightarrow> bool" where
  "transaction_ok txn \<longleftrightarrow>
     vector_ok (\<lambda>i. script_ok (signature i)) (tx_inputs txn) \<and>
     vector_ok (\<lambda>out. script_ok (out_script out)) (tx_outputs txn)"

interpretation coin_codec: codec put_coin get_coin "\<lambda>_. True"
  by unfold_locales
    (simp add: put_coin_def get_coin_def u32_codec.get_put uint256_codec.get_put)

interpretation script_codec: codec put_script get_script script_ok
proof unfold_locales
  fix s rest
  assume "script_ok s"
  then have "vector_ok (\<lambda>_. True) s"
    by (simp add: script_ok_def vector_ok_def list_all_iff)
  then show "get_script (put_script s @ rest) = Inr (s, rest)"
    by (simp add: put_script_def get_script_def bytes_codec.get_put)
qed

interpretation input_codec: codec put_input get_input "\<lambda>i. script_ok (signature i)"
  by unfold_locales
    (simp add: put_input_def get_input_def coin_codec.get_put script_codec.get_put u32_codec.get_put)

interpretation output_codec: codec put_output get_output "\<lambda>out. script_ok (out_script out)"
  by unfold_locales
    (simp add: put_output_def get_output_def script_codec.get_put u64_codec.get_put)

interpretation transaction_codec: codec put_transaction get_transaction transaction_ok
  by unfold_locales
    (simp add: put_transaction_def get_transaction_def transaction_ok_def u32_codec.get_put
      input_codec.get_vector_put output_codec.get_vector_put)

definition tx_getHash :: "digest_fn \<Rightarrow> transaction \<Rightarrow> uint256" where
  "tx_getHash sha txn = Hash sha (put_transaction txn)"

section \<open>Replacement: \<open>isNewerThan\<close>\<close>

fun newer_loop :: "(u32 \<times> u32) list \<Rightarrow> bool \<Rightarrow> u32 \<Rightarrow> bool" where
  "newer_loop [] newer lowest = newer"
| "newer_loop ((new, old) # rest) newer lowest =
     (if new \<noteq> old then
        let (newer, lowest) = (if new \<le> lowest then (False, new) else (newer, lowest));
            (newer, lowest) = (if old < lowest then (True, old) else (newer, lowest))
        in newer_loop rest newer lowest
      else newer_loop rest newer lowest)"

definition isNewerThan :: "transaction \<Rightarrow> transaction \<Rightarrow> bool" where
  "isNewerThan txn old =
     (if length (tx_inputs txn) \<noteq> length (tx_inputs old) then False
      else if \<not> list_all2 (\<lambda>i j. prevout i = prevout j) (tx_inputs txn) (tx_inputs old) then False
      else newer_loop (zip (map input_sequence (tx_inputs txn)) (map input_sequence (tx_inputs old)))
             False UINT_MAX)"

text \<open>The lowest sequence number of one side over the inputs where the two sides differ.\<close>

definition lowest_seq :: "u32 list \<Rightarrow> u32" where
  "lowest_seq qs = foldl min UINT_MAX qs"

definition differing :: "(u32 \<times> u32) list \<Rightarrow> (u32 \<times> u32) list" where
  "differing ps = filter (\<lambda>(new, old). new \<noteq> old) ps"

lemma newer_step:
  fixes a b mo mn :: "'a::linorder"
  assumes "a \<noteq> b"
  shows "(let (newer, lowest) = (if a \<le> min mo mn then (False, a) else (mo < mn, min mo mn))
          in if b < lowest then (True, b) else (newer, lowest)) =
         (min mo b < min mn a, min (min mo b) (min mn a))"
  using assms by (auto simp: min_def)

lemma newer_loop_min:
  "newer_loop ps (mo < mn) (min mo mn) \<longleftrightarrow>
     foldl min mo (map snd (differing ps)) < foldl min mn (map fst (differing ps))"
proof (induction ps arbitrary: mo mn)
  case Nil
  then show ?case by (simp add: differing_def)
next
  case (Cons p ps)
  obtain a b where p: "p = (a, b)" by fastforce
  show ?case
  proof (cases "a = b")
    case True
    with Cons.IH p show ?thesis by (simp add: differing_def)
  next
    case False
    have "newer_loop (p # ps) (mo < mn) (min mo mn) =
      (case (let (newer, lowest) = (if a \<le> min mo mn then (False, a) else (mo < mn, min mo mn))
             in if b < lowest then (True, b) else (newer, lowest))
       of (newer, lowest) \<Rightarrow> newer_loop ps newer lowest)"
      unfolding p newer_loop.simps using False by (simp only: if_True not_False_eq_True Let_def split_def)
    also have "\<dots> = newer_loop ps (min mo b < min mn a) (min (min mo b) (min mn a))"
      unfolding newer_step [OF False] by simp
    finally have "newer_loop (p # ps) (mo < mn) (min mo mn) =
      newer_loop ps (min mo b < min mn a) (min (min mo b) (min mn a))" .
    then show ?thesis
      using Cons.IH [of "min mo b" "min mn a"] False p by (simp add: differing_def)
  qed
qed

lemma newer_loop_iff:
  "newer_loop ps False UINT_MAX \<longleftrightarrow>
     lowest_seq (map snd (differing ps)) < lowest_seq (map fst (differing ps))"
  using newer_loop_min [of ps UINT_MAX UINT_MAX] by (simp add: lowest_seq_def)

section \<open>Values and fees\<close>

text \<open>
  Amounts are \<^verbatim>\<open>int64_t\<close>. \<open>getValueOut\<close> adds them up with the wrap-around of the
  machine word; the fee arithmetic is done on integers, with the bound that shows it never leaves
  the 64-bit range.
\<close>

definition tx_COIN :: int where "tx_COIN = 100000000"
definition tx_CENT :: int where "tx_CENT = 1000000"
definition MIN_TX_FEE :: int where "MIN_TX_FEE = 50000"
definition MIN_RELAY_TX_FEE :: int where "MIN_RELAY_TX_FEE = 10000"
definition MAX_MONEY :: int where "MAX_MONEY = 21000000 * tx_COIN"
definition MAX_BLOCK_SIZE :: nat where "MAX_BLOCK_SIZE = 1000000"
definition MAX_BLOCK_SIZE_GEN :: nat where "MAX_BLOCK_SIZE_GEN = MAX_BLOCK_SIZE div 2"

lemmas tx_limits = tx_COIN_def tx_CENT_def MIN_TX_FEE_def MIN_RELAY_TX_FEE_def MAX_MONEY_def
  MAX_BLOCK_SIZE_def MAX_BLOCK_SIZE_GEN_def

definition MoneyRange :: "int \<Rightarrow> bool" where
  "MoneyRange v \<longleftrightarrow> v \<ge> 0 \<and> v \<le> MAX_MONEY"

definition out_amount :: "tx_out \<Rightarrow> int" where
  "out_amount out = sint (out_value out)"

definition getValueOut :: "transaction \<Rightarrow> u64" where
  "getValueOut txn = foldl (\<lambda>valueOut out. valueOut + out_value out) 0 (tx_outputs txn)"

lemma foldl_plus_word: "foldl (\<lambda>v out. v + f out) (a :: 'a::len word) xs = a + sum_list (map f xs)"
  by (induction xs arbitrary: a) (simp_all add: add.assoc)

lemma getValueOut_sum: "getValueOut txn = sum_list (map out_value (tx_outputs txn))"
  by (simp add: getValueOut_def foldl_plus_word)

text \<open>
  \<open>getMinFee\<close> on the serialised size \<open>nBytes\<close>; sizes are \<^verbatim>\<open>unsigned int\<close>, so
  their sum wraps at \<open>2 ^ 32\<close>.
\<close>

definition minFee_of_size :: "u32 \<Rightarrow> u32 \<Rightarrow> int list \<Rightarrow> bool \<Rightarrow> bool \<Rightarrow> int" where
  "minFee_of_size nBytes nBlockSize values fAllowFree fForRelay =
     (let nBaseFee = (if fForRelay then MIN_RELAY_TX_FEE else MIN_TX_FEE);
          nNewBlockSize = nBlockSize + nBytes;
          nMinFee = (1 + int (unat nBytes) div 1000) * nBaseFee;
          nMinFee =
            (if fAllowFree then
               (if nBlockSize = 1 then (if unat nBytes < 10000 then 0 else nMinFee)
                else (if unat nNewBlockSize < 27000 then 0 else nMinFee))
             else nMinFee);
          nMinFee =
            (if nMinFee < nBaseFee then
               foldl (\<lambda>fee v. if v < tx_CENT then nBaseFee else fee) nMinFee values
             else nMinFee);
          nearlyFull = (nBlockSize \<noteq> 1 \<and> unat nNewBlockSize \<ge> MAX_BLOCK_SIZE_GEN div 2)
      in if nearlyFull \<and> unat nNewBlockSize \<ge> MAX_BLOCK_SIZE_GEN then MAX_MONEY
         else
           let nMinFee =
             (if nearlyFull
              then nMinFee * int (MAX_BLOCK_SIZE_GEN div (MAX_BLOCK_SIZE_GEN - unat nNewBlockSize))
              else nMinFee)
           in if \<not> MoneyRange nMinFee then MAX_MONEY else nMinFee)"

definition getMinFee :: "transaction \<Rightarrow> u32 \<Rightarrow> bool \<Rightarrow> bool \<Rightarrow> int" where
  "getMinFee txn nBlockSize fAllowFree fForRelay =
     minFee_of_size (word_of_nat (length (put_transaction txn))) nBlockSize
       (map out_amount (tx_outputs txn)) fAllowFree fForRelay"

lemma MAX_MONEY_range: "MoneyRange MAX_MONEY"
  by (simp add: MoneyRange_def tx_limits)

lemma minFee_of_size_range: "MoneyRange (minFee_of_size n b vs af rel)"
  by (simp add: minFee_of_size_def Let_def MAX_MONEY_range)

end
