(* ===== verification/Block.thy ===== *)
theory Block
  imports Transaction
begin

text \<open>
  Blocks of \<^verbatim>\<open>include/coin/Block.h\<close>, \<^verbatim>\<open>include/coin/BlockHeader.h\<close> and their
  sources: header and block with their serialisation, the Merkle tree (built level by level
  into one vector, \<open>_merkleTree\<close>, which is a cache of the block), the Merkle branch of a
  transaction and its check. The reference the loops are compared with is the recursive
  construction by levels, \<open>level_up\<close>.
\<close>

unbundle bit_operations_syntax

section \<open>Header and block\<close>

record block_header =
  bh_version :: u32
  bh_prevBlock :: uint256
  bh_merkleRoot :: uint256
  bh_time :: u32
  bh_bits :: u32
  bh_nonce :: u32

definition put_header :: "block_header \<Rightarrow> byte list" where
  "put_header h =
     put_word (bh_version h) @ put_word (bh_prevBlock h) @ put_word (bh_merkleRoot h)
     @ put_word (bh_time h) @ put_word (bh_bits h) @ put_word (bh_nonce h)"

definition get_header :: "block_header reader" where
  "get_header bs =
     and_then (get_word bs) (\<lambda>(v, r).
     and_then (get_word r) (\<lambda>(p, r).
     and_then (get_word r) (\<lambda>(m, r).
     and_then (get_word r) (\<lambda>(t, r).
     and_then (get_word r) (\<lambda>(b, r).
     and_then (get_word r) (\<lambda>(n, r).
       Inr (\<lparr>bh_version = v, bh_prevBlock = p, bh_merkleRoot = m, bh_time = t, bh_bits = b,
             bh_nonce = n\<rparr>, r)))))))"

interpretation header_codec: codec put_header get_header "\<lambda>_. True"
  by unfold_locales
    (simp add: put_header_def get_header_def u32_codec.get_put uint256_codec.get_put)

text \<open>The hash of a header is taken over its memory image, which is its serialisation.\<close>

definition header_getHash :: "digest_fn \<Rightarrow> block_header \<Rightarrow> uint256" where
  "header_getHash sha h = Hash sha (put_header h)"

record block =
  header :: block_header
  transactions :: "transaction list"
  merkleTree :: "uint256 list"

text \<open>
  The block as it is sent without the merged mining extension (\<open>_ignore_aux_pow\<close>, the value
  both constructors set).
\<close>

definition put_block :: "block \<Rightarrow> byte list" where
  "put_block b = put_header (header b) @ put_vector put_transaction (transactions b)"

definition get_block :: "block reader" where
  "get_block bs =
     and_then (get_header bs) (\<lambda>(h, r).
     and_then (get_vector get_transaction r) (\<lambda>(txs, r).
       Inr (\<lparr>header = h, transactions = txs, merkleTree = []\<rparr>, r)))"

definition block_ok :: "block \<Rightarrow> bool" where
  "block_ok b \<longleftrightarrow> vector_ok transaction_ok (transactions b) \<and> merkleTree b = []"

interpretation block_codec: codec put_block get_block block_ok
  by unfold_locales
    (simp add: put_block_def get_block_def block_ok_def header_codec.get_put
      transaction_codec.get_vector_put)

definition addTransaction :: "block \<Rightarrow> transaction \<Rightarrow> block" where
  "addTransaction b tx = b\<lparr>transactions := transactions b @ [tx]\<rparr>"

definition stripTransactions :: "block \<Rightarrow> block" where
  "stripTransactions b = b\<lparr>transactions := []\<rparr>"

section \<open>The Merkle tree\<close>

definition HashNode :: "digest_fn \<Rightarrow> uint256 \<Rightarrow> uint256 \<Rightarrow> uint256" where
  "HashNode sha a b = Hash2 sha (put_word a) (put_word b)"

text \<open>
  The inner loop appends one level: \<open>j\<close> is where the current level starts, \<open>sz\<close> its
  length, \<open>i\<close> the loop variable.
\<close>

function merkle_level :: "digest_fn \<Rightarrow> nat \<Rightarrow> nat \<Rightarrow> nat \<Rightarrow> uint256 list \<Rightarrow> uint256 list" where
  "merkle_level sha j sz i tree =
     (if i < sz then
        let i2 = min (i + 1) (sz - 1)
        in merkle_level sha j sz (i + 2) (tree @ [HashNode sha (tree ! (j + i)) (tree ! (j + i2))])
      else tree)"
  by pat_completeness auto
termination
  by (relation "measure (\<lambda>(sha, j, sz, i, tree). sz - i)") auto

function merkle_loop :: "digest_fn \<Rightarrow> nat \<Rightarrow> nat \<Rightarrow> uint256 list \<Rightarrow> uint256 list" where
  "merkle_loop sha j sz tree =
     (if sz > 1 then
        merkle_loop sha (j + sz) ((sz + 1) div 2) (merkle_level sha j sz 0 tree)
      else tree)"
  by pat_completeness auto
termination
  by (relation "measure (\<lambda>(sha, j, sz, tree). sz)") auto

declare merkle_level.simps [simp del] merkle_loop.simps [simp del]

text \<open>\<open>buildMerkleTree\<close> returns the root and the block with the cache filled.\<close>

definition buildMerkleTree :: "digest_fn \<Rightarrow> block \<Rightarrow> uint256 \<times> block" where
  "buildMerkleTree sha b =
     (let tree = merkle_loop sha 0 (length (transactions b)) (map (tx_getHash sha) (transactions b))
      in (if tree = [] then 0 else last tree, b\<lparr>merkleTree := tree\<rparr>))"

definition updateMerkleTree :: "digest_fn \<Rightarrow> block \<Rightarrow> block" where
  "updateMerkleTree sha b =
     (let (root, b) = buildMerkleTree sha b in b\<lparr>header := (header b)\<lparr>bh_merkleRoot := root\<rparr>\<rparr>)"

text \<open>
  \<open>None\<close>: the read \<open>_merkleTree[j+i]\<close> is out of range, which is undefined behaviour.
\<close>

function branch_loop :: "uint256 list \<Rightarrow> nat \<Rightarrow> nat \<Rightarrow> nat \<Rightarrow> uint256 list \<Rightarrow> uint256 list option" where
  "branch_loop tree j sz index branch =
     (if sz > 1 then
        let i = min (index XOR 1) (sz - 1)
        in if j + i < length tree
           then branch_loop tree (j + sz) ((sz + 1) div 2) (drop_bit 1 index) (branch @ [tree ! (j + i)])
           else None
      else Some branch)"
  by pat_completeness auto
termination
  by (relation "measure (\<lambda>(tree, j, sz, index, branch). sz)") auto

declare branch_loop.simps [simp del]

definition getMerkleBranch :: "digest_fn \<Rightarrow> block \<Rightarrow> nat \<Rightarrow> uint256 list option \<times> block" where
  "getMerkleBranch sha b index =
     (let b = (if merkleTree b = [] then snd (buildMerkleTree sha b) else b)
      in (branch_loop (merkleTree b) 0 (length (transactions b)) index [], b))"

primrec check_loop :: "digest_fn \<Rightarrow> uint256 list \<Rightarrow> uint256 \<Rightarrow> int \<Rightarrow> uint256" where
  "check_loop sha [] hash index = hash"
| "check_loop sha (otherside # branch) hash index =
     check_loop sha branch
       (if index AND 1 \<noteq> 0 then HashNode sha otherside hash else HashNode sha hash otherside)
       (drop_bit 1 index)"

definition checkMerkleBranch :: "digest_fn \<Rightarrow> uint256 \<Rightarrow> uint256 list \<Rightarrow> int \<Rightarrow> uint256" where
  "checkMerkleBranch sha hash merkleBranch index =
     (if index = -1 then 0 else check_loop sha merkleBranch hash index)"

section \<open>The reference: the tree by levels\<close>

fun level_up :: "digest_fn \<Rightarrow> uint256 list \<Rightarrow> uint256 list" where
  "level_up sha [] = []"
| "level_up sha [a] = [HashNode sha a a]"
| "level_up sha (a # b # xs) = HashNode sha a b # level_up sha xs"

lemma length_level_up [simp]: "length (level_up sha xs) = (length xs + 1) div 2"
  by (induction sha xs rule: level_up.induct) auto

lemma level_up_nth:
  "k < (length xs + 1) div 2 \<Longrightarrow>
   level_up sha xs ! k = HashNode sha (xs ! (2 * k)) (xs ! min (2 * k + 1) (length xs - 1))"
proof (induction sha xs arbitrary: k rule: level_up.induct)
  case (1 sha)
  then show ?case by simp
next
  case (2 sha a)
  then show ?case by simp
next
  case (3 sha a b xs)
  show ?case
  proof (cases k)
    case 0
    then show ?thesis by simp
  next
    case (Suc m)
    with "3.prems" have "m < (length xs + 1) div 2" by simp
    moreover from this have "xs \<noteq> []" by auto
    then have "min (2 * k + 1) (length (a # b # xs) - 1) = Suc (Suc (min (2 * m + 1) (length xs - 1)))"
      using Suc by (cases xs) auto
    ultimately show ?thesis
      using Suc "3.IH" by simp
  qed
qed

lemma level_up_nonempty [simp]: "level_up sha xs = [] \<longleftrightarrow> xs = []"
  by (cases "(sha, xs)" rule: level_up.cases) simp_all

lemma level_up_shrinks: "length xs > 1 \<Longrightarrow> length (level_up sha xs) < length xs"
  by simp

function levels :: "digest_fn \<Rightarrow> uint256 list \<Rightarrow> uint256 list list" where
  "levels sha xs = (if length xs > 1 then xs # levels sha (level_up sha xs) else [xs])"
  by pat_completeness auto
termination
  by (relation "measure (\<lambda>(sha, xs). length xs)") auto

function root_of :: "digest_fn \<Rightarrow> uint256 list \<Rightarrow> uint256" where
  "root_of sha xs = (if length xs > 1 then root_of sha (level_up sha xs) else (if xs = [] then 0 else hd xs))"
  by pat_completeness auto
termination
  by (relation "measure (\<lambda>(sha, xs). length xs)") auto

function path_of :: "digest_fn \<Rightarrow> uint256 list \<Rightarrow> nat \<Rightarrow> uint256 list" where
  "path_of sha xs i =
     (if length xs > 1
      then xs ! min (i XOR 1) (length xs - 1) # path_of sha (level_up sha xs) (i div 2) else [])"
  by pat_completeness auto
termination
  by (relation "measure (\<lambda>(sha, xs, i). length xs)") auto

declare levels.simps [simp del] root_of.simps [simp del] path_of.simps [simp del]

section \<open>The loops build the levels\<close>

lemma merkle_level_eq:
  assumes "j + sz \<le> length tree"
  shows "merkle_level sha j sz (2 * k) tree =
    tree @ map (\<lambda>k. HashNode sha (tree ! (j + 2 * k)) (tree ! (j + min (2 * k + 1) (sz - 1))))
             [k..<(sz + 1) div 2]"
  using assms
proof (induction "sz - 2 * k" arbitrary: k tree rule: less_induct)
  case less
  show ?case
  proof (cases "2 * k < sz")
    case True
    let ?h = "HashNode sha (tree ! (j + 2 * k)) (tree ! (j + min (2 * k + 1) (sz - 1)))"
    let ?tree = "tree @ [?h]"
    have nth: "?tree ! (j + m) = tree ! (j + m)" if "m < sz" for m
      using that less.prems by (simp add: nth_append)
    have "merkle_level sha j sz (2 * k) tree = merkle_level sha j sz (2 * Suc k) ?tree"
      using True by (subst merkle_level.simps) (simp add: Let_def)
    also have "\<dots> = ?tree @ map (\<lambda>k. HashNode sha (?tree ! (j + 2 * k)) (?tree ! (j + min (2 * k + 1) (sz - 1))))
             [Suc k..<(sz + 1) div 2]"
      using True less.prems by (intro less.hyps) auto
    also have "\<dots> = ?tree @ map (\<lambda>k. HashNode sha (tree ! (j + 2 * k)) (tree ! (j + min (2 * k + 1) (sz - 1))))
             [Suc k..<(sz + 1) div 2]"
    proof (rule arg_cong [where f = "(@) ?tree"], rule map_cong [OF refl])
      fix x
      assume "x \<in> set [Suc k..<(sz + 1) div 2]"
      then have x: "2 * x < sz" "min (2 * x + 1) (sz - 1) < sz" by auto
      show "HashNode sha (?tree ! (j + 2 * x)) (?tree ! (j + min (2 * x + 1) (sz - 1))) =
            HashNode sha (tree ! (j + 2 * x)) (tree ! (j + min (2 * x + 1) (sz - 1)))"
        by (simp only: nth [OF x(1)] nth [OF x(2)])
    qed
    also have "\<dots> = tree @ map (\<lambda>k. HashNode sha (tree ! (j + 2 * k)) (tree ! (j + min (2 * k + 1) (sz - 1))))
             [k..<(sz + 1) div 2]"
      using True by (simp add: upt_conv_Cons)
    finally show ?thesis .
  next
    case False
    then show ?thesis by (subst merkle_level.simps) simp
  qed
qed

lemma merkle_level_level_up:
  "merkle_level sha (length pre) (length xs) 0 (pre @ xs) = pre @ xs @ level_up sha xs"
proof -
  have "merkle_level sha (length pre) (length xs) (2 * 0) (pre @ xs) =
    (pre @ xs) @ map (\<lambda>k. HashNode sha (xs ! (2 * k)) (xs ! min (2 * k + 1) (length xs - 1)))
             [0..<(length xs + 1) div 2]"
    by (subst merkle_level_eq) auto
  also have "map (\<lambda>k. HashNode sha (xs ! (2 * k)) (xs ! min (2 * k + 1) (length xs - 1)))
             [0..<(length xs + 1) div 2] = level_up sha xs"
    by (rule nth_equalityI) (simp_all add: level_up_nth)
  finally show ?thesis by simp
qed

lemma merkle_loop_levels:
  "merkle_loop sha (length pre) (length xs) (pre @ xs) = pre @ concat (levels sha xs)"
proof (induction sha xs arbitrary: pre rule: levels.induct)
  case (1 sha xs)
  show ?case
  proof (cases "length xs > 1")
    case True
    have "merkle_loop sha (length pre) (length xs) (pre @ xs) =
      merkle_loop sha (length (pre @ xs)) (length (level_up sha xs)) ((pre @ xs) @ level_up sha xs)"
      using True by (subst merkle_loop.simps) (simp add: merkle_level_level_up)
    also have "\<dots> = (pre @ xs) @ concat (levels sha (level_up sha xs))"
      using True by (rule "1.IH")
    finally show ?thesis
      using True by (subst levels.simps) simp
  next
    case False
    then show ?thesis by (subst merkle_loop.simps, subst levels.simps) simp
  qed
qed

lemma levels_nonempty: "levels sha xs \<noteq> []"
  by (subst levels.simps) simp

lemma last_concat_levels:
  "xs \<noteq> [] \<Longrightarrow> concat (levels sha xs) \<noteq> [] \<and> last (concat (levels sha xs)) = root_of sha xs"
proof (induction sha xs rule: levels.induct)
  case (1 sha xs)
  show ?case
  proof (cases "length xs > 1")
    case True
    then have "level_up sha xs \<noteq> []" by (simp add: level_up_nonempty "1.prems")
    then have IH: "concat (levels sha (level_up sha xs)) \<noteq> [] \<and>
        last (concat (levels sha (level_up sha xs))) = root_of sha (level_up sha xs)"
      by (rule "1.IH" [OF True])
    have "levels sha xs = xs # levels sha (level_up sha xs)"
      using True by (subst levels.simps) simp
    moreover have "root_of sha xs = root_of sha (level_up sha xs)"
      using True by (subst root_of.simps) simp
    ultimately show ?thesis
      using IH by (simp only: concat.simps last_append append_is_Nil_conv if_False simp_thms)
  next
    case False
    then have "length xs = 1" using "1.prems" by (cases xs) auto
    then show ?thesis
      by (subst (1 2) levels.simps, subst root_of.simps) (cases xs, simp_all)
  qed
qed

lemma buildMerkleTree_eq:
  "buildMerkleTree sha b =
     (root_of sha (map (tx_getHash sha) (transactions b)),
      b\<lparr>merkleTree := concat (levels sha (map (tx_getHash sha) (transactions b)))\<rparr>)"
proof -
  let ?xs = "map (tx_getHash sha) (transactions b)"
  have tree: "merkle_loop sha 0 (length (transactions b)) ?xs = concat (levels sha ?xs)"
    using merkle_loop_levels [of sha "[]" ?xs] by simp
  show ?thesis
  proof (cases "transactions b = []")
    case True
    then show ?thesis
      unfolding buildMerkleTree_def tree Let_def
      by (subst (1 2 3) levels.simps, subst root_of.simps) simp
  next
    case False
    then show ?thesis
      using last_concat_levels [of ?xs sha] unfolding buildMerkleTree_def tree Let_def
      by (simp only: if_False simp_thms map_is_Nil_conv)
  qed
qed

section \<open>Branches\<close>

lemma xor_one_nat: "(i :: nat) XOR 1 = (if even i then i + 1 else i - 1)"
  using xor_Suc_0_eq [of i] by (auto simp: of_bool_def)

lemma drop_bit_one_nat: "drop_bit 1 (i :: nat) = i div 2"
  by (simp add: drop_bit_eq_div)

lemma and_one_int: "((k :: int) AND 1 \<noteq> 0) \<longleftrightarrow> odd k"
  by (simp add: and_one_eq odd_iff_mod_2_eq_one)

lemma branch_loop_path:
  "i < length xs \<Longrightarrow>
   branch_loop (pre @ concat (levels sha xs)) (length pre) (length xs) i br = Some (br @ path_of sha xs i)"
proof (induction sha xs arbitrary: pre i br rule: levels.induct)
  case (1 sha xs)
  show ?case
  proof (cases "length xs > 1")
    case True
    let ?m = "min (i XOR 1) (length xs - 1)"
    have lv: "levels sha xs = xs # levels sha (level_up sha xs)"
      using True by (subst levels.simps) simp
    have m: "?m < length xs" using True by linarith
    have "branch_loop (pre @ concat (levels sha xs)) (length pre) (length xs) i br =
      branch_loop ((pre @ xs) @ concat (levels sha (level_up sha xs))) (length (pre @ xs))
        (length (level_up sha xs)) (i div 2) (br @ [xs ! ?m])"
      using True m unfolding lv
      by (subst branch_loop.simps) (simp add: nth_append Let_def drop_bit_one_nat del: One_nat_def)
    also have "\<dots> = Some ((br @ [xs ! ?m]) @ path_of sha (level_up sha xs) (i div 2))"
      using True "1.prems" by (intro "1.IH") auto
    finally show ?thesis
      using True by (subst path_of.simps) simp
  next
    case False
    then show ?thesis by (subst branch_loop.simps, subst path_of.simps) simp
  qed
qed

lemma level_up_parent:
  assumes "i < length xs" and "length xs > 1"
  shows "level_up sha xs ! (i div 2) =
    (if odd i then HashNode sha (xs ! min (i XOR 1) (length xs - 1)) (xs ! i)
     else HashNode sha (xs ! i) (xs ! min (i XOR 1) (length xs - 1)))"
proof -
  have up: "level_up sha xs ! (i div 2) =
      HashNode sha (xs ! (2 * (i div 2))) (xs ! min (2 * (i div 2) + 1) (length xs - 1))"
    using assms by (intro level_up_nth) auto
  show ?thesis
  proof (cases "odd i")
    case True
    then have "i XOR 1 = i - 1" by (simp add: xor_one_nat del: One_nat_def)
    moreover have "2 * (i div 2) = i - 1" "min (2 * (i div 2) + 1) (length xs - 1) = i"
      using True assms by (auto elim!: oddE)
    ultimately have "2 * (i div 2) = i - 1" "min (2 * (i div 2) + 1) (length xs - 1) = i"
      "min (i XOR 1) (length xs - 1) = i - 1"
      using assms by simp_all
    then show ?thesis using True up by simp
  next
    case False
    then have "2 * (i div 2) = i" "i XOR 1 = i + 1" by (simp_all add: xor_one_nat del: One_nat_def)
    then show ?thesis using False up by simp
  qed
qed

lemma check_loop_path:
  "i < length xs \<Longrightarrow> check_loop sha (path_of sha xs i) (xs ! i) (int i) = root_of sha xs"
proof (induction sha xs arbitrary: i rule: levels.induct)
  case (1 sha xs)
  show ?case
  proof (cases "length xs > 1")
    case True
    have "check_loop sha (path_of sha xs i) (xs ! i) (int i) =
      check_loop sha (path_of sha (level_up sha xs) (i div 2)) (level_up sha xs ! (i div 2)) (int (i div 2))"
      using True "1.prems"
      by (subst path_of.simps) (simp add: and_one_int level_up_parent drop_bit_Suc zdiv_int)
    also have "\<dots> = root_of sha (level_up sha xs)"
      using True "1.prems" by (intro "1.IH") auto
    finally show ?thesis
      using True by (subst root_of.simps) simp
  next
    case False
    then have "i = 0" "xs \<noteq> []" using "1.prems" by auto
    then show ?thesis
      using False by (subst path_of.simps, subst root_of.simps) (simp add: hd_conv_nth)
  qed
qed

text \<open>The pairs hashed along a branch: what a Merkle proof commits to.\<close>

primrec check_inputs :: "digest_fn \<Rightarrow> uint256 list \<Rightarrow> uint256 \<Rightarrow> int \<Rightarrow> (uint256 \<times> uint256) list" where
  "check_inputs sha [] hash index = []"
| "check_inputs sha (otherside # branch) hash index =
     (let p = (if index AND 1 \<noteq> 0 then (otherside, hash) else (hash, otherside))
      in p # check_inputs sha branch (HashNode sha (fst p) (snd p)) (drop_bit 1 index))"

definition collides :: "digest_fn \<Rightarrow> uint256 \<times> uint256 \<Rightarrow> uint256 \<times> uint256 \<Rightarrow> bool" where
  "collides sha p q \<longleftrightarrow> p \<noteq> q \<and> HashNode sha (fst p) (snd p) = HashNode sha (fst q) (snd q)"

lemma length_check_inputs [simp]: "length (check_inputs sha br h i) = length br"
  by (induction br arbitrary: h i) (auto simp: Let_def)

lemma check_loop_binding:
  assumes "length br = length br'" and "h \<noteq> h'" and "check_loop sha br h i = check_loop sha br' h' i"
  shows "\<exists>k<length br. collides sha (check_inputs sha br h i ! k) (check_inputs sha br' h' i ! k)"
  using assms
proof (induction br br' arbitrary: h h' i rule: list_induct2)
  case Nil
  then show ?case by simp
next
  case (Cons x br y br')
  define p where "p = (if i AND 1 \<noteq> 0 then (x, h) else (h, x))"
  define q where "q = (if i AND 1 \<noteq> 0 then (y, h') else (h', y))"
  have "p \<noteq> q" using Cons.prems(1) by (auto simp: p_def q_def)
  show ?case
  proof (cases "HashNode sha (fst p) (snd p) = HashNode sha (fst q) (snd q)")
    case True
    with \<open>p \<noteq> q\<close> have "collides sha p q" by (simp add: collides_def)
    then show ?thesis by (intro exI [of _ 0]) (simp add: p_def q_def Let_def)
  next
    case False
    have "check_loop sha br (HashNode sha (fst p) (snd p)) (drop_bit 1 i) =
          check_loop sha br' (HashNode sha (fst q) (snd q)) (drop_bit 1 i)"
      using Cons.prems(2) by (simp add: p_def q_def split: if_splits)
    from Cons.IH [OF False this] obtain k where "k < length br"
      "collides sha (check_inputs sha br (HashNode sha (fst p) (snd p)) (drop_bit 1 i) ! k)
         (check_inputs sha br' (HashNode sha (fst q) (snd q)) (drop_bit 1 i) ! k)" by blast
    then show ?thesis by (intro exI [of _ "Suc k"]) (simp add: p_def q_def Let_def)
  qed
qed

lemma level_up_duplicate:
  "odd (length xs) \<Longrightarrow> level_up sha (xs @ [last xs]) = level_up sha xs"
proof (induction sha xs rule: level_up.induct)
  case (3 sha a b xs)
  then have "xs \<noteq> []" by auto
  with 3 show ?case by simp
qed auto

lemma root_of_duplicate:
  assumes "odd (length xs)" and "length xs > 1"
  shows "root_of sha (xs @ [last xs]) = root_of sha xs"
proof -
  have "root_of sha (xs @ [last xs]) = root_of sha (level_up sha (xs @ [last xs]))"
    using assms by (subst root_of.simps) auto
  also have "\<dots> = root_of sha (level_up sha xs)"
    by (simp only: level_up_duplicate [OF assms(1)])
  also have "\<dots> = root_of sha xs"
    using assms by (subst (2) root_of.simps) auto
  finally show ?thesis .
qed

section \<open>Properties\<close>

text \<open>C29: a Merkle branch verifies. For every transaction of a block whose cached tree is empty or is the one
  that \<open>buildMerkleTree\<close> makes of the block's transactions, \<open>getMerkleBranch\<close> reads only inside that
  tree, and \<open>checkMerkleBranch\<close> on the transaction's hash, the branch and the index gives the root
  that \<open>buildMerkleTree\<close> returns, whatever the hash function. (A cache from before the last change of the
  transactions is not covered: see \<open>stale_merkle_cache\<close> below.)\<close>

theorem merkle_branch_verifies:
  assumes "i < length (transactions b)"
    and "merkleTree b = [] \<or> merkleTree b = merkleTree (snd (buildMerkleTree sha b))"
  shows "\<exists>br. fst (getMerkleBranch sha b i) = Some br \<and>
    checkMerkleBranch sha (tx_getHash sha (transactions b ! i)) br (int i) = fst (buildMerkleTree sha b)"
proof -
  let ?xs = "map (tx_getHash sha) (transactions b)"
  have "fst (getMerkleBranch sha b i) = Some (path_of sha ?xs i)"
    using branch_loop_path [of i ?xs "[]" sha "[]"] assms
    by (auto simp: getMerkleBranch_def buildMerkleTree_eq Let_def)
  moreover have "checkMerkleBranch sha (tx_getHash sha (transactions b ! i)) (path_of sha ?xs i) (int i)
      = root_of sha ?xs"
    using check_loop_path [of i ?xs sha] assms(1) by (simp add: checkMerkleBranch_def)
  ultimately show ?thesis by (simp add: buildMerkleTree_eq)
qed

definition sample_block :: block where
  "sample_block =
     \<lparr>header = \<lparr>bh_version = 1, bh_prevBlock = 0, bh_merkleRoot = 0, bh_time = 0, bh_bits = 0, bh_nonce = 0\<rparr>,
      transactions = [null_transaction, null_transaction\<lparr>tx_version := 2\<rparr>,
        null_transaction\<lparr>tx_version := 3\<rparr>],
      merkleTree = []\<rparr>"

theorem merkle_branch_verifies_witness:
  "\<exists>br. fst (getMerkleBranch rev (snd (buildMerkleTree rev sample_block)) 2) = Some br \<and>
     checkMerkleBranch rev (tx_getHash rev (transactions sample_block ! 2)) br (int 2)
       = fst (buildMerkleTree rev sample_block)"
  using merkle_branch_verifies [of 2 "snd (buildMerkleTree rev sample_block)" rev]
  by (simp add: buildMerkleTree_eq sample_block_def)

text \<open>C30: a Merkle branch is binding. If two different hashes check to the same root with
  branches of the same length at the same index, then at some step the two runs hash two
  different pairs to the same value: accepting a second transaction needs a collision of the
  double SHA256, found at that step.\<close>

theorem merkle_branch_binding:
  assumes "length br = length br'" and "h \<noteq> h'" and "i \<noteq> -1"
    and "checkMerkleBranch sha h br i = checkMerkleBranch sha h' br' i"
  shows "\<exists>k<length br. collides sha (check_inputs sha br h i ! k) (check_inputs sha br' h' i ! k)"
  using assms check_loop_binding by (simp add: checkMerkleBranch_def)

theorem merkle_branch_binding_witness:
  "\<exists>k<length [5::uint256]. collides (\<lambda>_. []) (check_inputs (\<lambda>_. []) [5] 1 0 ! k) (check_inputs (\<lambda>_. []) [5] 2 0 ! k)"
proof (rule merkle_branch_binding)
  show "checkMerkleBranch (\<lambda>_. []) (1::uint256) [5] 0 = checkMerkleBranch (\<lambda>_. []) 2 [5] 0"
    by (simp add: checkMerkleBranch_def HashNode_def Hash2_def)
qed simp_all

text \<open>Repeating the last transaction of a block with an odd number (three or more) of
  transactions leaves the Merkle root unchanged: the root does not commit to the transaction
  list alone, and a block and its copy with the last transaction doubled are the same block to
  everything that compares roots.\<close>

theorem merkle_root_duplicate_tail:
  assumes "odd (length (transactions b))" and "length (transactions b) > 1"
  shows "fst (buildMerkleTree sha (addTransaction b (last (transactions b)))) = fst (buildMerkleTree sha b)"
proof -
  let ?xs = "map (tx_getHash sha) (transactions b)"
  have "transactions b \<noteq> []" using assms by auto
  then have "map (tx_getHash sha) (transactions (addTransaction b (last (transactions b)))) = ?xs @ [last ?xs]"
    by (simp add: addTransaction_def last_map)
  then show ?thesis
    using assms by (simp only: buildMerkleTree_eq fst_conv) (rule root_of_duplicate, simp_all)
qed

theorem merkle_root_duplicate_tail_witness:
  "odd (length (transactions sample_block)) \<and> length (transactions sample_block) > 1 \<and>
   fst (buildMerkleTree rev (addTransaction sample_block (last (transactions sample_block))))
     = fst (buildMerkleTree rev sample_block)"
proof -
  have h: "odd (length (transactions sample_block))" "length (transactions sample_block) > 1"
    by (simp_all add: sample_block_def)
  show ?thesis using h merkle_root_duplicate_tail [OF h, of rev] by blast
qed

text \<open>The cached tree is not invalidated. After the tree of a block with one transaction has
  been built, adding a transaction leaves the old tree in the cache, and asking for the branch
  of the first transaction reads past its end.\<close>

theorem stale_merkle_cache:
  assumes "transactions b = [t]"
  shows "fst (getMerkleBranch sha (addTransaction (snd (buildMerkleTree sha b)) tx) 0) = None"
proof -
  let ?b = "addTransaction (snd (buildMerkleTree sha b)) tx"
  have "merkleTree ?b = [tx_getHash sha t]"
    using assms by (simp add: buildMerkleTree_eq addTransaction_def levels.simps)
  moreover have "length (transactions ?b) = 2"
    using assms by (simp add: buildMerkleTree_eq addTransaction_def)
  ultimately show ?thesis
    by (simp add: getMerkleBranch_def Let_def) (subst branch_loop.simps, simp add: xor_one_nat Let_def)
qed

theorem stale_merkle_cache_witness:
  "fst (getMerkleBranch rev (addTransaction (snd (buildMerkleTree rev
     (sample_block\<lparr>transactions := [null_transaction]\<rparr>))) null_transaction) 0) = None"
  by (rule stale_merkle_cache [where t = null_transaction]) simp

text \<open>A block survives the wire. Reading what \<open>operator<<\<close> wrote for a block whose
  vectors respect the size limit gives the same header, transactions, inputs and outputs, and
  leaves exactly the bytes that followed.\<close>

theorem block_roundtrip:
  assumes "block_ok b"
  shows "get_block (put_block b @ rest) = Inr (b, rest)"
  by (rule block_codec.get_put [OF assms])

theorem block_roundtrip_witness:
  "block_ok sample_block \<and> get_block (put_block sample_block @ [7]) = Inr (sample_block, [7])"
proof -
  have h: "block_ok sample_block"
    by (simp add: sample_block_def block_ok_def vector_ok_def transaction_ok_def null_transaction_def
        MAX_VARINT_SIZE_def)
  show ?thesis using h block_roundtrip [OF h, of "[7]"] by blast
qed

end
