(* ===== verification/MerkleBlock.thy ===== *)
theory MerkleBlock
  imports Block
begin

text \<open>
  The partial Merkle tree of \<^verbatim>\<open>include/coinChain/MerkleBlock.h\<close> and
  \<^verbatim>\<open>src/coinChain/MerkleBlock.cpp\<close>: the block sent to a filtering peer. A depth-first
  traversal stores one bit per visited node and the hashes of the subtrees without a match; the
  receiver runs the same traversal over the bits and the hashes. Heights and positions are
  natural numbers (the code bounds the number of transactions by \<open>MAX_BLOCK_SIZE / 60\<close>, so
  no \<^verbatim>\<open>int\<close> or shift overflows).
\<close>

section \<open>Shape of the tree\<close>

definition calcTreeWidth :: "nat \<Rightarrow> nat \<Rightarrow> nat" where
  "calcTreeWidth n height = drop_bit height (n + push_bit height 1 - 1)"

lemma less_calcTreeWidth: "p < calcTreeWidth n h \<longleftrightarrow> p * 2 ^ h < n"
proof -
  have "p < (n + 2 ^ h - 1) div 2 ^ h \<longleftrightarrow> Suc p * 2 ^ h \<le> n + 2 ^ h - 1"
    using less_eq_div_iff_mult_less_eq [of "2 ^ h" "Suc p" "n + 2 ^ h - 1"] by (simp add: Suc_le_eq)
  also have "\<dots> \<longleftrightarrow> p * 2 ^ h < n"
  proof -
    have "(1::nat) \<le> 2 ^ h" by simp
    then show ?thesis by (simp only: mult_Suc) linarith
  qed
  finally show ?thesis by (simp add: calcTreeWidth_def drop_bit_eq_div push_bit_eq_mult)
qed

lemma calcTreeWidth_0 [simp]: "calcTreeWidth n 0 = n"
  by (simp add: calcTreeWidth_def)

function tree_height :: "nat \<Rightarrow> nat \<Rightarrow> nat" where
  "tree_height n height = (if calcTreeWidth n height > 1 then tree_height n (height + 1) else height)"
  by pat_completeness auto
termination
proof (relation "measure (\<lambda>(n, height). n - height)")
  fix n h :: nat
  assume "1 < calcTreeWidth n h"
  then have "2 ^ h < n" by (simp add: less_calcTreeWidth)
  moreover have "h < 2 ^ h" by (rule less_exp)
  ultimately have "h < n" by (rule less_trans [rotated])
  then show "((n, h + 1), (n, h)) \<in> measure (\<lambda>(n, height). n - height)" by simp
qed simp

declare tree_height.simps [simp del]

lemma tree_height_width: "calcTreeWidth n (tree_height n h) \<le> 1"
proof (induction n h rule: tree_height.induct)
  case (1 n h)
  then show ?case by (subst tree_height.simps) auto
qed

section \<open>The traversals\<close>

primrec calcHash :: "digest_fn \<Rightarrow> uint256 list \<Rightarrow> nat \<Rightarrow> nat \<Rightarrow> uint256" where
  "calcHash sha vTxid 0 pos = vTxid ! pos"
| "calcHash sha vTxid (Suc height) pos =
     (let left = calcHash sha vTxid height (pos * 2);
          right = (if pos * 2 + 1 < calcTreeWidth (length vTxid) height
                   then calcHash sha vTxid height (pos * 2 + 1) else left)
      in HashNode sha left right)"

definition parentOfMatch :: "bool list \<Rightarrow> nat \<Rightarrow> nat \<Rightarrow> bool" where
  "parentOfMatch vMatch height pos =
     foldl (\<lambda>f p. f \<or> vMatch ! p) False
       [push_bit height pos..<min (push_bit height (pos + 1)) (length vMatch)]"

primrec traverseAndBuild ::
  "digest_fn \<Rightarrow> uint256 list \<Rightarrow> bool list \<Rightarrow> nat \<Rightarrow> nat \<Rightarrow> bool list \<times> uint256 list \<Rightarrow> bool list \<times> uint256 list" where
  "traverseAndBuild sha vTxid vMatch 0 pos out =
     (fst out @ [parentOfMatch vMatch 0 pos], snd out @ [calcHash sha vTxid 0 pos])"
| "traverseAndBuild sha vTxid vMatch (Suc height) pos out =
     (let fParentOfMatch = parentOfMatch vMatch (Suc height) pos;
          out = (fst out @ [fParentOfMatch], snd out)
      in if \<not> fParentOfMatch then (fst out, snd out @ [calcHash sha vTxid (Suc height) pos])
         else
           let out = traverseAndBuild sha vTxid vMatch height (pos * 2) out
           in if pos * 2 + 1 < calcTreeWidth (length vTxid) height
              then traverseAndBuild sha vTxid vMatch height (pos * 2 + 1) out else out)"

record extract_state =
  nBitsUsed :: nat
  nHashUsed :: nat
  vMatched :: "uint256 list"
  bad :: bool

primrec traverseAndExtract ::
  "digest_fn \<Rightarrow> nat \<Rightarrow> bool list \<Rightarrow> uint256 list \<Rightarrow> nat \<Rightarrow> nat \<Rightarrow> extract_state \<Rightarrow> uint256 \<times> extract_state" where
  "traverseAndExtract sha n bits hashes 0 pos s =
     (if nBitsUsed s \<ge> length bits then (0, s\<lparr>bad := True\<rparr>)
      else
        let fParentOfMatch = bits ! nBitsUsed s; s = s\<lparr>nBitsUsed := nBitsUsed s + 1\<rparr>
        in if nHashUsed s \<ge> length hashes then (0, s\<lparr>bad := True\<rparr>)
           else
             let hash = hashes ! nHashUsed s; s = s\<lparr>nHashUsed := nHashUsed s + 1\<rparr>
             in (hash, if fParentOfMatch then s\<lparr>vMatched := vMatched s @ [hash]\<rparr> else s))"
| "traverseAndExtract sha n bits hashes (Suc height) pos s =
     (if nBitsUsed s \<ge> length bits then (0, s\<lparr>bad := True\<rparr>)
      else
        let fParentOfMatch = bits ! nBitsUsed s; s = s\<lparr>nBitsUsed := nBitsUsed s + 1\<rparr>
        in if \<not> fParentOfMatch then
             (if nHashUsed s \<ge> length hashes then (0, s\<lparr>bad := True\<rparr>)
              else (hashes ! nHashUsed s, s\<lparr>nHashUsed := nHashUsed s + 1\<rparr>))
           else
             let (left, s) = traverseAndExtract sha n bits hashes height (pos * 2) s
             in if pos * 2 + 1 < calcTreeWidth n height
                then let (right, s) = traverseAndExtract sha n bits hashes height (pos * 2 + 1) s
                     in (HashNode sha left right, s)
                else (HashNode sha left left, s))"

section \<open>The block\<close>

record merkle_block =
  mb_header :: block_header
  mb_transactions :: u32
  mb_matches :: "bool list"
  mb_hashes :: "uint256 list"
  mb_bad :: bool
  mb_matched_txes :: "(nat \<times> uint256) list"

text \<open>
  The constructor from the block's transaction hashes and the filter's answers (the filter itself
  and its updates are modelled with the Bloom filter).
\<close>

definition build_merkle_block :: "digest_fn \<Rightarrow> block_header \<Rightarrow> uint256 list \<Rightarrow> bool list \<Rightarrow> merkle_block" where
  "build_merkle_block sha h vHashes vMatch =
     (let nHeight = tree_height (length vHashes) 0;
          (matches, hashes) = traverseAndBuild sha vHashes vMatch nHeight 0 ([], [])
      in \<lparr>mb_header = h, mb_transactions = word_of_nat (length vHashes), mb_matches = matches,
          mb_hashes = hashes, mb_bad = False,
          mb_matched_txes = filter (\<lambda>(i, hash). vMatch ! i) (enumerate 0 vHashes)\<rparr>)"

text \<open>\<open>extractMatches\<close> returns the root (0 on failure) and the matched hashes.\<close>

definition extractMatches :: "digest_fn \<Rightarrow> merkle_block \<Rightarrow> uint256 \<times> uint256 list" where
  "extractMatches sha mb =
     (let n = unat (mb_transactions mb); bits = mb_matches mb; hashes = mb_hashes mb
      in if n = 0 then (0, [])
         else if n > MAX_BLOCK_SIZE div 60 then (0, [])
         else if length hashes > n then (0, [])
         else if length bits < length hashes then (0, [])
         else
           let nHeight = tree_height n 0;
               (root, s) = traverseAndExtract sha n bits hashes nHeight 0
                 \<lparr>nBitsUsed = 0, nHashUsed = 0, vMatched = [], bad = mb_bad mb\<rparr>
           in if bad s then (0, vMatched s)
              else if (nBitsUsed s + 7) div 8 \<noteq> (length bits + 7) div 8 then (0, vMatched s)
              else if nHashUsed s \<noteq> length hashes then (0, vMatched s)
              else (root, vMatched s))"

definition getNumFilteredTransactions :: "merkle_block \<Rightarrow> nat" where
  "getNumFilteredTransactions mb = length (mb_matched_txes mb)"

definition getTransactionBlockIndex :: "merkle_block \<Rightarrow> nat \<Rightarrow> nat option" where
  "getTransactionBlockIndex mb i =
     (if i \<ge> getNumFilteredTransactions mb then None else Some (fst (mb_matched_txes mb ! i)))"

definition getTransactionBlockHash :: "merkle_block \<Rightarrow> nat \<Rightarrow> uint256 option" where
  "getTransactionBlockHash mb i =
     (if i \<ge> getNumFilteredTransactions mb then None else Some (snd (mb_matched_txes mb ! i)))"

section \<open>The two traversals agree\<close>

lemma parentOfMatch_iff:
  "parentOfMatch ms h pos \<longleftrightarrow> (\<exists>p. pos * 2 ^ h \<le> p \<and> p < (pos + 1) * 2 ^ h \<and> p < length ms \<and> ms ! p)"
proof -
  have "foldl (\<lambda>f p. f \<or> P p) b xs \<longleftrightarrow> b \<or> (\<exists>p\<in>set xs. P p)" for P b and xs :: "nat list"
    by (induction xs arbitrary: b) auto
  then show ?thesis
    by (auto simp: parentOfMatch_def push_bit_eq_mult)
qed

definition matched_in :: "uint256 list \<Rightarrow> bool list \<Rightarrow> nat \<Rightarrow> nat \<Rightarrow> uint256 list" where
  "matched_in xs ms lo hi = map ((!) xs) (filter ((!) ms) [lo..<min hi (length xs)])"

lemma matched_in_none:
  "\<not> parentOfMatch ms h pos \<Longrightarrow> length ms = length xs \<Longrightarrow>
   matched_in xs ms (pos * 2 ^ h) ((pos + 1) * 2 ^ h) = []"
  by (auto simp: matched_in_def parentOfMatch_iff filter_empty_conv)

lemma matched_in_leaf:
  assumes "pos < length xs"
  shows "matched_in xs ms pos (pos + 1) = (if ms ! pos then [xs ! pos] else [])"
proof -
  have "[pos..<min (pos + 1) (length xs)] = [pos]"
    using assms by (simp add: min_def upt_conv_Cons)
  then show ?thesis by (simp add: matched_in_def)
qed

lemma matched_in_split:
  assumes "lo \<le> mid" and "mid \<le> hi"
  shows "matched_in xs ms lo hi = matched_in xs ms lo mid @ matched_in xs ms mid hi"
proof (cases "mid \<le> length xs")
  case True
  then have "[lo..<min hi (length xs)] = [lo..<mid] @ [mid..<min hi (length xs)]"
    using assms upt_add_eq_append [of lo mid "min hi (length xs) - mid"] by (simp add: min_def)
  with True show ?thesis by (simp add: matched_in_def)
next
  case False
  with assms show ?thesis by (simp add: matched_in_def)
qed

lemma matched_in_beyond: "length xs \<le> lo \<Longrightarrow> matched_in xs ms lo hi = []"
  by (simp add: matched_in_def)

text \<open>The bits and hashes of one subtree, and the builder that appends them.\<close>

primrec tree_bits :: "nat \<Rightarrow> bool list \<Rightarrow> nat \<Rightarrow> nat \<Rightarrow> bool list" where
  "tree_bits n ms 0 pos = [parentOfMatch ms 0 pos]"
| "tree_bits n ms (Suc h) pos =
     (if parentOfMatch ms (Suc h) pos
      then True # tree_bits n ms h (pos * 2)
        @ (if pos * 2 + 1 < calcTreeWidth n h then tree_bits n ms h (pos * 2 + 1) else [])
      else [False])"

primrec tree_hashes :: "digest_fn \<Rightarrow> uint256 list \<Rightarrow> bool list \<Rightarrow> nat \<Rightarrow> nat \<Rightarrow> uint256 list" where
  "tree_hashes sha xs ms 0 pos = [calcHash sha xs 0 pos]"
| "tree_hashes sha xs ms (Suc h) pos =
     (if parentOfMatch ms (Suc h) pos
      then tree_hashes sha xs ms h (pos * 2)
        @ (if pos * 2 + 1 < calcTreeWidth (length xs) h then tree_hashes sha xs ms h (pos * 2 + 1) else [])
      else [calcHash sha xs (Suc h) pos])"

lemma traverseAndBuild_eq:
  "traverseAndBuild sha xs ms h pos (bs, hs) =
     (bs @ tree_bits (length xs) ms h pos, hs @ tree_hashes sha xs ms h pos)"
  by (induction h arbitrary: pos bs hs) (simp_all add: Let_def)

lemma tree_hashes_le_bits: "length (tree_hashes sha xs ms h pos) \<le> length (tree_bits (length xs) ms h pos)"
proof (induction h arbitrary: pos)
  case (Suc h)
  show ?case
    using Suc.IH [of "pos * 2"] Suc.IH [of "pos * 2 + 1"] by simp
qed simp

text \<open>A subtree stores at most one hash per leaf below it.\<close>

lemma tree_hashes_le_leaves:
  "pos * 2 ^ h < length xs \<Longrightarrow>
   length (tree_hashes sha xs ms h pos) \<le> min ((pos + 1) * 2 ^ h) (length xs) - pos * 2 ^ h"
proof (induction h arbitrary: pos)
  case 0
  then show ?case by simp
next
  case (Suc h)
  let ?w = "2 ^ h :: nat"
  have w: "0 < ?w" by simp
  have prem: "pos * (2 * ?w) < length xs" using Suc.prems by simp
  have left: "length (tree_hashes sha xs ms h (pos * 2))
      \<le> min ((pos * 2 + 1) * ?w) (length xs) - pos * 2 * ?w"
    using prem by (intro Suc.IH) (simp add: algebra_simps)
  show ?case
  proof (cases "parentOfMatch ms (Suc h) pos")
    case False
    have "pos * (2 * ?w) < min (2 * ?w + pos * (2 * ?w)) (length xs)"
      using prem w by simp
    with False show ?thesis by (simp add: Suc_le_eq)
  next
    case True
    show ?thesis
    proof (cases "(pos * 2 + 1) * ?w < length xs")
      case right: True
      have "length (tree_hashes sha xs ms h (pos * 2 + 1))
          \<le> min ((pos * 2 + 1 + 1) * ?w) (length xs) - (pos * 2 + 1) * ?w"
        using right by (rule Suc.IH)
      with left right True show ?thesis
        by (simp add: less_calcTreeWidth algebra_simps)
    next
      case False
      with left True show ?thesis
        by (simp add: less_calcTreeWidth algebra_simps)
    qed
  qed
qed

lemma extract_built:
  assumes "length ms = length xs" and "pos * 2 ^ h < length xs"
    and "bits = B1 @ tree_bits (length xs) ms h pos @ B2"
    and "hashes = H1 @ tree_hashes sha xs ms h pos @ H2"
    and "nBitsUsed s = length B1" and "nHashUsed s = length H1"
  shows "traverseAndExtract sha (length xs) bits hashes h pos s =
    (calcHash sha xs h pos,
     s\<lparr>nBitsUsed := length B1 + length (tree_bits (length xs) ms h pos),
       nHashUsed := length H1 + length (tree_hashes sha xs ms h pos),
       vMatched := vMatched s @ matched_in xs ms (pos * 2 ^ h) ((pos + 1) * 2 ^ h)\<rparr>)"
  using assms(2-)
proof (induction h arbitrary: pos B1 B2 H1 H2 s)
  case 0
  have "parentOfMatch ms 0 pos = ms ! pos"
    using 0 assms(1) by (auto simp: parentOfMatch_iff less_Suc_eq_le dest: le_antisym)
  with 0 show ?case
    using matched_in_leaf [of pos xs ms] by (simp add: Let_def)
next
  case (Suc h)
  let ?w = "2 ^ h :: nat"
  show ?case
  proof (cases "parentOfMatch ms (Suc h) pos")
    case False
    with Suc.prems show ?thesis
      using matched_in_none [OF False assms(1)] by simp
  next
    case par: True
    let ?n = "length xs"
    let ?lb = "tree_bits ?n ms h (pos * 2)" and ?lh = "tree_hashes sha xs ms h (pos * 2)"
    let ?s1 = "s\<lparr>nBitsUsed := length (B1 @ [True])\<rparr>"
    let ?m1 = "matched_in xs ms (pos * 2 * ?w) ((pos * 2 + 1) * ?w)"
    let ?s2 = "?s1\<lparr>nBitsUsed := length (B1 @ [True]) + length ?lb, nHashUsed := length H1 + length ?lh,
        vMatched := vMatched s @ ?m1\<rparr>"
    have left_in: "pos * 2 * ?w < ?n" using Suc.prems(1) by (simp add: algebra_simps)
    have b: "nBitsUsed s < length bits" "bits ! nBitsUsed s"
      using Suc.prems par by simp_all
    have split: "matched_in xs ms (pos * 2 ^ Suc h) ((pos + 1) * 2 ^ Suc h) =
        ?m1 @ matched_in xs ms ((pos * 2 + 1) * ?w) ((pos * 2 + 1 + 1) * ?w)"
    proof -
      have "pos * 2 ^ Suc h = pos * 2 * ?w" "(pos + 1) * 2 ^ Suc h = (pos * 2 + 1 + 1) * ?w"
        by (simp_all add: algebra_simps)
      then show ?thesis
        by (simp only:) (rule matched_in_split, simp_all add: algebra_simps)
    qed
    show ?thesis
    proof (cases "pos * 2 + 1 < calcTreeWidth ?n h")
      case True
      let ?rb = "tree_bits ?n ms h (pos * 2 + 1)" and ?rh = "tree_hashes sha xs ms h (pos * 2 + 1)"
      have right_in: "(pos * 2 + 1) * ?w < ?n" using True by (simp add: less_calcTreeWidth)
      have l: "traverseAndExtract sha ?n bits hashes h (pos * 2) ?s1 = (calcHash sha xs h (pos * 2), ?s2)"
        using Suc.IH [OF left_in, of "B1 @ [True]" "?rb @ B2" H1 "?rh @ H2" ?s1] Suc.prems par True
        by simp
      have r: "traverseAndExtract sha ?n bits hashes h (pos * 2 + 1) ?s2 =
        (calcHash sha xs h (pos * 2 + 1), ?s2\<lparr>nBitsUsed := length (B1 @ [True] @ ?lb) + length ?rb,
           nHashUsed := length (H1 @ ?lh) + length ?rh,
           vMatched := vMatched ?s2 @ matched_in xs ms ((pos * 2 + 1) * ?w) ((pos * 2 + 1 + 1) * ?w)\<rparr>)"
        using Suc.prems par True
        by (intro Suc.IH [OF right_in, of _ B2 _ H2]) simp_all
      have "traverseAndExtract sha ?n bits hashes (Suc h) pos s =
        (let (left, s) = traverseAndExtract sha ?n bits hashes h (pos * 2) ?s1;
             (right, s) = traverseAndExtract sha ?n bits hashes h (pos * 2 + 1) s
         in (HashNode sha left right, s))"
        using b True Suc.prems(4) by (simp add: Let_def)
      then show ?thesis
        unfolding l Let_def prod.case r split using par True by (simp add: Let_def)
    next
      case False
      have l: "traverseAndExtract sha ?n bits hashes h (pos * 2) ?s1 = (calcHash sha xs h (pos * 2), ?s2)"
        using Suc.IH [OF left_in, of "B1 @ [True]" B2 H1 H2 ?s1] Suc.prems par False
        by simp
      have "traverseAndExtract sha ?n bits hashes (Suc h) pos s =
        (let (left, s) = traverseAndExtract sha ?n bits hashes h (pos * 2) ?s1
         in (HashNode sha left left, s))"
        using b False Suc.prems(4) by (simp add: Let_def)
      moreover have "matched_in xs ms ((pos * 2 + 1) * ?w) ((pos * 2 + 1 + 1) * ?w) = []"
        using False by (intro matched_in_beyond) (simp add: less_calcTreeWidth)
      ultimately show ?thesis
        unfolding l Let_def prod.case split using par False by (simp add: Let_def)
    qed
  qed
qed

section \<open>The partial tree and the block's Merkle tree have the same root\<close>

lemma calcTreeWidth_eqI:
  assumes "\<And>p. p < w \<longleftrightarrow> p * 2 ^ h < n"
  shows "w = calcTreeWidth n h"
proof (rule linorder_cases [of w "calcTreeWidth n h"])
  show "w < calcTreeWidth n h \<Longrightarrow> ?thesis"
    using assms [of w] by (simp add: less_calcTreeWidth)
  show "calcTreeWidth n h < w \<Longrightarrow> ?thesis"
    using assms [of "calcTreeWidth n h"] less_calcTreeWidth [of "calcTreeWidth n h" n h] by simp
qed

lemma calcTreeWidth_Suc: "calcTreeWidth n (Suc h) = (calcTreeWidth n h + 1) div 2"
proof (rule calcTreeWidth_eqI [symmetric])
  fix p
  have "p < (calcTreeWidth n h + 1) div 2 \<longleftrightarrow> 2 * p < calcTreeWidth n h" by linarith
  also have "\<dots> \<longleftrightarrow> p * 2 ^ Suc h < n" by (simp add: less_calcTreeWidth algebra_simps)
  finally show "p < (calcTreeWidth n h + 1) div 2 \<longleftrightarrow> p * 2 ^ Suc h < n" .
qed

lemma length_levels_at: "length ((level_up sha ^^ h) xs) = calcTreeWidth (length xs) h"
  by (induction h) (simp_all add: calcTreeWidth_Suc)

lemma calcHash_level:
  "pos < calcTreeWidth (length xs) h \<Longrightarrow> calcHash sha xs h pos = (level_up sha ^^ h) xs ! pos"
proof (induction h arbitrary: pos)
  case 0
  then show ?case by simp
next
  case (Suc h)
  let ?ys = "(level_up sha ^^ h) xs" and ?w = "calcTreeWidth (length xs) h"
  have len: "length ?ys = ?w" by (rule length_levels_at)
  have pos: "pos * 2 < ?w" "pos < (length ?ys + 1) div 2"
    using Suc.prems by (simp_all add: calcTreeWidth_Suc len)
  have "level_up sha ?ys ! pos = HashNode sha (?ys ! (2 * pos)) (?ys ! min (2 * pos + 1) (?w - 1))"
    using level_up_nth [OF pos(2), of sha] by (simp only: len)
  moreover have "min (2 * pos + 1) (?w - 1) = (if pos * 2 + 1 < ?w then pos * 2 + 1 else pos * 2)"
    using pos(1) by auto
  ultimately show ?case
    using Suc.IH [of "pos * 2"] Suc.IH [of "pos * 2 + 1"] pos(1)
    by (simp add: Let_def mult.commute split del: if_split) auto
qed

lemma root_of_levels:
  "(\<forall>k<h. calcTreeWidth (length xs) k > 1) \<Longrightarrow> root_of sha xs = root_of sha ((level_up sha ^^ h) xs)"
proof (induction h)
  case (Suc h)
  then have "length ((level_up sha ^^ h) xs) > 1" by (simp add: length_levels_at)
  then have "root_of sha ((level_up sha ^^ h) xs) = root_of sha ((level_up sha ^^ Suc h) xs)"
    by (subst root_of.simps) simp
  with Suc show ?case by simp
qed simp

lemma tree_height_below:
  "\<forall>k. h \<le> k \<and> k < tree_height n h \<longrightarrow> calcTreeWidth n k > 1"
proof (induction n h rule: tree_height.induct)
  case (1 n h)
  show ?case
  proof (cases "calcTreeWidth n h > 1")
    case True
    with "1.IH" show ?thesis
      by (subst tree_height.simps) (auto simp: le_Suc_eq Suc_le_eq dest: le_neq_implies_less)
  next
    case False
    then show ?thesis by (subst tree_height.simps) auto
  qed
qed

lemma calcHash_root:
  assumes "xs \<noteq> []"
  shows "calcHash sha xs (tree_height (length xs) 0) 0 = root_of sha xs"
proof -
  let ?h = "tree_height (length xs) 0" and ?ys = "(level_up sha ^^ tree_height (length xs) 0) xs"
  have pos: "0 < calcTreeWidth (length xs) ?h"
    using assms by (simp add: less_calcTreeWidth)
  then have one: "length ?ys = 1"
    using tree_height_width [of "length xs" 0] by (simp add: length_levels_at)
  have "root_of sha xs = root_of sha ?ys"
    using tree_height_below [of 0 "length xs"] by (intro root_of_levels) simp
  also have "\<dots> = ?ys ! 0"
    using one by (subst root_of.simps) (auto simp: hd_conv_nth)
  also have "\<dots> = calcHash sha xs ?h 0"
    by (rule calcHash_level [OF pos, symmetric])
  finally show ?thesis ..
qed

lemma matched_in_all:
  assumes "length ms = length xs" and "length xs \<le> hi"
  shows "matched_in xs ms 0 hi = map fst (filter snd (zip xs ms))"
proof -
  have "zip xs ms = map (\<lambda>i. (xs ! i, ms ! i)) [0..<length xs]"
    using assms(1) by (intro nth_equalityI) simp_all
  then show ?thesis
    using assms(2) by (simp add: matched_in_def filter_map o_def min_def)
qed

text \<open>What the receiver's traversal gives on bits padded to whole bytes.\<close>

lemma extract_root:
  assumes "length ms = length xs" and "xs \<noteq> []"
  shows "traverseAndExtract sha (length xs)
      (tree_bits (length xs) ms (tree_height (length xs) 0) 0 @ pad)
      (tree_hashes sha xs ms (tree_height (length xs) 0) 0) (tree_height (length xs) 0) 0
      \<lparr>nBitsUsed = 0, nHashUsed = 0, vMatched = [], bad = False\<rparr> =
    (root_of sha xs,
     \<lparr>nBitsUsed = length (tree_bits (length xs) ms (tree_height (length xs) 0) 0),
       nHashUsed = length (tree_hashes sha xs ms (tree_height (length xs) 0) 0),
       vMatched = map fst (filter snd (zip xs ms)), bad = False\<rparr>)"
proof -
  let ?h = "tree_height (length xs) 0"
  have "\<not> 1 < calcTreeWidth (length xs) ?h" using tree_height_width [of "length xs" 0] by simp
  then have hi: "length xs \<le> (0 + 1) * 2 ^ ?h" by (simp add: less_calcTreeWidth not_less)
  show ?thesis
    using extract_built [OF assms(1), of 0 ?h "tree_bits (length xs) ms ?h 0 @ pad" "[]" pad
        "tree_hashes sha xs ms ?h 0" "[]" sha "[]"
        "\<lparr>nBitsUsed = 0, nHashUsed = 0, vMatched = [], bad = False\<rparr>"]
      assms(2) matched_in_all [OF assms(1) hi] calcHash_root [OF assms(2), of sha]
    by simp
qed

section \<open>Flag bits on the wire\<close>

text \<open>The packing loop up to bit \<open>k\<close>.\<close>

definition pack_upto :: "bool list \<Rightarrow> nat \<Rightarrow> byte list" where
  "pack_upto ms k =
     foldl (\<lambda>bytes p. bytes[p div 8 := bytes ! (p div 8) OR push_bit (p mod 8) (of_bool (ms ! p))])
       (replicate ((length ms + 7) div 8) 0) [0..<k]"

definition pack_bits :: "bool list \<Rightarrow> byte list" where
  "pack_bits ms = pack_upto ms (length ms)"

definition unpack_bits :: "byte list \<Rightarrow> bool list" where
  "unpack_bits bytes =
     map (\<lambda>p. bytes ! (p div 8) AND push_bit (p mod 8) 1 \<noteq> 0) [0..<length bytes * 8]"

definition put_merkle_block :: "merkle_block \<Rightarrow> byte list" where
  "put_merkle_block mb =
     put_header (mb_header mb) @ put_word (mb_transactions mb) @ put_vector put_word (mb_hashes mb)
     @ put_vector put_word (pack_bits (mb_matches mb))"

definition get_merkle_block :: "merkle_block reader" where
  "get_merkle_block bs =
     and_then (get_header bs) (\<lambda>(h, r).
     and_then (get_word r) (\<lambda>(n, r).
     and_then (get_vector get_word r) (\<lambda>(hashes, r).
     and_then (get_vector get_word r) (\<lambda>(bytes, r).
       Inr (\<lparr>mb_header = h, mb_transactions = n, mb_matches = unpack_bits bytes, mb_hashes = hashes,
             mb_bad = False, mb_matched_txes = []\<rparr>, r)))))"

lemma bit_push_of_bool: "n < 8 \<Longrightarrow> bit (push_bit n (of_bool b) :: byte) i \<longleftrightarrow> i = n \<and> b"
  by (cases b) (auto simp: push_bit_of_1 bit_exp_iff)

lemma pack_step:
  fixes bytes :: "byte list"
  assumes "q div 8 < length bytes" and "k div 8 < length bytes"
  shows "bit (bytes[k div 8 := bytes ! (k div 8) OR push_bit (k mod 8) (of_bool b)] ! (q div 8)) (q mod 8) \<longleftrightarrow>
    bit (bytes ! (q div 8)) (q mod 8) \<or> (q = k \<and> b)"
proof (cases "q div 8 = k div 8")
  case True
  then have "q mod 8 = k mod 8 \<longleftrightarrow> q = k"
    by (metis div_mult_mod_eq)
  with True assms show ?thesis
    by (simp add: bit_or_iff bit_push_of_bool)
next
  case False
  then show ?thesis using assms by auto
qed

lemma pack_upto_bits:
  assumes "k \<le> length ms"
  shows "length (pack_upto ms k) = (length ms + 7) div 8 \<and>
    (\<forall>q < 8 * length (pack_upto ms k). bit (pack_upto ms k ! (q div 8)) (q mod 8) \<longleftrightarrow> q < k \<and> ms ! q)"
  using assms
proof (induction k)
  case 0
  then show ?case by (auto simp: pack_upto_def)
next
  case (Suc k)
  let ?b = "pack_upto ms k"
  have IH: "length ?b = (length ms + 7) div 8"
    "\<forall>q < 8 * length ?b. bit (?b ! (q div 8)) (q mod 8) \<longleftrightarrow> q < k \<and> ms ! q"
    using Suc by simp_all
  have step: "pack_upto ms (Suc k) = ?b[k div 8 := ?b ! (k div 8) OR push_bit (k mod 8) (of_bool (ms ! k))]"
    by (simp add: pack_upto_def)
  have k: "k div 8 < length ?b" using Suc.prems IH(1) by simp
  have "bit (pack_upto ms (Suc k) ! (q div 8)) (q mod 8) \<longleftrightarrow> q < Suc k \<and> ms ! q" if "q < 8 * length ?b" for q
    using pack_step [of q ?b k "ms ! k"] k IH(2) that unfolding step by (auto simp: less_Suc_eq)
  moreover have "length (pack_upto ms (Suc k)) = length ?b" by (simp add: step)
  ultimately show ?case using IH(1) by simp
qed

lemma length_pack_bits: "length (pack_bits ms) = (length ms + 7) div 8"
  using pack_upto_bits [of "length ms" ms] by (simp add: pack_bits_def)

lemma unpack_pack_bits:
  "unpack_bits (pack_bits ms) = ms @ replicate (8 * ((length ms + 7) div 8) - length ms) False"
proof (rule nth_equalityI)
  show "length (unpack_bits (pack_bits ms)) = length (ms @ replicate (8 * ((length ms + 7) div 8) - length ms) False)"
    by (simp add: unpack_bits_def length_pack_bits)
next
  fix q
  assume "q < length (unpack_bits (pack_bits ms))"
  then have q: "q < 8 * length (pack_bits ms)" by (simp add: unpack_bits_def mult.commute)
  have "unpack_bits (pack_bits ms) ! q = bit (pack_bits ms ! (q div 8)) (q mod 8)"
    using q by (simp add: unpack_bits_def mult.commute push_bit_of_1 and_exp_eq_0_iff_not_bit)
  also have "\<dots> \<longleftrightarrow> q < length ms \<and> ms ! q"
    using pack_upto_bits [of "length ms" ms] q by (simp add: pack_bits_def)
  also have "\<dots> \<longleftrightarrow> (ms @ replicate (8 * ((length ms + 7) div 8) - length ms) False) ! q"
    using q by (auto simp: nth_append length_pack_bits)
  finally show "unpack_bits (pack_bits ms) ! q = (ms @ replicate (8 * ((length ms + 7) div 8) - length ms) False) ! q" .
qed

section \<open>Properties\<close>

lemma padded_bytes: "(m + (8 * ((m + 7) div 8) - m) + 7) div 8 = (m + 7 :: nat) div 8"
  by presburger

lemma tree_bits_less: "length (tree_bits n ms h pos) < 2 ^ Suc h"
proof (induction h arbitrary: pos)
  case (Suc h)
  show ?case
    using Suc.IH [of "pos * 2"] Suc.IH [of "pos * 2 + 1"] by simp
qed simp

lemma tree_height_less: "n > 0 \<Longrightarrow> 2 ^ tree_height n 0 < 2 * n"
proof (cases "tree_height n 0")
  case (Suc k)
  then have "1 < calcTreeWidth n k" using tree_height_below [of 0 n] by simp
  with Suc show ?thesis by (simp add: less_calcTreeWidth)
qed simp

lemma extractMatches_built:
  assumes "length ms = length xs" and "xs \<noteq> []" and "length xs \<le> MAX_BLOCK_SIZE div 60"
    and "mb_transactions mb = word_of_nat (length xs)"
    and "mb_matches mb = tree_bits (length xs) ms (tree_height (length xs) 0) 0 @ pad"
    and "(length (mb_matches mb) + 7) div 8 = (length (tree_bits (length xs) ms (tree_height (length xs) 0) 0) + 7) div 8"
    and "mb_hashes mb = tree_hashes sha xs ms (tree_height (length xs) 0) 0" and "\<not> mb_bad mb"
  shows "extractMatches sha mb = (root_of sha xs, map fst (filter snd (zip xs ms)))"
proof -
  let ?h = "tree_height (length xs) 0"
  have n: "unat (mb_transactions mb) = length xs"
    using assms(3,4) by (simp add: unat_word_of_nat_small MAX_BLOCK_SIZE_def)
  have "length (tree_hashes sha xs ms ?h 0) \<le> min ((0 + 1) * 2 ^ ?h) (length xs) - 0 * 2 ^ ?h"
    using assms(2) by (intro tree_hashes_le_leaves) simp
  then have "length (mb_hashes mb) \<le> length xs" using assms(7) by simp
  moreover have "length (mb_hashes mb) \<le> length (mb_matches mb)"
    using tree_hashes_le_bits [of sha xs ms ?h 0] assms(5,7) by simp
  ultimately show ?thesis
    using assms(2,3,5,6,7,8) extract_root [OF assms(1,2), of sha pad]
    by (simp add: extractMatches_def n Let_def not_less)
qed

text \<open>C31: what a filtering peer is sent proves itself. For a block with at least one and at most
  \<open>MAX_BLOCK_SIZE / 60\<close> transactions and any choice of matches, the partial tree built from it,
  written to the wire, read back and traversed, gives the Merkle root of the block and exactly the
  hashes of the matched transactions in block order.\<close>

theorem merkle_block_roundtrip:
  assumes "length vMatch = length (transactions b)" and "transactions b \<noteq> []"
    and "length (transactions b) \<le> MAX_BLOCK_SIZE div 60"
  shows "\<exists>mb. get_merkle_block (put_merkle_block
        (build_merkle_block sha (header b) (map (tx_getHash sha) (transactions b)) vMatch) @ rest) = Inr (mb, rest) \<and>
      extractMatches sha mb =
        (fst (buildMerkleTree sha b), map fst (filter snd (zip (map (tx_getHash sha) (transactions b)) vMatch)))"
proof -
  let ?xs = "map (tx_getHash sha) (transactions b)"
  let ?h = "tree_height (length ?xs) 0"
  let ?bits = "tree_bits (length ?xs) vMatch ?h 0" and ?hashes = "tree_hashes sha ?xs vMatch ?h 0"
  let ?pad = "replicate (8 * ((length ?bits + 7) div 8) - length ?bits) False"
  let ?mb = "\<lparr>mb_header = header b, mb_transactions = word_of_nat (length ?xs), mb_matches = ?bits @ ?pad,
        mb_hashes = ?hashes, mb_bad = False, mb_matched_txes = []\<rparr>"
  have xs: "length vMatch = length ?xs" "?xs \<noteq> []" "length ?xs \<le> MAX_BLOCK_SIZE div 60"
    using assms by simp_all
  have "length ?hashes \<le> min ((0 + 1) * 2 ^ ?h) (length ?xs) - 0 * 2 ^ ?h"
    using xs(2) by (intro tree_hashes_le_leaves) simp
  then have hs: "vector_ok (\<lambda>_. True) ?hashes"
    using xs(3) by (simp add: vector_ok_def list_all_iff MAX_VARINT_SIZE_def MAX_BLOCK_SIZE_def)
  have bs: "vector_ok (\<lambda>_. True) (pack_bits ?bits)"
  proof -
    have "length ?bits < 2 ^ Suc ?h" by (rule tree_bits_less)
    also have "\<dots> < 2 * (2 * length ?xs)" using tree_height_less [of "length ?xs"] xs(2) by simp
    finally show ?thesis
      using xs(3) by (simp add: vector_ok_def list_all_iff length_pack_bits MAX_VARINT_SIZE_def MAX_BLOCK_SIZE_def)
  qed
  have "get_merkle_block (put_merkle_block (build_merkle_block sha (header b) ?xs vMatch) @ rest) = Inr (?mb, rest)"
    using uint256_codec.get_vector_put [OF hs] byte_codec.get_vector_put [OF bs]
    by (simp add: get_merkle_block_def put_merkle_block_def build_merkle_block_def traverseAndBuild_eq
        header_codec.get_put u32_codec.get_put unpack_pack_bits Let_def)
  moreover have "extractMatches sha ?mb = (root_of sha ?xs, map fst (filter snd (zip ?xs vMatch)))"
    by (rule extractMatches_built [OF xs]) (simp_all add: padded_bytes)
  ultimately show ?thesis by (simp add: buildMerkleTree_eq)
qed

theorem merkle_block_roundtrip_witness:
  "\<exists>mb. get_merkle_block (put_merkle_block (build_merkle_block rev (header sample_block)
        (map (tx_getHash rev) (transactions sample_block)) [False, True, True]) @ [9]) = Inr (mb, [9]) \<and>
      extractMatches rev mb = (fst (buildMerkleTree rev sample_block),
        map fst (filter snd (zip (map (tx_getHash rev) (transactions sample_block)) [False, True, True])))"
  by (rule merkle_block_roundtrip) (simp_all add: sample_block_def MAX_BLOCK_SIZE_def)

end
