(* ===== verification/AuxPow.thy ===== *)
theory AuxPow
  imports Block
begin

text \<open>
  Merged mining: \<open>MerkleTx\<close> and \<open>AuxPow\<close> of \<^verbatim>\<open>include/coin/AuxPow.h\<close> and
  \<^verbatim>\<open>src/coin/AuxPow.cpp\<close>, their serialisation, the serialisation of a block with its auxiliary proof
  of work, and \<open>Check\<close>, which ties a block of one chain to a slot in the coinbase of a block of another.
\<close>

unbundle bit_operations_syntax

section \<open>Data and serialisation\<close>

definition BLOCK_VERSION_AUXPOW :: u32 where "BLOCK_VERSION_AUXPOW = 256"
definition BLOCK_VERSION_CHAIN_START :: int where "BLOCK_VERSION_CHAIN_START = 65536"

record merkle_tx =
  mtx_tx :: transaction
  mtx_blockHash :: uint256
  mtx_branch :: "uint256 list"
  mtx_index :: u32

record aux_pow = merkle_tx +
  vChainMerkleBranch :: "uint256 list"
  nChainIndex :: u32
  parentBlock :: block_header

definition put_aux_pow :: "aux_pow \<Rightarrow> byte list" where
  "put_aux_pow ap =
     put_transaction (mtx_tx ap) @ put_word (mtx_blockHash ap) @ put_vector put_word (mtx_branch ap) @ put_word (mtx_index ap)
     @ put_vector put_word (vChainMerkleBranch ap) @ put_word (nChainIndex ap) @ put_header (parentBlock ap)"

definition get_aux_pow :: "aux_pow reader" where
  "get_aux_pow bs =
     and_then (get_transaction bs) (\<lambda>(t, r).
     and_then (get_word r) (\<lambda>(h, r).
     and_then (get_vector get_word r) (\<lambda>(br, r).
     and_then (get_word r) (\<lambda>(i, r).
     and_then (get_vector get_word r) (\<lambda>(cbr, r).
     and_then (get_word r) (\<lambda>(ci, r).
     and_then (get_header r) (\<lambda>(p, r).
       Inr (\<lparr>mtx_tx = t, mtx_blockHash = h, mtx_branch = br, mtx_index = i, vChainMerkleBranch = cbr, nChainIndex = ci,
             parentBlock = p\<rparr>, r))))))))"

definition aux_pow_ok :: "aux_pow \<Rightarrow> bool" where
  "aux_pow_ok ap \<longleftrightarrow> transaction_ok (mtx_tx ap) \<and> vector_ok (\<lambda>_. True) (mtx_branch ap) \<and>
     vector_ok (\<lambda>_. True) (vChainMerkleBranch ap)"

interpretation aux_pow_codec: codec put_aux_pow get_aux_pow aux_pow_ok
  by unfold_locales
    (simp add: put_aux_pow_def get_aux_pow_def aux_pow_ok_def transaction_codec.get_put u32_codec.get_put
      uint256_codec.get_put uint256_codec.get_vector_put header_codec.get_put)

text \<open>A block of a chain that adheres to merged mining: the proof of work is there when the version says so.\<close>

record mined_block = block +
  ignore_aux_pow :: bool
  block_aux_pow :: aux_pow

definition has_aux :: "bool \<Rightarrow> block_header \<Rightarrow> bool" where
  "has_aux ignore h \<longleftrightarrow> \<not> ignore \<and> bh_version h AND BLOCK_VERSION_AUXPOW \<noteq> 0"

definition put_mined_block :: "mined_block \<Rightarrow> byte list" where
  "put_mined_block b =
     put_header (header b) @ (if has_aux (ignore_aux_pow b) (header b) then put_aux_pow (block_aux_pow b) else [])
     @ put_vector put_transaction (transactions b)"

text \<open>A fresh object is read into; it keeps its flag, and its proof of work where none is read.\<close>

definition get_mined_block :: "bool \<Rightarrow> aux_pow \<Rightarrow> mined_block reader" where
  "get_mined_block ignore old bs =
     and_then (get_header bs) (\<lambda>(h, r).
     and_then (if has_aux ignore h then get_aux_pow r else Inr (old, r)) (\<lambda>(ap, r).
     and_then (get_vector get_transaction r) (\<lambda>(txs, r).
       Inr (\<lparr>header = h, transactions = txs, merkleTree = [], ignore_aux_pow = ignore, block_aux_pow = ap\<rparr>, r))))"

section \<open>The check\<close>

definition pchMergedMiningHeader :: "byte list" where
  "pchMergedMiningHeader = [0xfa, 0xbe, 0x6d, 0x6d]"

text \<open>\<^verbatim>\<open>std::search\<close>: the position of the first occurrence, or the length.\<close>

fun std_search :: "byte list \<Rightarrow> byte list \<Rightarrow> nat" where
  "std_search needle hay =
     (if take (length needle) hay = needle then 0
      else case hay of [] \<Rightarrow> 0 | _ # rest \<Rightarrow> Suc (std_search needle rest))"

declare std_search.simps [simp del]

definition version_chain :: "u32 \<Rightarrow> int" where
  "version_chain v = sgn (sint v) * (\<bar>sint v\<bar> div BLOCK_VERSION_CHAIN_START)"

definition le_u32 :: "byte list \<Rightarrow> u32" where
  "le_u32 bs = word_of_nat (le_value (take 4 bs))"

definition aux_slot :: "u32 \<Rightarrow> int \<Rightarrow> u32 \<Rightarrow> u32" where
  "aux_slot nNonce nChainID nSize =
     (let rand = nNonce;
          rand = rand * 1103515245 + 12345;
          rand = rand + word_of_int nChainID;
          rand = rand * 1103515245 + 12345
      in rand mod nSize)"

text \<open>From the position of the root on: \<open>pc\<close> is just after it.\<close>

definition check_slot :: "aux_pow \<Rightarrow> int \<Rightarrow> script \<Rightarrow> nat \<Rightarrow> bool" where
  "check_slot ap nChainID script pc =
     (if length script - pc < 8 then False
      else
        let nSize = le_u32 (drop pc script); nNonce = le_u32 (drop (pc + 4) script)
        in if sint nSize \<noteq> 2 ^ length (vChainMerkleBranch ap) then False
           else nChainIndex ap = aux_slot nNonce nChainID nSize)"

text \<open>\<open>None\<close>: the transaction has no input, and \<open>getInput(0)\<close> is outside the vector.\<close>

definition auxpow_Check :: "digest_fn \<Rightarrow> aux_pow \<Rightarrow> uint256 \<Rightarrow> int \<Rightarrow> bool option" where
  "auxpow_Check sha ap hashAuxBlock nChainID =
     (if mtx_index ap \<noteq> 0 then Some False
      else if version_chain (bh_version (parentBlock ap)) = nChainID then Some False
      else if length (vChainMerkleBranch ap) > 30 then Some False
      else
        let nRootHash = checkMerkleBranch sha hashAuxBlock (vChainMerkleBranch ap) (sint (nChainIndex ap));
            vchRootHash = rev (put_word nRootHash)
        in if checkMerkleBranch sha (tx_getHash sha (mtx_tx ap)) (mtx_branch ap) (sint (mtx_index ap))
              \<noteq> bh_merkleRoot (parentBlock ap) then Some False
           else
             (case tx_inputs (mtx_tx ap) of [] \<Rightarrow> None
              | i # _ \<Rightarrow>
                  let script = signature i;
                      pcHead = std_search pchMergedMiningHeader script; pc = std_search vchRootHash script
                  in if pc = length script then Some False
                     else if pcHead \<noteq> length script then
                       (if std_search pchMergedMiningHeader (drop (pcHead + 1) script) \<noteq> length script - (pcHead + 1)
                        then Some False
                        else if pcHead + length pchMergedMiningHeader \<noteq> pc then Some False
                        else Some (check_slot ap nChainID script (pc + length vchRootHash)))
                     else
                       (if pc > 20 then Some False
                        else Some (check_slot ap nChainID script (pc + length vchRootHash)))))"


section \<open>Facts on the search\<close>

lemma std_search_le: "std_search n h \<le> length h"
  by (induction n h rule: std_search.induct) (subst std_search.simps, auto split: list.split)

lemma std_search_found:
  "n \<noteq> [] \<Longrightarrow> std_search n h \<noteq> length h \<Longrightarrow> take (length n) (drop (std_search n h) h) = n"
proof (induction n h rule: std_search.induct)
  case (1 n h)
  show ?case
  proof (cases "take (length n) h = n")
    case True
    then show ?thesis by (simp add: std_search.simps [of n h])
  next
    case False
    then obtain x rest where h: "h = x # rest" using 1(3) by (cases h) (simp_all add: std_search.simps [of n "[]"])
    have s: "std_search n h = Suc (std_search n rest)" using False h by (simp add: std_search.simps [of n "x # rest"])
    then have "std_search n rest \<noteq> length rest" using 1(3) h by simp
    from 1(1) [OF False h 1(2) this] show ?thesis unfolding s by (simp add: h)
  qed
qed

lemma put_word_256_inject: "put_word (a :: uint256) = put_word b \<Longrightarrow> a = b"
  using uint256_codec.put_inject [where x = a and y = b and r = "[]" and s = "[]"] by simp

lemma put_word_256_ne: "rev (put_word (a :: uint256)) \<noteq> []"
proof
  assume "rev (put_word a) = []"
  then have "length (rev (put_word a)) = length ([] :: byte list)" by (rule arg_cong)
  then show False by simp
qed

section \<open>One slot for one chain\<close>

definition coinbase_of :: "aux_pow \<Rightarrow> script" where
  "coinbase_of ap = signature (hd (tx_inputs (mtx_tx ap)))"

lemma check_slot_index:
  assumes "check_slot a chain s pc" and "check_slot b chain s pc"
  shows "length (vChainMerkleBranch a) = length (vChainMerkleBranch b)" and "nChainIndex a = nChainIndex b"
proof -
  have "(2 :: int) ^ length (vChainMerkleBranch a) = 2 ^ length (vChainMerkleBranch b)"
    using assms by (simp add: check_slot_def Let_def split: if_splits)
  then show "length (vChainMerkleBranch a) = length (vChainMerkleBranch b)" by (simp add: power_inject_exp)
  show "nChainIndex a = nChainIndex b" using assms by (simp add: check_slot_def Let_def split: if_splits)
qed

lemma check_slot_not_minus_one:
  assumes "check_slot a chain s pc" and "length (vChainMerkleBranch a) \<le> 30"
  shows "sint (nChainIndex a) \<noteq> -1"
proof -
  obtain nSize nNonce where s: "sint (nSize :: u32) = 2 ^ length (vChainMerkleBranch a)"
    and i: "nChainIndex a = aux_slot nNonce chain nSize"
    using assms(1) by (auto simp: check_slot_def Let_def split: if_splits)
  have "(2 :: int) ^ length (vChainMerkleBranch a) \<le> 2 ^ 30" using assms(2) by (intro power_increasing) simp_all
  then have le: "0 < sint nSize" "sint nSize \<le> 2 ^ 30" using s by simp_all
  have u: "uint nSize = sint nSize"
    using le by (simp add: uint_sint take_bit_int_eq_self)
  have "uint (nChainIndex a) < uint nSize"
    unfolding i aux_slot_def Let_def uint_mod using le u by simp
  then have "uint (nChainIndex a) < 2 ^ 30" using le u by simp
  moreover have "uint (nChainIndex a) = 2 ^ 32 - 1" if "sint (nChainIndex a) = -1"
    using that by (simp add: uint_sint mask_eq_exp_minus_1)
  ultimately show ?thesis by auto
qed

definition aux_root :: "digest_fn \<Rightarrow> aux_pow \<Rightarrow> uint256 \<Rightarrow> uint256" where
  "aux_root sha a h = checkMerkleBranch sha h (vChainMerkleBranch a) (sint (nChainIndex a))"

definition root_position :: "digest_fn \<Rightarrow> aux_pow \<Rightarrow> uint256 \<Rightarrow> nat" where
  "root_position sha a h = std_search (rev (put_word (aux_root sha a h))) (coinbase_of a)"

lemma auxpow_accepted:
  assumes "auxpow_Check sha a h chain = Some True"
  shows "root_position sha a h \<noteq> length (coinbase_of a)"
    and "std_search pchMergedMiningHeader (coinbase_of a) \<noteq> length (coinbase_of a) \<Longrightarrow>
      root_position sha a h = std_search pchMergedMiningHeader (coinbase_of a) + 4"
    and "std_search pchMergedMiningHeader (coinbase_of a) = length (coinbase_of a) \<Longrightarrow> root_position sha a h \<le> 20"
    and "check_slot a chain (coinbase_of a) (root_position sha a h + 32)"
    and "length (vChainMerkleBranch a) \<le> 30"
  using assms unfolding auxpow_Check_def aux_root_def [symmetric] Let_def root_position_def
  by (auto simp: coinbase_of_def pchMergedMiningHeader_def checkMerkleBranch_def split: if_splits list.splits)

lemma same_root_collides:
  assumes "auxpow_Check sha a h chain = Some True" and "auxpow_Check sha b h' chain = Some True"
    and "coinbase_of a = coinbase_of b" and "aux_root sha a h = aux_root sha b h'" and "h \<noteq> h'"
  shows "\<exists>k<length (vChainMerkleBranch a).
    collides sha (check_inputs sha (vChainMerkleBranch a) h (sint (nChainIndex a)) ! k)
      (check_inputs sha (vChainMerkleBranch b) h' (sint (nChainIndex a)) ! k)"
proof -
  note A = auxpow_accepted [OF assms(1)] and B = auxpow_accepted [OF assms(2)]
  have "root_position sha a h = root_position sha b h'" using assms(3,4) by (simp add: root_position_def)
  then have "check_slot b chain (coinbase_of a) (root_position sha a h + 32)" using B(4) assms(3) by simp
  note slot = check_slot_index [OF A(4) this]
  have "sint (nChainIndex a) \<noteq> -1" by (rule check_slot_not_minus_one [OF A(4,5)])
  then have "check_loop sha (vChainMerkleBranch a) h (sint (nChainIndex a)) =
      check_loop sha (vChainMerkleBranch b) h' (sint (nChainIndex a))"
    using assms(4) slot(2) by (simp add: checkMerkleBranch_def aux_root_def)
  from check_loop_binding [OF slot(1) assms(5) this] show ?thesis .
qed

text \<open>C34: One piece of parent work serves one block of a chain when its coinbase script carries the merged mining
  header: if two auxiliary proofs of work with the same parent coinbase script are accepted for different
  blocks \<open>h\<close> and \<open>h'\<close> of the same chain, then a collision of the hash function is at hand. The slot of the chain
  in the tree of chains is fixed by the nonce and the size in the script, and the header fixes the place of the
  root. For a script without the header, which the code accepts too, there is one other way, and only that one: both
  blocks have their own root, and both roots begin within the first twenty bytes of the script.\<close>

theorem auxpow_one_block_per_chain:
  assumes "auxpow_Check sha a h chain = Some True" and "auxpow_Check sha b h' chain = Some True"
    and "coinbase_of a = coinbase_of b" and "h \<noteq> h'"
  shows "(\<exists>k<length (vChainMerkleBranch a).
      collides sha (check_inputs sha (vChainMerkleBranch a) h (sint (nChainIndex a)) ! k)
        (check_inputs sha (vChainMerkleBranch b) h' (sint (nChainIndex a)) ! k)) \<or>
    std_search pchMergedMiningHeader (coinbase_of a) = length (coinbase_of a) \<and>
    aux_root sha a h \<noteq> aux_root sha b h' \<and> root_position sha a h \<le> 20 \<and> root_position sha b h' \<le> 20"
proof (cases "aux_root sha a h = aux_root sha b h'")
  case True
  then show ?thesis using same_root_collides [OF assms(1-3) _ assms(4)] by blast
next
  case False
  note A = auxpow_accepted [OF assms(1)] and B = auxpow_accepted [OF assms(2)]
  have "std_search pchMergedMiningHeader (coinbase_of a) = length (coinbase_of a)"
  proof (rule ccontr)
    assume "std_search pchMergedMiningHeader (coinbase_of a) \<noteq> length (coinbase_of a)"
    then have pos: "root_position sha a h = root_position sha b h'" using A(2) B(2) assms(3) by simp
    have "rev (put_word (aux_root sha a h)) = take 32 (drop (root_position sha a h) (coinbase_of a))"
      using std_search_found [OF put_word_256_ne A(1) [unfolded root_position_def]] by (simp add: root_position_def)
    also have "\<dots> = rev (put_word (aux_root sha b h'))"
      using std_search_found [OF put_word_256_ne B(1) [unfolded root_position_def]] pos assms(3) by (simp add: root_position_def)
    finally show False using put_word_256_inject False by blast
  qed
  then show ?thesis using A(3) B(3) assms(3) False by simp
qed


text \<open>With a hash that is constant, two blocks share the slot: the collision is in the first step.\<close>

definition sample_aux :: aux_pow where
  "sample_aux = \<lparr>mtx_tx = \<lparr>tx_version = 1, tx_inputs = [\<lparr>prevout = null_coin,
       signature = pchMergedMiningHeader @ replicate 32 0 @ [2, 0, 0, 0] @ [0, 0, 0, 0], input_sequence = UINT_MAX\<rparr>],
       tx_outputs = [], tx_lockTime = 0\<rparr>,
     mtx_blockHash = 0, mtx_branch = [], mtx_index = 0, vChainMerkleBranch = [5], nChainIndex = 1,
     parentBlock = \<lparr>bh_version = 1, bh_prevBlock = 0, bh_merkleRoot = 0, bh_time = 0, bh_bits = 0, bh_nonce = 0\<rparr>\<rparr>"

lemma sample_aux_accepted: "auxpow_Check (\<lambda>_. []) sample_aux h 1 = Some True"
proof -
  have root: "checkMerkleBranch (\<lambda>_. []) h [5] 1 = 0"
    by (simp add: checkMerkleBranch_def HashNode_def Hash2_def bytes_to_uint256_def)
  have "checkMerkleBranch (\<lambda>_. []) (tx_getHash (\<lambda>_. []) (mtx_tx sample_aux)) [] 0 = 0"
    by (simp add: checkMerkleBranch_def tx_getHash_def Hash_def bytes_to_uint256_def)
  moreover have "std_search (rev (put_word (0 :: uint256))) (coinbase_of sample_aux) = 4"
    "std_search pchMergedMiningHeader (coinbase_of sample_aux) = 0"
    "std_search pchMergedMiningHeader (drop 1 (coinbase_of sample_aux)) = 43"
    "check_slot sample_aux 1 (coinbase_of sample_aux) 36" by code_simp+
  ultimately show ?thesis
    using root by (simp add: auxpow_Check_def sample_aux_def version_chain_def BLOCK_VERSION_CHAIN_START_def coinbase_of_def
      pchMergedMiningHeader_def)
qed

theorem auxpow_one_block_per_chain_witness:
  "\<exists>k<1. collides (\<lambda>_. []) (check_inputs (\<lambda>_. []) [5] 1 1 ! k) (check_inputs (\<lambda>_. []) [5] 2 1 ! k)"
proof -
  have "std_search pchMergedMiningHeader (coinbase_of sample_aux) \<noteq> length (coinbase_of sample_aux)" by code_simp
  with auxpow_one_block_per_chain [OF sample_aux_accepted [of 1] sample_aux_accepted [of 2] refl]
  show ?thesis by (simp add: sample_aux_def)
qed

definition mined_block_ok :: "mined_block \<Rightarrow> bool" where
  "mined_block_ok b \<longleftrightarrow> vector_ok transaction_ok (transactions b) \<and> merkleTree b = [] \<and>
     (has_aux (ignore_aux_pow b) (header b) \<longrightarrow> aux_pow_ok (block_aux_pow b))"

text \<open>A block with its auxiliary proof of work is read back by a reader that adheres to the same rule; where
  the version announces no proof of work, or the rule is off, the reader keeps the one it had.\<close>

theorem mined_block_roundtrip:
  assumes "mined_block_ok b"
  shows "get_mined_block (ignore_aux_pow b) old (put_mined_block b @ rest) =
    Inr (b\<lparr>block_aux_pow := if has_aux (ignore_aux_pow b) (header b) then block_aux_pow b else old\<rparr>, rest)"
  using assms
  by (cases "has_aux (ignore_aux_pow b) (header b)")
    (simp_all add: mined_block_ok_def get_mined_block_def put_mined_block_def header_codec.get_put aux_pow_codec.get_put
      transaction_codec.get_vector_put)

theorem mined_block_roundtrip_witness:
  "get_mined_block False sample_aux (put_mined_block \<lparr>header = (parentBlock sample_aux)\<lparr>bh_version := 257\<rparr>,
     transactions = [mtx_tx sample_aux], merkleTree = [], ignore_aux_pow = False, block_aux_pow = sample_aux\<rparr> @ [9]) =
   Inr (\<lparr>header = (parentBlock sample_aux)\<lparr>bh_version := 257\<rparr>,
     transactions = [mtx_tx sample_aux], merkleTree = [], ignore_aux_pow = False, block_aux_pow = sample_aux\<rparr>, [9])"
  (is "get_mined_block _ _ (put_mined_block ?b @ _) = _")
proof -
  have "mined_block_ok ?b"
    by (simp add: mined_block_ok_def aux_pow_ok_def sample_aux_def transaction_ok_def vector_ok_def script_ok_def
        MAX_VARINT_SIZE_def pchMergedMiningHeader_def)
  from mined_block_roundtrip [OF this, of sample_aux "[9]"] show ?thesis by (simp add: has_aux_def BLOCK_VERSION_AUXPOW_def)
qed

end
