(* ===== verification/BigNum.thy ===== *)
theory BigNum
  imports Prelude
begin

text \<open>
  \<open>CBigNum\<close> of \<^verbatim>\<open>include/coin/BigNum.h\<close>. A \<^verbatim>\<open>BIGNUM\<close> is OpenSSL's: it is
  represented by the integer it denotes, and the library functions the class calls are the fields
  of the parameter \<open>bn_lib\<close>. \<open>bn_documented\<close> states what the OpenSSL manual says of them;
  \<open>ref_bn\<close> is an instance that computes, for the witnesses.
\<close>

unbundle bit_operations_syntax

section \<open>The library functions\<close>

record bn_lib =
  BN_mpi2bn :: "byte list \<Rightarrow> int"
  BN_bn2mpi :: "int \<Rightarrow> byte list"
  BN_add :: "int \<Rightarrow> int \<Rightarrow> int"
  BN_sub :: "int \<Rightarrow> int \<Rightarrow> int"
  BN_mul :: "int \<Rightarrow> int \<Rightarrow> int"
  BN_div :: "int \<Rightarrow> int \<Rightarrow> (int \<times> int) option"
  BN_lshift :: "int \<Rightarrow> nat \<Rightarrow> int"
  BN_rshift :: "int \<Rightarrow> nat \<Rightarrow> int"
  BN_cmp :: "int \<Rightarrow> int \<Rightarrow> int"
  BN_get_word :: "int \<Rightarrow> u64"
  BN_set_word :: "u64 \<Rightarrow> int"
  BN_mod_exp :: "int \<Rightarrow> int \<Rightarrow> int \<Rightarrow> int option"
  BN_mod_inverse :: "int \<Rightarrow> int \<Rightarrow> int option"

definition be_value :: "byte list \<Rightarrow> nat" where
  "be_value bs = le_value (rev bs)"

definition be_size :: "nat \<Rightarrow> byte list" where
  "be_size n = rev (le_bytes 4 n)"

text \<open>The MPI format: the most significant bit of the first byte is the sign.\<close>

definition mpi_value :: "byte list \<Rightarrow> int" where
  "mpi_value bs =
     (case bs of [] \<Rightarrow> 0
      | b # rest \<Rightarrow> if b AND 0x80 \<noteq> 0 then - int (be_value ((b AND 0x7f) # rest)) else int (be_value bs))"

text \<open>The big-endian bytes of a number, without leading zeros.\<close>

fun be_minimal :: "nat \<Rightarrow> byte list" where
  "be_minimal n = (if n = 0 then [] else be_minimal (n div 256) @ [of_nat n])"

declare be_minimal.simps [simp del]

definition mpi_body :: "int \<Rightarrow> byte list" where
  "mpi_body v =
     (case be_minimal (nat \<bar>v\<bar>) of [] \<Rightarrow> []
      | b # rest \<Rightarrow>
          if b AND 0x80 \<noteq> 0 then (if v < 0 then 0x80 else 0) # b # rest
          else (if v < 0 then b OR 0x80 else b) # rest)"

text \<open>Division truncates towards zero, and the remainder has the sign of the dividend.\<close>

definition bn_quot :: "int \<Rightarrow> int \<Rightarrow> int" where
  "bn_quot a b = sgn a * sgn b * (\<bar>a\<bar> div \<bar>b\<bar>)"

definition bn_rem :: "int \<Rightarrow> int \<Rightarrow> int" where
  "bn_rem a b = sgn a * (\<bar>a\<bar> mod \<bar>b\<bar>)"

definition bn_documented :: "bn_lib \<Rightarrow> bool" where
  "bn_documented bn \<longleftrightarrow>
     (\<forall>bs. length bs < 2 ^ 31 \<longrightarrow> BN_mpi2bn bn (be_size (length bs) @ bs) = mpi_value bs) \<and>
     (\<forall>v. BN_bn2mpi bn v = be_size (length (mpi_body v)) @ mpi_body v) \<and>
     (\<forall>a b. BN_add bn a b = a + b) \<and> (\<forall>a b. BN_sub bn a b = a - b) \<and>
     (\<forall>a b. BN_mul bn a b = a * b) \<and>
     (\<forall>a b. BN_div bn a b = (if b = 0 then None else Some (bn_quot a b, bn_rem a b))) \<and>
     (\<forall>a k. BN_lshift bn a k = a * 2 ^ k) \<and>
     (\<forall>a k. BN_rshift bn a k = sgn a * (\<bar>a\<bar> div 2 ^ k)) \<and>
     (\<forall>a b. BN_cmp bn a b = (if a < b then -1 else if a = b then 0 else 1)) \<and>
     (\<forall>a. BN_get_word bn a = (if \<bar>a\<bar> < 2 ^ 64 then word_of_int \<bar>a\<bar> else -1)) \<and>
     (\<forall>w. BN_set_word bn w = uint w) \<and>
     (\<forall>a p m. m > 0 \<longrightarrow> p \<ge> 0 \<longrightarrow> BN_mod_exp bn a p m = Some (a ^ nat p mod m)) \<and>
     (\<forall>a n r. n > 1 \<longrightarrow> BN_mod_inverse bn a n = Some r \<longrightarrow> 0 \<le> r \<and> r < n \<and> (a * r) mod n = 1) \<and>
     (\<forall>a n. n > 1 \<longrightarrow> gcd a n = 1 \<longrightarrow> BN_mod_inverse bn a n \<noteq> None)"

text \<open>A modular inverse by search, enough to evaluate the witnesses.\<close>

definition ref_inverse :: "int \<Rightarrow> int \<Rightarrow> int option" where
  "ref_inverse a n = List.find (\<lambda>r. (a * r) mod n = 1) (map int [0..<nat n])"

definition ref_bn :: bn_lib where
  "ref_bn =
     \<lparr>BN_mpi2bn = (\<lambda>bs. mpi_value (drop 4 bs)),
      BN_bn2mpi = (\<lambda>v. be_size (length (mpi_body v)) @ mpi_body v),
      BN_add = (+), BN_sub = (-), BN_mul = (*),
      BN_div = (\<lambda>a b. if b = 0 then None else Some (bn_quot a b, bn_rem a b)),
      BN_lshift = (\<lambda>a k. a * 2 ^ k),
      BN_rshift = (\<lambda>a k. sgn a * (\<bar>a\<bar> div 2 ^ k)),
      BN_cmp = (\<lambda>a b. if a < b then -1 else if a = b then 0 else 1),
      BN_get_word = (\<lambda>a. if \<bar>a\<bar> < 2 ^ 64 then word_of_int \<bar>a\<bar> else -1),
      BN_set_word = uint,
      BN_mod_exp = (\<lambda>a p m. Some (a ^ nat p mod m)),
      BN_mod_inverse = ref_inverse\<rparr>"

lemma length_be_size [simp]: "length (be_size n) = 4"
  by (simp add: be_size_def)

lemma ref_inverse_Some:
  assumes "n > 1" and "ref_inverse a n = Some r"
  shows "0 \<le> r \<and> r < n \<and> (a * r) mod n = 1"
  using assms(2) by (auto simp: ref_inverse_def find_Some_iff)

lemma ref_inverse_exists:
  assumes "n > 1" and "gcd a n = 1"
  shows "ref_inverse a n \<noteq> None"
proof -
  obtain u v where "u * a + v * n = 1"
    using bezout_int [of a n] assms(2) by auto
  then have "(a * u) mod n = 1 mod n"
    by (metis mod_mult_self2 mult.commute)
  then have "(a * (u mod n)) mod n = 1"
    using assms(1) by (simp add: mod_mult_right_eq)
  moreover have "u mod n \<in> set (map int [0..<nat n])"
    using assms(1) by (simp add: image_iff) (rule bexI [of _ "nat (u mod n)"], simp_all add: nat_less_iff)
  ultimately show ?thesis
    by (auto simp: ref_inverse_def find_None_iff)
qed

lemma ref_bn_documented: "bn_documented ref_bn"
  unfolding bn_documented_def using ref_inverse_Some ref_inverse_exists
  by (simp add: ref_bn_def)

section \<open>Byte vectors\<close>

definition setvch :: "bn_lib \<Rightarrow> byte list \<Rightarrow> int" where
  "setvch bn vch = BN_mpi2bn bn (be_size (length vch) @ rev vch)"

definition getvch :: "bn_lib \<Rightarrow> int \<Rightarrow> byte list" where
  "getvch bn v =
     (let mpi = BN_bn2mpi bn v in if length mpi < 4 then [] else rev (drop 4 mpi))"

definition getulong :: "bn_lib \<Rightarrow> int \<Rightarrow> u64" where
  "getulong bn v = BN_get_word bn v"

definition INT_MAX :: int where "INT_MAX = 2147483647"
definition INT_MIN :: int where "INT_MIN = -2147483648"

definition getint :: "bn_lib \<Rightarrow> int \<Rightarrow> int" where
  "getint bn v =
     (let n = uint (BN_get_word bn v)
      in if \<not> v < 0 then (if n > INT_MAX then INT_MAX else n)
         else (if n > INT_MAX then INT_MIN else - n))"

section \<open>The compact form of a target\<close>

text \<open>
  \<open>nCompact\<close> is a 32-bit \<^verbatim>\<open>int\<close>, and \<^verbatim>\<open>nCompact >> 24\<close> is an arithmetic
  shift converted to \<^verbatim>\<open>unsigned\<close>: for a negative \<open>nCompact\<close> it asks for a vector of
  almost \<open>2 ^ 32\<close> bytes, or, where adding four wraps around, one too small for the writes that
  follow. Those runs are outside the model, \<open>None\<close>.
\<close>

definition compact_bytes :: "u32 \<Rightarrow> byte list" where
  "compact_bytes c =
     (let nSize = unat (drop_bit 24 c)
      in be_size nSize @
         take nSize ([ucast (drop_bit 16 c), ucast (drop_bit 8 c), ucast c] @ replicate (nSize - 3) 0))"

definition SetCompact :: "bn_lib \<Rightarrow> u32 \<Rightarrow> int option" where
  "SetCompact bn c = (if bit c 31 then None else Some (BN_mpi2bn bn (compact_bytes c)))"

definition GetCompact :: "bn_lib \<Rightarrow> int \<Rightarrow> u32" where
  "GetCompact bn v =
     (let mpi = BN_bn2mpi bn v; nSize = length mpi - 4; vch = drop 4 mpi;
          nCompact = push_bit 24 (word_of_nat nSize);
          nCompact = (if nSize \<ge> 1 then nCompact OR push_bit 16 (ucast (vch ! 0)) else nCompact);
          nCompact = (if nSize \<ge> 2 then nCompact OR push_bit 8 (ucast (vch ! 1)) else nCompact);
          nCompact = (if nSize \<ge> 3 then nCompact OR ucast (vch ! 2) else nCompact)
      in nCompact)"

section \<open>From machine integers\<close>

text \<open>
  The loops write the bytes of the integer, most significant first, skipping leading zeros, with a
  sign byte or bit before the first one.
\<close>

primrec shift_bytes :: "nat \<Rightarrow> u64 \<Rightarrow> byte list" where
  "shift_bytes 0 n = []"
| "shift_bytes (Suc i) n = ucast (drop_bit 56 n) # shift_bytes i (push_bit 8 n)"

primrec mpi_loop :: "bool \<Rightarrow> byte list \<Rightarrow> bool \<Rightarrow> byte list \<Rightarrow> byte list" where
  "mpi_loop fNegative [] fLeadingZeroes p = p"
| "mpi_loop fNegative (c # cs) fLeadingZeroes p =
     (if fLeadingZeroes then
        if c = 0 then mpi_loop fNegative cs True p
        else if c AND 0x80 \<noteq> 0 then mpi_loop fNegative cs False (p @ [if fNegative then 0x80 else 0] @ [c])
        else mpi_loop fNegative cs False (p @ [if fNegative then c OR 0x80 else c])
      else mpi_loop fNegative cs False (p @ [c]))"

definition from_mpi :: "bn_lib \<Rightarrow> byte list \<Rightarrow> int" where
  "from_mpi bn p = BN_mpi2bn bn (be_size (length p) @ p)"

definition setint64 :: "bn_lib \<Rightarrow> u64 \<Rightarrow> int" where
  "setint64 bn n =
     (let fNegative = n <s 0; n = (if fNegative then - n else n)
      in from_mpi bn (mpi_loop fNegative (shift_bytes 8 n) True []))"

definition setuint64 :: "bn_lib \<Rightarrow> u64 \<Rightarrow> int" where
  "setuint64 bn n = from_mpi bn (mpi_loop False (shift_bytes 8 n) True [])"

definition setuint256 :: "bn_lib \<Rightarrow> uint256 \<Rightarrow> int" where
  "setuint256 bn n = from_mpi bn (mpi_loop False (rev (le_bytes 32 (unat n))) True [])"

definition setulong :: "bn_lib \<Rightarrow> u64 \<Rightarrow> int" where
  "setulong bn n = BN_set_word bn n"

text \<open>The constructors from \<^verbatim>\<open>int32_t\<close> and \<^verbatim>\<open>int64_t\<close>.\<close>

definition bn_of_int32 :: "bn_lib \<Rightarrow> u32 \<Rightarrow> int" where
  "bn_of_int32 bn n = (if 0 \<le>s n then setulong bn (ucast n) else setint64 bn (scast n))"

definition bn_of_int64 :: "bn_lib \<Rightarrow> u64 \<Rightarrow> int" where
  "bn_of_int64 bn n = setint64 bn n"

text \<open>\<open>getuint256\<close> drops the sign and keeps the 32 least significant bytes.\<close>

definition getuint256 :: "bn_lib \<Rightarrow> int \<Rightarrow> uint256" where
  "getuint256 bn v =
     (let mpi = BN_bn2mpi bn v
      in if length mpi < 4 then 0
         else
           let body = drop 4 mpi;
               body = (case body of [] \<Rightarrow> [] | b # rest \<Rightarrow> (b AND 0x7f) # rest)
           in word_of_nat (le_value (take 32 (rev body))))"

section \<open>Facts on the MPI format\<close>

lemma be_value_Nil [simp]: "be_value [] = 0"
  by (simp add: be_value_def)

lemma be_value_Cons: "be_value (b # bs) = unat b * 256 ^ length bs + be_value bs"
  by (simp add: be_value_def le_value_append)

lemma be_value_zero [simp]: "be_value (0 # bs) = be_value bs"
  by (simp add: be_value_Cons)

lemma be_value_append: "be_value (xs @ ys) = be_value xs * 256 ^ length ys + be_value ys"
  by (induction xs) (simp_all add: be_value_Cons power_add algebra_simps)

lemma be_minimal_0 [simp]: "be_minimal 0 = []"
  by (simp add: be_minimal.simps)

lemma be_value_minimal [simp]: "be_value (be_minimal n) = n"
proof (induction n rule: be_minimal.induct)
  case (1 n)
  show ?case
  proof (cases "n = 0")
    case False
    then show ?thesis
      using 1 by (subst be_minimal.simps) (simp add: be_value_append be_value_Cons unat_of_nat)
  qed simp
qed

lemma be_minimal_head: "be_minimal n = b # rest \<Longrightarrow> b \<noteq> 0"
proof (induction n arbitrary: rest rule: be_minimal.induct)
  case (1 n)
  have n: "n \<noteq> 0" using 1(2) by (cases "n = 0") simp_all
  show ?case
  proof (cases "be_minimal (n div 256)")
    case Nil
    then have "n div 256 = 0" using be_value_minimal [of "n div 256"] by simp
    then have "n < 256" by (simp add: div_eq_0_iff)
    moreover have "b = of_nat n" using 1(2) Nil n by (simp add: be_minimal.simps [of n])
    ultimately show ?thesis using n unat_word_of_nat_small [of n, where ?'a = 8] by auto
  next
    case (Cons c cs)
    then show ?thesis using 1 n by (simp add: be_minimal.simps [of n])
  qed
qed

lemma byte_consts: "(0x80 :: byte) = 2 ^ 7" "(0x7f :: byte) = mask 7"
  by (simp_all add: mask_eq_exp_minus_1)

lemma bit_byte_consts: "bit (0x80 :: byte) q \<longleftrightarrow> q = 7" "bit (0x7f :: byte) q \<longleftrightarrow> q < 7"
  unfolding byte_consts by (auto simp only: bit_exp_iff bit_mask_iff) (simp_all add: possible_bit_def)

lemma byte_sign_iff: "b AND 0x80 = (0 :: byte) \<longleftrightarrow> \<not> bit b 7"
  unfolding byte_consts by (rule and_exp_eq_0_iff_not_bit)

lemma byte_sign_clear: "b AND 0x80 = 0 \<Longrightarrow> (b OR 0x80) AND 0x7f = (b :: byte)"
  unfolding byte_sign_iff
proof (rule bit_word_eqI)
  fix q
  assume "\<not> bit b 7" and "q < LENGTH(8)"
  then show "bit ((b OR 0x80) AND 0x7f) q = bit b q"
    by (cases "q = 7") (auto simp only: bit_and_iff bit_or_iff bit_byte_consts len_num1 len_bit0)
qed

lemma byte_sign_set: "(b OR 0x80) AND 0x80 \<noteq> (0 :: byte)"
  unfolding byte_sign_iff by (simp only: bit_or_iff bit_byte_consts simp_thms)

lemma byte_sign_zero: "(0x80 :: byte) AND 0x7f = 0" "(0 :: byte) AND 0x80 = 0"
  by simp_all

lemma mpi_value_body [simp]: "mpi_value (mpi_body v) = v"
proof (cases "be_minimal (nat \<bar>v\<bar>)")
  case Nil
  then have "nat \<bar>v\<bar> = 0" using be_value_minimal [of "nat \<bar>v\<bar>"] by simp
  with Nil show ?thesis by (simp add: mpi_body_def mpi_value_def)
next
  case (Cons b rest)
  then have val: "be_value (b # rest) = nat \<bar>v\<bar>" using be_value_minimal [of "nat \<bar>v\<bar>"] by simp
  show ?thesis
    using Cons val byte_sign_clear [of b] byte_sign_set [of b]
    by (auto simp: mpi_body_def mpi_value_def)
qed

lemma bn_doc_mpi2bn:
  "bn_documented bn \<Longrightarrow> length bs < 2 ^ 31 \<Longrightarrow> BN_mpi2bn bn (be_size (length bs) @ bs) = mpi_value bs"
  by (simp add: bn_documented_def)

lemma bn_doc_bn2mpi:
  "bn_documented bn \<Longrightarrow> BN_bn2mpi bn v = be_size (length (mpi_body v)) @ mpi_body v"
  by (simp add: bn_documented_def)

lemma bn_doc_arith:
  assumes "bn_documented bn"
  shows "BN_add bn a b = a + b" "BN_sub bn a b = a - b" "BN_mul bn a b = a * b"
    "BN_div bn a b = (if b = 0 then None else Some (bn_quot a b, bn_rem a b))"
    "BN_lshift bn a k = a * 2 ^ k" "BN_rshift bn a k = sgn a * (\<bar>a\<bar> div 2 ^ k)"
    "BN_cmp bn a b = (if a < b then -1 else if a = b then 0 else 1)"
    "BN_get_word bn a = (if \<bar>a\<bar> < 2 ^ 64 then word_of_int \<bar>a\<bar> else -1)"
  using assms by (simp_all add: bn_documented_def)

lemma getvch_doc: "bn_documented bn \<Longrightarrow> getvch bn v = rev (mpi_body v)"
  by (simp add: getvch_def bn_doc_bn2mpi)

lemma setvch_doc: "bn_documented bn \<Longrightarrow> length vch < 2 ^ 31 \<Longrightarrow> setvch bn vch = mpi_value (rev vch)"
  using bn_doc_mpi2bn [of bn "rev vch"] by (simp add: setvch_def)

lemma setvch_getvch:
  "bn_documented bn \<Longrightarrow> length (mpi_body v) < 2 ^ 31 \<Longrightarrow> setvch bn (getvch bn v) = v"
  by (simp add: getvch_doc setvch_doc)

lemma getint_doc:
  assumes "bn_documented bn" and "INT_MIN < v" and "v \<le> INT_MAX"
  shows "getint bn v = v"
proof -
  have "\<bar>v\<bar> \<le> INT_MAX" using assms by (simp add: INT_MIN_def INT_MAX_def)
  moreover from this have "uint (BN_get_word bn v) = \<bar>v\<bar>"
    by (simp add: bn_doc_arith [OF assms(1)] INT_MAX_def uint_word_of_int)
  ultimately show ?thesis by (auto simp add: getint_def Let_def INT_MAX_def)
qed

lemma mpi_loop_keep: "mpi_loop neg cs False p = p @ cs"
  by (induction cs arbitrary: p) simp_all

lemma mpi_value_loop:
  "mpi_value (mpi_loop neg cs True []) = (if neg then - int (be_value cs) else int (be_value cs))"
proof (induction cs)
  case Nil
  then show ?case by (simp add: mpi_value_def)
next
  case (Cons c cs)
  show ?case
    using Cons.IH byte_sign_clear [of c] byte_sign_set [of c]
    by (auto simp: mpi_loop_keep mpi_value_def)
qed

lemma length_mpi_loop: "length (mpi_loop neg cs b p) \<le> length p + length cs + 1"
proof (induction cs arbitrary: b p)
  case (Cons c cs)
  show ?case
    using Cons.IH [of True p] by (auto simp: mpi_loop_keep)
qed simp

lemma be_value_shift_bytes: "i \<le> 8 \<Longrightarrow> be_value (shift_bytes i n) = unat n div 256 ^ (8 - i)"
proof (induction i arbitrary: n)
  case 0
  then show ?case using unsigned_less [of n, where ?'a = nat] by simp
next
  case (Suc i)
  define c where "c = unat n div 2 ^ 56"
  define r where "r = unat n mod 2 ^ 56"
  have n: "unat n = c * 2 ^ 56 + r" and r: "r < 2 ^ 56"
    by (simp_all add: c_def r_def)
  have "unat n < 2 ^ 64" using unsigned_less [of n, where ?'a = nat] by simp
  then have c: "c < 256" by (simp add: c_def less_mult_imp_div_less)
  have "unat (ucast (drop_bit 56 n) :: byte) = c"
    using c by (simp add: unat_ucast_eq drop_bit_eq_div unat_div c_def)
  moreover have "unat (push_bit 8 n) = 256 * r"
    using r by (simp add: push_bit_eq_mult unat_word_ariths n mult.commute)
  moreover have "length (shift_bytes i m) = i" for m by (induction i arbitrary: m) simp_all
  ultimately have "be_value (shift_bytes (Suc i) n) = c * 256 ^ i + 256 * r div 256 ^ (8 - i)"
    using Suc by (simp add: be_value_Cons)
  also have "(256::nat) ^ (8 - i) = 256 * 256 ^ (7 - i)"
    using Suc.prems by (simp flip: power_Suc add: Suc_diff_le)
  also have "256 * r div (256 * 256 ^ (7 - i)) = r div 256 ^ (7 - i)"
    by simp
  also have "c * 256 ^ i + r div 256 ^ (7 - i) = (c * 256 ^ i * 256 ^ (7 - i) + r) div 256 ^ (7 - i)"
    by simp
  also have "c * 256 ^ i * 256 ^ (7 - i) = c * 2 ^ 56"
    using Suc.prems by (simp flip: power_add add: mult.assoc)
  finally show ?case by (simp add: n)
qed

lemma length_shift_bytes [simp]: "length (shift_bytes i n) = i"
  by (induction i arbitrary: n) simp_all

lemma from_mpi_loop:
  assumes "bn_documented bn" and "length cs < 100"
  shows "from_mpi bn (mpi_loop neg cs True []) = (if neg then - int (be_value cs) else int (be_value cs))"
proof -
  have "length (mpi_loop neg cs True []) < 2 ^ 31"
    using length_mpi_loop [of neg cs True "[]"] assms(2) by simp
  then show ?thesis
    using bn_doc_mpi2bn [OF assms(1)] mpi_value_loop by (simp add: from_mpi_def)
qed

lemma setuint64_doc: "bn_documented bn \<Longrightarrow> setuint64 bn n = uint n"
  using be_value_shift_bytes [of 8 n] by (simp add: setuint64_def from_mpi_loop)

lemma setuint256_doc: "bn_documented bn \<Longrightarrow> setuint256 bn n = uint n"
proof -
  assume "bn_documented bn"
  moreover have "be_value (rev (le_bytes 32 (unat n))) = unat n"
    using unsigned_less [of n, where ?'a = nat] by (simp add: be_value_def le_value_le_bytes)
  ultimately show ?thesis by (simp add: setuint256_def from_mpi_loop)
qed

lemma uint_minus_of_negative:
  fixes n :: u64
  assumes "n <s 0"
  shows "int (unat (- n)) = - sint n"
proof -
  have neg: "sint n < 0" using assms by (simp add: word_sless_alt)
  have lo: "- (2 ^ 63) \<le> sint n" using sint_ge [of n] by simp
  have "uint n = sint n mod 2 ^ 64" by (simp add: uint_sint take_bit_eq_mod)
  also have "\<dots> = (sint n + 2 ^ 64) mod 2 ^ 64" by simp
  also have "\<dots> = sint n + 2 ^ 64" using lo neg by (intro mod_pos_pos_trivial) simp_all
  finally have u: "uint n = sint n + 2 ^ 64" .
  have "uint (- n) = (- uint n) mod 2 ^ 64" by (simp add: uint_word_ariths)
  also have "- uint n = - sint n + 2 ^ 64 * (- 1)" unfolding u by simp
  also have "\<dots> mod 2 ^ 64 = (- sint n) mod 2 ^ 64" by (rule mod_mult_self2)
  also have "\<dots> = - sint n" using lo neg by (intro mod_pos_pos_trivial) simp_all
  finally show ?thesis by simp
qed

lemma setint64_doc:
  assumes "bn_documented bn"
  shows "setint64 bn n = sint n"
proof (cases "n <s 0")
  case True
  then show ?thesis
    using be_value_shift_bytes [of 8 "- n"] uint_minus_of_negative [OF True]
    by (simp add: setint64_def from_mpi_loop [OF assms])
next
  case False
  then have nn: "0 \<le> sint n" by (simp add: word_sless_alt)
  have "sint n < 2 ^ 63" using sint_lt [of n] by simp
  then have "uint n = sint n"
    using nn by (simp add: uint_sint take_bit_eq_mod)
  then show ?thesis
    using False be_value_shift_bytes [of 8 n]
    by (simp add: setint64_def from_mpi_loop [OF assms])
qed

lemma bn_of_int_doc:
  assumes "bn_documented bn"
  shows "bn_of_int32 bn a = sint a" and "bn_of_int64 bn b = sint b"
proof -
  have "BN_set_word bn w = uint w" for w using assms by (simp add: bn_documented_def)
  moreover have "uint (ucast a :: u64) = sint a" if "0 \<le>s a"
  proof -
    have "0 \<le> sint a" using that by (simp add: word_sle_eq)
    moreover have "sint a < 2 ^ 31" using sint_lt [of a] by simp
    ultimately have "uint a = sint a" by (simp add: uint_sint take_bit_eq_mod)
    moreover have "uint a < 2 ^ 32" "0 \<le> uint a" using uint_lt2p [of a] by simp_all
    ultimately show ?thesis by (simp add: unsigned_ucast_eq take_bit_int_eq_self_iff)
  qed
  moreover have "sint (scast a :: u64) = sint a" using sint_ge [of a] sint_lt [of a] by (simp add: signed_scast_eq signed_take_bit_int_eq_self_iff)
  ultimately show "bn_of_int32 bn a = sint a" by (simp add: bn_of_int32_def setulong_def setint64_doc [OF assms])
  show "bn_of_int64 bn b = sint b" by (simp add: bn_of_int64_def setint64_doc [OF assms])
qed

section \<open>Canonical bodies\<close>

lemma be_value_less: "be_value bs < 256 ^ length bs"
  using le_value_less [of "rev bs"] by (simp add: be_value_def)

lemma be_value_ge: "b \<noteq> 0 \<Longrightarrow> 256 ^ length bs \<le> be_value (b # bs)"
proof -
  assume "b \<noteq> 0"
  then have "1 \<le> unat b" by (simp add: Suc_le_eq unat_gt_0)
  then have "1 * 256 ^ length bs \<le> unat b * 256 ^ length bs" by (rule mult_right_mono) simp
  then show ?thesis unfolding be_value_Cons by linarith
qed

lemma be_value_inject:
  assumes "length xs = length ys" and "be_value xs = be_value ys"
  shows "xs = ys"
proof -
  have "rev xs = le_bytes (length (rev xs)) (le_value (rev xs))" by (rule le_bytes_le_value [symmetric])
  also have "\<dots> = le_bytes (length (rev ys)) (le_value (rev ys))"
    using assms by (simp only: be_value_def length_rev)
  also have "\<dots> = rev ys" by (rule le_bytes_le_value)
  finally have "rev xs = rev ys" .
  then show ?thesis by simp
qed

lemma be_value_unique:
  assumes "be_value (x # xs) = be_value (y # ys)" and "x \<noteq> 0" and "y \<noteq> 0"
  shows "x # xs = y # ys"
proof -
  have pow: "a < Suc b" if "(256::nat) ^ a < 256 ^ Suc b" for a b
    using that power_strict_increasing_iff [of "256::nat" a "Suc b"] by simp
  have "(256::nat) ^ length xs < 256 ^ Suc (length ys)" "(256::nat) ^ length ys < 256 ^ Suc (length xs)"
    using be_value_ge [OF assms(2), of xs] be_value_ge [OF assms(3), of ys]
      be_value_less [of "x # xs"] be_value_less [of "y # ys"] assms(1) by simp_all
  then have "length xs = length ys"
    using pow [of "length xs" "length ys"] pow [of "length ys" "length xs"] by simp
  then show ?thesis using assms(1) by (intro be_value_inject) simp_all
qed

lemma be_minimal_be_value: "b \<noteq> 0 \<Longrightarrow> be_minimal (be_value (b # bs)) = b # bs"
proof -
  assume b: "b \<noteq> 0"
  show ?thesis
  proof (cases "be_minimal (be_value (b # bs))")
    case Nil
    then have "be_value (b # bs) = 0" using be_value_minimal [of "be_value (b # bs)"] by simp
    moreover have "0 < (256::nat) ^ length bs" by simp
    ultimately show ?thesis using be_value_ge [OF b, of bs] by linarith
  next
    case (Cons c cs)
    then have "c \<noteq> 0" by (rule be_minimal_head)
    moreover have "be_value (c # cs) = be_value (b # bs)"
      using Cons be_value_minimal [of "be_value (b # bs)"] by simp
    ultimately show ?thesis using Cons be_value_unique b by metis
  qed
qed

definition mpi_canonical :: "byte list \<Rightarrow> bool" where
  "mpi_canonical bs \<longleftrightarrow>
     (case bs of [] \<Rightarrow> True
      | b # rest \<Rightarrow> b AND 0x7f \<noteq> 0 \<or> (case rest of [] \<Rightarrow> False | c # _ \<Rightarrow> c AND 0x80 \<noteq> 0))"

lemma mpi_canonical_body [simp]: "mpi_canonical (mpi_body v)"
proof (cases "be_minimal (nat \<bar>v\<bar>)")
  case Nil
  then show ?thesis by (simp add: mpi_canonical_def mpi_body_def)
next
  case (Cons b rest)
  then have "b \<noteq> 0" by (rule be_minimal_head)
  have "b AND 0x7f \<noteq> 0" if "b AND 0x80 = 0"
  proof
    assume "b AND 0x7f = 0"
    then have "(b OR 0x80) AND 0x7f = 0" by (simp add: bit.conj_disj_distrib2)
    with byte_sign_clear [OF that] \<open>b \<noteq> 0\<close> show False by simp
  qed
  moreover have "(b OR 0x80) AND 0x7f = b" if "b AND 0x80 = 0"
    using that by (rule byte_sign_clear)
  ultimately show ?thesis
    using Cons \<open>b \<noteq> 0\<close> by (auto simp: mpi_canonical_def mpi_body_def)
qed

lemma byte_split: "(b :: byte) AND 0x80 \<noteq> 0 \<Longrightarrow> (b AND 0x7f) OR 0x80 = b"
  unfolding byte_sign_iff
proof (rule bit_word_eqI)
  fix q
  assume "\<not> \<not> bit b 7" and "q < LENGTH(8)"
  then show "bit ((b AND 0x7f) OR 0x80) q = bit b q"
    by (cases "q = 7") (auto simp only: bit_and_iff bit_or_iff bit_byte_consts len_num1 len_bit0)
qed

lemma byte_clear_sign: "((b :: byte) AND 0x7f) AND 0x80 = 0"
  unfolding byte_sign_iff by (simp only: bit_and_iff bit_byte_consts) simp

lemma byte_low_sign: "(b :: byte) AND 0x80 \<noteq> 0 \<Longrightarrow> b AND 0x7f = 0 \<Longrightarrow> b = 0x80"
  using byte_split [of b] by simp

lemma byte_no_sign: "(b :: byte) AND 0x80 = 0 \<Longrightarrow> b AND 0x7f = b"
  unfolding byte_sign_iff
proof (rule bit_word_eqI)
  fix q
  assume "\<not> bit b 7" and "q < LENGTH(8)"
  then show "bit (b AND 0x7f) q = bit b q"
    by (cases "q = 7") (auto simp only: bit_and_iff bit_byte_consts len_num1 len_bit0)
qed

lemma byte_sign_nonzero: "(c :: byte) AND 0x80 \<noteq> 0 \<Longrightarrow> c \<noteq> 0"
  by auto

lemma mpi_body_value:
  assumes "mpi_canonical bs"
  shows "mpi_body (mpi_value bs) = bs"
proof (cases bs)
  case Nil
  then show ?thesis by (simp add: mpi_value_def mpi_body_def)
next
  case (Cons b rest)
  let ?low = "b AND 0x7f"
  consider (low) "?low \<noteq> 0" | (ext) c cs where "?low = 0" "rest = c # cs" "c AND 0x80 \<noteq> 0"
    using assms Cons by (auto simp: mpi_canonical_def split: list.splits)
  then show ?thesis
  proof cases
    case low
    have val: "mpi_value bs = (if b AND 0x80 \<noteq> 0 then - int (be_value (?low # rest)) else int (be_value (?low # rest)))"
      using Cons byte_no_sign [of b] by (simp add: mpi_value_def)
    have "0 < be_value (?low # rest)"
      using be_value_ge [OF low, of rest] by (rule less_le_trans [rotated]) simp
    with val have "mpi_body (mpi_value bs) =
       (if b AND 0x80 \<noteq> 0 then (?low OR 0x80) # rest else ?low # rest)"
      using be_minimal_be_value [OF low, of rest] by (simp add: mpi_body_def byte_clear_sign)
    then show ?thesis using Cons byte_split [of b] byte_no_sign [of b] by (simp split: if_splits)
  next
    case ext
    have "c \<noteq> 0" using ext(3) by (rule byte_sign_nonzero)
    have pos: "0 < be_value (c # cs)"
      using be_value_ge [OF \<open>c \<noteq> 0\<close>, of cs] by (rule less_le_trans [rotated]) simp
    have val: "mpi_value bs = (if b AND 0x80 \<noteq> 0 then - int (be_value (c # cs)) else int (be_value (c # cs)))"
    proof (cases "b AND 0x80 = 0")
      case True
      with ext(1) have "b = 0" using byte_no_sign [of b] by simp
      then show ?thesis using Cons ext(2) by (simp add: mpi_value_def be_value_zero)
    next
      case False
      then show ?thesis using Cons ext by (simp add: mpi_value_def be_value_zero)
    qed
    have "mpi_body (mpi_value bs) = (if b AND 0x80 \<noteq> 0 then 0x80 else 0) # c # cs"
      using be_minimal_be_value [OF \<open>c \<noteq> 0\<close>, of cs] pos ext(3) unfolding val by (simp add: mpi_body_def)
    then show ?thesis
      using Cons ext byte_low_sign [of b] byte_no_sign [of b] by (simp split: if_splits)
  qed
qed

section \<open>The compact form keeps the top three bytes\<close>

definition compact_word :: "nat \<Rightarrow> byte \<Rightarrow> byte \<Rightarrow> byte \<Rightarrow> u32" where
  "compact_word n a b c =
     push_bit 24 (word_of_nat n) OR push_bit 16 (ucast a) OR push_bit 8 (ucast b) OR ucast c"

lemma byte_bit_high: "8 \<le> q \<Longrightarrow> \<not> bit (b :: byte) q"
  using bit_imp_le_length [of b q] by auto

lemma compact_word_bytes:
  assumes "n < 256"
  shows "ucast (drop_bit 16 (compact_word n a b c)) = a"
    and "ucast (drop_bit 8 (compact_word n a b c)) = b"
    and "ucast (compact_word n a b c) = c"
    and "unat (drop_bit 24 (compact_word n a b c)) = n"
    and "bit (compact_word n a b c) 31 \<longleftrightarrow> bit n 7"
proof -
  have nb: "\<not> bit n q" if "8 \<le> q" for q
  proof -
    have "n < 2 ^ q" using assms that power_increasing [of 8 q "2::nat"] by simp
    then show ?thesis by (simp add: bit_iff_odd)
  qed
  have bit: "bit (compact_word n a b c) q \<longleftrightarrow> q < 32 \<and>
      (if 24 \<le> q then bit n (q - 24) else if 16 \<le> q then bit a (q - 16)
       else if 8 \<le> q then bit b (q - 8) else bit c q)" for q
    using byte_bit_high [of "q - 16" a] byte_bit_high [of "q - 8" b] byte_bit_high [of q c]
    by (auto simp: compact_word_def bit_simps possible_bit_def)
  show "bit (compact_word n a b c) 31 \<longleftrightarrow> bit n 7" by (simp add: bit)
  show "ucast (drop_bit 16 (compact_word n a b c)) = a"
    by (rule bit_word_eqI) (simp add: bit_simps bit)
  show "ucast (drop_bit 8 (compact_word n a b c)) = b"
    by (rule bit_word_eqI) (simp add: bit_simps bit)
  show "ucast (compact_word n a b c) = c"
    by (rule bit_word_eqI) (simp add: bit_simps bit)
  have "drop_bit 24 (compact_word n a b c) = word_of_nat n"
    using nb by (intro bit_word_eqI) (auto simp add: bit_simps bit not_less [symmetric] intro: ccontr)
  then show "unat (drop_bit 24 (compact_word n a b c)) = n"
    using assms by (simp add: unat_word_of_nat_small)
qed

lemma GetCompact_doc:
  assumes "bn_documented bn"
  shows "GetCompact bn v =
    (let bs = mpi_body v @ [0, 0, 0] in compact_word (length (mpi_body v)) (bs ! 0) (bs ! 1) (bs ! 2))"
proof -
  consider "mpi_body v = []" | a where "mpi_body v = [a]" | a b where "mpi_body v = [a, b]"
    | a b c cs where "mpi_body v = a # b # c # cs"
    by (metis list.exhaust)
  then show ?thesis
    by cases (simp_all add: GetCompact_def bn_doc_bn2mpi [OF assms] compact_word_def Let_def or.assoc)
qed

lemma compact_bytes_GetCompact:
  assumes "bn_documented bn" and "length (mpi_body v) < 128"
  shows "\<not> bit (GetCompact bn v) 31"
    and "compact_bytes (GetCompact bn v) =
      be_size (length (mpi_body v)) @ take 3 (mpi_body v) @ replicate (length (mpi_body v) - 3) 0"
proof -
  let ?n = "length (mpi_body v)"
  have "\<not> bit ?n 7" using assms(2) by (simp add: bit_iff_odd)
  then show "\<not> bit (GetCompact bn v) 31"
    using assms by (simp add: GetCompact_doc Let_def compact_word_bytes)
  consider "mpi_body v = []" | a where "mpi_body v = [a]" | a b where "mpi_body v = [a, b]"
    | a b c cs where "mpi_body v = a # b # c # cs"
    by (metis list.exhaust)
  then show "compact_bytes (GetCompact bn v) =
      be_size (length (mpi_body v)) @ take 3 (mpi_body v) @ replicate (length (mpi_body v) - 3) 0"
    using assms(2)
    by cases (simp_all add: GetCompact_doc [OF assms(1)] compact_bytes_def compact_word_bytes Let_def numeral_3_eq_3 numeral_2_eq_2)
qed

lemma SetCompact_GetCompact:
  assumes "bn_documented bn" and "length (mpi_body v) < 128"
  shows "SetCompact bn (GetCompact bn v) =
    Some (mpi_value (take 3 (mpi_body v) @ replicate (length (mpi_body v) - 3) 0))"
proof -
  let ?bs = "take 3 (mpi_body v) @ replicate (length (mpi_body v) - 3) 0"
  have len: "length ?bs = length (mpi_body v)" by simp
  have "BN_mpi2bn bn (be_size (length ?bs) @ ?bs) = mpi_value ?bs"
    using assms(2) by (intro bn_doc_mpi2bn [OF assms(1)]) (simp only: len, simp)
  then show ?thesis
    using compact_bytes_GetCompact [OF assms] unfolding len by (simp add: SetCompact_def)
qed

lemma be_value_take:
  "be_value (take k bs @ replicate (length bs - k) 0) =
     be_value bs div 256 ^ (length bs - k) * 256 ^ (length bs - k)"
proof -
  have ap: "be_value (xs @ ys) = be_value xs * 256 ^ length ys + be_value ys" for xs ys
    by (induction xs) (simp_all add: be_value_Cons power_add algebra_simps)
  have z: "be_value (replicate m 0) = 0" for m by (induction m) simp_all
  have "be_value bs = be_value (take k bs) * 256 ^ (length bs - k) + be_value (drop k bs)"
    using ap [of "take k bs" "drop k bs"] by simp
  moreover have "be_value (drop k bs) < 256 ^ (length bs - k)"
    using be_value_less [of "drop k bs"] by simp
  ultimately have "be_value bs div 256 ^ (length bs - k) = be_value (take k bs)" by simp
  then show ?thesis by (simp add: ap z)
qed

lemma mpi_value_take:
  assumes "0 < k"
  shows "mpi_value (take k bs @ replicate (length bs - k) 0) =
    sgn (mpi_value bs) * (\<bar>mpi_value bs\<bar> div 256 ^ (length bs - k) * 256 ^ (length bs - k))"
proof (cases bs)
  case Nil
  then show ?thesis by (simp add: mpi_value_def)
next
  case (Cons b rest)
  obtain j where k: "k = Suc j" using assms by (cases k) auto
  define h where "h = (if b AND 0x80 \<noteq> 0 then b AND 0x7f else b)"
  define d where "d = length bs - k"
  have T: "be_value (h # take j rest @ replicate d 0) = be_value (h # rest) div 256 ^ d * 256 ^ d"
    using be_value_take [of k "h # rest"] by (simp add: k Cons d_def)
  have v: "mpi_value (b # xs) = (if b AND 0x80 \<noteq> 0 then - int (be_value (h # xs)) else int (be_value (h # xs)))" for xs
    by (simp add: mpi_value_def h_def)
  have L: "take k bs @ replicate (length bs - k) 0 = b # (take j rest @ replicate d 0)"
    by (simp add: Cons k d_def)
  show ?thesis
    unfolding L unfolding d_def [symmetric] unfolding Cons v T
    by (auto simp: zdiv_int sgn_if)
qed

lemma mpi_canonical_take:
  assumes "mpi_canonical bs" and "2 \<le> k"
  shows "mpi_canonical (take k bs @ replicate (length bs - k) 0)"
proof -
  obtain j where k: "k = Suc (Suc j)" using assms(2) by (metis Suc_le_D numeral_2_eq_2 Suc_le_mono)
  show ?thesis
  proof (cases bs)
    case (Cons b rest)
    then show ?thesis using assms(1) by (cases rest) (auto simp: k mpi_canonical_def split: list.splits)
  qed (simp add: mpi_canonical_def)
qed

text \<open>For every number of fewer than 128 bytes, reading its compact form back gives the
  number with all but its three most significant bytes (sign bit included) cleared.\<close>

theorem compact_truncates:
  assumes "bn_documented bn" and "length (mpi_body v) < 128"
  shows "SetCompact bn (GetCompact bn v) =
    Some (let d = length (mpi_body v) - 3 in sgn v * (\<bar>v\<bar> div 256 ^ d * 256 ^ d))"
  using SetCompact_GetCompact [OF assms] mpi_value_take [of 3 "mpi_body v"] by (simp add: Let_def)

theorem compact_truncates_witness:
  "SetCompact ref_bn (GetCompact ref_bn 0x12345678) = Some 0x12345600"
proof -
  have h: "length (mpi_body 0x12345678) = 4" by (simp add: mpi_body_def be_minimal.simps)
  show ?thesis
    using compact_truncates [OF ref_bn_documented, of "0x12345678"] by (simp add: h)
qed

text \<open>The compact form of a target is a fixed point: a node that reads a compact target and
  writes it again writes the same 32 bits, for every number of fewer than 128 bytes, of either sign.\<close>

theorem compact_idempotent:
  assumes "bn_documented bn" and "length (mpi_body v) < 128"
  shows "map_option (GetCompact bn) (SetCompact bn (GetCompact bn v)) = Some (GetCompact bn v)"
proof -
  let ?n = "length (mpi_body v)" and ?bs = "take 3 (mpi_body v) @ replicate (length (mpi_body v) - 3) 0"
  have "mpi_body (mpi_value ?bs) = ?bs"
    by (intro mpi_body_value mpi_canonical_take) simp_all
  moreover have "(?bs @ [0, 0, 0]) ! i = (mpi_body v @ [0, 0, 0]) ! i" if "i < 3" for i
    using that by (auto simp: nth_append nth_replicate)
  moreover have "length ?bs = ?n" by simp
  ultimately have "GetCompact bn (mpi_value ?bs) = GetCompact bn v"
    by (simp add: GetCompact_doc [OF assms(1)] Let_def)
  then show ?thesis by (simp only: SetCompact_GetCompact [OF assms] option.map)
qed

theorem compact_idempotent_witness:
  "map_option (GetCompact ref_bn) (SetCompact ref_bn (GetCompact ref_bn (-0x80))) = Some 0x02808000"
proof -
  have h: "mpi_body (-0x80) = [0x80, 0x80]" by (simp add: mpi_body_def be_minimal.simps)
  then have "GetCompact ref_bn (-0x80) = 0x02808000"
    by (simp add: GetCompact_doc [OF ref_bn_documented] compact_word_def)
  then show ?thesis using compact_idempotent [OF ref_bn_documented, of "-0x80"] h by simp
qed

section \<open>Text\<close>

text \<open>\<open>toString\<close> divides until nothing is left, one digit a round; \<open>fuel\<close> bounds the rounds.
  \<open>SetHex\<close> reads a C string.\<close>

datatype bignum_error = Bn_div_failed | Bad_digit | No_fuel

definition digit_chars :: string where
  "digit_chars = ''0123456789abcdef''"

fun toString_loop :: "nat \<Rightarrow> bn_lib \<Rightarrow> int \<Rightarrow> int \<Rightarrow> string \<Rightarrow> bignum_error + string" where
  "toString_loop fuel bn bnBase b str =
     (if \<not> BN_cmp bn b 0 > 0 then Inr str
      else case fuel of 0 \<Rightarrow> Inl No_fuel
      | Suc fuel \<Rightarrow>
          (case BN_div bn b bnBase of None \<Rightarrow> Inl Bn_div_failed
           | Some (dv, rm) \<Rightarrow>
               (let c = unat (getulong bn rm)
                in if c < length digit_chars then toString_loop fuel bn bnBase dv (str @ [digit_chars ! c])
                   else Inl Bad_digit)))"

declare toString_loop.simps [simp del]

definition toString :: "nat \<Rightarrow> bn_lib \<Rightarrow> int \<Rightarrow> int \<Rightarrow> bignum_error + string" where
  "toString fuel bn v nBase =
     (if BN_cmp bn \<bar>v\<bar> 0 = 0 then Inr ''0''
      else and_then (toString_loop fuel bn nBase \<bar>v\<bar> [])
        (\<lambda>str. Inr (rev (if v < 0 then str @ ''-'' else str))))"

definition GetHex :: "nat \<Rightarrow> bn_lib \<Rightarrow> int \<Rightarrow> bignum_error + string" where
  "GetHex fuel bn v = toString fuel bn v 16"

definition isspace :: "char \<Rightarrow> bool" where
  "isspace c \<longleftrightarrow> c \<in> {CHR '' '', CHR 0x09, CHR 0x0A, CHR 0x0B, CHR 0x0C, CHR 0x0D}"

definition isxdigit :: "char \<Rightarrow> bool" where
  "isxdigit c \<longleftrightarrow> c \<in> set ''0123456789abcdefABCDEF''"

definition phexdigit :: "char \<Rightarrow> int" where
  "phexdigit c =
     (let n = of_char c :: int
      in if 48 \<le> n \<and> n \<le> 57 then n - 48 else if 97 \<le> n \<and> n \<le> 102 then n - 87
         else if 65 \<le> n \<and> n \<le> 70 then n - 55 else 0)"

fun hex_loop :: "bn_lib \<Rightarrow> int \<Rightarrow> string \<Rightarrow> int" where
  "hex_loop bn v [] = v"
| "hex_loop bn v (c # cs) =
     (if isxdigit c then hex_loop bn (BN_add bn (BN_lshift bn v 4) (phexdigit c)) cs else v)"

definition SetHex :: "bn_lib \<Rightarrow> string \<Rightarrow> int" where
  "SetHex bn str =
     (let psz = dropWhile isspace str;
          fNegative = (case psz of c # _ \<Rightarrow> c = CHR ''-'' | [] \<Rightarrow> False);
          psz = (if fNegative then tl psz else psz);
          psz = (case psz of c # d # rest \<Rightarrow>
                   if c = CHR ''0'' \<and> (d = CHR ''x'' \<or> d = CHR ''X'') then rest else psz
                 | _ \<Rightarrow> psz);
          psz = dropWhile isspace psz;
          v = hex_loop bn 0 psz
      in if fNegative then BN_sub bn 0 v else v)"

fun hexs :: "nat \<Rightarrow> string" where
  "hexs n = (if n = 0 then [] else hexs (n div 16) @ [digit_chars ! (n mod 16)])"

declare hexs.simps [simp del]

lemma hexs_0 [simp]: "hexs 0 = []"
  by (simp add: hexs.simps)

lemma digit_induct:
  assumes "n < (16::nat)" and "list_all P [0..<16]"
  shows "P n"
  using assms by (simp only: list_all_iff set_upt atLeastLessThan_iff) simp

lemma phexdigit_digit: "n < 16 \<Longrightarrow> isxdigit (digit_chars ! n) \<and> phexdigit (digit_chars ! n) = int n"
  by (erule digit_induct) (simp add: digit_chars_def isxdigit_def phexdigit_def upt_rec)

lemma digit_plain: "n < 16 \<Longrightarrow> \<not> isspace (digit_chars ! n) \<and> digit_chars ! n \<noteq> CHR ''-'' \<and>
   (n \<noteq> 0 \<longrightarrow> digit_chars ! n \<noteq> CHR ''0'')"
  by (erule digit_induct) (simp add: digit_chars_def isspace_def upt_rec)

lemma hex_loop_append:
  "\<forall>c\<in>set xs. isxdigit c \<Longrightarrow> hex_loop bn v (xs @ ys) = hex_loop bn (hex_loop bn v xs) ys"
  by (induction xs arbitrary: v) simp_all

lemma hexs_digits: "\<forall>c\<in>set (hexs n). isxdigit c"
proof (induction n rule: hexs.induct)
  case (1 n)
  then show ?case
    using phexdigit_digit [of "n mod 16"] by (cases "n = 0") (simp_all add: hexs.simps [of n])
qed

lemma hex_loop_hexs:
  assumes "bn_documented bn"
  shows "hex_loop bn 0 (hexs n) = int n"
proof (induction n rule: hexs.induct)
  case (1 n)
  then show ?case
    using phexdigit_digit [of "n mod 16"] hex_loop_append [OF hexs_digits, of bn 0 "n div 16"]
    by (cases "n = 0") (simp_all add: hexs.simps [of n] bn_doc_arith [OF assms] zdiv_int zmod_int)
qed

lemma hexs_head: "0 < n \<Longrightarrow> \<exists>m cs. hexs n = digit_chars ! m # cs \<and> 0 < m \<and> m < 16"
proof (induction n rule: hexs.induct)
  case (1 n)
  show ?case
  proof (cases "n div 16 = 0")
    case True
    then have "n < 16" by (simp add: div_eq_0_iff)
    with 1(2) show ?thesis by (intro exI [of _ n] exI [of _ "[]"]) (simp add: hexs.simps [of n])
  next
    case False
    with 1 obtain m cs where "hexs (n div 16) = digit_chars ! m # cs" "0 < m" "m < 16" by auto
    with 1(2) show ?thesis
      by (intro exI [of _ m] exI [of _ "cs @ [digit_chars ! (n mod 16)]"]) (simp add: hexs.simps [of n])
  qed
qed

lemma toString_loop_hexs:
  assumes "bn_documented bn" and "n < 16 ^ fuel"
  shows "toString_loop fuel bn 16 (int n) str = Inr (str @ rev (hexs n))"
  using assms(2)
proof (induction fuel arbitrary: n str)
  case 0
  then show ?case by (simp add: toString_loop.simps bn_doc_arith [OF assms(1)])
next
  case (Suc fuel)
  show ?case
  proof (cases "n = 0")
    case True
    then show ?thesis by (simp add: toString_loop.simps bn_doc_arith [OF assms(1)])
  next
    case False
    have d: "BN_div bn (int n) 16 = Some (int (n div 16), int (n mod 16))"
      using False by (simp add: bn_doc_arith [OF assms(1)] bn_quot_def bn_rem_def zdiv_int zmod_int)
    have w: "unat (getulong bn (int (n mod 16))) = n mod 16"
    proof -
      define r where "r = n mod 16"
      have "r < 16" by (simp add: r_def)
      then show ?thesis unfolding r_def [symmetric]
        by (simp add: getulong_def bn_doc_arith [OF assms(1)] unat_word_of_nat_small)
    qed
    have l: "length digit_chars = 16" by (simp add: digit_chars_def)
    have "n div 16 < 16 ^ fuel" using Suc.prems by (simp add: div_less_iff_less_mult mult.commute)
    then show ?thesis
      using False Suc.IH [of "n div 16"]
      by (simp add: toString_loop.simps [of "Suc fuel"] d w l hexs.simps [of n] bn_doc_arith(7) [OF assms(1)])
  qed
qed

lemma SetHex_plain:
  assumes "bn_documented bn" and "\<not> isspace d" "d \<noteq> CHR ''-''" "d \<noteq> CHR ''0''"
  shows "SetHex bn (d # cs) = hex_loop bn 0 (d # cs)"
    and "SetHex bn (CHR ''-'' # d # cs) = - hex_loop bn 0 (d # cs)"
  using assms(2-4)
  by (simp_all add: SetHex_def bn_doc_arith(2) [OF assms(1)] isspace_def Let_def del: hex_loop.simps split: list.splits)

text \<open>Every integer survives its hexadecimal text. With \<open>fuel\<close> rounds for a number of at
  most \<open>fuel\<close> hexadecimal digits, \<open>GetHex\<close> returns a text, and \<open>SetHex\<close> reads the same
  integer from it, sign included.\<close>

theorem hex_roundtrip:
  assumes "bn_documented bn" and "nat \<bar>v\<bar> < 16 ^ fuel"
  shows "\<exists>s. GetHex fuel bn v = Inr s \<and> SetHex bn s = v"
proof (cases "v = 0")
  case True
  then show ?thesis
    by (simp add: GetHex_def toString_def SetHex_def bn_doc_arith [OF assms(1)] isspace_def isxdigit_def phexdigit_def)
next
  case False
  define n where "n = nat \<bar>v\<bar>"
  have n: "\<bar>v\<bar> = int n" "0 < n" using False by (auto simp: n_def)
  obtain m cs where h: "hexs n = digit_chars ! m # cs" "0 < m" "m < 16" using hexs_head [OF n(2)] by auto
  have g: "GetHex fuel bn v = Inr ((if v < 0 then ''-'' else []) @ hexs n)"
    using toString_loop_hexs [OF assms(1), of n fuel "[]"] assms(2) False n(2)
    by (simp add: GetHex_def toString_def n(1) n_def [symmetric] bn_doc_arith(7) [OF assms(1)])
  have "SetHex bn ((if v < 0 then ''-'' else []) @ hexs n) = v"
    using SetHex_plain [OF assms(1), of "digit_chars ! m" cs] digit_plain [OF h(3)] h(2)
      hex_loop_hexs [OF assms(1), of n] n unfolding h(1) by (cases "v < 0") simp_all
  with g show ?thesis by blast
qed

theorem hex_roundtrip_witness: "\<exists>s. GetHex 3 ref_bn (-300) = Inr s \<and> SetHex ref_bn s = -300"
  by (rule hex_roundtrip [OF ref_bn_documented]) simp

section \<open>Into a 256-bit hash\<close>

lemma be_value_unsigned_body:
  "be_value (case mpi_body v of [] \<Rightarrow> [] | b # rest \<Rightarrow> (b AND 0x7f) # rest) = nat \<bar>v\<bar>"
proof -
  have "nat \<bar>mpi_value (mpi_body v)\<bar> =
    be_value (case mpi_body v of [] \<Rightarrow> [] | b # rest \<Rightarrow> (b AND 0x7f) # rest)"
    by (cases "mpi_body v") (auto simp: mpi_value_def byte_no_sign)
  then show ?thesis by simp
qed

lemma le_value_take: "le_value (take k bs) = le_value bs mod 256 ^ k"
proof (cases "k \<le> length bs")
  case True
  have "le_value bs = le_value (take k bs) + 256 ^ k * le_value (drop k bs)"
    using le_value_append [of "take k bs" "drop k bs"] True by (simp add: min_absorb2)
  moreover have "le_value (take k bs) < 256 ^ k"
    using le_value_less [of "take k bs"] True by (simp add: min_absorb2)
  ultimately show ?thesis by simp
next
  case False
  have "le_value bs < 256 ^ length bs" by (rule le_value_less)
  also have "(256::nat) ^ length bs \<le> 256 ^ k" using False by (simp add: power_increasing)
  finally show ?thesis using False by simp
qed

lemma word_of_nat_mod: "(word_of_nat (n mod 2 ^ LENGTH('a::len)) :: 'a word) = word_of_nat n"
  by (rule word_unat_eq_iff [THEN iffD2]) (simp only: unat_of_nat mod_mod_trivial)

text \<open>\<open>getuint256\<close> keeps the absolute value modulo \<open>2 ^ 256\<close>: it inverts \<open>setuint256\<close>,
  and a negative number gives the hash of its opposite, not its two's complement.\<close>

theorem getuint256_abs:
  assumes "bn_documented bn"
  shows "getuint256 bn v = word_of_int \<bar>v\<bar> \<and> getuint256 bn (setuint256 bn n) = n"
proof -
  have a: "getuint256 bn v = word_of_int \<bar>v\<bar>" for v
  proof -
    let ?u = "case mpi_body v of [] \<Rightarrow> [] | b # rest \<Rightarrow> (b AND 0x7f) # rest"
    have "getuint256 bn v = word_of_nat (le_value (take 32 (rev ?u)))"
      by (simp add: getuint256_def bn_doc_bn2mpi [OF assms])
    also have "le_value (take 32 (rev ?u)) = nat \<bar>v\<bar> mod 256 ^ 32"
      by (simp only: le_value_take be_value_def [symmetric] be_value_unsigned_body)
    also have "(256::nat) ^ 32 = 2 ^ LENGTH(256)"
      by (simp only: len_num1 len_bit0) simp
    also have "(word_of_nat (nat \<bar>v\<bar> mod 2 ^ LENGTH(256)) :: uint256) = word_of_nat (nat \<bar>v\<bar>)"
      by (rule word_of_nat_mod)
    also have "\<dots> = word_of_int \<bar>v\<bar>" by simp
    finally show ?thesis .
  qed
  then show ?thesis by (simp add: setuint256_doc [OF assms])
qed

theorem getuint256_abs_witness: "getuint256 ref_bn (-5) = 5 \<and> getuint256 ref_bn (setuint256 ref_bn 7) = 7"
  using getuint256_abs [OF ref_bn_documented, of "-5" 7] by simp

end
