(* ===== verification/StdMap.thy ===== *)
theory StdMap
  imports Prelude
begin

text \<open>
  \<^verbatim>\<open>std::map\<close> and \<^verbatim>\<open>std::set\<close> as the code uses them: an association list in the
  order of the keys, which is the order of iteration. The interface the components rely on is the
  locale \<open>ordered_map\<close>; its laws are stated over the lookup function, so the clients' proofs
  never look at the list.
\<close>

fun sm_put :: "'k::linorder \<Rightarrow> 'v \<Rightarrow> ('k \<times> 'v) list \<Rightarrow> ('k \<times> 'v) list" where
  "sm_put k v [] = [(k, v)]"
| "sm_put k v ((k', v') # m) =
     (if k < k' then (k, v) # (k', v') # m
      else if k = k' then (k, v) # m
      else (k', v') # sm_put k v m)"

definition sm_erase :: "'k \<Rightarrow> ('k \<times> 'v) list \<Rightarrow> ('k \<times> 'v) list" where
  "sm_erase k m = filter (\<lambda>(k', v'). k' \<noteq> k) m"

definition sm_get :: "('k \<times> 'v) list \<Rightarrow> 'k \<Rightarrow> 'v option" where
  "sm_get m k = map_of m k"

definition sm_has :: "('k \<times> 'v) list \<Rightarrow> 'k \<Rightarrow> bool" where
  "sm_has m k \<longleftrightarrow> sm_get m k \<noteq> None"

text \<open>\<^verbatim>\<open>insert\<close> keeps an element that is there already; \<^verbatim>\<open>operator[]\<close> makes one.\<close>

definition sm_insert :: "'k::linorder \<Rightarrow> 'v \<Rightarrow> ('k \<times> 'v) list \<Rightarrow> ('k \<times> 'v) list" where
  "sm_insert k v m = (if sm_has m k then m else sm_put k v m)"

definition sm_at :: "'v \<Rightarrow> ('k \<times> 'v) list \<Rightarrow> 'k \<Rightarrow> 'v" where
  "sm_at dflt m k = (case sm_get m k of None \<Rightarrow> dflt | Some v \<Rightarrow> v)"

definition sm_ok :: "('k::linorder \<times> 'v) list \<Rightarrow> bool" where
  "sm_ok m \<longleftrightarrow> sorted_wrt (<) (map fst m)"

lemma sm_get_put [simp]: "sm_get (sm_put k v m) = (sm_get m)(k \<mapsto> v)"
proof
  fix x
  show "sm_get (sm_put k v m) x = ((sm_get m)(k \<mapsto> v)) x"
    by (induction k v m rule: sm_put.induct) (auto simp: sm_get_def)
qed

lemma sm_get_erase [simp]: "sm_get (sm_erase k m) = (sm_get m)(k := None)"
proof
  fix x
  show "sm_get (sm_erase k m) x = ((sm_get m)(k := None)) x"
    by (induction m) (auto simp: sm_get_def sm_erase_def)
qed

lemma sm_get_Nil [simp]: "sm_get [] = Map.empty"
  by (simp add: sm_get_def fun_eq_iff)

lemma set_fst_sm_put: "set (map fst (sm_put k v m)) = insert k (set (map fst m))"
  by (induction k v m rule: sm_put.induct) auto

lemma sm_ok_Nil [simp]: "sm_ok []"
  by (simp add: sm_ok_def)

lemma sm_ok_put [simp]: "sm_ok m \<Longrightarrow> sm_ok (sm_put k v m)"
proof (induction k v m rule: sm_put.induct)
  case (2 k v k' v' m)
  then show ?case
    using set_fst_sm_put [of k v m] by (auto simp: sm_ok_def)
qed (simp add: sm_ok_def)

lemma sm_ok_erase [simp]: "sm_ok m \<Longrightarrow> sm_ok (sm_erase k m)"
  by (induction m) (auto simp: sm_ok_def sm_erase_def)

lemma sm_ok_distinct: "sm_ok m \<Longrightarrow> distinct (map fst m)"
  by (auto simp: sm_ok_def strict_sorted_iff)

lemma sm_get_iff: "sm_ok m \<Longrightarrow> sm_get m k = Some v \<longleftrightarrow> (k, v) \<in> set m"
  using sm_ok_distinct [of m] by (simp add: sm_get_def)

lemma dom_sm_get: "dom (sm_get m) = set (map fst m)"
  by (simp add: sm_get_def [abs_def] dom_map_of_conv_image_fst)

lemma sm_has_iff: "sm_has m k \<longleftrightarrow> k \<in> set (map fst m)"
  using dom_sm_get [of m] by (auto simp: sm_has_def)

section \<open>The interface\<close>

locale ordered_map =
  fixes get :: "'m \<Rightarrow> 'k \<Rightarrow> 'v option"
    and put :: "'k \<Rightarrow> 'v \<Rightarrow> 'm \<Rightarrow> 'm"
    and erase :: "'k \<Rightarrow> 'm \<Rightarrow> 'm"
    and invar :: "'m \<Rightarrow> bool"
  assumes get_put: "invar m \<Longrightarrow> get (put k v m) = (get m)(k \<mapsto> v)"
    and get_erase: "invar m \<Longrightarrow> get (erase k m) = (get m)(k := None)"
    and invar_put: "invar m \<Longrightarrow> invar (put k v m)"
    and invar_erase: "invar m \<Longrightarrow> invar (erase k m)"
begin

lemma invar_fold_put: "invar m \<Longrightarrow> invar (fold (\<lambda>x. put (f x) (g x)) xs m)"
  by (induction xs arbitrary: m) (simp_all add: invar_put)

lemma invar_fold_erase: "invar m \<Longrightarrow> invar (fold (\<lambda>x. erase (f x)) xs m)"
  by (induction xs arbitrary: m) (simp_all add: invar_erase)

lemma get_fold_put_other:
  "invar m \<Longrightarrow> k \<notin> f ` set xs \<Longrightarrow> get (fold (\<lambda>x. put (f x) (g x)) xs m) k = get m k"
  by (induction xs arbitrary: m) (simp_all add: get_put invar_put)

lemma get_fold_put:
  "invar m \<Longrightarrow> x \<in> set xs \<Longrightarrow> inj_on f (set xs) \<Longrightarrow> get (fold (\<lambda>x. put (f x) (g x)) xs m) (f x) = Some (g x)"
proof (induction xs arbitrary: m)
  case (Cons y ys)
  show ?case
  proof (cases "x \<in> set ys")
    case True
    with Cons show ?thesis by (simp add: invar_put)
  next
    case False
    with Cons.prems have "x = y" "f y \<notin> f ` set ys" by (auto simp: inj_on_def)
    with Cons.prems show ?thesis
      using get_fold_put_other [of "put (f y) (g y) m" "f y" f ys g] by (simp add: get_put invar_put)
  qed
qed simp

lemma get_fold_erase:
  "invar m \<Longrightarrow> get (fold (\<lambda>x. erase (f x)) xs m) k = (if k \<in> f ` set xs then None else get m k)"
  by (induction xs arbitrary: m) (auto simp: get_erase invar_erase)

end

interpretation sm: ordered_map "sm_get :: ('k::linorder \<times> 'v) list \<Rightarrow> _" sm_put sm_erase sm_ok
  by unfold_locales simp_all

end
