(* ===== verification/BlockTree.thy ===== *)
theory BlockTree
  imports BigNum StdMap
begin

text \<open>
  The tree of blocks of \<^verbatim>\<open>include/coinChain/BlockTree.h\<close> and
  \<^verbatim>\<open>src/coinChain/BlockTree.cpp\<close>: the trunk is a vector, the branches a map, and
  \<^verbatim>\<open>_heights\<close> gives the height of every block, negative in a branch. An iterator is a
  pointer to an element, modelled by the element it points to, \<open>None\<close> being \<^verbatim>\<open>end()\<close>;
  no operation modelled here reads an element through an iterator after changing it. Heights are
  unbounded integers, which \<^verbatim>\<open>int\<close> stands for as long as a chain has fewer than
  \<open>2 ^ 31\<close> blocks.
\<close>

section \<open>The state\<close>

record blockref =
  ref_version :: u32
  ref_hash :: uint256
  ref_prev :: uint256
  ref_time :: u32
  ref_bits :: u32

definition null_ref :: blockref where
  "null_ref = \<lparr>ref_version = 3, ref_hash = 0, ref_prev = 0, ref_time = 0, ref_bits = 0\<rparr>"

record tree =
  branches :: "(uint256 \<times> blockref) list"
  heights :: "(uint256 \<times> int) list"
  trunk :: "blockref list"
  acc_work :: "int list"
  trimmed :: int

definition empty_tree :: tree where
  "empty_tree = \<lparr>branches = [], heights = [], trunk = [], acc_work = [], trimmed = 0\<rparr>"

record changes =
  deleted :: "uint256 list"
  inserted :: "uint256 list"

text \<open>
  \<open>Unknown_hash\<close>, \<open>Not_connected\<close> and \<open>Bad_trunk\<close> are the exceptions of the code;
  \<open>Out_of_range\<close> an access outside a vector or through a null pointer; \<open>Bad_bits\<close> a work
  that cannot be computed (see \<open>SetCompact\<close>); \<open>Diverges\<close> a loop that outlives its fuel.
\<close>

datatype tree_error = Unknown_hash | Not_connected | Bad_trunk | Out_of_range | Bad_bits | Diverges

definition blockref_work :: "bn_lib \<Rightarrow> blockref \<Rightarrow> tree_error + int" where
  "blockref_work bn r =
     (case SetCompact bn (ref_bits r) of
        None \<Rightarrow> Inl Bad_bits
      | Some target \<Rightarrow>
          if BN_cmp bn target 0 \<le> 0 then Inr 0
          else
            case BN_div bn (BN_lshift bn 1 256) (BN_add bn target 1) of
              None \<Rightarrow> Inl Bad_bits
            | Some (q, _) \<Rightarrow> Inr q)"

section \<open>The sparse tree\<close>

definition trunk_at :: "tree \<Rightarrow> int \<Rightarrow> tree_error + blockref" where
  "trunk_at st h =
     (if 0 \<le> h \<and> nat h < length (trunk st) then Inr (trunk st ! nat h) else Inl Out_of_range)"

definition tree_height :: "tree \<Rightarrow> int" where
  "tree_height st = int (length (trunk st)) - 1"

definition tree_count :: "tree \<Rightarrow> int" where
  "tree_count st = int (length (trunk st))"

definition height_of :: "tree \<Rightarrow> uint256 \<Rightarrow> tree_error + int" where
  "height_of st h = (case sm_get (heights st) h of None \<Rightarrow> Inl Unknown_hash | Some n \<Rightarrow> Inr n)"

definition count_of :: "tree \<Rightarrow> uint256 \<Rightarrow> tree_error + int" where
  "count_of st h = and_then (height_of st h) (\<lambda>n. Inr (\<bar>n\<bar> + 1))"

definition have_ref :: "tree \<Rightarrow> uint256 \<Rightarrow> bool" where
  "have_ref st h \<longleftrightarrow> sm_has (heights st) h"

definition find_ref :: "tree \<Rightarrow> uint256 \<Rightarrow> tree_error + blockref option" where
  "find_ref st h =
     (case sm_get (heights st) h of
        None \<Rightarrow> Inr None
      | Some n \<Rightarrow>
          if n < 0 then
            (case sm_get (branches st) h of None \<Rightarrow> Inl Out_of_range | Some e \<Rightarrow> Inr (Some e))
          else and_then (trunk_at st n) (\<lambda>e. Inr (Some e)))"

definition ref_at :: "tree \<Rightarrow> uint256 \<Rightarrow> tree_error + blockref" where
  "ref_at st h =
     and_then (height_of st h) (\<lambda>n.
       if n < 0 then (case sm_get (branches st) h of None \<Rightarrow> Inl Out_of_range | Some e \<Rightarrow> Inr e)
       else trunk_at st n)"

text \<open>The loop of \<open>advance\<close> for negative steps: \<open>k\<close> is the number of steps left. It returns the
  element reached and the steps it has not taken.\<close>

primrec back_loop :: "tree \<Rightarrow> nat \<Rightarrow> blockref \<Rightarrow> tree_error + blockref \<times> nat" where
  "back_loop st 0 i = Inr (i, 0)"
| "back_loop st (Suc k) i =
     and_then (height_of st (ref_hash i)) (\<lambda>h.
       if h < 0 then
         and_then
           (case sm_get (branches st) (ref_prev i) of
              Some e \<Rightarrow> Inr e
            | None \<Rightarrow>
                (case sm_get (heights st) (ref_prev i) of Some p \<Rightarrow> trunk_at st p | None \<Rightarrow> Inr i))
           (back_loop st k)
       else Inr (i, Suc k))"

definition advance :: "tree \<Rightarrow> blockref option \<Rightarrow> int \<Rightarrow> tree_error + blockref option" where
  "advance st it n =
     (case it of
        None \<Rightarrow> Inr None
      | Some i \<Rightarrow>
          if n > 0 then
            and_then (height_of st (ref_hash i)) (\<lambda>h.
              if h < 0 then Inr None
              else if h + n \<ge> int (length (trunk st)) then Inr None
              else and_then (trunk_at st (h + n)) (\<lambda>e. Inr (Some e)))
          else if n < 0 then
            and_then (back_loop st (nat (- n)) i) (\<lambda>(i, k).
              and_then (height_of st (ref_hash i)) (\<lambda>h.
                if h - int k \<ge> 0 then and_then (trunk_at st (h - int k)) (\<lambda>e. Inr (Some e))
                else Inr (Some i)))
          else Inr (Some i))"

text \<open>The iterator's \<^verbatim>\<open>--\<close> and the read of its element.\<close>

definition step_back :: "tree \<Rightarrow> blockref \<Rightarrow> tree_error + blockref" where
  "step_back st i =
     and_then (advance st (Some i) (- 1)) (\<lambda>it. case it of None \<Rightarrow> Inl Out_of_range | Some e \<Rightarrow> Inr e)"

fun assign_heights :: "uint256 \<Rightarrow> int \<Rightarrow> blockref list \<Rightarrow> (uint256 \<times> int) list \<Rightarrow> tree_error + (uint256 \<times> int) list" where
  "assign_heights before h [] hs = Inr hs"
| "assign_heights before h (r # rs) hs =
     (if ref_prev r \<noteq> before then Inl Bad_trunk
      else assign_heights (ref_hash r) (h + 1) rs (sm_put (ref_hash r) h hs))"

definition sparse_assign :: "tree \<Rightarrow> blockref list \<Rightarrow> tree_error + tree" where
  "sparse_assign st trk =
     (case trk of [] \<Rightarrow> Inr st
      | r # rs \<Rightarrow>
          and_then (assign_heights (ref_hash r) 1 rs (sm_put (ref_hash r) 0 (heights st)))
            (\<lambda>hs. Inr (st\<lparr>trunk := trk, heights := hs, branches := []\<rparr>)))"

section \<open>The block tree\<close>

fun assign_work :: "bn_lib \<Rightarrow> int \<Rightarrow> blockref list \<Rightarrow> tree_error + int list" where
  "assign_work bn wsum [] = Inr []"
| "assign_work bn wsum (r # rs) =
     and_then (blockref_work bn r) (\<lambda>w.
       and_then (assign_work bn (BN_add bn wsum w) rs) (\<lambda>ws. Inr (BN_add bn wsum w # ws)))"

text \<open>The work of block \<open>h\<close> is added to \<^verbatim>\<open>_acc_work[h-1]\<close>, whatever the vector held before
  the call; the model is of the call on a vector that is empty, as \<^verbatim>\<open>BlockChain\<close> makes it.\<close>

definition assign :: "bn_lib \<Rightarrow> tree \<Rightarrow> blockref list \<Rightarrow> tree_error + tree" where
  "assign bn st trk =
     and_then (sparse_assign st trk) (\<lambda>st.
       case trk of [] \<Rightarrow> Inr st
       | r # rs \<Rightarrow>
           if acc_work st \<noteq> [] then Inl Out_of_range
           else and_then (blockref_work bn r) (\<lambda>w.
             and_then (assign_work bn w rs) (\<lambda>ws. Inr (st\<lparr>acc_work := w # ws\<rparr>))))"

fun work_loop :: "nat \<Rightarrow> bn_lib \<Rightarrow> tree \<Rightarrow> blockref \<Rightarrow> int \<Rightarrow> tree_error + int" where
  "work_loop 0 bn st blk wsum = Inl Diverges"
| "work_loop (Suc fuel) bn st blk wsum =
     and_then (step_back st blk) (\<lambda>blk.
       and_then (height_of st (ref_hash blk)) (\<lambda>h.
         if h < 0 then and_then (blockref_work bn blk) (\<lambda>w. work_loop fuel bn st blk (BN_add bn wsum w))
         else if nat h < length (acc_work st) then Inr (BN_add bn wsum (acc_work st ! nat h))
         else Inl Out_of_range))"

text \<open>The height of a block bounds the steps back to the trunk.\<close>

definition accumulatedWork :: "bn_lib \<Rightarrow> tree \<Rightarrow> blockref \<Rightarrow> tree_error + int" where
  "accumulatedWork bn st blk =
     and_then (height_of st (ref_hash blk)) (\<lambda>h.
       if h < 0 then and_then (blockref_work bn blk) (\<lambda>w. work_loop (nat \<bar>h\<bar>) bn st blk w)
       else if nat h < length (acc_work st) then Inr (acc_work st ! nat h)
       else Inl Out_of_range)"

text \<open>\<^verbatim>\<open>while (blk.height() < 0) { inserted.push_back(blk->hash); --blk; }\<close>\<close>

fun crawl :: "nat \<Rightarrow> tree \<Rightarrow> blockref \<Rightarrow> uint256 list \<Rightarrow> tree_error + blockref \<times> uint256 list" where
  "crawl 0 st blk ins = Inl Diverges"
| "crawl (Suc fuel) st blk ins =
     and_then (height_of st (ref_hash blk)) (\<lambda>h.
       if h < 0 then and_then (step_back st blk) (\<lambda>b. crawl fuel st b (ins @ [ref_hash blk]))
       else Inr (blk, ins))"

text \<open>\<^verbatim>\<open>for (++blk; blk != end(); ++blk)\<close>: the trunk above the fork becomes a branch.\<close>

fun demote :: "nat \<Rightarrow> tree \<Rightarrow> blockref \<Rightarrow> uint256 list \<Rightarrow> tree_error + tree \<times> uint256 list" where
  "demote 0 st blk del = Inl Diverges"
| "demote (Suc fuel) st blk del =
     and_then (advance st (Some blk) 1) (\<lambda>it.
       case it of None \<Rightarrow> Inr (st, del)
       | Some b \<Rightarrow>
           demote fuel (st\<lparr>branches := sm_put (ref_hash b) b (branches st)\<rparr>) b (del @ [ref_hash b]))"

definition resize :: "'a \<Rightarrow> nat \<Rightarrow> 'a list \<Rightarrow> 'a list" where
  "resize d n xs = take n xs @ replicate (n - length xs) d"

definition flip_height :: "uint256 \<Rightarrow> (uint256 \<times> int) list \<Rightarrow> (uint256 \<times> int) list" where
  "flip_height h hs = sm_put h (- sm_at 0 hs h) hs"

text \<open>One turn of the loop that moves a branch into the trunk.\<close>

definition promote :: "bn_lib \<Rightarrow> uint256 \<Rightarrow> tree \<Rightarrow> tree_error + tree" where
  "promote bn h st =
     (let b = sm_at null_ref (branches st) h
      in and_then (blockref_work bn b) (\<lambda>w.
         Inr (st\<lparr>trunk := trunk st @ [b], heights := flip_height h (heights st),
                 acc_work := acc_work st @ [BN_add bn (last (acc_work st)) w],
                 branches := sm_erase h (branches st)\<rparr>)))"

fun promote_all :: "bn_lib \<Rightarrow> uint256 list \<Rightarrow> tree \<Rightarrow> tree_error + tree" where
  "promote_all bn [] st = Inr st"
| "promote_all bn (h # hs) st = and_then (promote bn h st) (promote_all bn hs)"

definition insert_ref :: "bn_lib \<Rightarrow> tree \<Rightarrow> blockref \<Rightarrow> tree_error + changes \<times> tree" where
  "insert_ref bn st ref =
     and_then (find_ref st (ref_prev ref)) (\<lambda>it.
       case it of None \<Rightarrow> Inl Not_connected
       | Some blk \<Rightarrow>
         and_then (accumulatedWork bn st blk) (\<lambda>aw.
         and_then (blockref_work bn ref) (\<lambda>rw.
           let work = BN_add bn aw rw in
           if acc_work st = [] then Inl Out_of_range
           else if BN_cmp bn work (last (acc_work st)) > 0 then
             and_then (height_of st (ref_hash blk)) (\<lambda>h.
             and_then (crawl (Suc (nat \<bar>h\<bar>)) st blk []) (\<lambda>(root, ins).
             and_then (demote (Suc (length (trunk st))) st root []) (\<lambda>(st, del).
             and_then (height_of st (ref_hash root)) (\<lambda>rh.
             let st = st\<lparr>trunk := resize null_ref (nat (rh + 1)) (trunk st),
                          acc_work := resize 0 (nat (rh + 1)) (acc_work st)\<rparr>;
                 st = st\<lparr>heights := fold flip_height del (heights st)\<rparr>
             in and_then (promote_all bn (rev ins) st) (\<lambda>st.
                Inr (\<lparr>deleted = del, inserted = ref_hash ref # ins\<rparr>,
                     st\<lparr>heights := sm_put (ref_hash ref) (int (length (trunk st))) (heights st),
                        trunk := trunk st @ [ref],
                        acc_work := acc_work st @ [work]\<rparr>))))))
           else
             and_then (height_of st (ref_hash blk)) (\<lambda>h.
               Inr (\<lparr>deleted = [], inserted = []\<rparr>,
                    st\<lparr>branches := sm_put (ref_hash ref) ref (branches st),
                       heights := sm_put (ref_hash ref) (- \<bar>h\<bar> - 1) (heights st)\<rparr>)))))"

definition best :: "tree \<Rightarrow> tree_error + blockref" where
  "best st = (if trunk st = [] then Inl Out_of_range else Inr (last (trunk st)))"

text \<open>The candidates are visited in the order of the map; \<open>best_work\<close> is not updated.\<close>

fun candidates :: "bn_lib \<Rightarrow> tree \<Rightarrow> int \<Rightarrow> (uint256 \<times> blockref) list \<Rightarrow> blockref option \<Rightarrow>
    tree_error + blockref option" where
  "candidates bn st best_work [] found = Inr found"
| "candidates bn st best_work ((h, _) # bs) found =
     and_then (find_ref st h) (\<lambda>it.
       case it of None \<Rightarrow> Inl Out_of_range
       | Some c \<Rightarrow>
           and_then (accumulatedWork bn st c) (\<lambda>w.
             candidates bn st best_work bs (if BN_cmp bn w best_work > 0 then Some c else found)))"

text \<open>The loop of \<open>pop_back\<close> that empties the trunk above the fork flips the height of a block
  before it steps forward from it.\<close>

fun pop_demote :: "nat \<Rightarrow> tree \<Rightarrow> blockref \<Rightarrow> tree_error + tree" where
  "pop_demote 0 st blk = Inl Diverges"
| "pop_demote (Suc fuel) st blk =
     and_then (advance st (Some blk) 1) (\<lambda>it.
       case it of None \<Rightarrow> Inr st
       | Some b \<Rightarrow>
           pop_demote fuel
             (st\<lparr>branches := sm_put (ref_hash b) b (branches st),
                 heights := flip_height (ref_hash b) (heights st)\<rparr>) b)"

text \<open>The last loop: \<^verbatim>\<open>_heights[*hash] *= 1\<close> leaves the height as it is.\<close>

fun pop_promote :: "bn_lib \<Rightarrow> uint256 list \<Rightarrow> tree \<Rightarrow> tree_error + tree" where
  "pop_promote bn [] st = Inr st"
| "pop_promote bn (h # hs) st =
     (let b = sm_at null_ref (branches st) h
      in and_then (blockref_work bn b) (\<lambda>w.
         pop_promote bn hs
           (st\<lparr>trunk := trunk st @ [b],
               acc_work := acc_work st @ [BN_add bn (last (acc_work st)) w],
               branches := sm_erase h (branches st),
               heights := sm_put h (sm_at 0 (heights st) h) (heights st)\<rparr>)))"

text \<open>The hash of the removed block is read after the vector has dropped it; the model reads the
  value it had.\<close>

definition pop_back :: "bn_lib \<Rightarrow> tree \<Rightarrow> tree_error + tree" where
  "pop_back bn st =
     and_then (best st) (\<lambda>blk.
     let st = st\<lparr>trunk := butlast (trunk st), acc_work := butlast (acc_work st)\<rparr> in
     and_then (best st) (\<lambda>best_blk.
     and_then (accumulatedWork bn st best_blk) (\<lambda>best_work.
     let st = st\<lparr>heights := sm_erase (ref_hash blk) (heights st)\<rparr> in
     and_then (candidates bn st best_work (branches st) None) (\<lambda>found.
       case found of None \<Rightarrow> Inr st
       | Some blk \<Rightarrow>
         and_then (height_of st (ref_hash blk)) (\<lambda>h.
         and_then (crawl (Suc (nat \<bar>h\<bar>)) st blk []) (\<lambda>(root, ins).
         and_then (pop_demote (Suc (length (trunk st))) st root) (\<lambda>st.
         and_then (height_of st (ref_hash root)) (\<lambda>rh.
           pop_promote bn (rev ins)
             (st\<lparr>trunk := resize null_ref (nat (rh + 1)) (trunk st),
                 acc_work := resize 0 (nat (rh + 1)) (acc_work st)\<rparr>)))))))))"

text \<open>\<open>best_invalid\<close> returns the first block of the lowest height; \<open>None\<close> is a null iterator.\<close>

definition lowest :: "(uint256 \<times> int) list \<Rightarrow> uint256 option \<times> int" where
  "lowest hs = fold (\<lambda>(k, n) (found, m). if n < m then (Some k, n) else (found, m)) hs (None, 0)"

definition best_invalid :: "tree \<Rightarrow> tree_error + blockref option" where
  "best_invalid st =
     (case fst (lowest (heights st)) of None \<Rightarrow> Inr None | Some k \<Rightarrow> find_ref st k)"

fun trim_loop :: "nat \<Rightarrow> tree \<Rightarrow> int \<Rightarrow> tree_error + uint256 list" where
  "trim_loop 0 st h = Inr []"
| "trim_loop (Suc k) st h =
     and_then (trunk_at st h) (\<lambda>e. and_then (trim_loop k st (h + 1)) (\<lambda>hs. Inr (ref_hash e # hs)))"

definition trim :: "tree \<Rightarrow> int \<Rightarrow> tree_error + uint256 list \<times> tree" where
  "trim st trim_height =
     (let t = min trim_height (tree_height st)
      in and_then (trim_loop (nat (t - trimmed st)) st (trimmed st)) (\<lambda>hs.
         Inr (hs, st\<lparr>trimmed := t\<rparr>)))"

section \<open>Iterators\<close>

text \<open>The loop of \<open>operator<\<close>, \<open>fuel\<close> turns at most. The pointers are equal when they are to
  the same element.\<close>

fun below_loop :: "nat \<Rightarrow> tree \<Rightarrow> blockref \<Rightarrow> int \<Rightarrow> blockref \<Rightarrow> tree_error + bool" where
  "below_loop 0 st lhs lheight rhs = Inl Diverges"
| "below_loop (Suc fuel) st lhs lheight rhs =
     and_then (advance st (Some rhs) (- 1)) (\<lambda>it.
       case it of None \<Rightarrow> Inr False
       | Some rhs \<Rightarrow>
           if rhs = lhs then Inr True
           else and_then (height_of st (ref_hash rhs)) (\<lambda>rheight.
             if rheight \<ge> 0 then Inr (if lheight < 0 then False else lheight < rheight)
             else below_loop fuel st lhs lheight rhs))"

definition iterator_less :: "tree \<Rightarrow> blockref option \<Rightarrow> blockref option \<Rightarrow> tree_error + bool" where
  "iterator_less st l r =
     (case (l, r) of
        (Some lhs, Some rhs) \<Rightarrow>
          and_then (height_of st (ref_hash lhs)) (\<lambda>lheight.
          and_then (height_of st (ref_hash rhs)) (\<lambda>rheight.
            if \<bar>lheight\<bar> > \<bar>rheight\<bar> then Inr False
            else if lheight < 0 \<and> rheight > 0 then Inr False
            else if lheight > 0 \<and> rheight > 0 then Inr True
            else below_loop (Suc (nat \<bar>rheight\<bar>)) st lhs lheight rhs))
      | _ \<Rightarrow> Inr False)"

text \<open>\<open>ancestor\<close>: the first hash of a locator that is below the block.\<close>

fun ancestor :: "tree \<Rightarrow> blockref option \<Rightarrow> uint256 list \<Rightarrow> tree_error + blockref option" where
  "ancestor st it [] = Inr None"
| "ancestor st it (h # hs) =
     and_then (find_ref st h) (\<lambda>itr.
     and_then (iterator_less st itr it) (\<lambda>b. if b then Inr itr else ancestor st it hs))"

section \<open>The invariant\<close>

definition work_of :: "bn_lib \<Rightarrow> blockref \<Rightarrow> int" where
  "work_of bn r = (case blockref_work bn r of Inl _ \<Rightarrow> 0 | Inr w \<Rightarrow> w)"

definition work_ok :: "bn_lib \<Rightarrow> blockref \<Rightarrow> bool" where
  "work_ok bn r \<longleftrightarrow> blockref_work bn r = Inr (work_of bn r)"

text \<open>\<open>A\<close> gives the accumulated work of every block of the tree by its hash.\<close>

definition link :: "bn_lib \<Rightarrow> (uint256 \<Rightarrow> int) \<Rightarrow> blockref \<Rightarrow> blockref \<Rightarrow> bool" where
  "link bn A a b \<longleftrightarrow> ref_prev b = ref_hash a \<and> A (ref_hash b) = A (ref_hash a) + work_of bn b"

definition branch_ok :: "bn_lib \<Rightarrow> (uint256 \<Rightarrow> int) \<Rightarrow> tree \<Rightarrow> uint256 \<Rightarrow> blockref \<Rightarrow> bool" where
  "branch_ok bn A st h e \<longleftrightarrow>
     ref_hash e = h \<and> work_ok bn e \<and> A h = A (ref_prev e) + work_of bn e \<and>
     A h \<le> A (ref_hash (last (trunk st))) \<and>
     (\<exists>n m. sm_get (heights st) h = Some n \<and> sm_get (heights st) (ref_prev e) = Some m \<and> n = - \<bar>m\<bar> - 1)"

definition tree_inv :: "bn_lib \<Rightarrow> (uint256 \<Rightarrow> int) \<Rightarrow> tree \<Rightarrow> bool" where
  "tree_inv bn A st \<longleftrightarrow>
     sm_ok (branches st) \<and> sm_ok (heights st) \<and> trunk st \<noteq> [] \<and>
     acc_work st = map (\<lambda>r. A (ref_hash r)) (trunk st) \<and>
     successively (link bn A) (trunk st) \<and>
     (\<forall>e\<in>set (trunk st). work_ok bn e) \<and>
     (\<forall>i<length (trunk st). sm_get (heights st) (ref_hash (trunk st ! i)) = Some (int i)) \<and>
     (\<forall>h n. sm_get (heights st) h = Some n \<longrightarrow> 0 \<le> n \<longrightarrow>
        nat n < length (trunk st) \<and> ref_hash (trunk st ! nat n) = h) \<and>
     (\<forall>h e. sm_get (branches st) h = Some e \<longrightarrow> branch_ok bn A st h e) \<and>
     (\<forall>h n. sm_get (heights st) h = Some n \<longrightarrow> n < 0 \<longrightarrow> sm_has (branches st) h)"

text \<open>The block a hash stands for: the abstract content of the tree.\<close>

definition known :: "tree \<Rightarrow> uint256 \<Rightarrow> blockref option" where
  "known st h =
     (case sm_get (heights st) h of
        None \<Rightarrow> None
      | Some n \<Rightarrow> if n < 0 then sm_get (branches st) h else Some (trunk st ! nat n))"

lemma inv_maps:
  "tree_inv bn A st \<Longrightarrow> sm_ok (branches st)"
  "tree_inv bn A st \<Longrightarrow> sm_ok (heights st)"
  "tree_inv bn A st \<Longrightarrow> trunk st \<noteq> []"
  "tree_inv bn A st \<Longrightarrow> acc_work st = map (\<lambda>r. A (ref_hash r)) (trunk st)"
  "tree_inv bn A st \<Longrightarrow> successively (link bn A) (trunk st)"
  "tree_inv bn A st \<Longrightarrow> e \<in> set (trunk st) \<Longrightarrow> work_ok bn e"
  "tree_inv bn A st \<Longrightarrow> i < length (trunk st) \<Longrightarrow> sm_get (heights st) (ref_hash (trunk st ! i)) = Some (int i)"
  "tree_inv bn A st \<Longrightarrow> sm_get (branches st) h = Some e \<Longrightarrow> branch_ok bn A st h e"
  unfolding tree_inv_def by blast+

lemma inv_trunk:
  assumes "tree_inv bn A st" and "sm_get (heights st) h = Some n" and "0 \<le> n"
  shows "nat n < length (trunk st)" and "ref_hash (trunk st ! nat n) = h"
  using assms unfolding tree_inv_def by blast+

lemma inv_branch:
  assumes "tree_inv bn A st" and "sm_get (heights st) h = Some n" and "n < 0"
  obtains e where "sm_get (branches st) h = Some e" and "branch_ok bn A st h e"
proof -
  have "sm_has (branches st) h" using assms unfolding tree_inv_def by blast
  then obtain e where "sm_get (branches st) h = Some e" by (auto simp: sm_has_def)
  with that inv_maps(8) [OF assms(1)] show thesis by blast
qed

lemma branch_height_neg:
  "branch_ok bn A st h e \<Longrightarrow> \<exists>n<0. sm_get (heights st) h = Some n"
  unfolding branch_ok_def by auto

lemma trunk_not_branch:
  assumes "tree_inv bn A st" and "i < length (trunk st)"
  shows "sm_get (branches st) (ref_hash (trunk st ! i)) = None"
proof (rule ccontr)
  assume "sm_get (branches st) (ref_hash (trunk st ! i)) \<noteq> None"
  then obtain e where "sm_get (branches st) (ref_hash (trunk st ! i)) = Some e" by auto
  from branch_height_neg [OF inv_maps(8) [OF assms(1) this]] inv_maps(7) [OF assms]
  show False by auto
qed

lemma known_hash:
  assumes "tree_inv bn A st" and "known st h = Some e"
  shows "ref_hash e = h"
proof -
  obtain n where n: "sm_get (heights st) h = Some n"
    using assms(2) by (auto simp: known_def split: option.splits)
  show ?thesis
  proof (cases "n < 0")
    case True
    then have "sm_get (branches st) h = Some e" using assms(2) n by (simp add: known_def)
    from inv_maps(8) [OF assms(1) this] show ?thesis by (simp add: branch_ok_def)
  next
    case False
    then show ?thesis using assms(2) n inv_trunk(2) [OF assms(1) n] by (simp add: known_def)
  qed
qed

lemma known_cases:
  assumes "tree_inv bn A st" and "known st h = Some e"
  obtains (branch) n where "sm_get (heights st) h = Some n" "n < 0" "sm_get (branches st) h = Some e" "branch_ok bn A st h e"
    | (in_trunk) i where "sm_get (heights st) h = Some (int i)" "i < length (trunk st)" "e = trunk st ! i"
proof -
  obtain n where n: "sm_get (heights st) h = Some n"
    using assms(2) by (auto simp: known_def split: option.splits)
  show thesis
  proof (cases "n < 0")
    case True
    then have "sm_get (branches st) h = Some e" using assms(2) n by (simp add: known_def)
    then show thesis using branch n True inv_maps(8) [OF assms(1)] by blast
  next
    case False
    then show thesis
      using in_trunk [of "nat n"] assms(2) n inv_trunk(1) [OF assms(1) n] by (simp add: known_def)
  qed
qed

lemma known_of_height:
  assumes "tree_inv bn A st" and "sm_get (heights st) h = Some n"
  obtains e where "known st h = Some e"
proof (cases "n < 0")
  case True
  then obtain e where "sm_get (branches st) h = Some e" using inv_branch [OF assms] by metis
  then show thesis using that assms(2) True by (simp add: known_def)
next
  case False
  then show thesis using assms(2) that by (auto simp: known_def)
qed

lemma find_ref_known:
  assumes "tree_inv bn A st"
  shows "find_ref st h = Inr (known st h)"
proof (cases "sm_get (heights st) h")
  case None
  then show ?thesis by (simp add: find_ref_def known_def)
next
  case (Some n)
  show ?thesis
  proof (cases "n < 0")
    case True
    then obtain e where "sm_get (branches st) h = Some e" using inv_branch [OF assms Some] by metis
    then show ?thesis using Some True by (simp add: find_ref_def known_def)
  next
    case False
    then show ?thesis
      using Some inv_trunk(1) [OF assms Some] by (simp add: find_ref_def known_def trunk_at_def)
  qed
qed

text \<open>The parent of a branch block.\<close>

lemma branch_parent:
  assumes "tree_inv bn A st" and "sm_get (branches st) h = Some e"
  obtains p n m where "known st (ref_prev e) = Some p" "ref_hash p = ref_prev e" "ref_hash e = h"
    "sm_get (heights st) h = Some n" "sm_get (heights st) (ref_hash p) = Some m" "n = - \<bar>m\<bar> - 1"
    "step_back st e = Inr p" "A h = A (ref_hash p) + work_of bn e" "work_ok bn e"
proof -
  have ok: "branch_ok bn A st h e" using inv_maps(8) [OF assms] .
  then obtain n m where nm: "sm_get (heights st) h = Some n" "sm_get (heights st) (ref_prev e) = Some m" "n = - \<bar>m\<bar> - 1"
    by (auto simp: branch_ok_def)
  have e: "ref_hash e = h" using ok by (simp add: branch_ok_def)
  obtain p where p: "known st (ref_prev e) = Some p" using known_of_height [OF assms(1) nm(2)] .
  have hp: "ref_hash p = ref_prev e" using known_hash [OF assms(1) p] .
  have "step_back st e = Inr p"
    using assms(1) p
  proof (cases rule: known_cases)
    case (branch k)
    then show ?thesis
      using nm e hp by (simp add: step_back_def advance_def height_of_def)
  next
    case (in_trunk i)
    have "sm_get (branches st) (ref_prev e) = None"
      using trunk_not_branch [OF assms(1) in_trunk(2)] hp in_trunk(3) by simp
    moreover have "m = int i" using in_trunk(1) nm(2) by simp
    moreover have "sm_get (heights st) (ref_hash (trunk st ! i)) = Some (int i)"
      using inv_maps(7) [OF assms(1) in_trunk(2)] .
    ultimately show ?thesis
      using nm e in_trunk by (simp add: step_back_def advance_def height_of_def trunk_at_def)
  qed
  then show thesis using that [of p n m] p hp nm e ok by (simp add: branch_ok_def)
qed

lemma work_loop_known:
  assumes "tree_inv bn A st" "bn_documented bn"
    and "sm_get (branches st) (ref_hash e) = Some e" "sm_get (heights st) (ref_hash e) = Some n"
  shows "work_loop (nat \<bar>n\<bar>) bn st e s = Inr (s + A (ref_prev e))"
  using assms(3,4)
proof (induction "nat \<bar>n\<bar>" arbitrary: n e s)
  case 0
  obtain n' where "n' < 0" "sm_get (heights st) (ref_hash e) = Some n'"
    using branch_height_neg [OF inv_maps(8) [OF assms(1) 0(2)]] by blast
  with 0(1,3) show ?case by simp
next
  case (Suc k)
  obtain p n' m where p: "known st (ref_prev e) = Some p" "ref_hash p = ref_prev e"
    "sm_get (heights st) (ref_hash e) = Some n'"
    "sm_get (heights st) (ref_hash p) = Some m" "n' = - \<bar>m\<bar> - 1" "step_back st e = Inr p"
    by (rule branch_parent [OF assms(1) Suc.prems(1)])
  have n: "n = - \<bar>m\<bar> - 1" using p(3,5) Suc.prems(2) by simp
  have k: "k = nat \<bar>m\<bar>" using Suc.hyps(2) n by simp
  from assms(1) p(1) show ?case
  proof (cases rule: known_cases)
    case (branch n')
    then have m: "sm_get (branches st) (ref_hash p) = Some p" "m < 0" using p by auto
    have b: "branch_ok bn A st (ref_hash p) p" using inv_maps(8) [OF assms(1) m(1)] .
    have IH: "work_loop k bn st p s' = Inr (s' + A (ref_prev p))" for s'
      using Suc.hyps(1) [OF k m(1) p(4)] k by simp
    show ?thesis
      using p(4,6) m b unfolding Suc.hyps(2) [symmetric]
      by (simp add: height_of_def work_ok_def branch_ok_def bn_doc_arith [OF assms(2)] IH p(2))
  next
  case (in_trunk i)
    then have "acc_work st ! i = A (ref_hash p)" "i < length (acc_work st)"
      using inv_maps(4) [OF assms(1)] by simp_all
    moreover have m: "m = int i" using in_trunk(1) p(2,4) by simp
    ultimately show ?thesis
      using p(2,6) p(4) [unfolded m] unfolding Suc.hyps(2) [symmetric]
      by (simp add: height_of_def bn_doc_arith [OF assms(2)])
  qed
qed

lemma accumulatedWork_known:
  assumes "tree_inv bn A st" "bn_documented bn" "known st h = Some e"
  shows "accumulatedWork bn st e = Inr (A h)"
  using assms(1,3)
proof (cases rule: known_cases)
  case (branch n)
  have e: "ref_hash e = h" using branch(4) by (simp add: branch_ok_def)
  from branch(3) e have "work_loop (nat \<bar>n\<bar>) bn st e s = Inr (s + A (ref_prev e))" for s
    using work_loop_known [OF assms(1,2), of e n s] branch(1) by simp
  then show ?thesis
    using branch e by (simp add: accumulatedWork_def height_of_def branch_ok_def work_ok_def)
next
  case (in_trunk i)
  have e: "ref_hash e = h" using known_hash [OF assms(1,3)] .
  then show ?thesis
    using in_trunk inv_maps(4) [OF assms(1)] by (simp add: accumulatedWork_def height_of_def)
qed

section \<open>The moves of a reorganisation\<close>

text \<open>The path of branch blocks from the fork \<open>root\<close> up to \<open>e\<close>.\<close>

definition branch_path :: "bn_lib \<Rightarrow> (uint256 \<Rightarrow> int) \<Rightarrow> tree \<Rightarrow> nat \<Rightarrow> blockref list \<Rightarrow> bool" where
  "branch_path bn A st r bs \<longleftrightarrow>
     r < length (trunk st) \<and> successively (link bn A) (trunk st ! r # bs) \<and>
     (\<forall>b\<in>set bs. sm_get (branches st) (ref_hash b) = Some b \<and> work_ok bn b) \<and>
     (\<forall>i<length bs. sm_get (heights st) (ref_hash (bs ! i)) = Some (- int (r + 1 + i)))"

lemma crawl_known:
  assumes "tree_inv bn A st" and "known st h = Some e" and "sm_get (heights st) h = Some n"
  shows "\<exists>r bs. crawl (Suc (nat \<bar>n\<bar>)) st e ins = Inr (trunk st ! r, ins @ rev (map ref_hash bs)) \<and>
     branch_path bn A st r bs \<and> last (trunk st ! r # bs) = e \<and> nat \<bar>n\<bar> = r + length bs"
  using assms(2,3)
proof (induction "nat \<bar>n\<bar>" arbitrary: n e h ins rule: less_induct)
  case less
  from assms(1) less.prems(1) show ?case
  proof (cases rule: known_cases)
    case (in_trunk i)
    have e: "ref_hash e = h" using known_hash [OF assms(1) less.prems(1)] .
    have n: "n = int i" using in_trunk(1) less.prems(2) by simp
    show ?thesis
      using in_trunk e n
      by (intro exI [of _ i] exI [of _ "[]"]) (simp add: height_of_def branch_path_def)
  next
    case (branch n')
    have n: "n = n'" using branch(1) less.prems(2) by simp
    obtain p n'' m where p: "known st (ref_prev e) = Some p" "ref_hash p = ref_prev e" "ref_hash e = h"
      "sm_get (heights st) h = Some n''" "sm_get (heights st) (ref_hash p) = Some m" "n'' = - \<bar>m\<bar> - 1"
      "step_back st e = Inr p" "A h = A (ref_hash p) + work_of bn e" "work_ok bn e"
      by (rule branch_parent [OF assms(1) branch(3)])
    have nm: "n = - \<bar>m\<bar> - 1" "n < 0" using p(4,6) branch(1,2) n by simp_all
    then have k: "nat \<bar>n\<bar> = Suc (nat \<bar>m\<bar>)" by simp
    have lt: "nat \<bar>m\<bar> < nat \<bar>n\<bar>" using k by simp
    have hm: "sm_get (heights st) (ref_prev e) = Some m" using p(2,5) by simp
    obtain r bs where IH: "crawl (Suc (nat \<bar>m\<bar>)) st p (ins @ [h]) = Inr (trunk st ! r, (ins @ [h]) @ rev (map ref_hash bs))"
      "branch_path bn A st r bs" "last (trunk st ! r # bs) = p" "nat \<bar>m\<bar> = r + length bs"
      using less.hyps [OF lt p(1) hm, of "ins @ [h]"] by blast
    have "successively (link bn A) ((trunk st ! r # bs) @ [e])"
      using IH(2,3) p(2,3,8) unfolding successively_append_iff by (simp add: branch_path_def link_def)
    moreover have "sm_get (heights st) h = Some (- int (r + 1 + length bs))"
      using less.prems(2) nm IH(4) by simp
    ultimately have "branch_path bn A st r (bs @ [e])"
      using IH(2) branch(3) p(3,9) by (auto simp: branch_path_def nth_append less_Suc_eq)
    moreover have "crawl (Suc (nat \<bar>n\<bar>)) st e ins = Inr (trunk st ! r, ins @ rev (map ref_hash (bs @ [e])))"
      using IH(1) less.prems(2) nm(2) p(3,7) unfolding k by (simp add: height_of_def)
    moreover have "nat \<bar>n\<bar> = r + length (bs @ [e])" using IH(4) k by simp
    ultimately show ?thesis by (intro exI [of _ r] exI [of _ "bs @ [e]"]) simp
  qed
qed

lemma demote_trunk:
  assumes "\<forall>i<length (trunk st). sm_get (heights st) (ref_hash (trunk st ! i)) = Some (int i)"
    and "r < length (trunk st)" and "length (trunk st) - r \<le> fuel"
  shows "demote fuel st (trunk st ! r) del =
    Inr (st\<lparr>branches := fold (\<lambda>b. sm_put (ref_hash b) b) (drop (Suc r) (trunk st)) (branches st)\<rparr>,
         del @ map ref_hash (drop (Suc r) (trunk st)))"
  using assms
proof (induction fuel arbitrary: st r del)
  case 0
  then show ?case by simp
next
  case (Suc fuel)
  have h: "height_of st (ref_hash (trunk st ! r)) = Inr (int r)"
    using Suc.prems by (simp add: height_of_def)
  show ?case
  proof (cases "Suc r < length (trunk st)")
    case False
    then show ?thesis using h Suc.prems(2) by (simp add: advance_def)
  next
    case True
    let ?b = "trunk st ! Suc r"
    let ?st = "st\<lparr>branches := sm_put (ref_hash ?b) ?b (branches st)\<rparr>"
    have adv: "advance st (Some (trunk st ! r)) 1 = Inr (Some ?b)"
      using h True by (simp add: advance_def trunk_at_def nat_add_distrib)
    have "demote fuel ?st (trunk ?st ! Suc r) (del @ [ref_hash ?b]) =
      Inr (?st\<lparr>branches := fold (\<lambda>b. sm_put (ref_hash b) b) (drop (Suc (Suc r)) (trunk ?st)) (branches ?st)\<rparr>,
         (del @ [ref_hash ?b]) @ map ref_hash (drop (Suc (Suc r)) (trunk ?st)))"
      by (rule Suc.IH) (use Suc.prems True in simp_all)
    then show ?thesis
      using adv True by (simp add: Cons_nth_drop_Suc [symmetric])
  qed
qed

lemma get_flip: "sm_get (flip_height h m) k = (if k = h then Some (- sm_at 0 m h) else sm_get m k)"
  by (simp add: flip_height_def)

lemma get_fold_flip:
  "distinct xs \<Longrightarrow> sm_get (fold flip_height xs m) k = (if k \<in> set xs then Some (- sm_at 0 m k) else sm_get m k)"
proof (induction xs arbitrary: m)
  case (Cons x xs)
  then show ?case by (auto simp: get_flip sm_at_def)
qed simp

lemma sm_ok_fold_flip: "sm_ok m \<Longrightarrow> sm_ok (fold flip_height xs m)"
  by (induction xs arbitrary: m) (simp_all add: flip_height_def)

lemma promote_path:
  assumes "bn_documented bn" and "\<forall>b\<in>set bs. sm_get (branches st) (ref_hash b) = Some b \<and> work_ok bn b"
    and "distinct (map ref_hash bs)" and "trunk st \<noteq> []"
    and "acc_work st = map (\<lambda>r. A (ref_hash r)) (trunk st)"
    and "successively (link bn A) (last (trunk st) # bs)"
  shows "promote_all bn (map ref_hash bs) st =
    Inr (st\<lparr>trunk := trunk st @ bs, heights := fold flip_height (map ref_hash bs) (heights st),
            acc_work := map (\<lambda>r. A (ref_hash r)) (trunk st @ bs),
            branches := fold sm_erase (map ref_hash bs) (branches st)\<rparr>)"
  using assms(2-)
proof (induction bs arbitrary: st)
  case Nil
  then show ?case by simp
next
  case (Cons b bs)
  let ?st = "st\<lparr>trunk := trunk st @ [b], heights := flip_height (ref_hash b) (heights st),
    acc_work := acc_work st @ [A (ref_hash b)], branches := sm_erase (ref_hash b) (branches st)\<rparr>"
  have b: "sm_get (branches st) (ref_hash b) = Some b" "work_ok bn b" using Cons.prems(1) by simp_all
  have "last (acc_work st) = A (ref_hash (last (trunk st)))"
    using Cons.prems(3,4) by (simp add: last_map)
  moreover have "link bn A (last (trunk st)) b" using Cons.prems(5) by simp
  ultimately have p: "promote bn (ref_hash b) st = Inr ?st"
    using b by (simp add: promote_def sm_at_def work_ok_def link_def bn_doc_arith [OF assms(1)])
  have "promote_all bn (map ref_hash bs) ?st =
    Inr (?st\<lparr>trunk := trunk ?st @ bs, heights := fold flip_height (map ref_hash bs) (heights ?st),
            acc_work := map (\<lambda>r. A (ref_hash r)) (trunk ?st @ bs),
            branches := fold sm_erase (map ref_hash bs) (branches ?st)\<rparr>)"
    by (rule Cons.IH) (use Cons.prems in \<open>auto simp: image_iff\<close>)
  then show ?case using p by simp
qed

lemma flip_distinct_path:
  assumes "branch_path bn A st r bs"
  shows "distinct (map ref_hash bs)"
proof -
  have "i = j" if "i < length bs" "j < length bs" "ref_hash (bs ! i) = ref_hash (bs ! j)" for i j
  proof -
    have "Some (- int (r + 1 + i)) = Some (- int (r + 1 + j))"
      using assms that unfolding branch_path_def by metis
    then show ?thesis by simp
  qed
  then show ?thesis by (auto simp: distinct_conv_nth)
qed

lemma trunk_hash_inj:
  assumes "tree_inv bn A st" "i < length (trunk st)" "j < length (trunk st)"
    and "ref_hash (trunk st ! i) = ref_hash (trunk st ! j)"
  shows "i = j"
proof -
  have "Some (int i) = Some (int j)"
    using inv_maps(7) [OF assms(1,2)] inv_maps(7) [OF assms(1,3)] unfolding assms(4) by (rule trans [OF sym])
  then show ?thesis by simp
qed

lemma distinct_trunk:
  assumes "tree_inv bn A st"
  shows "distinct (map ref_hash (trunk st))"
  unfolding distinct_conv_nth length_map
proof (intro allI impI notI)
  fix i j
  assume ij: "i < length (trunk st)" "j < length (trunk st)" "i \<noteq> j"
    and eq: "map ref_hash (trunk st) ! i = map ref_hash (trunk st) ! j"
  have "ref_hash (trunk st ! i) = ref_hash (trunk st ! j)"
    using eq unfolding nth_map [OF ij(1)] nth_map [OF ij(2)] .
  from trunk_hash_inj [OF assms ij(1,2) this] ij(3) show False by contradiction
qed

section \<open>The reorganisation keeps the invariant\<close>

lemma work_of_nonneg:
  assumes "bn_documented bn"
  shows "0 \<le> work_of bn r"
proof (cases "SetCompact bn (ref_bits r)")
  case None
  then show ?thesis by (simp add: work_of_def blockref_work_def)
next
  case (Some t)
  show ?thesis
  proof (cases "t \<le> 0")
    case True
    then show ?thesis using Some by (simp add: work_of_def blockref_work_def bn_doc_arith [OF assms])
  next
    case False
    then show ?thesis
      using Some by (simp add: work_of_def blockref_work_def bn_doc_arith [OF assms] bn_quot_def pos_imp_zdiv_nonneg_iff)
  qed
qed

lemma trunk_work_mono:
  assumes "bn_documented bn" and "tree_inv bn A st" and "i < length (trunk st)"
  shows "A (ref_hash (trunk st ! i)) \<le> A (ref_hash (last (trunk st)))"
proof -
  have step: "A (ref_hash (trunk st ! k)) \<le> A (ref_hash (trunk st ! Suc k))" if "Suc k < length (trunk st)" for k
    using successively_nth [OF inv_maps(5) [OF assms(2)] that] work_of_nonneg [OF assms(1)]
    by (simp add: link_def)
  have "A (ref_hash (trunk st ! i)) \<le> A (ref_hash (trunk st ! (i + d)))" if "i + d < length (trunk st)" for d
    using that
  proof (induction d)
    case (Suc d)
    then show ?case using step [of "i + d"] by simp
  qed simp
  from this [of "length (trunk st) - 1 - i"] show ?thesis
    using assms(3) by (simp add: last_conv_nth inv_maps(3) [OF assms(2)])
qed

definition reorg_state :: "tree \<Rightarrow> nat \<Rightarrow> blockref list \<Rightarrow> blockref \<Rightarrow> int list \<Rightarrow> tree" where
  "reorg_state st r bs ref acc =
     st\<lparr>branches := fold sm_erase (map ref_hash bs)
           (fold (\<lambda>b. sm_put (ref_hash b) b) (drop (Suc r) (trunk st)) (branches st)),
        heights := sm_put (ref_hash ref) (int (Suc r + length bs))
           (fold flip_height (map ref_hash bs)
             (fold flip_height (map ref_hash (drop (Suc r) (trunk st))) (heights st))),
        trunk := take (Suc r) (trunk st) @ bs @ [ref],
        acc_work := acc\<rparr>"

lemma insert_reorg:
  assumes "tree_inv bn A st" and "bn_documented bn" and "known st (ref_prev ref) = Some blk"
    and "work_ok bn ref" and "A (ref_prev ref) + work_of bn ref > A (ref_hash (last (trunk st)))"
  shows "\<exists>r bs. branch_path bn A st r bs \<and> last (trunk st ! r # bs) = blk \<and>
    insert_ref bn st ref =
      Inr (\<lparr>deleted = map ref_hash (drop (Suc r) (trunk st)), inserted = ref_hash ref # rev (map ref_hash bs)\<rparr>,
           reorg_state st r bs ref
             (map (\<lambda>r. A (ref_hash r)) (take (Suc r) (trunk st) @ bs) @ [A (ref_prev ref) + work_of bn ref]))"
proof -
  let ?T = "trunk st"
  have hb: "ref_hash blk = ref_prev ref" using known_hash [OF assms(1,3)] .
  obtain n where n: "sm_get (heights st) (ref_prev ref) = Some n"
    using assms(3) by (auto simp: known_def split: option.splits)
  obtain r bs where c: "crawl (Suc (nat \<bar>n\<bar>)) st blk [] = Inr (?T ! r, rev (map ref_hash bs))"
    and path: "branch_path bn A st r bs" and l: "last (?T ! r # bs) = blk"
    using crawl_known [OF assms(1,3) n, of "[]"] by auto
  have r: "r < length ?T" using path by (simp add: branch_path_def)
  let ?S = "drop (Suc r) ?T"
  define B1 where "B1 = fold (\<lambda>b. sm_put (ref_hash b) b) ?S (branches st)"
  define H1 where "H1 = fold flip_height (map ref_hash ?S) (heights st)"
  define st1 where "st1 = st\<lparr>branches := B1, trunk := take (Suc r) ?T,
     acc_work := map (\<lambda>r. A (ref_hash r)) (take (Suc r) ?T), heights := H1\<rparr>"
  have dem: "demote (Suc (length ?T)) st (?T ! r) [] = Inr (st\<lparr>branches := B1\<rparr>, map ref_hash ?S)"
    using demote_trunk [of st r "Suc (length ?T)" "[]"] inv_maps(7) [OF assms(1)] r by (simp add: B1_def)
  have hr: "height_of st (ref_hash (?T ! r)) = Inr (int r)"
    using inv_maps(7) [OF assms(1) r] by (simp add: height_of_def)
  have rs: "resize null_ref (nat (int r + 1)) ?T = take (Suc r) ?T"
    "resize 0 (nat (int r + 1)) (acc_work st) = map (\<lambda>r. A (ref_hash r)) (take (Suc r) ?T)"
    using r by (simp_all add: resize_def nat_add_distrib inv_maps(4) [OF assms(1)] take_map)
  have notS: "ref_hash b \<notin> ref_hash ` set ?S" if "b \<in> set bs" for b
  proof
    assume "ref_hash b \<in> ref_hash ` set ?S"
    then obtain t where "t \<in> set ?S" "ref_hash b = ref_hash t" by auto
    then obtain j where "j < length ?T" "ref_hash b = ref_hash (?T ! j)"
      by (metis in_set_dropD in_set_conv_nth)
    with trunk_not_branch [OF assms(1)] path that show False by (auto simp: branch_path_def)
  qed
  have "promote_all bn (map ref_hash bs) st1 =
    Inr (st1\<lparr>trunk := trunk st1 @ bs, heights := fold flip_height (map ref_hash bs) (heights st1),
            acc_work := map (\<lambda>r. A (ref_hash r)) (trunk st1 @ bs),
            branches := fold sm_erase (map ref_hash bs) (branches st1)\<rparr>)"
  proof (rule promote_path [OF assms(2)])
    show "\<forall>b\<in>set bs. sm_get (branches st1) (ref_hash b) = Some b \<and> work_ok bn b"
    proof
      fix b assume b: "b \<in> set bs"
      have "sm_get B1 (ref_hash b) = sm_get (branches st) (ref_hash b)"
        unfolding B1_def by (rule sm.get_fold_put_other [OF inv_maps(1) [OF assms(1)] notS [OF b]])
      then show "sm_get (branches st1) (ref_hash b) = Some b \<and> work_ok bn b"
        using path b by (simp add: branch_path_def st1_def)
    qed
    show "successively (link bn A) (last (trunk st1) # bs)"
      using path r by (simp add: branch_path_def st1_def take_Suc_conv_app_nth)
    show "distinct (map ref_hash bs)" by (rule flip_distinct_path [OF path])
  qed (use inv_maps(3) [OF assms(1)] in \<open>simp_all add: st1_def\<close>)
  moreover have "accumulatedWork bn st blk = Inr (A (ref_prev ref))"
    by (rule accumulatedWork_known [OF assms(1-3)])
  moreover have "last (acc_work st) = A (ref_hash (last ?T))" "acc_work st \<noteq> []"
    using inv_maps(3,4) [OF assms(1)] by (simp_all add: last_map)
  moreover have "height_of st (ref_prev ref) = Inr n" using n by (simp add: height_of_def)
  moreover have "height_of (st\<lparr>branches := B1\<rparr>) (ref_hash (?T ! r)) = Inr (int r)"
    using hr by (simp add: height_of_def)
  ultimately have "insert_ref bn st ref =
      Inr (\<lparr>deleted = map ref_hash ?S, inserted = ref_hash ref # rev (map ref_hash bs)\<rparr>,
           reorg_state st r bs ref
             (map (\<lambda>r. A (ref_hash r)) (take (Suc r) ?T @ bs) @ [A (ref_prev ref) + work_of bn ref]))"
    using assms(3-5) c dem rs r hb
    by (simp add: insert_ref_def find_ref_known [OF assms(1)] bn_doc_arith(1,7) [OF assms(2)] work_ok_def
        Let_def st1_def H1_def B1_def reorg_state_def rev_map min_absorb2)
  with path l show ?thesis by blast
qed

text \<open>The maps after a reorganisation, as functions of the hash.\<close>

lemma hash_in_drop:
  "h \<in> ref_hash ` set (drop (Suc r) xs) \<longleftrightarrow> (\<exists>i. r < i \<and> i < length xs \<and> h = ref_hash (xs ! i))"
proof
  assume "h \<in> ref_hash ` set (drop (Suc r) xs)"
  then obtain j where "j < length xs - Suc r" "h = ref_hash (xs ! (Suc r + j))"
    by (auto simp: in_set_conv_nth image_iff)
  then show "\<exists>i. r < i \<and> i < length xs \<and> h = ref_hash (xs ! i)" by (intro exI [of _ "Suc r + j"]) simp
next
  assume "\<exists>i. r < i \<and> i < length xs \<and> h = ref_hash (xs ! i)"
  then obtain i where i: "r < i" "i < length xs" "h = ref_hash (xs ! i)" by auto
  then have "drop (Suc r) xs ! (i - Suc r) = xs ! i" by simp
  moreover have "i - Suc r < length (drop (Suc r) xs)" using i by simp
  ultimately show "h \<in> ref_hash ` set (drop (Suc r) xs)" using i(3) by (metis image_eqI nth_mem)
qed

lemma path_hash_height:
  assumes "branch_path bn A st r bs" and "h \<in> ref_hash ` set bs"
  obtains j where "j < length bs" "h = ref_hash (bs ! j)" "sm_get (heights st) h = Some (- int (Suc r + j))"
    "sm_get (branches st) h = Some (bs ! j)"
proof -
  obtain j where j: "j < length bs" "h = ref_hash (bs ! j)" using assms(2) by (auto simp: in_set_conv_nth)
  then have "sm_get (branches st) h = Some (bs ! j)"
    using assms(1) by (simp add: branch_path_def)
  moreover have "sm_get (heights st) h = Some (- int (Suc r + j))"
    using assms(1) j by (simp add: branch_path_def)
  ultimately show thesis using that j by blast
qed

lemma reorg_heights:
  assumes inv: "tree_inv bn A st" and path: "branch_path bn A st r bs"
  shows "sm_get (heights (reorg_state st r bs ref acc)) h =
    (if h = ref_hash ref then Some (int (Suc r + length bs))
     else if h \<in> ref_hash ` set bs \<or> h \<in> ref_hash ` set (drop (Suc r) (trunk st))
       then map_option uminus (sm_get (heights st) h)
     else sm_get (heights st) h)"
proof -
  let ?S = "map ref_hash (drop (Suc r) (trunk st))"
  have dS: "distinct ?S" using distinct_trunk [OF inv] by (simp add: drop_map [symmetric])
  have db: "distinct (map ref_hash bs)" by (rule flip_distinct_path [OF path])
  have some: "sm_get (heights st) h \<noteq> None" if "h \<in> ref_hash ` set bs \<or> h \<in> set ?S"
  proof -
    have "sm_get (heights st) h \<noteq> None" if "h \<in> ref_hash ` set bs"
      by (rule path_hash_height [OF path that]) simp
    moreover have "sm_get (heights st) h \<noteq> None" if hS: "h \<in> set ?S"
    proof -
      obtain i where "i < length (trunk st)" "h = ref_hash (trunk st ! i)"
        using hS hash_in_drop [of h r "trunk st"] by auto
      then show ?thesis using inv_maps(7) [OF inv] by simp
    qed
    ultimately show ?thesis using that by blast
  qed
  have dis: "h \<notin> ref_hash ` set bs \<or> h \<notin> set ?S"
  proof (rule ccontr)
    assume "\<not> ?thesis"
    then have a: "h \<in> ref_hash ` set bs" "h \<in> ref_hash ` set (drop (Suc r) (trunk st))" by auto
    from a(2) obtain i where "i < length (trunk st)" "h = ref_hash (trunk st ! i)" unfolding hash_in_drop by auto
    then have "sm_get (branches st) h = None" using trunk_not_branch [OF inv] by simp
    with path_hash_height [OF path a(1)] show False by (metis option.distinct(1))
  qed
  show ?thesis
    using some dis by (auto simp: reorg_state_def get_fold_flip [OF dS] get_fold_flip [OF db] sm_at_def)
qed

lemma reorg_branches:
  assumes inv: "tree_inv bn A st"
  shows "sm_get (branches (reorg_state st r bs ref acc)) h =
    (if h \<in> ref_hash ` set bs then None
     else if h \<in> ref_hash ` set (drop (Suc r) (trunk st)) then known st h
     else sm_get (branches st) h)"
proof -
  let ?S = "drop (Suc r) (trunk st)"
  let ?B = "fold (\<lambda>b. sm_put (ref_hash b) b) ?S (branches st)"
  have ok: "sm_ok (branches st)" by (rule inv_maps(1) [OF inv])
  have "sm_get ?B h = known st h" if hS: "h \<in> ref_hash ` set ?S"
  proof -
    obtain i where i: "r < i" "i < length (trunk st)" "h = ref_hash (trunk st ! i)"
      using hS hash_in_drop [of h r "trunk st"] by blast
    have "drop (Suc r) (trunk st) ! (i - Suc r) = trunk st ! i" using i by simp
    moreover have "i - Suc r < length ?S" using i by simp
    ultimately have m: "trunk st ! i \<in> set ?S" by (metis nth_mem)
    have "inj_on ref_hash (set ?S)"
      using distinct_trunk [OF inv] inj_on_subset [OF _ set_drop_subset] by (auto simp: distinct_map)
    from sm.get_fold_put [OF ok m this, of id] have "sm_get ?B h = Some (trunk st ! i)" using i(3) by simp
    moreover have "known st h = Some (trunk st ! i)" using inv_maps(7) [OF inv i(2)] i(3) by (simp add: known_def)
    ultimately show ?thesis by simp
  qed
  moreover have "sm_get ?B h = sm_get (branches st) h" if "h \<notin> ref_hash ` set ?S"
    by (rule sm.get_fold_put_other [OF ok that])
  moreover have "sm_ok ?B" by (rule sm.invar_fold_put [OF ok])
  ultimately show ?thesis
    using sm.get_fold_erase [of ?B "\<lambda>x. x" "map ref_hash bs" h] by (simp add: reorg_state_def)
qed

lemma reorg_trunk:
  assumes inv: "tree_inv bn A st" and path: "branch_path bn A st r bs"
    and i: "i < length (trunk st)" and "i \<le> r"
  shows "ref_hash (trunk st ! i) \<notin> ref_hash ` set bs"
    "ref_hash (trunk st ! i) \<notin> ref_hash ` set (drop (Suc r) (trunk st))"
proof -
  show "ref_hash (trunk st ! i) \<notin> ref_hash ` set bs"
  proof
    assume "ref_hash (trunk st ! i) \<in> ref_hash ` set bs"
    from path_hash_height [OF path this] trunk_not_branch [OF inv i] show False by (metis option.distinct(1))
  qed
  show "ref_hash (trunk st ! i) \<notin> ref_hash ` set (drop (Suc r) (trunk st))"
    unfolding hash_in_drop using trunk_hash_inj [OF inv i] \<open>i \<le> r\<close> by auto
qed


lemma path_links:
  assumes "tree_inv bn A st" and "branch_path bn A st r bs"
  shows "successively (link bn A) (take (Suc r) (trunk st) @ bs)"
proof -
  have r: "r < length (trunk st)" using assms(2) by (simp add: branch_path_def)
  have "successively (link bn A) (take (Suc r) (trunk st) @ drop (Suc r) (trunk st))"
    using inv_maps(5) [OF assms(1)] by simp
  then have "successively (link bn A) (take (Suc r) (trunk st))"
    unfolding successively_append_iff by blast
  then show ?thesis
    using assms(2) r
    by (cases bs) (auto simp: successively_append_iff branch_path_def take_Suc_conv_app_nth)
qed

lemma reorg_height_abs:
  assumes "tree_inv bn A st" and "branch_path bn A st r bs"
    and "sm_get (heights st) h = Some m" and "h \<noteq> ref_hash ref"
  shows "\<exists>m'. sm_get (heights (reorg_state st r bs ref acc)) h = Some m' \<and> \<bar>m'\<bar> = \<bar>m\<bar>"
  using assms by (simp add: reorg_heights)

lemma reorg_inv:
  assumes inv: "tree_inv bn A st" and doc: "bn_documented bn" and path: "branch_path bn A st r bs"
    and blk: "last (trunk st ! r # bs) = blk" "ref_hash blk = ref_prev ref"
    and fresh: "sm_get (heights st) (ref_hash ref) = None" and ok: "work_ok bn ref"
    and best: "A (ref_prev ref) + work_of bn ref > A (ref_hash (last (trunk st)))"
  defines "A' \<equiv> A(ref_hash ref := A (ref_prev ref) + work_of bn ref)"
  defines "st' \<equiv> reorg_state st r bs ref
     (map (\<lambda>r. A (ref_hash r)) (take (Suc r) (trunk st) @ bs) @ [A (ref_prev ref) + work_of bn ref])"
  shows "tree_inv bn A' st'"
proof -
  let ?T = "trunk st" and ?P = "take (Suc r) (trunk st) @ bs" and ?S = "drop (Suc r) (trunk st)"
  have r: "r < length ?T" using path by (simp add: branch_path_def)
  have lenP: "length ?P = Suc r + length bs" using r by simp
  have T': "trunk st' = ?P @ [ref]" by (simp add: st'_def reorg_state_def)
  have lastP: "last ?P = blk" using blk(1) r by (auto simp: take_Suc_conv_app_nth)
  have H': "sm_get (heights st') h =
    (if h = ref_hash ref then Some (int (Suc r + length bs))
     else if h \<in> ref_hash ` set bs \<or> h \<in> ref_hash ` set ?S then map_option uminus (sm_get (heights st) h)
     else sm_get (heights st) h)" for h
    unfolding st'_def by (rule reorg_heights [OF inv path])
  have B': "sm_get (branches st') h =
    (if h \<in> ref_hash ` set bs then None else if h \<in> ref_hash ` set ?S then known st h
     else sm_get (branches st) h)" for h
    unfolding st'_def by (rule reorg_branches [OF inv])
  have knownH: "h \<noteq> ref_hash ref" if "sm_get (heights st) h = Some m" for h m
    using that fresh by auto
  have A'_known: "A' h = A h" if "sm_get (heights st) h = Some m" for h m
    using knownH [OF that] by (simp add: A'_def)
  have HP: "\<exists>m. sm_get (heights st) (ref_hash b) = Some m \<and> (b \<in> set bs \<or> (\<exists>i\<le>r. b = ?T ! i \<and> m = int i))"
    if "b \<in> set ?P" for b
  proof (cases "b \<in> set bs")
    case True
    then have "ref_hash b \<in> ref_hash ` set bs" by simp
    from path_hash_height [OF path this] show ?thesis using True by blast
  next
    case False
    with that obtain i where "i \<le> r" "b = ?T ! i"
      by (auto simp: in_set_conv_nth less_Suc_eq_le)
    then show ?thesis using inv_maps(7) [OF inv, of i] r by auto
  qed
  have A'P: "A' (ref_hash b) = A (ref_hash b)" if "b \<in> set ?P" for b
    using HP [OF that] A'_known by blast
  have A'ref: "A' (ref_hash ref) = A (ref_prev ref) + work_of bn ref" by (simp add: A'_def)
  have "acc_work st' = map (\<lambda>r. A (ref_hash r)) ?P @ [A (ref_prev ref) + work_of bn ref]"
    by (simp add: st'_def reorg_state_def)
  then have acc: "acc_work st' = map (\<lambda>r. A' (ref_hash r)) (trunk st')"
    using A'P unfolding T' by (simp add: A'ref)
  have "successively (link bn A') ?P"
    by (rule successively_mono [OF path_links [OF inv path]]) (simp add: link_def A'P)
  moreover have "link bn A' (last ?P) ref"
  proof -
    have "last ?P \<in> set ?P" using r by (intro last_in_set) auto
    then show ?thesis using A'P [of blk] blk(2) unfolding lastP by (simp add: link_def A'ref)
  qed
  ultimately have links: "successively (link bn A') (trunk st')"
    using r unfolding T' successively_append_iff by auto
  have works: "\<forall>e\<in>set (trunk st'). work_ok bn e"
    using ok inv_maps(6) [OF inv] path unfolding T' by (auto simp: branch_path_def dest: in_set_takeD)
  have idx: "sm_get (heights st') (ref_hash (trunk st' ! i)) = Some (int i)" if "i < length (trunk st')" for i
  proof -
    have "i < Suc (Suc r + length bs)" using that lenP unfolding T' by simp
    then consider "i \<le> r" | "i - Suc r < length bs" "i = Suc r + (i - Suc r)" | "i = Suc r + length bs"
      by linarith
    then show ?thesis
    proof cases
      case 1
      then have "trunk st' ! i = ?T ! i" "i < length ?T" using r unfolding T' by (simp_all add: nth_append)
      then show ?thesis
        using reorg_trunk [OF inv path _ 1] inv_maps(7) [OF inv, of i] knownH by (simp add: H')
    next
      case 2
      define j where "j = i - Suc r"
      have j: "j < length bs" "i = Suc r + j" using 2 by (simp_all add: j_def)
      then have e: "trunk st' ! i = bs ! j" using r unfolding T' by (simp add: nth_append)
      have "sm_get (heights st) (ref_hash (bs ! j)) = Some (- int (Suc r + j))"
        using path j(1) by (simp add: branch_path_def)
      then show ?thesis using j knownH unfolding e by (simp add: H')
    next
      case 3
      then show ?thesis using r unfolding T' by (simp add: nth_append H')
    qed
  qed
  have rev: "nat n < length (trunk st') \<and> ref_hash (trunk st' ! nat n) = h"
    if h: "sm_get (heights st') h = Some n" "0 \<le> n" for h n
  proof (cases "h = ref_hash ref")
    case True
    then have "n = int (Suc r + length bs)" using h by (simp add: H')
    then show ?thesis using True r unfolding T' by (simp add: nth_append nat_add_distrib)
  next
    case False
    show ?thesis
    proof (cases "h \<in> ref_hash ` set bs")
      case True
      from path_hash_height [OF path this] obtain j where j: "j < length bs" "h = ref_hash (bs ! j)"
        "sm_get (heights st) h = Some (- int (Suc r + j))" by metis
      then have "n = int (Suc r + j)" using h True False by (simp add: H')
      then show ?thesis using j r unfolding T' by (simp add: nth_append nat_add_distrib)
    next
      case nb: False
      have nS: "h \<notin> ref_hash ` set ?S"
      proof
        assume a: "h \<in> ref_hash ` set ?S"
        then obtain i where i: "r < i" "i < length ?T" "h = ref_hash (?T ! i)" unfolding hash_in_drop by auto
        then have "n = - int i" using h a False inv_maps(7) [OF inv i(2)] by (simp add: H')
        with i h(2) show False by simp
      qed
      then have hn: "sm_get (heights st) h = Some n" using h nb False by (simp add: H')
      have n: "nat n < length ?T" "ref_hash (?T ! nat n) = h" using inv_trunk [OF inv hn h(2)] by auto
      then have "nat n \<le> r" using nS unfolding hash_in_drop by (metis not_le)
      then show ?thesis using n r unfolding T' by (simp add: nth_append)
    qed
  qed
  have brs: "branch_ok bn A' st' h e" if h: "sm_get (branches st') h = Some e" for h e
  proof -
    have nb: "h \<notin> ref_hash ` set bs" using h by (auto simp: B')
    have "ref_hash e = h \<and> work_ok bn e \<and> A h = A (ref_prev e) + work_of bn e \<and> A h \<le> A (ref_hash (last ?T)) \<and>
      (\<exists>n m. sm_get (heights st) h = Some n \<and> sm_get (heights st) (ref_prev e) = Some m \<and> \<bar>n\<bar> = \<bar>m\<bar> + 1 \<and>
         sm_get (heights st') h = Some (- \<bar>n\<bar>))"
    proof (cases "h \<in> ref_hash ` set ?S")
      case True
      then obtain i where i: "r < i" "i < length ?T" "h = ref_hash (?T ! i)"
        using hash_in_drop [of h r ?T] by blast
      have hi: "sm_get (heights st) h = Some (int i)" using inv_maps(7) [OF inv i(2)] i(3) by simp
      have e: "e = ?T ! i" using h True nb hi by (simp add: B' known_def)
      obtain k where k: "i = Suc k" using i(1) by (cases i) auto
      have l: "link bn A (?T ! k) (?T ! Suc k)"
        using successively_nth [OF inv_maps(5) [OF inv]] i(2) k by simp
      have hk: "sm_get (heights st) (ref_hash (?T ! k)) = Some (int k)" using inv_maps(7) [OF inv] i(2) k by simp
      have "sm_get (heights st') h = Some (- int i)" using True hi knownH [OF hi] by (simp add: H')
      then show ?thesis
        using l hk hi e i k trunk_work_mono [OF doc inv i(2)] inv_maps(6) [OF inv, of e]
        by (auto simp: link_def)
    next
      case False
      then have "sm_get (branches st) h = Some e" using h nb by (simp add: B')
      from inv_maps(8) [OF inv this] have b: "branch_ok bn A st h e" .
      then obtain n m where nm: "sm_get (heights st) h = Some n" "sm_get (heights st) (ref_prev e) = Some m"
        "n = - \<bar>m\<bar> - 1" by (auto simp: branch_ok_def)
      have "sm_get (heights st') h = Some n" using nm(1) False nb knownH [OF nm(1)] by (simp add: H')
      then show ?thesis using b nm unfolding branch_ok_def by auto
    qed
    then obtain n m where nm: "ref_hash e = h" "work_ok bn e" "A h = A (ref_prev e) + work_of bn e"
      "A h \<le> A (ref_hash (last ?T))" "sm_get (heights st) h = Some n" "sm_get (heights st) (ref_prev e) = Some m"
      "\<bar>n\<bar> = \<bar>m\<bar> + 1" "sm_get (heights st') h = Some (- \<bar>n\<bar>)" by blast
    obtain m' where m': "sm_get (heights st') (ref_prev e) = Some m'" "\<bar>m'\<bar> = \<bar>m\<bar>"
      using reorg_height_abs [OF inv path nm(6) knownH [OF nm(6)]] unfolding st'_def by blast
    have "last (trunk st') = ref" by (simp add: T')
    then show ?thesis
      using nm m' best A'_known [OF nm(5)] A'_known [OF nm(6)] unfolding branch_ok_def by (simp add: A'ref)
  qed
  have neg: "sm_has (branches st') h" if h: "sm_get (heights st') h = Some n" "n < 0" for h n
  proof -
    have hr: "h \<noteq> ref_hash ref" using h by (auto simp: H')
    have nb: "h \<notin> ref_hash ` set bs"
    proof
      assume a: "h \<in> ref_hash ` set bs"
      from path_hash_height [OF path this] obtain j where "sm_get (heights st) h = Some (- int (Suc r + j))" by metis
      then show False using h a hr by (simp add: H')
    qed
    show ?thesis
    proof (cases "h \<in> ref_hash ` set ?S")
      case True
      then obtain i where "i < length ?T" "h = ref_hash (?T ! i)" unfolding hash_in_drop by auto
      then have "known st h \<noteq> None" using inv_maps(7) [OF inv] by (simp add: known_def)
      then show ?thesis using True nb by (simp add: sm_has_def B')
    next
      case False
      then have "sm_get (heights st) h = Some n" using h hr nb by (simp add: H')
      from inv_branch [OF inv this h(2)] show ?thesis using False nb by (metis B' option.distinct(1) sm_has_def)
    qed
  qed
  have "sm_ok (branches st')" "sm_ok (heights st')"
    using sm.invar_fold_put [OF inv_maps(1) [OF inv], of ref_hash "\<lambda>x. x"] inv_maps(2) [OF inv]

    by (simp_all add: st'_def reorg_state_def sm_ok_fold_flip sm.invar_fold_erase [where f = "\<lambda>x. x"])
  then show ?thesis
    unfolding tree_inv_def using acc links works idx rev brs neg by (intro conjI allI impI) (simp_all add: T')
qed


lemma known_reorg:
  assumes inv: "tree_inv bn A st" and path: "branch_path bn A st r bs"
    and fresh: "sm_get (heights st) (ref_hash ref) = None"
  shows "known (reorg_state st r bs ref acc) h = ((known st)(ref_hash ref \<mapsto> ref)) h"
proof -
  let ?st' = "reorg_state st r bs ref acc" and ?T = "trunk st"
  have r: "r < length ?T" using path by (simp add: branch_path_def)
  have T': "trunk ?st' = take (Suc r) ?T @ bs @ [ref]" by (simp add: reorg_state_def)
  note H' = reorg_heights [OF inv path, of ref acc h] and B' = reorg_branches [OF inv, of r bs ref acc h]
  consider "h = ref_hash ref" | "h \<noteq> ref_hash ref" "h \<in> ref_hash ` set bs"
    | "h \<noteq> ref_hash ref" "h \<notin> ref_hash ` set bs" "h \<in> ref_hash ` set (drop (Suc r) ?T)"
    | "h \<noteq> ref_hash ref" "h \<notin> ref_hash ` set bs" "h \<notin> ref_hash ` set (drop (Suc r) ?T)"
    by blast
  then show ?thesis
  proof cases
    case 1
    then have "sm_get (heights ?st') h = Some (int (Suc r + length bs))" unfolding H' by simp
    then show ?thesis using 1 r by (simp add: known_def T' nth_append nat_add_distrib)
  next
    case 2
    from path_hash_height [OF path 2(2)] obtain j where j: "j < length bs" "h = ref_hash (bs ! j)"
      "sm_get (heights st) h = Some (- int (Suc r + j))" "sm_get (branches st) h = Some (bs ! j)" by metis
    then have "sm_get (heights ?st') h = Some (int (Suc r + j))" using 2(1,2) j(3) unfolding H' by simp
    then show ?thesis using 2 j r by (simp add: known_def T' nth_append nat_add_distrib)
  next
    case 3
    then obtain i where i: "r < i" "i < length ?T" "h = ref_hash (?T ! i)" using hash_in_drop [of h r ?T] by blast
    have hi: "sm_get (heights st) h = Some (int i)" using inv_maps(7) [OF inv i(2)] i(3) by simp
    have "sm_get (heights ?st') h = Some (- int i)" using 3 hi unfolding H' by simp
    moreover have "sm_get (branches ?st') h = known st h" using 3 unfolding B' by simp
    ultimately show ?thesis using 3(1) i(1) by (simp add: known_def)
  next
    case 4
    then have H: "sm_get (heights ?st') h = sm_get (heights st) h" and B: "sm_get (branches ?st') h = sm_get (branches st) h"
      by (simp_all add: H' B')
    have "trunk ?st' ! nat n = ?T ! nat n" if n: "sm_get (heights st) h = Some n" "0 \<le> n" for n
    proof -
      have "nat n < length ?T" "ref_hash (?T ! nat n) = h" using inv_trunk [OF inv n] by auto
      then have "nat n \<le> r" using 4(3) unfolding hash_in_drop by (metis not_le)
      then show ?thesis using r by (simp add: T' nth_append)
    qed
    then show ?thesis using 4(1) by (simp add: known_def H B split: option.splits)
  qed
qed

lemma known_trunk: "tree_inv bn A st \<Longrightarrow> e \<in> set (trunk st) \<Longrightarrow> known st (ref_hash e) = Some e"
  using inv_maps(7) [of bn A st] by (auto simp: in_set_conv_nth known_def)

definition side_state :: "tree \<Rightarrow> blockref \<Rightarrow> int \<Rightarrow> tree" where
  "side_state st ref n =
     st\<lparr>branches := sm_put (ref_hash ref) ref (branches st),
        heights := sm_put (ref_hash ref) (- \<bar>n\<bar> - 1) (heights st)\<rparr>"

lemma insert_side:
  assumes "tree_inv bn A st" and "bn_documented bn" and "known st (ref_prev ref) = Some blk"
    and "sm_get (heights st) (ref_prev ref) = Some n"
    and "work_ok bn ref" and "\<not> A (ref_prev ref) + work_of bn ref > A (ref_hash (last (trunk st)))"
  shows "insert_ref bn st ref = Inr (\<lparr>deleted = [], inserted = []\<rparr>, side_state st ref n)"
proof -
  have "ref_hash blk = ref_prev ref" using known_hash [OF assms(1,3)] .
  moreover have "last (acc_work st) = A (ref_hash (last (trunk st)))" "acc_work st \<noteq> []"
    using inv_maps(3,4) [OF assms(1)] by (simp_all add: last_map)
  moreover have "height_of st (ref_prev ref) = Inr n" using assms(4) by (simp add: height_of_def)
  ultimately show ?thesis
    using assms(3,5,6) accumulatedWork_known [OF assms(1-3)]
    by (simp add: insert_ref_def find_ref_known [OF assms(1)] bn_doc_arith(1,7) [OF assms(2)] work_ok_def
        Let_def side_state_def)
qed

lemma side_inv:
  assumes inv: "tree_inv bn A st" and fresh: "sm_get (heights st) (ref_hash ref) = None"
    and n: "sm_get (heights st) (ref_prev ref) = Some n"
    and ok: "work_ok bn ref" and w: "\<not> A (ref_prev ref) + work_of bn ref > A (ref_hash (last (trunk st)))"
  defines "A' \<equiv> A(ref_hash ref := A (ref_prev ref) + work_of bn ref)"
  shows "tree_inv bn A' (side_state st ref n)"
proof -
  let ?st' = "side_state st ref n"
  have H': "sm_get (heights ?st') = (sm_get (heights st))(ref_hash ref \<mapsto> - \<bar>n\<bar> - 1)"
    and B': "sm_get (branches ?st') = (sm_get (branches st))(ref_hash ref \<mapsto> ref)"
    and T': "trunk ?st' = trunk st" "acc_work ?st' = acc_work st"
    by (simp_all add: side_state_def)
  have knownH: "h \<noteq> ref_hash ref" if "sm_get (heights st) h = Some m" for h m using that fresh by auto
  have tr: "ref_hash e \<noteq> ref_hash ref" if "e \<in> set (trunk st)" for e
    using that knownH inv_maps(7) [OF inv] by (metis in_set_conv_nth)
  have A'_known: "A' h = A h" if "sm_get (heights st) h = Some m" for h m
    using knownH [OF that] by (simp add: A'_def)
  have A'T: "A' (ref_hash e) = A (ref_hash e)" if "e \<in> set (trunk st)" for e
    using tr [OF that] by (simp add: A'_def)
  have links: "successively (link bn A') (trunk st)"
    by (rule successively_mono [OF inv_maps(5) [OF inv]]) (simp add: link_def A'T)
  have lst: "A' (ref_hash (last (trunk st))) = A (ref_hash (last (trunk st)))"
    using A'T inv_maps(3) [OF inv] by simp
  have brs: "branch_ok bn A' ?st' h e" if h: "sm_get (branches ?st') h = Some e" for h e
  proof (cases "h = ref_hash ref")
    case True
    then have "e = ref" using h by (simp add: B')
    then show ?thesis
      using True ok w n lst A'_known [OF n] knownH [OF n] by (simp add: branch_ok_def T' H' A'_def)
  next
    case False
    then have "branch_ok bn A st h e" using h inv_maps(8) [OF inv] by (simp add: B')
    then show ?thesis
      using A'_known knownH unfolding branch_ok_def T' lst H' by (auto simp: A'_known)
  qed
  have "sm_ok (branches ?st')" "sm_ok (heights ?st')"
    using inv_maps(1,2) [OF inv] by (simp_all add: side_state_def)
  moreover have "acc_work st = map (\<lambda>r. A' (ref_hash r)) (trunk st)"
    using inv_maps(4) [OF inv] A'T by simp
  moreover have "sm_get (heights ?st') (ref_hash (trunk st ! i)) = Some (int i)" if "i < length (trunk st)" for i
    using inv_maps(7) [OF inv that] tr that by (simp add: H')
  moreover have "nat m < length (trunk st) \<and> ref_hash (trunk st ! nat m) = h"
    if "sm_get (heights ?st') h = Some m" "0 \<le> m" for h m
    using that inv_trunk [OF inv, of h m] by (simp add: H' split: if_splits)
  moreover have "sm_has (branches ?st') h" if "sm_get (heights ?st') h = Some m" "m < 0" for h m
    using that inv_branch [OF inv, of h m] by (auto simp: H' B' sm_has_def split: if_splits)
  ultimately show ?thesis
    unfolding tree_inv_def using links brs inv_maps(3,6) [OF inv] by (simp add: T')
qed


lemma known_side:
  assumes inv: "tree_inv bn A st"
  shows "known (side_state st ref n) h = ((known st)(ref_hash ref \<mapsto> ref)) h"
  by (simp add: known_def side_state_def split: option.split)

lemma work_ok_of_bits:
  assumes "bn_documented bn" and "\<not> bit (ref_bits ref) 31"
  shows "work_ok bn ref"
  using assms(2)
  by (auto simp: work_ok_def work_of_def blockref_work_def SetCompact_def bn_doc_arith [OF assms(1)] split: sum.splits)

lemma insert_ref_total:
  assumes "bn_documented bn" and "tree_inv bn A st" and "known st (ref_prev ref) \<noteq> None"
    and "known st (ref_hash ref) = None" and "\<not> bit (ref_bits ref) 31"
  shows "\<exists>ch st' common.
    insert_ref bn st ref = Inr (ch, st') \<and>
    tree_inv bn (A(ref_hash ref := A (ref_prev ref) + work_of bn ref)) st' \<and>
    known st' = (known st)(ref_hash ref \<mapsto> ref) \<and>
    last (trunk st') =
      (if A (ref_prev ref) + work_of bn ref > A (ref_hash (last (trunk st))) then ref else last (trunk st)) \<and>
    map ref_hash (trunk st) = common @ deleted ch \<and>
    map ref_hash (trunk st') = common @ rev (inserted ch)"
proof -
  obtain blk where blk: "known st (ref_prev ref) = Some blk" using assms(3) by auto
  have hb: "ref_hash blk = ref_prev ref" using known_hash [OF assms(2) blk] .
  obtain n where n: "sm_get (heights st) (ref_prev ref) = Some n"
    using blk by (auto simp: known_def split: option.splits)
  have fresh: "sm_get (heights st) (ref_hash ref) = None"
  proof (cases "sm_get (heights st) (ref_hash ref)")
    case (Some m)
    then show ?thesis using known_of_height [OF assms(2) Some] assms(4) by auto
  qed
  have ok: "work_ok bn ref" by (rule work_ok_of_bits [OF assms(1,5)])
  show ?thesis
  proof (cases "A (ref_prev ref) + work_of bn ref > A (ref_hash (last (trunk st)))")
    case True
    obtain r bs where path: "branch_path bn A st r bs" and l: "last (trunk st ! r # bs) = blk"
      and ins: "insert_ref bn st ref =
      Inr (\<lparr>deleted = map ref_hash (drop (Suc r) (trunk st)), inserted = ref_hash ref # rev (map ref_hash bs)\<rparr>,
           reorg_state st r bs ref
             (map (\<lambda>r. A (ref_hash r)) (take (Suc r) (trunk st) @ bs) @ [A (ref_prev ref) + work_of bn ref]))"
      using insert_reorg [OF assms(2,1) blk ok True] by blast
    note inv' = reorg_inv [OF assms(2,1) path l hb fresh ok True]
    let ?st' = "reorg_state st r bs ref
       (map (\<lambda>r. A (ref_hash r)) (take (Suc r) (trunk st) @ bs) @ [A (ref_prev ref) + work_of bn ref])"
    have k: "known ?st' = (known st)(ref_hash ref \<mapsto> ref)"
      by (rule ext) (rule known_reorg [OF assms(2) path fresh])
    have t: "trunk ?st' = take (Suc r) (trunk st) @ bs @ [ref]" by (simp add: reorg_state_def)
    then have "last (trunk ?st') = ref"
      and c': "map ref_hash (trunk ?st') = map ref_hash (take (Suc r) (trunk st)) @
         rev (ref_hash ref # rev (map ref_hash bs))" by simp_all
    moreover have "map ref_hash (trunk st) =
        map ref_hash (take (Suc r) (trunk st)) @ map ref_hash (drop (Suc r) (trunk st))"
      by (simp flip: map_append)
    ultimately show ?thesis
      unfolding ins using inv' True k by (intro exI conjI) (rule refl, simp_all)
  next
    case False
    note inv' = side_inv [OF assms(2) fresh n ok False]
    have k: "known (side_state st ref n) = (known st)(ref_hash ref \<mapsto> ref)"
      by (rule ext) (rule known_side [OF assms(2)])
    have t: "trunk (side_state st ref n) = trunk st" by (simp add: side_state_def)
    show ?thesis
      unfolding insert_side [OF assms(2,1) blk n ok False]
      using inv' False k t by (intro exI conjI) (rule refl, simp_all)
  qed
qed

text \<open>C28: \<open>insert\<close> keeps the tree consistent, and the trunk the chain with most work. In a
  consistent tree, inserting a new block whose predecessor is known succeeds; the tree stays
  consistent, knows exactly one block more, and has the new block as its tip if, and only if, the work
  accumulated up to it exceeds that of the old tip. The changes returned describe the move of the
  trunk: above a common part, the hashes of \<open>deleted\<close> are the old trunk's in order, and those of
  \<open>inserted\<close> the new trunk's in reverse order.\<close>

theorem insert_ref_correct:
  assumes "bn_documented bn" and "tree_inv bn A st" and "known st (ref_prev ref) \<noteq> None"
    and "known st (ref_hash ref) = None" and "\<not> bit (ref_bits ref) 31"
  shows "\<exists>ch st' common.
    insert_ref bn st ref = Inr (ch, st') \<and>
    tree_inv bn (A(ref_hash ref := A (ref_prev ref) + work_of bn ref)) st' \<and>
    known st' = (known st)(ref_hash ref \<mapsto> ref) \<and>
    last (trunk st') =
      (if A (ref_prev ref) + work_of bn ref > A (ref_hash (last (trunk st))) then ref else last (trunk st)) \<and>
    map ref_hash (trunk st) = common @ deleted ch \<and>
    map ref_hash (trunk st') = common @ rev (inserted ch)"
  by (rule insert_ref_total [OF assms])

lemma sm_erase_fresh: "sm_get m k = None \<Longrightarrow> sm_erase k m = m"
  by (induction m) (auto simp: sm_get_def sm_erase_def split: if_splits)

lemma sm_erase_put_fresh: "sm_get m k = None \<Longrightarrow> sm_erase k (sm_put k v m) = m"
proof (induction k v m rule: sm_put.induct)
  case (2 k v k' v' m)
  have "k' \<noteq> k" "sm_get m k = None" using 2(2) by (auto simp: sm_get_def split: if_splits)
  then show ?case
    using 2(1) sm_erase_fresh [of m k] by (auto simp: sm_erase_def)
qed (simp add: sm_erase_def)

lemma candidates_none:
  assumes "tree_inv bn A st" and "bn_documented bn"
    and "\<forall>(h, e)\<in>set bs. sm_get (branches st) h = Some e" and "A (ref_hash (last (trunk st))) \<le> w"
  shows "candidates bn st w bs found = Inr found"
  using assms(3)
proof (induction bs)
  case Nil
  then show ?case by simp
next
  case (Cons b bs)
  obtain h e where b: "b = (h, e)" by (cases b)
  have B: "sm_get (branches st) h = Some e" using Cons.prems b by simp
  have ok: "branch_ok bn A st h e" using inv_maps(8) [OF assms(1) B] .
  then obtain n where "n < 0" "sm_get (heights st) h = Some n" using branch_height_neg by blast
  then have k: "known st h = Some e" using B by (simp add: known_def)
  have "\<not> A h > w" using ok assms(4) by (simp add: branch_ok_def)
  then show ?case
    using Cons b k by (simp add: find_ref_known [OF assms(1)] accumulatedWork_known [OF assms(1,2) k]
        bn_doc_arith(7) [OF assms(2)])
qed

text \<open>\<open>pop_back\<close> undoes the insertion of a block on the tip: when a block of positive work
  that extends the trunk is inserted in a consistent tree and removed again (as \<^verbatim>\<open>BlockChain\<close>
  does with a block that turns out invalid), the tree is the one before, in every field.\<close>

lemma pop_back_insert:
  assumes "bn_documented bn" and "tree_inv bn A st" and "ref_prev ref = ref_hash (last (trunk st))"
    and "known st (ref_hash ref) = None" and "\<not> bit (ref_bits ref) 31" and "0 < work_of bn ref"
  shows "\<exists>st'. insert_ref bn st ref = Inr (\<lparr>deleted = [], inserted = [ref_hash ref]\<rparr>, st') \<and>
    trunk st' = trunk st @ [ref] \<and> pop_back bn st' = Inr st"
proof -
  let ?T = "trunk st"
  have T: "?T \<noteq> []" by (rule inv_maps(3) [OF assms(2)])
  obtain n0 where n: "n0 < length ?T" "Suc n0 = length ?T" "?T ! n0 = last ?T"
    using T by (metis Suc_pred diff_Suc_less last_conv_nth length_greater_0_conv One_nat_def)
  have blk: "known st (ref_prev ref) = Some (last ?T)"
    using known_trunk [OF assms(2), of "last ?T"] T assms(3) by simp
  have fresh: "sm_get (heights st) (ref_hash ref) = None"
  proof (cases "sm_get (heights st) (ref_hash ref)")
    case (Some m)
    then show ?thesis using known_of_height [OF assms(2) Some] assms(4) by auto
  qed
  have ok: "work_ok bn ref" by (rule work_ok_of_bits [OF assms(1,5)])
  have more: "A (ref_prev ref) + work_of bn ref > A (ref_hash (last ?T))" using assms(3,6) by simp
  obtain r bs where path: "branch_path bn A st r bs" and l: "last (?T ! r # bs) = last ?T"
    and ins: "insert_ref bn st ref =
      Inr (\<lparr>deleted = map ref_hash (drop (Suc r) ?T), inserted = ref_hash ref # rev (map ref_hash bs)\<rparr>,
           reorg_state st r bs ref
             (map (\<lambda>r. A (ref_hash r)) (take (Suc r) ?T @ bs) @ [A (ref_prev ref) + work_of bn ref]))"
    using insert_reorg [OF assms(2,1) blk ok more] by blast
  have nb: "bs = []"
  proof (rule ccontr)
    assume "bs \<noteq> []"
    then have "last ?T \<in> set bs" using l by (metis last.simps last_in_set)
    then have "sm_get (branches st) (ref_hash (last ?T)) \<noteq> None"
      using path by (simp add: branch_path_def)
    then show False using trunk_not_branch [OF assms(2) n(1)] n(3) by simp
  qed
  have "r = n0" using trunk_hash_inj [OF assms(2) _ n(1), of r] path l n(3) nb by (simp add: branch_path_def)
  with n(2) have r: "Suc r = length ?T" by simp
  let ?st' = "st\<lparr>heights := sm_put (ref_hash ref) (int (length ?T)) (heights st), trunk := ?T @ [ref],
     acc_work := acc_work st @ [A (ref_prev ref) + work_of bn ref]\<rparr>"
  have ins': "insert_ref bn st ref = Inr (\<lparr>deleted = [], inserted = [ref_hash ref]\<rparr>, ?st')"
    using ins r nb inv_maps(4) [OF assms(2)] by (simp add: reorg_state_def)
  let ?st1 = "st\<lparr>heights := sm_put (ref_hash ref) (int (length ?T)) (heights st)\<rparr>"
  have hl: "sm_get (heights st) (ref_hash (last ?T)) = Some (int n0)"
    using inv_maps(7) [OF assms(2) n(1)] n(3) by simp
  have neq: "ref_hash (last ?T) \<noteq> ref_hash ref" using hl fresh by auto
  have "accumulatedWork bn ?st1 (last ?T) = Inr (A (ref_hash (last ?T)))"
    using hl neq n inv_maps(4) [OF assms(2)] by (simp add: accumulatedWork_def height_of_def)
  moreover have "?st1\<lparr>heights := sm_erase (ref_hash ref) (heights ?st1)\<rparr> = st"
    by (simp add: sm_erase_put_fresh [OF fresh])
  moreover have "candidates bn st (A (ref_hash (last ?T))) (branches st) None = Inr None"
    by (rule candidates_none [OF assms(2,1)]) (use sm_get_iff [OF inv_maps(1) [OF assms(2)]] in auto)
  ultimately have "pop_back bn ?st' = Inr st"
    using T by (simp add: pop_back_def best_def)
  then show ?thesis using ins' by simp
qed


section \<open>Building a tree, and a removal that reorganises\<close>

lemma assign_heights_linked:
  assumes "successively (\<lambda>a b. ref_prev b = ref_hash a) (r # rs)" and "distinct (map ref_hash rs)"
  shows "\<exists>hs'. assign_heights (ref_hash r) h rs hs = Inr hs' \<and> (sm_ok hs \<longrightarrow> sm_ok hs') \<and>
    (\<forall>i<length rs. sm_get hs' (ref_hash (rs ! i)) = Some (h + int i)) \<and>
    (\<forall>k. k \<notin> ref_hash ` set rs \<longrightarrow> sm_get hs' k = sm_get hs k)"
  using assms
proof (induction rs arbitrary: r h hs)
  case Nil
  then show ?case by simp
next
  case (Cons x xs)
  have p: "ref_prev x = ref_hash r" "successively (\<lambda>a b. ref_prev b = ref_hash a) (x # xs)"
    "distinct (map ref_hash xs)" "ref_hash x \<notin> ref_hash ` set xs"
    using Cons.prems by simp_all
  obtain hs' where a: "assign_heights (ref_hash x) (h + 1) xs (sm_put (ref_hash x) h hs) = Inr hs'"
    and b: "sm_ok (sm_put (ref_hash x) h hs) \<longrightarrow> sm_ok hs'"
    and c: "\<forall>i<length xs. sm_get hs' (ref_hash (xs ! i)) = Some (h + 1 + int i)"
    and d: "\<forall>k. k \<notin> ref_hash ` set xs \<longrightarrow> sm_get hs' k = sm_get (sm_put (ref_hash x) h hs) k"
    using Cons.IH [OF p(2,3)] by blast
  have "sm_get hs' (ref_hash ((x # xs) ! i)) = Some (h + int i)" if "i < length (x # xs)" for i
    using that c d p(4) by (cases i) simp_all
  then show ?case
    using a b d p(1) by (intro exI [of _ hs']) (simp add: image_iff)
qed

primrec work_sums :: "bn_lib \<Rightarrow> int \<Rightarrow> blockref list \<Rightarrow> int list" where
  "work_sums bn s [] = []"
| "work_sums bn s (r # rs) = (s + work_of bn r) # work_sums bn (s + work_of bn r) rs"

lemma assign_work_sums:
  "bn_documented bn \<Longrightarrow> \<forall>r\<in>set rs. work_ok bn r \<Longrightarrow> assign_work bn s rs = Inr (work_sums bn s rs)"
  by (induction rs arbitrary: s) (simp_all add: work_ok_def bn_doc_arith)

lemma length_work_sums [simp]: "length (work_sums bn s rs) = length rs"
  by (induction rs arbitrary: s) simp_all

lemma nth_work_sums:
  "i < length rs \<Longrightarrow> work_sums bn s rs ! i = (s # work_sums bn s rs) ! i + work_of bn (rs ! i)"
proof (induction rs arbitrary: s i)
  case (Cons r rs)
  then show ?case by (cases i) simp_all
qed simp

text \<open>\<open>assign\<close> builds a consistent tree from any chain: given blocks with distinct hashes, each
  linked to the one before, on an empty tree it succeeds, with the chain as the trunk and no branch.\<close>

theorem assign_correct:
  assumes "bn_documented bn" and "trk \<noteq> []" and "successively (\<lambda>a b. ref_prev b = ref_hash a) trk"
    and "distinct (map ref_hash trk)" and "\<forall>r\<in>set trk. \<not> bit (ref_bits r) 31"
  shows "\<exists>A st. assign bn empty_tree trk = Inr st \<and> tree_inv bn A st \<and> trunk st = trk \<and> branches st = []"
proof -
  obtain r rs where trk: "trk = r # rs" using assms(2) by (cases trk) auto
  have ok: "\<forall>x\<in>set trk. work_ok bn x" using assms(5) work_ok_of_bits [OF assms(1)] by blast
  obtain hs where hs: "assign_heights (ref_hash r) 1 rs [(ref_hash r, 0)] = Inr hs" "sm_ok hs"
    "\<forall>i<length rs. sm_get hs (ref_hash (rs ! i)) = Some (1 + int i)"
    "\<forall>k. k \<notin> ref_hash ` set rs \<longrightarrow> sm_get hs k = sm_get [(ref_hash r, 0)] k"
    using assign_heights_linked [of r rs 1 "[(ref_hash r, 0)]"] assms(3,4) by (auto simp: trk sm_ok_def)
  let ?acc = "work_of bn r # work_sums bn (work_of bn r) rs"
  define A where "A h = (case map_of (zip (map ref_hash trk) ?acc) h of None \<Rightarrow> 0 | Some a \<Rightarrow> a)" for h
  let ?st = "empty_tree\<lparr>trunk := trk, heights := hs, acc_work := ?acc\<rparr>"
  have st: "assign bn empty_tree trk = Inr ?st"
    using hs(1) ok assign_work_sums [OF assms(1), of rs "work_of bn r"]
    by (simp add: assign_def sparse_assign_def empty_tree_def trk work_ok_def)
  have len: "length ?acc = length trk" by (simp add: trk)
  have A: "A (ref_hash (trk ! i)) = ?acc ! i" if "i < length trk" for i
  proof -
    have "map_of (zip (map ref_hash trk) ?acc) (map ref_hash trk ! i) = Some (?acc ! i)"
      by (rule map_of_zip_nth) (use assms(4) that len in simp_all)
    then show ?thesis using that by (simp add: A_def)
  qed
  have "?acc = map (\<lambda>x. A (ref_hash x)) trk"
    by (rule nth_equalityI) (use A len in simp_all)
  moreover have "successively (link bn A) trk"
    unfolding successively_conv_nth link_def
  proof (intro allI impI conjI)
    fix i assume i: "Suc i < length trk"
    show "ref_prev (trk ! Suc i) = ref_hash (trk ! i)" by (rule successively_nth [OF assms(3) i])
    have "i < length rs" using i trk by simp
    then show "A (ref_hash (trk ! Suc i)) = A (ref_hash (trk ! i)) + work_of bn (trk ! Suc i)"
      unfolding A [OF i] A [OF Suc_lessD [OF i]] using nth_work_sums [of i rs bn "work_of bn r"] by (simp add: trk)
  qed
  moreover have idx: "sm_get hs (ref_hash (trk ! i)) = Some (int i)" if "i < length trk" for i
    using that hs(3,4) assms(4) by (cases i) (simp_all add: trk sm_get_def)
  moreover have "0 \<le> n \<and> nat n < length trk \<and> ref_hash (trk ! nat n) = k" if k: "sm_get hs k = Some n" for k n
  proof -
    have "k \<in> ref_hash ` set trk"
      using k hs(4) by (cases "k \<in> ref_hash ` set rs") (auto simp: trk sm_get_def split: if_splits)
    then obtain i where "i < length trk" "k = ref_hash (trk ! i)" by (auto simp: in_set_conv_nth)
    then show ?thesis using idx k by auto
  qed
  ultimately have "tree_inv bn A ?st"
    unfolding tree_inv_def using ok hs(2) assms(2)
    by (auto simp: empty_tree_def sm_has_def) (meson leD)
  with st show ?thesis by (auto simp: empty_tree_def)
qed

text \<open>A trunk of four blocks of equal work, and a branch from the first one with more work than
  two of them and less than three.\<close>

definition sample_ref :: "uint256 \<Rightarrow> uint256 \<Rightarrow> u32 \<Rightarrow> blockref" where
  "sample_ref h p b = \<lparr>ref_version = 2, ref_hash = h, ref_prev = p, ref_time = 0, ref_bits = b\<rparr>"

definition sample_tree :: tree where
  "sample_tree =
     \<lparr>branches = [(5, sample_ref 5 1 0x01660000)],
      heights = [(1, 0), (2, 1), (3, 2), (4, 3), (5, - 1)],
      trunk = [sample_ref 1 0 0x0200ff00, sample_ref 2 1 0x0200ff00, sample_ref 3 2 0x0200ff00,
               sample_ref 4 3 0x0200ff00],
      acc_work = [2 ^ 248, 2 * 2 ^ 248, 3 * 2 ^ 248, 4 * 2 ^ 248], trimmed = 0\<rparr>"

definition sample_acc :: "uint256 \<Rightarrow> int" where
  "sample_acc h = (if h = 5 then 2 ^ 248 + 2 ^ 256 div 103 else uint h * 2 ^ 248)"

lemma sample_sel [simp]:
  "ref_hash (sample_ref h p b) = h" "ref_prev (sample_ref h p b) = p" "ref_bits (sample_ref h p b) = b"
  by (simp_all add: sample_ref_def)

lemma sample_work:
  "blockref_work ref_bn (sample_ref h p 0x0200ff00) = Inr (2 ^ 248)"
  "blockref_work ref_bn (sample_ref h p 0x01660000) = Inr (2 ^ 256 div 103)"
  by (simp_all add: blockref_work_def SetCompact_def ref_bn_def compact_bytes_def be_size_def
      mpi_value_def be_value_def bn_quot_def)

lemma sample_work_of:
  "work_of ref_bn (sample_ref h p 0x0200ff00) = 2 ^ 248" "work_ok ref_bn (sample_ref h p 0x0200ff00)"
  "work_of ref_bn (sample_ref h p 0x01660000) = 2 ^ 256 div 103" "work_ok ref_bn (sample_ref h p 0x01660000)"
  by (simp_all only: work_of_def work_ok_def sample_work sum.case)

lemma sample_tree_inv: "tree_inv ref_bn sample_acc sample_tree"
  unfolding tree_inv_def sample_tree_def
  by (auto simp: sm_ok_def sm_get_def sm_has_def sample_work_of link_def branch_ok_def sample_acc_def
      less_Suc_eq nth_Cons' split: if_splits)

text \<open>\<open>pop_back\<close> loses the invariant when it reorganises. On a consistent tree whose branch
  has more work than what is left of the trunk, the branch becomes the trunk but its block keeps a
  negative height, and of the blocks of the old trunk only the first above the fork becomes a
  branch: the height of the next one points outside the trunk, so that finding it reads out of range.\<close>

theorem pop_back_reorganisation:
  "tree_inv ref_bn sample_acc sample_tree \<and>
   (\<exists>st'. pop_back ref_bn sample_tree = Inr st' \<and> map ref_hash (trunk st') = [1, 5] \<and>
      height_of st' 5 = Inr (- 1) \<and> find_ref st' 3 = Inl Out_of_range \<and>
      (\<forall>A. \<not> tree_inv ref_bn A st'))"
proof -
  let ?st' = "\<lparr>branches = [(2, sample_ref 2 1 0x0200ff00)], heights = [(1, 0), (2, - 1), (3, 2), (5, - 1)],
    trunk = [sample_ref 1 0 0x0200ff00, sample_ref 5 1 0x01660000],
    acc_work = [2 ^ 248, 2 ^ 248 + 2 ^ 256 div 103], trimmed = 0\<rparr>"
  let ?st1 = "sample_tree\<lparr>trunk := butlast (trunk sample_tree), acc_work := butlast (acc_work sample_tree),
    heights := [(1, 0), (2, 1), (3, 2), (5, - 1)]\<rparr>"
  have fuel: "(4 :: nat) = Suc (Suc 2)" "(2 :: nat) = Suc (Suc 0)" by simp_all
  have sb: "step_back ?st1 (sample_ref 5 1 0x01660000) = Inr (sample_ref 1 0 0x0200ff00)"
    by (simp add: step_back_def advance_def height_of_def trunk_at_def sample_tree_def sm_get_def)
  have aw: "accumulatedWork ref_bn ?st1 (sample_ref 5 1 0x01660000) = Inr (2 ^ 256 div 103 + 2 ^ 248)"
    using sb by (simp add: accumulatedWork_def height_of_def sample_tree_def sm_get_def sample_work
        bn_doc_arith(1) [OF ref_bn_documented])
  have aw3: "accumulatedWork ref_bn (sample_tree\<lparr>trunk := butlast (trunk sample_tree),
      acc_work := butlast (acc_work sample_tree)\<rparr>) (sample_ref 3 2 0x0200ff00) = Inr (3 * 2 ^ 248)"
    by (simp add: accumulatedWork_def height_of_def sample_tree_def sm_get_def)
  have cand: "candidates ref_bn ?st1 (3 * 2 ^ 248) (branches ?st1) None = Inr (Some (sample_ref 5 1 0x01660000))"
    using aw by (simp add: sample_tree_def find_ref_def sm_get_def bn_doc_arith(7) [OF ref_bn_documented])
  have crawl: "crawl (Suc (nat \<bar>- 1\<bar>)) ?st1 (sample_ref 5 1 0x01660000) [] = Inr (sample_ref 1 0 0x0200ff00, [5])"
    using sb by (simp add: height_of_def sample_tree_def sm_get_def)
  have dem: "pop_demote (Suc (length (trunk ?st1))) ?st1 (sample_ref 1 0 0x0200ff00) =
    Inr (?st1\<lparr>branches := [(2, sample_ref 2 1 0x0200ff00), (5, sample_ref 5 1 0x01660000)],
      heights := [(1, 0), (2, - 1), (3, 2), (5, - 1)]\<rparr>)"
    by (simp add: advance_def height_of_def trunk_at_def sample_tree_def sm_get_def flip_height_def sm_at_def)
  have "pop_back ref_bn sample_tree = Inr ?st'"
  proof -
    have best: "best sample_tree = Inr (sample_ref 4 3 0x0200ff00)"
      "best (sample_tree\<lparr>trunk := butlast (trunk sample_tree), acc_work := butlast (acc_work sample_tree)\<rparr>)
        = Inr (sample_ref 3 2 0x0200ff00)"
      "sample_tree\<lparr>trunk := butlast (trunk sample_tree), acc_work := butlast (acc_work sample_tree),
         heights := sm_erase 4 (heights sample_tree)\<rparr> = ?st1"
      by (simp_all add: best_def sample_tree_def sm_erase_def)
    have h: "height_of ?st1 5 = Inr (- 1)" by (simp add: height_of_def sample_tree_def sm_get_def)
    show ?thesis
      unfolding pop_back_def best and_then_simps Let_def sample_sel aw3
      using cand h crawl dem best(3)
      by (simp add: height_of_def sm_get_def sample_work sample_tree_def resize_def sm_at_def sm_erase_def
          bn_doc_arith(1) [OF ref_bn_documented])
  qed
  moreover have "\<not> tree_inv ref_bn A ?st'" for A
    using inv_trunk(1) [of ref_bn A ?st' 3 2] by (auto simp: sm_get_def)
  ultimately show ?thesis
    using sample_tree_inv by (auto simp: height_of_def find_ref_def trunk_at_def sm_get_def)
qed

theorem insert_ref_correct_witness:
  "\<exists>ch st' common.
    insert_ref ref_bn sample_tree (sample_ref 6 5 0x0200ff00) = Inr (ch, st') \<and>
    known st' = (known sample_tree)(6 \<mapsto> sample_ref 6 5 0x0200ff00) \<and> last (trunk st') = sample_ref 6 5 0x0200ff00 \<and>
    map ref_hash (trunk sample_tree) = common @ deleted ch \<and> map ref_hash (trunk st') = common @ rev (inserted ch)"
proof -
  let ?r = "sample_ref 6 5 0x0200ff00"
  have k: "known sample_tree (ref_prev ?r) \<noteq> None" "known sample_tree (ref_hash ?r) = None"
    and b: "\<not> bit (ref_bits ?r) 31"
    by (simp_all add: known_def sample_tree_def sm_get_def)
  have w: "sample_acc (ref_prev ?r) + work_of ref_bn ?r > sample_acc (ref_hash (last (trunk sample_tree)))"
    by (simp add: sample_acc_def sample_work_of sample_tree_def)
  show ?thesis
    using insert_ref_correct [OF ref_bn_documented sample_tree_inv k b] unfolding if_P [OF w] unfolding sample_sel by blast
qed

lemma pop_back_insert_witness:
  "\<exists>st'. insert_ref ref_bn sample_tree (sample_ref 6 4 0x0200ff00) = Inr (\<lparr>deleted = [], inserted = [6]\<rparr>, st') \<and>
    pop_back ref_bn st' = Inr sample_tree"
proof -
  let ?r = "sample_ref 6 4 0x0200ff00"
  have k: "ref_prev ?r = ref_hash (last (trunk sample_tree))" "known sample_tree (ref_hash ?r) = None"
    and b: "\<not> bit (ref_bits ?r) 31" "0 < work_of ref_bn ?r"
    by (simp_all add: known_def sample_tree_def sm_get_def sample_work_of)
  show ?thesis
    using pop_back_insert [OF ref_bn_documented sample_tree_inv k b] unfolding sample_sel by blast
qed

theorem assign_correct_witness:
  "\<exists>A st. assign ref_bn empty_tree (trunk sample_tree) = Inr st \<and> tree_inv ref_bn A st \<and>
     trunk st = trunk sample_tree \<and> branches st = []"
  by (rule assign_correct [OF ref_bn_documented]) (simp_all add: sample_tree_def)

end
