(* ===== verification/Script.thy ===== *)
theory Script
  imports Transaction BigNum
begin

text \<open>
  Scripts: \<^verbatim>\<open>include/coin/Script.h\<close> and the parsing half of
  \<^verbatim>\<open>src/coin/Script.cpp\<close>. A script is its byte vector; an iterator into it is a
  position. Opcodes are the bytes themselves, so that an opcode without a name is a value like the
  others. The hash functions of OpenSSL and the big number library are parameters.
\<close>

unbundle bit_operations_syntax

section \<open>Opcodes\<close>

type_synonym opcodetype = byte

abbreviation OP_0 :: opcodetype where "OP_0 \<equiv> 0"
abbreviation OP_PUSHDATA1 :: opcodetype where "OP_PUSHDATA1 \<equiv> 76"
abbreviation OP_PUSHDATA2 :: opcodetype where "OP_PUSHDATA2 \<equiv> 77"
abbreviation OP_PUSHDATA4 :: opcodetype where "OP_PUSHDATA4 \<equiv> 78"
abbreviation OP_1NEGATE :: opcodetype where "OP_1NEGATE \<equiv> 79"
abbreviation OP_RESERVED :: opcodetype where "OP_RESERVED \<equiv> 80"
abbreviation OP_1 :: opcodetype where "OP_1 \<equiv> 81"
abbreviation OP_16 :: opcodetype where "OP_16 \<equiv> 96"
abbreviation OP_NOP :: opcodetype where "OP_NOP \<equiv> 97"
abbreviation OP_VER :: opcodetype where "OP_VER \<equiv> 98"
abbreviation OP_IF :: opcodetype where "OP_IF \<equiv> 99"
abbreviation OP_NOTIF :: opcodetype where "OP_NOTIF \<equiv> 100"
abbreviation OP_VERIF :: opcodetype where "OP_VERIF \<equiv> 101"
abbreviation OP_VERNOTIF :: opcodetype where "OP_VERNOTIF \<equiv> 102"
abbreviation OP_ELSE :: opcodetype where "OP_ELSE \<equiv> 103"
abbreviation OP_ENDIF :: opcodetype where "OP_ENDIF \<equiv> 104"
abbreviation OP_VERIFY :: opcodetype where "OP_VERIFY \<equiv> 105"
abbreviation OP_RETURN :: opcodetype where "OP_RETURN \<equiv> 106"
abbreviation OP_TOALTSTACK :: opcodetype where "OP_TOALTSTACK \<equiv> 107"
abbreviation OP_FROMALTSTACK :: opcodetype where "OP_FROMALTSTACK \<equiv> 108"
abbreviation OP_2DROP :: opcodetype where "OP_2DROP \<equiv> 109"
abbreviation OP_2DUP :: opcodetype where "OP_2DUP \<equiv> 110"
abbreviation OP_3DUP :: opcodetype where "OP_3DUP \<equiv> 111"
abbreviation OP_2OVER :: opcodetype where "OP_2OVER \<equiv> 112"
abbreviation OP_2ROT :: opcodetype where "OP_2ROT \<equiv> 113"
abbreviation OP_2SWAP :: opcodetype where "OP_2SWAP \<equiv> 114"
abbreviation OP_IFDUP :: opcodetype where "OP_IFDUP \<equiv> 115"
abbreviation OP_DEPTH :: opcodetype where "OP_DEPTH \<equiv> 116"
abbreviation OP_DROP :: opcodetype where "OP_DROP \<equiv> 117"
abbreviation OP_DUP :: opcodetype where "OP_DUP \<equiv> 118"
abbreviation OP_NIP :: opcodetype where "OP_NIP \<equiv> 119"
abbreviation OP_OVER :: opcodetype where "OP_OVER \<equiv> 120"
abbreviation OP_PICK :: opcodetype where "OP_PICK \<equiv> 121"
abbreviation OP_ROLL :: opcodetype where "OP_ROLL \<equiv> 122"
abbreviation OP_ROT :: opcodetype where "OP_ROT \<equiv> 123"
abbreviation OP_SWAP :: opcodetype where "OP_SWAP \<equiv> 124"
abbreviation OP_TUCK :: opcodetype where "OP_TUCK \<equiv> 125"
abbreviation OP_CAT :: opcodetype where "OP_CAT \<equiv> 126"
abbreviation OP_SUBSTR :: opcodetype where "OP_SUBSTR \<equiv> 127"
abbreviation OP_LEFT :: opcodetype where "OP_LEFT \<equiv> 128"
abbreviation OP_RIGHT :: opcodetype where "OP_RIGHT \<equiv> 129"
abbreviation OP_SIZE :: opcodetype where "OP_SIZE \<equiv> 130"
abbreviation OP_INVERT :: opcodetype where "OP_INVERT \<equiv> 131"
abbreviation OP_AND :: opcodetype where "OP_AND \<equiv> 132"
abbreviation OP_OR :: opcodetype where "OP_OR \<equiv> 133"
abbreviation OP_XOR :: opcodetype where "OP_XOR \<equiv> 134"
abbreviation OP_EQUAL :: opcodetype where "OP_EQUAL \<equiv> 135"
abbreviation OP_EQUALVERIFY :: opcodetype where "OP_EQUALVERIFY \<equiv> 136"
abbreviation OP_RESERVED1 :: opcodetype where "OP_RESERVED1 \<equiv> 137"
abbreviation OP_RESERVED2 :: opcodetype where "OP_RESERVED2 \<equiv> 138"
abbreviation OP_1ADD :: opcodetype where "OP_1ADD \<equiv> 139"
abbreviation OP_1SUB :: opcodetype where "OP_1SUB \<equiv> 140"
abbreviation OP_2MUL :: opcodetype where "OP_2MUL \<equiv> 141"
abbreviation OP_2DIV :: opcodetype where "OP_2DIV \<equiv> 142"
abbreviation OP_NEGATE :: opcodetype where "OP_NEGATE \<equiv> 143"
abbreviation OP_ABS :: opcodetype where "OP_ABS \<equiv> 144"
abbreviation OP_NOT :: opcodetype where "OP_NOT \<equiv> 145"
abbreviation OP_0NOTEQUAL :: opcodetype where "OP_0NOTEQUAL \<equiv> 146"
abbreviation OP_ADD :: opcodetype where "OP_ADD \<equiv> 147"
abbreviation OP_SUB :: opcodetype where "OP_SUB \<equiv> 148"
abbreviation OP_MUL :: opcodetype where "OP_MUL \<equiv> 149"
abbreviation OP_DIV :: opcodetype where "OP_DIV \<equiv> 150"
abbreviation OP_MOD :: opcodetype where "OP_MOD \<equiv> 151"
abbreviation OP_LSHIFT :: opcodetype where "OP_LSHIFT \<equiv> 152"
abbreviation OP_RSHIFT :: opcodetype where "OP_RSHIFT \<equiv> 153"
abbreviation OP_BOOLAND :: opcodetype where "OP_BOOLAND \<equiv> 154"
abbreviation OP_BOOLOR :: opcodetype where "OP_BOOLOR \<equiv> 155"
abbreviation OP_NUMEQUAL :: opcodetype where "OP_NUMEQUAL \<equiv> 156"
abbreviation OP_NUMEQUALVERIFY :: opcodetype where "OP_NUMEQUALVERIFY \<equiv> 157"
abbreviation OP_NUMNOTEQUAL :: opcodetype where "OP_NUMNOTEQUAL \<equiv> 158"
abbreviation OP_LESSTHAN :: opcodetype where "OP_LESSTHAN \<equiv> 159"
abbreviation OP_GREATERTHAN :: opcodetype where "OP_GREATERTHAN \<equiv> 160"
abbreviation OP_LESSTHANOREQUAL :: opcodetype where "OP_LESSTHANOREQUAL \<equiv> 161"
abbreviation OP_GREATERTHANOREQUAL :: opcodetype where "OP_GREATERTHANOREQUAL \<equiv> 162"
abbreviation OP_MIN :: opcodetype where "OP_MIN \<equiv> 163"
abbreviation OP_MAX :: opcodetype where "OP_MAX \<equiv> 164"
abbreviation OP_WITHIN :: opcodetype where "OP_WITHIN \<equiv> 165"
abbreviation OP_RIPEMD160 :: opcodetype where "OP_RIPEMD160 \<equiv> 166"
abbreviation OP_SHA1 :: opcodetype where "OP_SHA1 \<equiv> 167"
abbreviation OP_SHA256 :: opcodetype where "OP_SHA256 \<equiv> 168"
abbreviation OP_HASH160 :: opcodetype where "OP_HASH160 \<equiv> 169"
abbreviation OP_HASH256 :: opcodetype where "OP_HASH256 \<equiv> 170"
abbreviation OP_CODESEPARATOR :: opcodetype where "OP_CODESEPARATOR \<equiv> 171"
abbreviation OP_CHECKSIG :: opcodetype where "OP_CHECKSIG \<equiv> 172"
abbreviation OP_CHECKSIGVERIFY :: opcodetype where "OP_CHECKSIGVERIFY \<equiv> 173"
abbreviation OP_CHECKMULTISIG :: opcodetype where "OP_CHECKMULTISIG \<equiv> 174"
abbreviation OP_CHECKMULTISIGVERIFY :: opcodetype where "OP_CHECKMULTISIGVERIFY \<equiv> 175"
abbreviation OP_NOP1 :: opcodetype where "OP_NOP1 \<equiv> 176"
abbreviation OP_NOP10 :: opcodetype where "OP_NOP10 \<equiv> 185"
abbreviation OP_SIGHASH :: opcodetype where "OP_SIGHASH \<equiv> 0xea"
abbreviation OP_RESOLVE :: opcodetype where "OP_RESOLVE \<equiv> 0xeb"
abbreviation OP_SIGN :: opcodetype where "OP_SIGN \<equiv> 0xec"
abbreviation OP_RESOLVEANDSIGN :: opcodetype where "OP_RESOLVEANDSIGN \<equiv> 0xed"
abbreviation OP_SIGNATURE :: opcodetype where "OP_SIGNATURE \<equiv> 0xf0"
abbreviation OP_SMALLINTEGER :: opcodetype where "OP_SMALLINTEGER \<equiv> 0xfa"
abbreviation OP_PUBKEYS :: opcodetype where "OP_PUBKEYS \<equiv> 0xfb"
abbreviation OP_PUBKEYHASH :: opcodetype where "OP_PUBKEYHASH \<equiv> 0xfd"
abbreviation OP_SCRIPTHASH :: opcodetype where "OP_SCRIPTHASH \<equiv> 0xfd"
abbreviation OP_PUBKEY :: opcodetype where "OP_PUBKEY \<equiv> 0xfe"
abbreviation OP_INVALIDOPCODE :: opcodetype where "OP_INVALIDOPCODE \<equiv> 0xff"

definition SIGHASH_ALL :: u32 where "SIGHASH_ALL = 1"
definition SIGHASH_NONE :: u32 where "SIGHASH_NONE = 2"
definition SIGHASH_SINGLE :: u32 where "SIGHASH_SINGLE = 3"
definition SIGHASH_ANYONECANPAY :: u32 where "SIGHASH_ANYONECANPAY = 0x80"

definition MAX_SCRIPT_ELEMENT_SIZE :: nat where "MAX_SCRIPT_ELEMENT_SIZE = 520"

section \<open>Appending to a script\<close>

definition push_data :: "byte list \<Rightarrow> script" where
  "push_data b =
     (if length b < 76 then [word_of_nat (length b)]
      else if length b \<le> 0xff then [OP_PUSHDATA1, word_of_nat (length b)]
      else if length b \<le> 0xffff then OP_PUSHDATA2 # le_bytes 2 (length b)
      else OP_PUSHDATA4 # le_bytes 4 (length b)) @ b"

definition push_int64 :: "bn_lib \<Rightarrow> u64 \<Rightarrow> script" where
  "push_int64 bn n =
     (if n = - 1 \<or> (1 \<le>s n \<and> n \<le>s 16) then [ucast (n + 80)]
      else push_data (getvch bn (setint64 bn n)))"

definition push_uint64 :: "bn_lib \<Rightarrow> u64 \<Rightarrow> script" where
  "push_uint64 bn n =
     (if n \<ge> 1 \<and> n \<le> 16 then [ucast (n + 80)] else push_data (getvch bn (setuint64 bn n)))"

definition push_uint160 :: "uint160 \<Rightarrow> script" where
  "push_uint160 b = 20 # le_bytes 20 (unat b)"

definition push_uint256 :: "uint256 \<Rightarrow> script" where
  "push_uint256 b = 32 # le_bytes 32 (unat b)"

section \<open>Reading instructions\<close>

text \<open>The size of an immediate operand and the position after it, or the position at which the read
  failed. The \<^verbatim>\<open>unsigned\<close> size is at most \<open>2 ^ 32 - 1\<close>, so that adding it to an iterator
  does not wrap around.\<close>

definition operand_size :: "script \<Rightarrow> opcodetype \<Rightarrow> nat \<Rightarrow> (nat \<times> nat) option" where
  "operand_size script opcode pc =
     (if opcode < OP_PUSHDATA1 then Some (unat opcode, pc)
      else if opcode = OP_PUSHDATA1 then
        (if length script - pc < 1 then None else Some (unat (script ! pc), pc + 1))
      else if opcode = OP_PUSHDATA2 then
        (if length script - pc < 2 then None else Some (le_value (take 2 (drop pc script)), pc + 2))
      else
        (if length script - pc < 4 then None else Some (le_value (take 4 (drop pc script)), pc + 4)))"

definition getOp2 :: "script \<Rightarrow> nat \<Rightarrow> bool \<times> opcodetype \<times> byte list \<times> nat" where
  "getOp2 script pc =
     (if length script \<le> pc then (False, OP_INVALIDOPCODE, [], pc)
      else
        let opcode = script ! pc; pc = pc + 1
        in if opcode \<le> OP_PUSHDATA4 then
             (case operand_size script opcode pc of
                None \<Rightarrow> (False, OP_INVALIDOPCODE, [], pc)
              | Some (nSize, pc) \<Rightarrow>
                  if pc + nSize > length script then (False, OP_INVALIDOPCODE, [], pc)
                  else (True, opcode, take nSize (drop pc script), pc + nSize))
           else (True, opcode, [], pc))"

lemma getOp2_progress:
  assumes "getOp2 script pc = (True, opcode, data, pc')"
  shows "pc < pc'" and "pc' \<le> length script" and "pc < length script"
proof -
  have "pc < pc' \<and> pc' \<le> length script \<and> pc < length script"
    using assms
    by (auto simp: getOp2_def operand_size_def Let_def split: if_splits option.splits prod.splits)
  then show "pc < pc'" and "pc' \<le> length script" and "pc < length script" by auto
qed

text \<open>The callers that do not use the position a failed read leaves behind.\<close>

definition getOp :: "script \<Rightarrow> nat \<Rightarrow> (opcodetype \<times> byte list \<times> nat) option" where
  "getOp script pc =
     (case getOp2 script pc of (ok, opcode, data, pc') \<Rightarrow> if ok then Some (opcode, data, pc') else None)"

lemma getOp_progress:
  assumes "getOp script pc = Some (opcode, data, pc')"
  shows "pc < pc'" and "pc' \<le> length script" and "pc < length script"
  using getOp2_progress [of script pc opcode data pc'] assms
  by (auto simp: getOp_def split: prod.splits if_splits)

lemma getOp_measure: "getOp script pc = Some (opcode, data, pc') \<Longrightarrow> length script - pc' < length script - pc"
  using getOp_progress [of script pc opcode data pc'] by auto

section \<open>Deleting a signature\<close>

function erase_at :: "script \<Rightarrow> nat \<Rightarrow> script \<Rightarrow> script" where
  "erase_at script pc b =
     (if b \<noteq> [] \<and> length b \<le> length script - pc \<and> take (length b) (drop pc script) = b
      then erase_at (take pc script @ drop (pc + length b) script) pc b else script)"
  by pat_completeness auto
termination
  by (relation "measure (\<lambda>(script, pc, b). length script)") (auto simp: min_def simp flip: length_greater_0_conv)

declare erase_at.simps [simp del]

lemma length_erase_at: "length (erase_at script pc b) \<le> length script"
proof (induction script pc b rule: erase_at.induct)
  case (1 script pc b)
  show ?case
    using 1 by (subst erase_at.simps) auto
qed

function delete_loop :: "script \<Rightarrow> nat \<Rightarrow> script \<Rightarrow> script" where
  "delete_loop script pc b =
     (case getOp (erase_at script pc b) pc of
        None \<Rightarrow> erase_at script pc b
      | Some (opcode, data, pc') \<Rightarrow> delete_loop (erase_at script pc b) pc' b)"
  by pat_completeness auto
termination
proof (relation "measure (\<lambda>(script, pc, b). length script - pc)")
  fix script b x opcode y data pc' and pc :: nat
  assume "getOp (erase_at script pc b) pc = Some x" "(opcode, y) = x" "(data, pc') = y"
  then have "getOp (erase_at script pc b) pc = Some (opcode, data, pc')" by auto
  from getOp_progress [OF this] length_erase_at [of script pc b]
  show "((erase_at script pc b, pc', b), script, pc, b) \<in> measure (\<lambda>(script, pc, b). length script - pc)"
    by simp
qed simp

declare delete_loop.simps [simp del]

definition findAndDelete :: "script \<Rightarrow> script \<Rightarrow> script" where
  "findAndDelete script b = (if b = [] then script else delete_loop script 0 b)"

section \<open>Scanning a script\<close>

text \<open>Each scan is the loop \<^verbatim>\<open>while (pc < end())\<close> around \<open>getOp\<close>.\<close>

function sigop_loop :: "script \<Rightarrow> nat \<Rightarrow> nat \<Rightarrow> nat" where
  "sigop_loop script pc n =
     (if length script \<le> pc then n
      else
        (case getOp script pc of None \<Rightarrow> n
         | Some (opcode, data, pc') \<Rightarrow>
             sigop_loop script pc'
               (if opcode = OP_CHECKSIG \<or> opcode = OP_CHECKSIGVERIFY then n + 1
                else if opcode = OP_CHECKMULTISIG \<or> opcode = OP_CHECKMULTISIGVERIFY then n + 20 else n)))"
  by pat_completeness auto
termination
  by (relation "measure (\<lambda>(script, pc, n). length script - pc)") (auto dest: getOp_measure)

definition getSigOpCount :: "script \<Rightarrow> nat" where
  "getSigOpCount script = sigop_loop script 0 0"

function push_only_loop :: "script \<Rightarrow> nat \<Rightarrow> bool" where
  "push_only_loop script pc =
     (if length script \<le> pc then True
      else
        (case getOp script pc of None \<Rightarrow> False
         | Some (opcode, data, pc') \<Rightarrow>
             if opcode > OP_16 then False else push_only_loop script pc'))"
  by pat_completeness auto
termination
  by (relation "measure (\<lambda>(script, pc). length script - pc)") (auto dest: getOp_measure)

definition isPushOnly :: "script \<Rightarrow> bool" where
  "isPushOnly script = push_only_loop script 0"

function canonical_loop :: "script \<Rightarrow> nat \<Rightarrow> bool" where
  "canonical_loop script pc =
     (if length script \<le> pc then True
      else
        (case getOp script pc of None \<Rightarrow> False
         | Some (opcode, data, pc') \<Rightarrow>
             if opcode > OP_16 then canonical_loop script pc'
             else if opcode < OP_PUSHDATA1 \<and> opcode > OP_0 \<and> length data = 1 \<and> data ! 0 \<le> 16 then False
             else if opcode = OP_PUSHDATA1 \<and> length data < 76 then False
             else if opcode = OP_PUSHDATA2 \<and> length data \<le> 0xFF then False
             else if opcode = OP_PUSHDATA4 \<and> length data \<le> 0xFFFF then False
             else canonical_loop script pc'))"
  by pat_completeness auto
termination
  by (relation "measure (\<lambda>(script, pc). length script - pc)") (auto dest: getOp_measure)

declare sigop_loop.simps [simp del] push_only_loop.simps [simp del] canonical_loop.simps [simp del]

definition hasCanonicalPushes :: "script \<Rightarrow> bool" where
  "hasCanonicalPushes script = canonical_loop script 0"

definition isPayToScriptHash :: "script \<Rightarrow> bool" where
  "isPayToScriptHash script \<longleftrightarrow>
     length script = 23 \<and> script ! 0 = OP_HASH160 \<and> script ! 1 = 0x14 \<and> script ! 22 = OP_EQUAL"

text \<open>\<open>assert\<close> stops the program: \<open>None\<close>.\<close>

definition decodeOP_N :: "opcodetype \<Rightarrow> int option" where
  "decodeOP_N opcode =
     (if opcode = OP_0 then Some 0
      else if OP_1 \<le> opcode \<and> opcode \<le> OP_16 then Some (uint opcode - (uint OP_1 - 1)) else None)"

definition encodeOP_N :: "int \<Rightarrow> opcodetype option" where
  "encodeOP_N n =
     (if 0 \<le> n \<and> n \<le> 16 then Some (if n = 0 then OP_0 else word_of_int (uint OP_1 + n - 1)) else None)"

section \<open>Addresses\<close>

definition toPubKeyHash :: "digest_fn \<Rightarrow> digest_fn \<Rightarrow> byte list \<Rightarrow> byte list" where
  "toPubKeyHash sha ripemd vch = ripemd (sha vch)"

definition bytes_to_uint160 :: "byte list \<Rightarrow> uint160" where
  "bytes_to_uint160 vch = (if length vch = 20 then word_of_nat (le_value vch) else 0)"

text \<open>\<open>skipNamePrefix\<close>: the arguments up to a drop or no-op, then the drops and no-ops, then one
  position back. A read that fails after the last drop leaves the position at the end.\<close>

definition is_drop :: "opcodetype \<Rightarrow> bool" where
  "is_drop opcode \<longleftrightarrow> opcode = OP_DROP \<or> opcode = OP_2DROP \<or> opcode = OP_NOP"

function name_args :: "script \<Rightarrow> nat \<Rightarrow> nat \<Rightarrow> (nat \<times> nat) option" where
  "name_args script pc argCnt =
     (case getOp script pc of None \<Rightarrow> None
      | Some (opcode, vch, pc') \<Rightarrow>
          if is_drop opcode then Some (argCnt, pc')
          else if \<not> opcode \<le> OP_PUSHDATA4 then None
          else name_args script pc' (argCnt + 1))"
  by pat_completeness auto
termination
  by (relation "measure (\<lambda>(script, pc, n). length script - pc)") (auto dest: getOp_measure)

function skip_drops :: "script \<Rightarrow> nat \<Rightarrow> nat" where
  "skip_drops script pc =
     (case getOp script pc of
        None \<Rightarrow> snd (snd (snd (getOp2 script pc)))
      | Some (opcode, vch, pc') \<Rightarrow> if is_drop opcode then skip_drops script pc' else pc')"
  by pat_completeness auto
termination
  by (relation "measure (\<lambda>(script, pc). length script - pc)") (auto dest: getOp_measure)

declare name_args.simps [simp del] skip_drops.simps [simp del]

definition skipNamePrefix :: "script \<Rightarrow> nat option" where
  "skipNamePrefix script =
     (case getOp script 0 of None \<Rightarrow> None
      | Some (opcode, _, pc) \<Rightarrow>
          if opcode < OP_1 \<or> opcode > OP_16 then None
          else
            let name_op = uint opcode - uint OP_1 + 1
            in (case name_args script pc 0 of None \<Rightarrow> None
                | Some (argCnt, pc) \<Rightarrow>
                    let pc = skip_drops script pc - 1
                    in if name_op = 1 \<and> argCnt = 1 \<or> name_op = 2 \<and> argCnt = 3 \<or> name_op = 3 \<and> argCnt = 2
                       then Some pc else None))"

definition getWithoutNamePrefix :: "script \<Rightarrow> script" where
  "getWithoutNamePrefix script =
     (case skipNamePrefix script of None \<Rightarrow> script | Some pc \<Rightarrow> drop pc script)"

definition getAddress :: "script \<Rightarrow> bool \<Rightarrow> uint160" where
  "getAddress script allowNames =
     (let pc = (if allowNames then (case skipNamePrefix script of None \<Rightarrow> 0 | Some pc \<Rightarrow> pc) else 0) in
      case getOp script pc of None \<Rightarrow> 0 | Some (opcode, _, pc) \<Rightarrow>
      if opcode \<noteq> OP_DUP then 0 else
      case getOp script pc of None \<Rightarrow> 0 | Some (opcode, _, pc) \<Rightarrow>
      if opcode \<noteq> OP_HASH160 then 0 else
      case getOp script pc of None \<Rightarrow> 0 | Some (_, vch, pc) \<Rightarrow>
      if length vch \<noteq> 20 then 0 else
      let address = bytes_to_uint160 vch in
      case getOp script pc of None \<Rightarrow> 0 | Some (opcode, _, pc) \<Rightarrow>
      if opcode \<noteq> OP_EQUALVERIFY then 0 else
      case getOp script pc of None \<Rightarrow> 0 | Some (opcode, _, pc) \<Rightarrow>
      if opcode \<noteq> OP_CHECKSIG then 0 else if pc \<noteq> length script then 0 else address)"

definition setAddress :: "uint160 \<Rightarrow> script" where
  "setAddress address = [OP_DUP, OP_HASH160] @ push_uint160 address @ [OP_EQUALVERIFY, OP_CHECKSIG]"

section \<open>Standard scripts\<close>

datatype txnouttype = TX_NONSTANDARD | TX_PUBKEY | TX_PUBKEYHASH | TX_SCRIPTHASH | TX_MULTISIG

definition ScriptSigArgsExpected :: "txnouttype \<Rightarrow> byte list list \<Rightarrow> int" where
  "ScriptSigArgsExpected t vSolutions =
     (case t of TX_NONSTANDARD \<Rightarrow> -1 | TX_PUBKEY \<Rightarrow> 1 | TX_PUBKEYHASH \<Rightarrow> 2
      | TX_MULTISIG \<Rightarrow>
          if length vSolutions < 1 \<or> length (vSolutions ! 0) < 1 then -1 else uint (vSolutions ! 0 ! 0) + 1
      | TX_SCRIPTHASH \<Rightarrow> 1)"

definition templates :: "(txnouttype \<times> script) list" where
  "templates =
     [(TX_PUBKEY, [OP_PUBKEY, OP_CHECKSIG]),
      (TX_PUBKEYHASH, [OP_DUP, OP_HASH160, OP_PUBKEYHASH, OP_EQUALVERIFY, OP_CHECKSIG]),
      (TX_MULTISIG, [OP_SMALLINTEGER, OP_PUBKEYS, OP_SMALLINTEGER, OP_CHECKMULTISIG])]"

text \<open>The loop of \<open>OP_PUBKEYS\<close>: the keys taken, and the opcode, data and position after it.\<close>

function take_pubkeys :: "script \<Rightarrow> opcodetype \<Rightarrow> byte list \<Rightarrow> nat \<Rightarrow> byte list list \<Rightarrow>
    opcodetype \<times> byte list \<times> nat \<times> byte list list" where
  "take_pubkeys script opcode vch pc sols =
     (if 33 \<le> length vch \<and> length vch \<le> 120 then
        (case getOp script pc of
           None \<Rightarrow> (OP_INVALIDOPCODE, [], snd (snd (snd (getOp2 script pc))), sols @ [vch])
         | Some (opcode, vch', pc') \<Rightarrow> take_pubkeys script opcode vch' pc' (sols @ [vch]))
      else (opcode, vch, pc, sols))"
  by pat_completeness auto
termination
  by (relation "measure (\<lambda>(script, opcode, vch, pc, sols). length script - pc)") (auto dest: getOp_measure)

declare take_pubkeys.simps [simp del]

text \<open>One comparison of a script with a template instruction: \<open>None\<close> is the \<^verbatim>\<open>break\<close>.\<close>

definition match_step :: "opcodetype \<Rightarrow> byte list \<Rightarrow> opcodetype \<Rightarrow> byte list \<Rightarrow> byte list list \<Rightarrow> byte list list option" where
  "match_step opcode1 vch1 opcode2 vch2 sols =
     (if opcode2 = OP_PUBKEY then (if length vch1 < 33 \<or> length vch1 > 120 then None else Some (sols @ [vch1]))
      else if opcode2 = OP_PUBKEYHASH then (if length vch1 \<noteq> 20 then None else Some (sols @ [vch1]))
      else if opcode2 = OP_SMALLINTEGER then
        (case decodeOP_N opcode1 of Some n \<Rightarrow> Some (sols @ [[word_of_int n]]) | None \<Rightarrow> None)
      else if opcode1 \<noteq> opcode2 \<or> vch1 \<noteq> vch2 then None
      else Some sols)"

definition next_instructions ::
  "script \<Rightarrow> script \<Rightarrow> nat \<Rightarrow> nat \<Rightarrow> byte list list \<Rightarrow>
    (opcodetype \<times> byte list \<times> nat \<times> opcodetype \<times> byte list \<times> nat \<times> byte list list) option" where
  "next_instructions script1 script2 pc1 pc2 sols =
     (case getOp script1 pc1 of None \<Rightarrow> None | Some (opcode1, vch1, pc1) \<Rightarrow>
      case getOp script2 pc2 of None \<Rightarrow> None | Some (opcode2, vch2, pc2) \<Rightarrow>
      if opcode2 = OP_PUBKEYS then
        (case take_pubkeys script1 opcode1 vch1 pc1 sols of (opcode1, vch1, pc1, sols) \<Rightarrow>
         case getOp script2 pc2 of None \<Rightarrow> None
         | Some (opcode2, vch2, pc2) \<Rightarrow> Some (opcode1, vch1, pc1, opcode2, vch2, pc2, sols))
      else Some (opcode1, vch1, pc1, opcode2, vch2, pc2, sols))"

lemma getOp2_position: "pc \<le> snd (snd (snd (getOp2 script pc)))"
  by (auto simp: getOp2_def operand_size_def Let_def split: option.splits)

lemma take_pubkeys_position:
  "take_pubkeys script opcode vch pc sols = (opcode', vch', pc', sols') \<Longrightarrow> pc \<le> pc'"
proof (induction script opcode vch pc sols rule: take_pubkeys.induct)
  case (1 script opcode vch pc sols)
  show ?case
  proof (cases "33 \<le> length vch \<and> length vch \<le> 120")
    case False
    then show ?thesis
      using 1(2) unfolding take_pubkeys.simps [of script opcode vch pc sols] if_not_P [OF False] by simp
  next
    case True
    show ?thesis
    proof (cases "getOp script pc")
      case None
      then show ?thesis
        using 1(2) True getOp2_position [of pc script] by (subst (asm) take_pubkeys.simps) auto
    next
      case (Some x)
      obtain o' v' p' where x: "x = (o', v', p')" by (cases x)
      have "p' \<le> pc'"
        using 1(1) [OF True Some [unfolded x] refl refl] 1(2) True Some x by (subst (asm) take_pubkeys.simps) simp
      then show ?thesis using getOp_progress(1) [of script pc o' v' p'] Some x by simp
    qed
  qed
qed

lemma next_instructions_position:
  assumes "next_instructions script1 script2 pc1 pc2 sols = Some (o1, v1, pc1', o2, v2, pc2', sols')"
  shows "length script1 - pc1' < length script1 - pc1"
proof -
  obtain opc1 vch1 p1 where g1: "getOp script1 pc1 = Some (opc1, vch1, p1)"
    using assms by (auto simp: next_instructions_def split: option.splits)
  obtain opc2 vch2 p2 where g2: "getOp script2 pc2 = Some (opc2, vch2, p2)"
    using assms g1 by (auto simp: next_instructions_def split: option.splits)
  have "p1 \<le> pc1'"
  proof (cases "opc2 = OP_PUBKEYS")
    case True
    obtain o1' v1' p1' s1' where t: "take_pubkeys script1 opc1 vch1 p1 sols = (o1', v1', p1', s1')"
      by (cases "take_pubkeys script1 opc1 vch1 p1 sols") auto
    then have "p1' = pc1'" using assms g1 g2 True by (auto simp: next_instructions_def split: option.splits)
    then show ?thesis using take_pubkeys_position [OF t] by simp
  next
    case False
    then show ?thesis using assms g1 g2 by (simp add: next_instructions_def)
  qed
  then show ?thesis using getOp_progress [OF g1] by simp
qed

text \<open>The comparison with one template: whether the scripts matched, and the solutions.\<close>

function match_loop :: "script \<Rightarrow> script \<Rightarrow> nat \<Rightarrow> nat \<Rightarrow> byte list list \<Rightarrow> byte list list option" where
  "match_loop script1 script2 pc1 pc2 sols =
     (if pc1 = length script1 \<and> pc2 = length script2 then Some sols
      else
        (case next_instructions script1 script2 pc1 pc2 sols of None \<Rightarrow> None
         | Some (opcode1, vch1, pc1', opcode2, vch2, pc2', sols') \<Rightarrow>
             (case match_step opcode1 vch1 opcode2 vch2 sols' of None \<Rightarrow> None
              | Some sols'' \<Rightarrow> match_loop script1 script2 pc1' pc2' sols'')))"
  by pat_completeness auto
termination
proof (relation "measure (\<lambda>(script1, script2, pc1, pc2, sols). length script1 - pc1)")
  fix script1 script2 sols x opcode1 a vch1 b c opcode2 d vch2 e sols' sols'' and pc1 pc2 pc1' pc2' :: nat
  assume "next_instructions script1 script2 pc1 pc2 sols = Some x" "(opcode1, a) = x" "(vch1, b) = a"
    "(pc1', c) = b" "(opcode2, d) = c" "(vch2, e) = d" "(pc2', sols') = e"
  then have "next_instructions script1 script2 pc1 pc2 sols =
    Some (opcode1, vch1, pc1', opcode2, vch2, pc2', sols')" by auto
  from next_instructions_position [OF this]
  show "((script1, script2, pc1', pc2', sols''), script1, script2, pc1, pc2, sols)
    \<in> measure (\<lambda>(script1, script2, pc1, pc2, sols). length script1 - pc1)" by simp
qed simp

declare match_loop.simps [simp del]

text \<open>A multisignature script with bad counts ends the scan with its type and solutions set.\<close>

definition multisig_counts_ok :: "byte list list \<Rightarrow> bool" where
  "multisig_counts_ok sols \<longleftrightarrow>
     (let m = hd (hd sols); n = hd (last sols)
      in \<not> (m < 1 \<or> n < 1 \<or> m > n \<or> int (length sols) - 2 \<noteq> uint n))"

fun scan_templates :: "script \<Rightarrow> (txnouttype \<times> script) list \<Rightarrow> bool \<times> txnouttype \<times> byte list list" where
  "scan_templates scriptPubKey [] = (False, TX_NONSTANDARD, [])"
| "scan_templates scriptPubKey ((t, tmpl) # rest) =
     (case match_loop scriptPubKey tmpl 0 0 [] of
        None \<Rightarrow> scan_templates scriptPubKey rest
      | Some sols \<Rightarrow> if t = TX_MULTISIG \<and> \<not> multisig_counts_ok sols then (False, t, sols) else (True, t, sols))"

definition Solver :: "script \<Rightarrow> bool \<times> txnouttype \<times> byte list list" where
  "Solver scriptPubKey =
     (if isPayToScriptHash scriptPubKey then (True, TX_SCRIPTHASH, [take 20 (drop 2 scriptPubKey)])
      else scan_templates scriptPubKey templates)"

section \<open>Canonical encodings\<close>

text \<open>\<open>None\<close>: accepted; \<open>Some e\<close>: the exception's text.\<close>

definition checkCanonicalPubKey :: "byte list \<Rightarrow> string option" where
  "checkCanonicalPubKey vch =
     (if length vch < 33 then Some ''too short''
      else if vch ! 0 = 0x04 then
        (if length vch \<noteq> 65 then Some ''invalid length for uncompressed key'' else None)
      else if vch ! 0 = 0x02 \<or> vch ! 0 = 0x03 then
        (if length vch \<noteq> 33 then Some ''invalid length for compressed key'' else None)
      else Some ''compressed nor uncompressed'')"

definition checkCanonicalSignature :: "byte list \<Rightarrow> string option" where
  "checkCanonicalSignature sig =
     (let n = length sig in
      if n < 9 then Some ''too short''
      else if n > 73 then Some ''too long''
      else let nHashType = sig ! (n - 1) AND NOT 0x80 in
      if nHashType < 1 \<or> nHashType > 3 then Some ''unknown hashtype byte''
      else if sig ! 0 \<noteq> 0x30 then Some ''wrong type''
      else if unat (sig ! 1) \<noteq> n - 3 then Some ''wrong length marker''
      else let nLenR = unat (sig ! 3) in
      if 5 + nLenR \<ge> n then Some ''S length misplaced''
      else let nLenS = unat (sig ! (5 + nLenR)) in
      if nLenR + nLenS + 7 \<noteq> n then Some ''R+S length mismatch''
      else if sig ! 2 \<noteq> 0x02 then Some ''R value type mismatch''
      else if nLenR = 0 then Some ''R length is zero''
      else if sig ! 4 AND 0x80 \<noteq> 0 then Some ''R value negative''
      else if nLenR > 1 \<and> sig ! 4 = 0x00 \<and> sig ! 5 AND 0x80 = 0 then Some ''R value excessively padded''
      else if sig ! (4 + nLenR) \<noteq> 0x02 then Some ''S value type mismatch''
      else if nLenS = 0 then Some ''S length is zero''
      else if sig ! (6 + nLenR) AND 0x80 \<noteq> 0 then Some ''S value negative''
      else if nLenS > 1 \<and> sig ! (6 + nLenR) = 0x00 \<and> sig ! (7 + nLenR) AND 0x80 = 0
        then Some ''S value excessively padded''
      else None)"

section \<open>Reading back what was appended\<close>

lemma getOp2_append:
  "getOp2 (pre @ script) (length pre + pc) =
     (case getOp2 script pc of (ok, opcode, data, pc') \<Rightarrow> (ok, opcode, data, length pre + pc'))"
  by (auto simp: getOp2_def operand_size_def Let_def nth_append numeral_3_eq_3 numeral_2_eq_2 split: option.splits)

lemma getOp_append:
  "getOp (pre @ script) (length pre + pc) =
     map_option (\<lambda>(opcode, data, pc'). (opcode, data, length pre + pc')) (getOp script pc)"
  unfolding getOp_def getOp2_append by (simp split: prod.split)

lemma getOp_end [simp]: "length script \<le> pc \<Longrightarrow> getOp script pc = None"
  by (simp add: getOp_def getOp2_def)

lemma getOp_plain: "opcode > OP_PUSHDATA4 \<Longrightarrow> getOp (opcode # rest) 0 = Some (opcode, [], 1)"
  using leD [of OP_PUSHDATA4 opcode] by (auto simp: getOp_def getOp2_def)

lemma unat_byte_of_nat: "n < 256 \<Longrightarrow> unat (word_of_nat n :: byte) = n"
  by (simp add: unat_of_nat)

lemma byte_of_nat_less_iff: "n < 256 \<Longrightarrow> k < 256 \<Longrightarrow> (word_of_nat n :: byte) < word_of_nat k \<longleftrightarrow> n < k"
  by (simp add: word_less_nat_alt unat_of_nat)

lemma getOp_push_data:
  assumes "length b < 2 ^ 32"
  shows "getOp (push_data b @ rest) 0 = Some (hd (push_data b), b, length (push_data b))"
    and "hd (push_data b) \<le> OP_PUSHDATA4"
proof -
  have small: "(word_of_nat n :: byte) < 76" if "n < 76" for n
    using byte_of_nat_less_iff [of n 76] that by simp
  consider "length b < 76" | "76 \<le> length b" "length b \<le> 0xff" | "0xff < length b" "length b \<le> 0xffff"
    | "0xffff < length b" by linarith
  then have "getOp (push_data b @ rest) 0 = Some (hd (push_data b), b, length (push_data b)) \<and>
      hd (push_data b) \<le> OP_PUSHDATA4"
  proof cases
    case 1
    have "(word_of_nat (length b) :: byte) \<le> OP_PUSHDATA4"
      using small [OF 1] by (rule order.trans [OF less_imp_le]) simp
    then show ?thesis
      using 1 small [OF 1] by (simp add: push_data_def getOp_def getOp2_def operand_size_def unat_byte_of_nat)
  next
    case 2
    then show ?thesis
      by (simp add: push_data_def getOp_def getOp2_def operand_size_def unat_byte_of_nat)
  next
    case 3
    have "le_value (le_bytes 2 (length b)) = length b" using 3 by (simp add: le_value_le_bytes)
    then show ?thesis
      using 3 by (simp add: push_data_def getOp_def getOp2_def operand_size_def)
  next
    case 4
    have "le_value (le_bytes 4 (length b)) = length b" using assms by (simp add: le_value_le_bytes)
    then show ?thesis
      using 4 by (simp add: push_data_def getOp_def getOp2_def operand_size_def)
  qed
  then show "getOp (push_data b @ rest) 0 = Some (hd (push_data b), b, length (push_data b))"
    and "hd (push_data b) \<le> OP_PUSHDATA4" by auto
qed

text \<open>The same at a position inside a script, in the form the proofs on standard scripts use.\<close>

lemma getOp_at:
  assumes "getOp script 0 = Some (opcode, data, k)"
  shows "getOp (pre @ script) (length pre) = Some (opcode, data, length pre + k)"
  using getOp_append [of pre script 0] assms by simp

lemma getOp_suffix:
  assumes "pc \<le> length script" and "getOp (drop pc script) 0 = Some (opcode, data, k)"
  shows "getOp script pc = Some (opcode, data, pc + k)"
  using getOp_at [OF assms(2), of "take pc script"] assms(1) by (simp add: min_absorb2)

section \<open>The instructions of a script\<close>

text \<open>The reference parser: the instructions up to the first that cannot be read, and the rest.\<close>

function instructions :: "script \<Rightarrow> (opcodetype \<times> byte list) list" where
  "instructions s =
     (case getOp s 0 of None \<Rightarrow> [] | Some (opcode, data, k) \<Rightarrow> (opcode, data) # instructions (drop k s))"
  by pat_completeness auto
termination
  by (relation "measure length") (auto dest: getOp_measure)

function unparsed :: "script \<Rightarrow> script" where
  "unparsed s = (case getOp s 0 of None \<Rightarrow> s | Some (opcode, data, k) \<Rightarrow> unparsed (drop k s))"
  by pat_completeness auto
termination
  by (relation "measure length") (auto dest: getOp_measure)

declare instructions.simps [simp del] unparsed.simps [simp del]

lemma instructions_None: "getOp s 0 = None \<Longrightarrow> instructions s = []" "getOp s 0 = None \<Longrightarrow> unparsed s = s"
  by (simp_all add: instructions.simps unparsed.simps)

lemma instructions_Some:
  assumes "getOp s 0 = Some (opcode, data, k)"
  shows "instructions s = (opcode, data) # instructions (drop k s)" "unparsed s = unparsed (drop k s)"
  using assms by (simp_all add: instructions.simps [of s] unparsed.simps [of s])

lemma instructions_Nil [simp]: "instructions [] = []" "unparsed [] = []"
  by (simp_all add: instructions_None)

lemma instructions_plain:
  "opcode > OP_PUSHDATA4 \<Longrightarrow> instructions (opcode # rest) = (opcode, []) # instructions rest"
  "opcode > OP_PUSHDATA4 \<Longrightarrow> unparsed (opcode # rest) = unparsed rest"
  using instructions_Some [OF getOp_plain, of opcode rest] by simp_all

lemma instructions_push:
  assumes "length b < 2 ^ 32"
  shows "instructions (push_data b @ rest) = (hd (push_data b), b) # instructions rest"
    and "unparsed (push_data b @ rest) = unparsed rest"
  using instructions_Some [OF getOp_push_data(1) [OF assms], of rest] by simp_all

lemma getOp_at_None: "getOp s 0 = None \<Longrightarrow> getOp (pre @ s) (length pre) = None"
  using getOp_append [of pre s 0] by simp

text \<open>The induction the scans share: over the bytes that are left.\<close>

lemma script_induct [case_names stop step]:
  assumes "\<And>s. getOp s 0 = None \<Longrightarrow> P s"
    and "\<And>s opcode data k. getOp s 0 = Some (opcode, data, k) \<Longrightarrow> k \<le> length s \<Longrightarrow> 0 < k \<Longrightarrow> P (drop k s) \<Longrightarrow> P s"
  shows "P s"
proof (induction "length s" arbitrary: s rule: less_induct)
  case less
  show ?case
  proof (cases "getOp s 0")
    case None
    then show ?thesis by (rule assms(1))
  next
    case (Some x)
    then obtain opcode data k where x: "getOp s 0 = Some (opcode, data, k)" by (cases x) auto
    have k: "0 < k" "k \<le> length s" using getOp_progress [OF x] by simp_all
    have "P (drop k s)" by (rule less.hyps) (use k in simp)
    from assms(2) [OF x k(2,1) this] show ?thesis .
  qed
qed

definition sigop_weight :: "opcodetype \<Rightarrow> nat" where
  "sigop_weight opcode =
     (if opcode = OP_CHECKSIG \<or> opcode = OP_CHECKSIGVERIFY then 1
      else if opcode = OP_CHECKMULTISIG \<or> opcode = OP_CHECKMULTISIGVERIFY then 20 else 0)"

lemma sigop_loop_instructions:
  "sigop_loop (pre @ s) (length pre) n = n + sum_list (map (\<lambda>(opcode, _). sigop_weight opcode) (instructions s))"
proof (induction s arbitrary: pre n rule: script_induct)
  case (stop s)
  then show ?case
    using getOp_at_None [of s pre] by (simp add: sigop_loop.simps instructions_None)
next
  case (step s opcode data k)
  have s: "pre @ s = (pre @ take k s) @ drop k s" and l: "length pre + k = length (pre @ take k s)"
    using step(2) by (simp_all add: min_absorb2)
  have "\<not> length (pre @ s) \<le> length pre" using step(2,3) by auto
  moreover have "getOp (pre @ s) (length pre) = Some (opcode, data, length pre + k)" by (rule getOp_at [OF step(1)])
  ultimately have "sigop_loop (pre @ s) (length pre) n = sigop_loop (pre @ s) (length pre + k) (n + sigop_weight opcode)"
    by (subst sigop_loop.simps) (simp add: sigop_weight_def)
  also have "\<dots> = (n + sigop_weight opcode) + sum_list (map (\<lambda>(opcode, _). sigop_weight opcode) (instructions (drop k s)))"
    unfolding s l by (rule step(4))
  finally show ?case using step(1) by (simp add: instructions_Some)
qed

lemma push_only_loop_instructions:
  "push_only_loop (pre @ s) (length pre) \<longleftrightarrow> unparsed s = [] \<and> (\<forall>(opcode, _)\<in>set (instructions s). opcode \<le> OP_16)"
proof (induction s arbitrary: pre rule: script_induct)
  case (stop s)
  then show ?case
    using getOp_at_None [of s pre] by (simp add: push_only_loop.simps instructions_None)
next
  case (step s opcode data k)
  have s: "pre @ s = (pre @ take k s) @ drop k s" and l: "length pre + k = length (pre @ take k s)"
    using step(2) by (simp_all add: min_absorb2)
  have "\<not> length (pre @ s) \<le> length pre" using step(2,3) by auto
  moreover have "getOp (pre @ s) (length pre) = Some (opcode, data, length pre + k)" by (rule getOp_at [OF step(1)])
  ultimately have "push_only_loop (pre @ s) (length pre) \<longleftrightarrow> opcode \<le> OP_16 \<and> push_only_loop (pre @ s) (length pre + k)"
    by (subst push_only_loop.simps) (auto simp: not_less dest: leD)
  also have "push_only_loop (pre @ s) (length pre + k) \<longleftrightarrow>
      unparsed (drop k s) = [] \<and> (\<forall>(opcode, _)\<in>set (instructions (drop k s)). opcode \<le> OP_16)"
    unfolding s l by (rule step(4))
  finally show ?case using step(1) by (auto simp: instructions_Some)
qed

text \<open>\<open>findAndDelete\<close> of one opcode, on the bytes that are left.\<close>

lemma erase_at_opcode: "erase_at (pre @ s) (length pre) [x] = pre @ dropWhile (\<lambda>y. y = x) s"
proof (induction s)
  case Nil
  then show ?case by (simp add: erase_at.simps)
next
  case (Cons y s)
  then show ?case by (subst erase_at.simps) simp
qed

lemma getOp_opcode: "getOp s 0 = Some (opcode, data, k) \<Longrightarrow> s ! 0 = opcode"
  by (auto simp: getOp_def getOp2_def Let_def split: if_splits option.splits)

lemma take_drop_local:
  assumes "i + j \<le> k" and "k \<le> length s"
  shows "take j (drop i (take k s @ y)) = take j (drop i s)"
proof (cases "j = 0")
  case False
  then have "i \<le> length (take k s)" "j \<le> length (drop i (take k s))" using assms by simp_all
  then have "take j (drop i (take k s @ y)) = take j (drop i (take k s))" by simp
  also have "\<dots> = take j (drop i s)" using assms by (simp add: drop_take min_def)
  finally show ?thesis .
qed simp

lemma operand_size_local:
  assumes "operand_size s opcode pc = Some (n, p)" and "p \<le> k" and "k \<le> length s"
  shows "operand_size (take k s @ y) opcode pc = Some (n, p)"
proof -
  consider "opcode < OP_PUSHDATA1" | "opcode = OP_PUSHDATA1" | "opcode = OP_PUSHDATA2"
    | "\<not> opcode < OP_PUSHDATA1" "opcode \<noteq> OP_PUSHDATA1" "opcode \<noteq> OP_PUSHDATA2" by blast
  then show ?thesis
  proof cases
    case 1
    then show ?thesis using assms by (simp add: operand_size_def)
  next
    case 2
    then show ?thesis using assms by (auto simp: operand_size_def nth_append split: if_splits)
  next
    case 3
    then have "p = pc + 2" using assms(1) by (simp add: operand_size_def split: if_splits)
    with 3 assms show ?thesis
      using take_drop_local [of pc 2 k s y] by (auto simp: operand_size_def split: if_splits)
  next
    case 4
    then have "p = pc + 4" using assms(1) by (simp add: operand_size_def split: if_splits)
    with 4 assms show ?thesis
      using take_drop_local [of pc 4 k s y] by (auto simp: operand_size_def split: if_splits)
  qed
qed

lemma getOp_local:
  assumes "getOp s 0 = Some (opcode, data, k)"
  shows "getOp (take k s @ y) 0 = Some (opcode, data, k)"
proof -
  note k = getOp_progress [OF assms]
  have ne: "\<not> length (take k s @ y) \<le> 0" "(take k s @ y) ! 0 = s ! 0" "\<not> length s \<le> 0"
    using k by (auto simp: nth_append)
  show ?thesis
  proof (cases "s ! 0 \<le> OP_PUSHDATA4")
    case False
    then show ?thesis using assms ne by (simp add: getOp_def getOp2_def)
  next
    case True
    then obtain n p where o: "operand_size s (s ! 0) 1 = Some (n, p)" "p + n = k" "data = take n (drop p s)" "opcode = s ! 0"
      using assms ne by (auto simp: getOp_def getOp2_def Let_def split: option.splits if_splits)
    then have "operand_size (take k s @ y) (s ! 0) 1 = Some (n, p)"
      using operand_size_local [OF o(1)] k by simp
    moreover have "take n (drop p (take k s @ y)) = data"
      using take_drop_local [of p n k s y] o k by simp
    ultimately show ?thesis using True ne o k by (simp add: getOp_def getOp2_def)
  qed
qed

lemma delete_loop_opcode:
  assumes "x > OP_PUSHDATA4"
  shows "\<exists>s'. delete_loop (pre @ s) (length pre) [x] = pre @ s' \<and>
    instructions s' = filter (\<lambda>(opcode, _). opcode \<noteq> x) (instructions s) \<and> unparsed s' = unparsed s"
proof (induction "length s" arbitrary: pre s rule: less_induct)
  case less
  define t where "t = dropWhile (\<lambda>y. y = x) s"
  have e: "erase_at (pre @ s) (length pre) [x] = pre @ t" by (simp add: erase_at_opcode t_def)
  have hd: "t = [] \<or> hd t \<noteq> x" unfolding t_def using hd_dropWhile by blast
  have len: "length t \<le> length s" by (simp add: t_def length_dropWhile_le)
  have flt: "filter (\<lambda>(opcode, _). opcode \<noteq> x) (instructions t) = filter (\<lambda>(opcode, _). opcode \<noteq> x) (instructions s)"
    and unp: "unparsed t = unparsed s"
    unfolding t_def by (induction s) (simp_all add: instructions_plain [OF assms])
  show ?case
  proof (cases "getOp t 0")
    case None
    have "delete_loop (pre @ s) (length pre) [x] = pre @ t"
      using e getOp_at_None [OF None, of pre] by (subst delete_loop.simps) simp
    then show ?thesis using flt unp instructions_None(1) [OF None] by (intro exI [of _ t]) simp
  next
    case (Some y)
    then obtain opcode data k where g: "getOp t 0 = Some (opcode, data, k)" by (cases y) auto
    note k = getOp_progress [OF g]
    have lt: "length (drop k t) < length s" using k len by simp
    have l: "length pre + k = length (pre @ take k t)" and t: "pre @ t = (pre @ take k t) @ drop k t"
      using k by (simp_all add: min_absorb2)
    obtain s' where del: "delete_loop ((pre @ take k t) @ drop k t) (length (pre @ take k t)) [x] = (pre @ take k t) @ s'"
      and s': "instructions s' = filter (\<lambda>(opcode, _). opcode \<noteq> x) (instructions (drop k t))"
        "unparsed s' = unparsed (drop k t)"
      using less [OF lt, of "pre @ take k t"] by blast
    have "delete_loop (pre @ s) (length pre) [x] = delete_loop (pre @ t) (length pre + k) [x]"
      using e getOp_at [OF g, of pre] by (subst delete_loop.simps) simp
    then have d: "delete_loop (pre @ s) (length pre) [x] = pre @ take k t @ s'"
      using del unfolding l [symmetric] t [symmetric] by simp
    note loc = getOp_local [OF g, of s']
    have "opcode \<noteq> x" using hd getOp_opcode [OF g] k(3) by (cases t) auto
    moreover have "drop k (take k t @ s') = s'" using k by simp
    ultimately have "instructions (take k t @ s') = filter (\<lambda>(opcode, _). opcode \<noteq> x) (instructions s) \<and>
        unparsed (take k t @ s') = unparsed s"
      using instructions_Some [OF loc] instructions_Some [OF g] s' flt unp by simp
    then show ?thesis using d by blast
  qed
qed

text \<open>Deleting an opcode from a script deletes exactly its instructions: the instructions of the
  result are the other instructions of the script, in order, and the bytes that cannot be parsed are
  untouched; in particular an equal byte inside the data of a push stays.\<close>

theorem findAndDelete_opcode:
  assumes "x > OP_PUSHDATA4"
  shows "instructions (findAndDelete script [x]) = filter (\<lambda>(opcode, _). opcode \<noteq> x) (instructions script) \<and>
    unparsed (findAndDelete script [x]) = unparsed script"
  using delete_loop_opcode [OF assms, of "[]" script] by (auto simp: findAndDelete_def)

theorem findAndDelete_opcode_witness:
  "instructions (findAndDelete [OP_CODESEPARATOR, 1, OP_CODESEPARATOR, OP_DUP] [OP_CODESEPARATOR])
     = [(1, [OP_CODESEPARATOR]), (OP_DUP, [])]"
proof -
  have "instructions [OP_CODESEPARATOR, 1, OP_CODESEPARATOR, OP_DUP]
     = [(OP_CODESEPARATOR, []), (1, [OP_CODESEPARATOR]), (OP_DUP, [])]"
    by (simp add: instructions.simps getOp_def getOp2_def operand_size_def)
  then show ?thesis using findAndDelete_opcode [of OP_CODESEPARATOR] by simp
qed

text \<open>The signature operations and the literal test are what they are over the parsed
  instructions: the count adds 1 for every \<open>CHECKSIG\<close> and 20 for every \<open>CHECKMULTISIG\<close> up to the first
  unreadable instruction, and \<open>isPushOnly\<close> holds iff the whole script parses into pushes.\<close>

theorem script_scans:
  "getSigOpCount script = sum_list (map (\<lambda>(opcode, _). sigop_weight opcode) (instructions script)) \<and>
   (isPushOnly script \<longleftrightarrow> unparsed script = [] \<and> list_all (\<lambda>(opcode, _). opcode \<le> OP_16) (instructions script))"
  using sigop_loop_instructions [of "[]" script 0] push_only_loop_instructions [of "[]" script]
  by (simp add: getSigOpCount_def isPushOnly_def list_all_iff)

section \<open>Standard scripts recognised\<close>

lemma push_uint160_data: "push_uint160 a = push_data (le_bytes 20 (unat a))"
  by (simp add: push_uint160_def push_data_def)

lemma push_uint256_data: "push_uint256 a = push_data (le_bytes 32 (unat a))"
  by (simp add: push_uint256_def push_data_def)

lemma length_setAddress [simp]: "length (setAddress a) = 25"
  by (simp add: setAddress_def push_uint160_def)

lemma setAddress_drop:
  "drop 1 (setAddress a) = OP_HASH160 # push_uint160 a @ [OP_EQUALVERIFY, OP_CHECKSIG]"
  "drop 2 (setAddress a) = push_data (le_bytes 20 (unat a)) @ [OP_EQUALVERIFY, OP_CHECKSIG]"
  "drop 23 (setAddress a) = [OP_EQUALVERIFY, OP_CHECKSIG]"
  "drop 24 (setAddress a) = [OP_CHECKSIG]"
  by (simp_all add: setAddress_def push_uint160_def push_data_def numeral_2_eq_2)

lemma setAddress_getOp:
  "getOp (setAddress a) 0 = Some (OP_DUP, [], 1)"
  "getOp (setAddress a) (Suc 0) = Some (OP_HASH160, [], 2)"
  "getOp (setAddress a) 2 = Some (20, le_bytes 20 (unat a), 23)"
  "getOp (setAddress a) 23 = Some (OP_EQUALVERIFY, [], 24)"
  "getOp (setAddress a) 24 = Some (OP_CHECKSIG, [], 25)"
proof -
  have p: "getOp (push_data (le_bytes 20 (unat a)) @ rest) 0 = Some (20, le_bytes 20 (unat a), 21)" for rest
    using getOp_push_data(1) [of "le_bytes 20 (unat a)" rest] by (simp add: push_data_def)
  show "getOp (setAddress a) 0 = Some (OP_DUP, [], 1)"
    by (simp add: setAddress_def getOp_plain)
  show "getOp (setAddress a) (Suc 0) = Some (OP_HASH160, [], 2)"
    using getOp_suffix [of 1 "setAddress a" OP_HASH160 "[]" 1] getOp_plain [of OP_HASH160]
    unfolding setAddress_drop by simp
  show "getOp (setAddress a) 2 = Some (20, le_bytes 20 (unat a), 23)"
    using getOp_suffix [of 2 "setAddress a"] p unfolding setAddress_drop by simp
  show "getOp (setAddress a) 23 = Some (OP_EQUALVERIFY, [], 24)"
    using getOp_suffix [of 23 "setAddress a" OP_EQUALVERIFY "[]" 1] getOp_plain [of OP_EQUALVERIFY]
    unfolding setAddress_drop by simp
  show "getOp (setAddress a) 24 = Some (OP_CHECKSIG, [], 25)"
    using getOp_suffix [of 24 "setAddress a" OP_CHECKSIG "[]" 1] getOp_plain [of OP_CHECKSIG]
    unfolding setAddress_drop by simp
qed

lemma bytes_to_uint160_le_bytes [simp]: "bytes_to_uint160 (le_bytes 20 (unat a)) = a"
proof -
  have "unat a < 256 ^ 20" using unsigned_less [of a, where ?'a = nat] by simp
  then show ?thesis by (simp add: bytes_to_uint160_def le_value_le_bytes)
qed

lemma template_getOp:
  "getOp [OP_DUP, OP_HASH160, OP_PUBKEYHASH, OP_EQUALVERIFY, OP_CHECKSIG] 0 = Some (OP_DUP, [], 1)"
  "getOp [OP_DUP, OP_HASH160, OP_PUBKEYHASH, OP_EQUALVERIFY, OP_CHECKSIG] (Suc 0) = Some (OP_HASH160, [], 2)"
  "getOp [OP_DUP, OP_HASH160, OP_PUBKEYHASH, OP_EQUALVERIFY, OP_CHECKSIG] 2 = Some (OP_PUBKEYHASH, [], 3)"
  "getOp [OP_DUP, OP_HASH160, OP_PUBKEYHASH, OP_EQUALVERIFY, OP_CHECKSIG] 3 = Some (OP_EQUALVERIFY, [], 4)"
  "getOp [OP_DUP, OP_HASH160, OP_PUBKEYHASH, OP_EQUALVERIFY, OP_CHECKSIG] 4 = Some (OP_CHECKSIG, [], 5)"
  "getOp [OP_PUBKEY, OP_CHECKSIG] 0 = Some (OP_PUBKEY, [], 1)"
  "getOp [OP_PUBKEY, OP_CHECKSIG] (Suc 0) = Some (OP_CHECKSIG, [], 2)"
  by (simp_all add: getOp_def getOp2_def)

text \<open>C27: the script that pays to an address is read back: for every address, \<open>getAddress\<close> of the
  script \<open>setAddress\<close> makes is the address, and \<open>Solver\<close> takes it for a pay-to-public-key-hash script
  whose only solution is the address's 20 bytes.\<close>

theorem address_script_roundtrip:
  "getAddress (setAddress a) False = a \<and> Solver (setAddress a) = (True, TX_PUBKEYHASH, [le_bytes 20 (unat a)])"
proof
  show "getAddress (setAddress a) False = a"
    by (simp add: getAddress_def setAddress_getOp)
  have 1: "match_loop (setAddress a) [OP_PUBKEY, OP_CHECKSIG] 0 0 [] = None"
    by (subst match_loop.simps)
      (simp add: next_instructions_def setAddress_getOp template_getOp match_step_def)
  have 2: "match_loop (setAddress a) [OP_DUP, OP_HASH160, OP_PUBKEYHASH, OP_EQUALVERIFY, OP_CHECKSIG] 0 0 []
      = Some [le_bytes 20 (unat a)]"
    by (simp add: match_loop.simps next_instructions_def setAddress_getOp template_getOp match_step_def)
  show "Solver (setAddress a) = (True, TX_PUBKEYHASH, [le_bytes 20 (unat a)])"
    by (simp add: Solver_def isPayToScriptHash_def templates_def 1 2)
qed

text \<open>A public key of an acceptable length (33 to 75 bytes), pushed and checked, is solved as
  pay-to-public-key with the key as its solution.\<close>

theorem pubkey_script_solved:
  assumes "33 \<le> length key" and "length key < 76"
  shows "Solver (push_data key @ [OP_CHECKSIG]) = (True, TX_PUBKEY, [key])"
proof -
  let ?s = "push_data key @ [OP_CHECKSIG]"
  have lp: "length (push_data key) = Suc (length key)" using assms(2) by (simp add: push_data_def)
  have g0: "getOp ?s 0 = Some (word_of_nat (length key), key, Suc (length key))"
    using getOp_push_data(1) [of key "[OP_CHECKSIG]"] assms(2) by (simp add: push_data_def)
  have g1: "getOp ?s (Suc (length key)) = Some (OP_CHECKSIG, [], Suc (Suc (length key)))"
    using getOp_suffix [of "Suc (length key)" ?s OP_CHECKSIG "[]" 1] lp by (simp add: getOp_plain)
  have "match_loop ?s [OP_PUBKEY, OP_CHECKSIG] 0 0 [] = Some [key]"
    using assms lp by (simp add: match_loop.simps next_instructions_def g0 g1 template_getOp match_step_def)
  moreover have "\<not> isPayToScriptHash ?s" using assms(1) lp by (simp add: isPayToScriptHash_def)
  ultimately show ?thesis by (simp add: Solver_def templates_def)
qed

theorem pubkey_script_solved_witness:
  "Solver (push_data (replicate 33 2) @ [OP_CHECKSIG]) = (True, TX_PUBKEY, [replicate 33 2])"
  by (rule pubkey_script_solved) simp_all

end
