(* ===== verification/Evaluator.thy ===== *)
theory Evaluator
  imports Script
begin

text \<open>
  The stack machine of \<^verbatim>\<open>src/coin/Script.cpp\<close>: \<open>Evaluator\<close> with its base \<open>eval\<close> and its
  loop, \<open>operator()\<close>. The virtual function \<open>eval\<close> is an argument of the loop, and a class derived from
  \<open>Evaluator\<close> is an extension of the record. A vector used as a stack is a list with its back at the head.
\<close>

unbundle bit_operations_syntax

section \<open>State and results\<close>

type_synonym stack_value = "byte list"

record evaluator =
  ev_script :: script
  ev_current :: nat
  op_count :: int
  ev_exec :: bool
  exec_stack :: "bool list"
  ev_stack :: "stack_value list"
  alt_stack :: "stack_value list"

text \<open>
  What \<open>eval\<close> returns: \<open>Continue\<close> is \<^verbatim>\<open>indeterminate\<close>, \<open>Stop b\<close> a truth value, \<open>Raise\<close> an
  exception, \<open>Undefined\<close> a step the language does not define. The state is the one at that point.
\<close>

datatype outcome = Continue | Stop bool | Raise | Undefined

type_synonym 's eval_fn = "opcodetype \<Rightarrow> 's \<Rightarrow> outcome \<times> 's"

record crypto =
  sha256 :: digest_fn
  ripemd160 :: digest_fn
  sha1 :: digest_fn

definition cont :: "'a evaluator_scheme \<Rightarrow> stack_value list \<Rightarrow> outcome \<times> 'a evaluator_scheme" where
  "cont s st = (Continue, s\<lparr>ev_stack := st\<rparr>)"

definition refuse :: "'a evaluator_scheme \<Rightarrow> outcome \<times> 'a evaluator_scheme" where
  "refuse s = (Stop False, s)"

section \<open>Values\<close>

definition vchTrue :: stack_value where "vchTrue = [1]"
definition vchFalse :: stack_value where "vchFalse = []"

definition of_bool_value :: "bool \<Rightarrow> stack_value" where
  "of_bool_value b = (if b then vchTrue else vchFalse)"

definition CastToBigNum :: "bn_lib \<Rightarrow> stack_value \<Rightarrow> int option" where
  "CastToBigNum bn vch = (if length vch > 4 then None else Some (setvch bn (getvch bn (setvch bn vch))))"

fun CastToBool :: "stack_value \<Rightarrow> bool" where
  "CastToBool [] = False"
| "CastToBool (b # bs) = (if b \<noteq> 0 then \<not> (bs = [] \<and> b = 0x80) else CastToBool bs)"

definition MakeSameSize :: "stack_value \<Rightarrow> stack_value \<Rightarrow> stack_value \<times> stack_value" where
  "MakeSameSize vch1 vch2 =
     (let vch1 = (if length vch1 < length vch2 then vch1 @ replicate (length vch2 - length vch1) 0 else vch1);
          vch2 = (if length vch2 < length vch1 then vch2 @ replicate (length vch1 - length vch2) 0 else vch2)
      in (vch1, vch2))"

section \<open>Control\<close>

definition eval_if :: "opcodetype \<Rightarrow> 'a evaluator_scheme \<Rightarrow> outcome \<times> 'a evaluator_scheme" where
  "eval_if opcode s =
     (if ev_exec s then
        (case ev_stack s of [] \<Rightarrow> refuse s
         | vch # st \<Rightarrow>
             let fValue = CastToBool vch; fValue = (if opcode = OP_NOTIF then \<not> fValue else fValue)
             in (Continue, s\<lparr>ev_stack := st, exec_stack := fValue # exec_stack s\<rparr>))
      else (Continue, s\<lparr>exec_stack := False # exec_stack s\<rparr>))"

definition eval_else :: "'a evaluator_scheme \<Rightarrow> outcome \<times> 'a evaluator_scheme" where
  "eval_else s =
     (case exec_stack s of [] \<Rightarrow> refuse s | b # bs \<Rightarrow> (Continue, s\<lparr>exec_stack := (\<not> b) # bs\<rparr>))"

definition eval_endif :: "'a evaluator_scheme \<Rightarrow> outcome \<times> 'a evaluator_scheme" where
  "eval_endif s = (case exec_stack s of [] \<Rightarrow> refuse s | b # bs \<Rightarrow> (Continue, s\<lparr>exec_stack := bs\<rparr>))"

definition eval_verify :: "'a evaluator_scheme \<Rightarrow> outcome \<times> 'a evaluator_scheme" where
  "eval_verify s =
     (case ev_stack s of [] \<Rightarrow> refuse s | vch # st \<Rightarrow> if CastToBool vch then cont s st else refuse s)"

section \<open>Stack operations\<close>

definition eval_toalt :: "'a evaluator_scheme \<Rightarrow> outcome \<times> 'a evaluator_scheme" where
  "eval_toalt s =
     (case ev_stack s of [] \<Rightarrow> refuse s
      | vch # st \<Rightarrow> (Continue, s\<lparr>ev_stack := st, alt_stack := vch # alt_stack s\<rparr>))"

definition eval_fromalt :: "'a evaluator_scheme \<Rightarrow> outcome \<times> 'a evaluator_scheme" where
  "eval_fromalt s =
     (case alt_stack s of [] \<Rightarrow> refuse s
      | vch # st \<Rightarrow> (Continue, s\<lparr>ev_stack := vch # ev_stack s, alt_stack := st\<rparr>))"

text \<open>The operations that only move elements; \<open>None\<close>: too few of them.\<close>

definition move :: "opcodetype \<Rightarrow> stack_value list \<Rightarrow> stack_value list option" where
  "move opcode st =
     (if opcode = OP_2DROP then (case st of x2 # x1 # r \<Rightarrow> Some r | _ \<Rightarrow> None)
      else if opcode = OP_2DUP then (case st of x2 # x1 # r \<Rightarrow> Some (x2 # x1 # x2 # x1 # r) | _ \<Rightarrow> None)
      else if opcode = OP_3DUP then
        (case st of x3 # x2 # x1 # r \<Rightarrow> Some (x3 # x2 # x1 # x3 # x2 # x1 # r) | _ \<Rightarrow> None)
      else if opcode = OP_2OVER then
        (case st of x4 # x3 # x2 # x1 # r \<Rightarrow> Some (x2 # x1 # x4 # x3 # x2 # x1 # r) | _ \<Rightarrow> None)
      else if opcode = OP_2ROT then
        (case st of x6 # x5 # x4 # x3 # x2 # x1 # r \<Rightarrow> Some (x2 # x1 # x6 # x5 # x4 # x3 # r) | _ \<Rightarrow> None)
      else if opcode = OP_2SWAP then
        (case st of x4 # x3 # x2 # x1 # r \<Rightarrow> Some (x2 # x1 # x4 # x3 # r) | _ \<Rightarrow> None)
      else if opcode = OP_IFDUP then
        (case st of x # r \<Rightarrow> Some (if CastToBool x then x # x # r else x # r) | _ \<Rightarrow> None)
      else if opcode = OP_DROP then (case st of x # r \<Rightarrow> Some r | _ \<Rightarrow> None)
      else if opcode = OP_DUP then (case st of x # r \<Rightarrow> Some (x # x # r) | _ \<Rightarrow> None)
      else if opcode = OP_NIP then (case st of x2 # x1 # r \<Rightarrow> Some (x2 # r) | _ \<Rightarrow> None)
      else if opcode = OP_OVER then (case st of x2 # x1 # r \<Rightarrow> Some (x1 # x2 # x1 # r) | _ \<Rightarrow> None)
      else if opcode = OP_ROT then (case st of x3 # x2 # x1 # r \<Rightarrow> Some (x1 # x3 # x2 # r) | _ \<Rightarrow> None)
      else if opcode = OP_SWAP then (case st of x2 # x1 # r \<Rightarrow> Some (x1 # x2 # r) | _ \<Rightarrow> None)
      else if opcode = OP_TUCK then (case st of x2 # x1 # r \<Rightarrow> Some (x2 # x1 # x2 # r) | _ \<Rightarrow> None)
      else None)"

definition is_move :: "opcodetype \<Rightarrow> bool" where
  "is_move opcode \<longleftrightarrow>
     OP_2DROP \<le> opcode \<and> opcode \<le> OP_TUCK \<and> opcode \<noteq> OP_DEPTH \<and> opcode \<noteq> OP_PICK \<and> opcode \<noteq> OP_ROLL"

definition eval_pick :: "bn_lib \<Rightarrow> opcodetype \<Rightarrow> 'a evaluator_scheme \<Rightarrow> outcome \<times> 'a evaluator_scheme" where
  "eval_pick bn opcode s =
     (if length (ev_stack s) < 2 then refuse s
      else
        case CastToBigNum bn (hd (ev_stack s)) of None \<Rightarrow> (Raise, s)
        | Some v \<Rightarrow>
            let n = getint bn v; st = tl (ev_stack s); s = s\<lparr>ev_stack := st\<rparr>
            in if n < 0 \<or> nat n \<ge> length st then refuse s
               else
                 let vch = st ! nat n;
                     st = (if opcode = OP_ROLL then take (nat n) st @ drop (Suc (nat n)) st else st)
                 in cont s (vch # st))"

definition eval_size :: "bn_lib \<Rightarrow> 'a evaluator_scheme \<Rightarrow> outcome \<times> 'a evaluator_scheme" where
  "eval_size bn s =
     (case ev_stack s of [] \<Rightarrow> refuse s
      | vch # st \<Rightarrow> cont s (getvch bn (int (length vch)) # vch # st))"

section \<open>Splicing and bitwise logic\<close>

text \<open>All of these but \<open>OP_SIZE\<close>, \<open>OP_EQUAL\<close> and \<open>OP_EQUALVERIFY\<close> are refused by \<open>operator()\<close> before
  they reach \<open>eval\<close>. The sum in \<open>OP_SUBSTR\<close> is an \<^verbatim>\<open>int\<close>: beyond its range it is undefined.\<close>

definition eval_cat :: "'a evaluator_scheme \<Rightarrow> outcome \<times> 'a evaluator_scheme" where
  "eval_cat s =
     (case ev_stack s of
        vch2 # vch1 # st \<Rightarrow>
          (let s = s\<lparr>ev_stack := (vch1 @ vch2) # st\<rparr>
           in if length (vch1 @ vch2) > MAX_SCRIPT_ELEMENT_SIZE then refuse s else (Continue, s))
      | _ \<Rightarrow> refuse s)"

definition eval_substr :: "bn_lib \<Rightarrow> 'a evaluator_scheme \<Rightarrow> outcome \<times> 'a evaluator_scheme" where
  "eval_substr bn s =
     (case ev_stack s of
        size_v # begin_v # vch # st \<Rightarrow>
          (case (CastToBigNum bn begin_v, CastToBigNum bn size_v) of
             (Some b, Some k) \<Rightarrow>
               let nBegin = getint bn b; nEnd = nBegin + getint bn k
               in if nEnd < INT_MIN \<or> nEnd > INT_MAX then (Undefined, s)
                  else if nBegin < 0 \<or> nEnd < nBegin then refuse s
                  else
                    let b = min (nat nBegin) (length vch); e = min (nat nEnd) (length vch)
                    in cont s (drop b (take e vch) # st)
           | _ \<Rightarrow> (Raise, s))
      | _ \<Rightarrow> refuse s)"

definition eval_left_right :: "bn_lib \<Rightarrow> opcodetype \<Rightarrow> 'a evaluator_scheme \<Rightarrow> outcome \<times> 'a evaluator_scheme" where
  "eval_left_right bn opcode s =
     (case ev_stack s of
        size_v # vch # st \<Rightarrow>
          (case CastToBigNum bn size_v of None \<Rightarrow> (Raise, s)
           | Some k \<Rightarrow>
               let nSize = getint bn k
               in if nSize < 0 then refuse s
                  else
                    let n = min (nat nSize) (length vch)
                    in cont s ((if opcode = OP_LEFT then take n vch else drop (length vch - n) vch) # st))
      | _ \<Rightarrow> refuse s)"

definition eval_invert :: "'a evaluator_scheme \<Rightarrow> outcome \<times> 'a evaluator_scheme" where
  "eval_invert s = (case ev_stack s of [] \<Rightarrow> refuse s | vch # st \<Rightarrow> cont s (map not vch # st))"

definition eval_bitwise :: "opcodetype \<Rightarrow> 'a evaluator_scheme \<Rightarrow> outcome \<times> 'a evaluator_scheme" where
  "eval_bitwise opcode s =
     (case ev_stack s of
        vch2 # vch1 # st \<Rightarrow>
          (case MakeSameSize vch1 vch2 of (vch1, vch2) \<Rightarrow>
             cont s (map2 (\<lambda>a b. if opcode = OP_AND then a AND b else if opcode = OP_OR then a OR b else a XOR b)
               vch1 vch2 # st))
      | _ \<Rightarrow> refuse s)"

definition eval_equal :: "opcodetype \<Rightarrow> 'a evaluator_scheme \<Rightarrow> outcome \<times> 'a evaluator_scheme" where
  "eval_equal opcode s =
     (case ev_stack s of
        vch2 # vch1 # st \<Rightarrow>
          (let fEqual = (vch1 = vch2); s' = s\<lparr>ev_stack := of_bool_value fEqual # st\<rparr>
           in if opcode = OP_EQUALVERIFY then (if fEqual then cont s st else refuse s') else (Continue, s'))
      | _ \<Rightarrow> refuse s)"


section \<open>Arithmetic\<close>

text \<open>\<^verbatim>\<open>operator>>=\<close> gives 0 when the power of two exceeds the number.\<close>

definition bn_shr :: "bn_lib \<Rightarrow> int \<Rightarrow> nat \<Rightarrow> int" where
  "bn_shr bn v k = (if BN_cmp bn (BN_lshift bn 1 k) v > 0 then 0 else BN_rshift bn v k)"

definition unary_numeric :: "bn_lib \<Rightarrow> opcodetype \<Rightarrow> int \<Rightarrow> int" where
  "unary_numeric bn opcode v =
     (if opcode = OP_1ADD then BN_add bn v 1
      else if opcode = OP_1SUB then BN_sub bn v 1
      else if opcode = OP_2MUL then BN_lshift bn v 1
      else if opcode = OP_2DIV then bn_shr bn v 1
      else if opcode = OP_NEGATE then - v
      else if opcode = OP_ABS then (if BN_cmp bn v 0 < 0 then - v else v)
      else if opcode = OP_NOT then of_bool (BN_cmp bn v 0 = 0)
      else of_bool (BN_cmp bn v 0 \<noteq> 0))"

definition eval_unary :: "bn_lib \<Rightarrow> opcodetype \<Rightarrow> 'a evaluator_scheme \<Rightarrow> outcome \<times> 'a evaluator_scheme" where
  "eval_unary bn opcode s =
     (case ev_stack s of [] \<Rightarrow> refuse s
      | vch # st \<Rightarrow>
          (case CastToBigNum bn vch of None \<Rightarrow> (Raise, s)
           | Some v \<Rightarrow> cont s (getvch bn (unary_numeric bn opcode v) # st)))"

definition binary_numeric :: "bn_lib \<Rightarrow> opcodetype \<Rightarrow> int \<Rightarrow> int \<Rightarrow> int option" where
  "binary_numeric bn opcode v1 v2 =
     (let shift_bad = BN_cmp bn v2 0 < 0 \<or> BN_cmp bn v2 2048 > 0 in
      if opcode = OP_ADD then Some (BN_add bn v1 v2)
      else if opcode = OP_SUB then Some (BN_sub bn v1 v2)
      else if opcode = OP_MUL then Some (BN_mul bn v1 v2)
      else if opcode = OP_DIV then map_option fst (BN_div bn v1 v2)
      else if opcode = OP_MOD then map_option snd (BN_div bn v1 v2)
      else if opcode = OP_LSHIFT then (if shift_bad then None else Some (BN_lshift bn v1 (unat (getulong bn v2))))
      else if opcode = OP_RSHIFT then (if shift_bad then None else Some (bn_shr bn v1 (unat (getulong bn v2))))
      else if opcode = OP_BOOLAND then Some (of_bool (BN_cmp bn v1 0 \<noteq> 0 \<and> BN_cmp bn v2 0 \<noteq> 0))
      else if opcode = OP_BOOLOR then Some (of_bool (BN_cmp bn v1 0 \<noteq> 0 \<or> BN_cmp bn v2 0 \<noteq> 0))
      else if opcode = OP_NUMEQUAL \<or> opcode = OP_NUMEQUALVERIFY then Some (of_bool (BN_cmp bn v1 v2 = 0))
      else if opcode = OP_NUMNOTEQUAL then Some (of_bool (BN_cmp bn v1 v2 \<noteq> 0))
      else if opcode = OP_LESSTHAN then Some (of_bool (BN_cmp bn v1 v2 < 0))
      else if opcode = OP_GREATERTHAN then Some (of_bool (BN_cmp bn v1 v2 > 0))
      else if opcode = OP_LESSTHANOREQUAL then Some (of_bool (BN_cmp bn v1 v2 \<le> 0))
      else if opcode = OP_GREATERTHANOREQUAL then Some (of_bool (BN_cmp bn v1 v2 \<ge> 0))
      else if opcode = OP_MIN then Some (if BN_cmp bn v1 v2 < 0 then v1 else v2)
      else Some (if BN_cmp bn v1 v2 > 0 then v1 else v2))"

definition eval_binary :: "bn_lib \<Rightarrow> opcodetype \<Rightarrow> 'a evaluator_scheme \<Rightarrow> outcome \<times> 'a evaluator_scheme" where
  "eval_binary bn opcode s =
     (case ev_stack s of
        vch2 # vch1 # st \<Rightarrow>
          (case (CastToBigNum bn vch1, CastToBigNum bn vch2) of
             (Some v1, Some v2) \<Rightarrow>
               (case binary_numeric bn opcode v1 v2 of None \<Rightarrow> refuse s
                | Some v \<Rightarrow>
                    let r = getvch bn v; s' = s\<lparr>ev_stack := r # st\<rparr>
                    in if opcode = OP_NUMEQUALVERIFY then (if CastToBool r then cont s st else refuse s')
                       else (Continue, s'))
           | _ \<Rightarrow> (Raise, s))
      | _ \<Rightarrow> refuse s)"

definition eval_within :: "bn_lib \<Rightarrow> 'a evaluator_scheme \<Rightarrow> outcome \<times> 'a evaluator_scheme" where
  "eval_within bn s =
     (case ev_stack s of
        vch3 # vch2 # vch1 # st \<Rightarrow>
          (case (CastToBigNum bn vch1, CastToBigNum bn vch2, CastToBigNum bn vch3) of
             (Some v1, Some v2, Some v3) \<Rightarrow>
               cont s (of_bool_value (BN_cmp bn v2 v1 \<le> 0 \<and> BN_cmp bn v1 v3 < 0) # st)
           | _ \<Rightarrow> (Raise, s))
      | _ \<Rightarrow> refuse s)"

section \<open>Hashing\<close>

definition hash_value :: "crypto \<Rightarrow> opcodetype \<Rightarrow> stack_value \<Rightarrow> stack_value" where
  "hash_value cr opcode vch =
     (if opcode = OP_RIPEMD160 then ripemd160 cr vch
      else if opcode = OP_SHA1 then sha1 cr vch
      else if opcode = OP_SHA256 then sha256 cr vch
      else if opcode = OP_HASH160 then toPubKeyHash (sha256 cr) (ripemd160 cr) vch
      else le_bytes 32 (unat (Hash (sha256 cr) vch)))"

definition eval_crypto :: "crypto \<Rightarrow> opcodetype \<Rightarrow> 'a evaluator_scheme \<Rightarrow> outcome \<times> 'a evaluator_scheme" where
  "eval_crypto cr opcode s =
     (case ev_stack s of [] \<Rightarrow> refuse s | vch # st \<Rightarrow> cont s (hash_value cr opcode vch # st))"

section \<open>The switch\<close>

definition base_eval :: "bn_lib \<Rightarrow> crypto \<Rightarrow> ('a evaluator_scheme) eval_fn" where
  "base_eval bn cr opcode s =
     (if opcode = OP_1NEGATE \<or> (OP_1 \<le> opcode \<and> opcode \<le> OP_16) then
        cont s (getvch bn (uint opcode - (uint OP_1 - 1)) # ev_stack s)
      else if opcode = OP_NOP \<or> (OP_NOP1 \<le> opcode \<and> opcode \<le> OP_NOP10) then (Continue, s)
      else if opcode = OP_IF \<or> opcode = OP_NOTIF then eval_if opcode s
      else if opcode = OP_ELSE then eval_else s
      else if opcode = OP_ENDIF then eval_endif s
      else if opcode = OP_VERIFY then eval_verify s
      else if opcode = OP_RETURN then refuse s
      else if opcode = OP_TOALTSTACK then eval_toalt s
      else if opcode = OP_FROMALTSTACK then eval_fromalt s
      else if is_move opcode then (case move opcode (ev_stack s) of None \<Rightarrow> refuse s | Some st \<Rightarrow> cont s st)
      else if opcode = OP_DEPTH then cont s (getvch bn (int (length (ev_stack s))) # ev_stack s)
      else if opcode = OP_PICK \<or> opcode = OP_ROLL then eval_pick bn opcode s
      else if opcode = OP_CAT then eval_cat s
      else if opcode = OP_SUBSTR then eval_substr bn s
      else if opcode = OP_LEFT \<or> opcode = OP_RIGHT then eval_left_right bn opcode s
      else if opcode = OP_SIZE then eval_size bn s
      else if opcode = OP_INVERT then eval_invert s
      else if opcode = OP_AND \<or> opcode = OP_OR \<or> opcode = OP_XOR then eval_bitwise opcode s
      else if opcode = OP_EQUAL \<or> opcode = OP_EQUALVERIFY then eval_equal opcode s
      else if OP_1ADD \<le> opcode \<and> opcode \<le> OP_0NOTEQUAL then eval_unary bn opcode s
      else if OP_ADD \<le> opcode \<and> opcode \<le> OP_MAX then eval_binary bn opcode s
      else if opcode = OP_WITHIN then eval_within bn s
      else if OP_RIPEMD160 \<le> opcode \<and> opcode \<le> OP_HASH256 then eval_crypto cr opcode s
      else (Continue, s))"

section \<open>The loop\<close>

definition disabled_op :: "opcodetype \<Rightarrow> bool" where
  "disabled_op opcode \<longleftrightarrow>
     opcode \<in> {OP_CAT, OP_SUBSTR, OP_LEFT, OP_RIGHT, OP_INVERT, OP_AND, OP_OR, OP_XOR, OP_2MUL, OP_2DIV,
               OP_MUL, OP_DIV, OP_MOD, OP_LSHIFT, OP_RSHIFT}"

text \<open>What \<open>operator()\<close> returns: an exception is caught and gives false.\<close>

datatype verdict = Verdict bool | Undefined_behaviour

definition end_of_script :: "'a evaluator_scheme \<Rightarrow> verdict \<times> 'a evaluator_scheme" where
  "end_of_script s = (Verdict (exec_stack s = []), s)"

text \<open>The body of the loop for one instruction, up to \<open>eval\<close>: a refusal, a push or a call of \<open>eval\<close>.\<close>

definition step :: "('a evaluator_scheme) eval_fn \<Rightarrow> opcodetype \<Rightarrow> stack_value \<Rightarrow> 'a evaluator_scheme \<Rightarrow>
    outcome \<times> 'a evaluator_scheme" where
  "step eval opcode value s =
     (if length value > MAX_SCRIPT_ELEMENT_SIZE then (Stop False, s)
      else
        let s = (if opcode > OP_16 then s\<lparr>op_count := op_count s + 1\<rparr> else s)
        in if opcode > OP_16 \<and> op_count s > 201 then (Stop False, s)
           else if disabled_op opcode then (Stop False, s)
           else
             let r = (if ev_exec s \<and> opcode \<le> OP_PUSHDATA4 then (Continue, s\<lparr>ev_stack := value # ev_stack s\<rparr>)
                      else if ev_exec s \<or> (OP_IF \<le> opcode \<and> opcode \<le> OP_ENDIF) then eval opcode s
                      else (Continue, s))
             in case r of
                  (Continue, s) \<Rightarrow>
                    if length (ev_stack s) + length (alt_stack s) > 1000 then (Stop False, s) else (Continue, s)
                | r \<Rightarrow> r)"

text \<open>No \<open>eval\<close> moves \<^verbatim>\<open>_current\<close>; the loop keeps it beside the state.\<close>

function run :: "('a evaluator_scheme) eval_fn \<Rightarrow> script \<Rightarrow> nat \<Rightarrow> 'a evaluator_scheme \<Rightarrow>
    verdict \<times> 'a evaluator_scheme" where
  "run eval script pc s =
     (if length script \<le> pc then end_of_script s
      else
        (case getOp script pc of
           None \<Rightarrow> (Verdict False, s\<lparr>ev_exec := False \<notin> set (exec_stack s)\<rparr>)
         | Some (opcode, value, pc') \<Rightarrow>
             (case step eval opcode value (s\<lparr>ev_exec := False \<notin> set (exec_stack s), ev_current := pc'\<rparr>) of
                (Continue, s') \<Rightarrow> run eval script pc' s'
              | (Stop b, s') \<Rightarrow> (Verdict b, s')
              | (Raise, s') \<Rightarrow> (Verdict False, s')
              | (Undefined, s') \<Rightarrow> (Undefined_behaviour, s'))))"
  by pat_completeness auto
termination
  by (relation "measure (\<lambda>(eval, script, pc, s). length script - pc)") (auto dest: getOp_measure)

declare run.simps [simp del]

definition evaluate :: "('a evaluator_scheme) eval_fn \<Rightarrow> script \<Rightarrow> 'a evaluator_scheme \<Rightarrow> verdict \<times> 'a evaluator_scheme" where
  "evaluate eval script s =
     (let s = s\<lparr>ev_script := script, ev_current := 0, op_count := 0\<rparr>
      in if length script > 10000 then (Verdict False, s) else run eval script 0 s)"

definition new_evaluator :: evaluator where
  "new_evaluator =
     \<lparr>ev_script = [], ev_current = 0, op_count = 0, ev_exec = True, exec_stack = [], ev_stack = [], alt_stack = []\<rparr>"

definition stack_as_script :: "'a evaluator_scheme \<Rightarrow> script" where
  "stack_as_script s = concat (map push_data (rev (ev_stack s)))"

section \<open>Limits\<close>

text \<open>Between two instructions: no value longer than an element may be, and no more than a thousand.\<close>

definition values_small :: "'a evaluator_scheme \<Rightarrow> bool" where
  "values_small s \<longleftrightarrow> (\<forall>v\<in>set (ev_stack s) \<union> set (alt_stack s). length v \<le> MAX_SCRIPT_ELEMENT_SIZE)"

definition within_limits :: "'a evaluator_scheme \<Rightarrow> bool" where
  "within_limits s \<longleftrightarrow> values_small s \<and> length (ev_stack s) + length (alt_stack s) \<le> 1000"

text \<open>What every \<open>eval\<close> of the program keeps: small values stay small.\<close>

locale bounded_eval =
  fixes eval :: "('a evaluator_scheme) eval_fn"
  assumes small: "eval opcode s = (Continue, s') \<Longrightarrow> within_limits s \<Longrightarrow> values_small s'"
    and no_accept: "fst (eval opcode s) \<noteq> Stop True"
begin

lemma step_limits:
  assumes "step eval opcode value s = (Continue, s')" and "within_limits s"
  shows "within_limits s'"
proof -
  define s1 where "s1 = (if opcode > OP_16 then s\<lparr>op_count := op_count s + 1\<rparr> else s)"
  have s1: "within_limits s1" using assms(2) by (simp add: s1_def within_limits_def values_small_def)
  have v: "length value \<le> MAX_SCRIPT_ELEMENT_SIZE"
    using assms(1) by (auto simp: step_def split: if_splits)
  define r where "r = (if ev_exec s1 \<and> opcode \<le> OP_PUSHDATA4 then (Continue, s1\<lparr>ev_stack := value # ev_stack s1\<rparr>)
     else if ev_exec s1 \<or> (OP_IF \<le> opcode \<and> opcode \<le> OP_ENDIF) then eval opcode s1 else (Continue, s1))"
  have step: "\<not> (opcode > OP_16 \<and> op_count s1 > 201)" "\<not> disabled_op opcode"
    and res: "(case r of (Continue, s) \<Rightarrow>
        if length (ev_stack s) + length (alt_stack s) > 1000 then (Stop False, s) else (Continue, s) | r \<Rightarrow> r) = (Continue, s')"
    using assms(1) v unfolding step_def Let_def s1_def [symmetric] r_def [symmetric] by (auto split: if_splits)
  then have r: "r = (Continue, s')" and len: "length (ev_stack s') + length (alt_stack s') \<le> 1000"
    by (auto split: prod.splits outcome.splits if_splits)
  have "values_small s'"
  proof (cases "ev_exec s1 \<and> opcode \<le> OP_PUSHDATA4")
    case True
    then show ?thesis using r s1 v by (auto simp: r_def within_limits_def values_small_def)
  next
    case False
    then show ?thesis
      using r s1 small [of opcode s1 s'] by (auto simp: r_def within_limits_def split: if_splits)
  qed
  with len show ?thesis by (simp add: within_limits_def)
qed

lemma step_no_accept: "fst (step eval opcode value s) \<noteq> Stop True"
proof
  assume a: "fst (step eval opcode value s) = Stop True"
  have "fst (case r of (Continue, s) \<Rightarrow> if length (ev_stack s) + length (alt_stack s) > 1000 then (Stop False, s)
      else (Continue, s) | r \<Rightarrow> r) \<noteq> Stop True" if "fst r \<noteq> Stop True" for r :: "outcome \<times> 'a evaluator_scheme"
    using that by (cases r) (auto split: outcome.splits)
  with a no_accept show False
    unfolding step_def Let_def by (auto split: if_splits)
qed

lemma run_limits:
  assumes "run eval script pc s = (Verdict True, s')" and "within_limits s"
  shows "within_limits s' \<and> exec_stack s' = []"
  using assms
proof (induction "length script - pc" arbitrary: pc s rule: less_induct)
  case less
  show ?case
  proof (cases "length script \<le> pc")
    case True
    then show ?thesis using less.prems by (auto simp: run.simps end_of_script_def)
  next
    case False
    show ?thesis
    proof (cases "getOp script pc")
      case None
      then show ?thesis using less.prems(1) False by (subst (asm) run.simps) simp
    next
      case (Some x)
      then obtain opcode data pc' where g: "getOp script pc = Some (opcode, data, pc')" by (cases x) auto
      let ?s = "s\<lparr>ev_exec := False \<notin> set (exec_stack s), ev_current := pc'\<rparr>"
      obtain r s1 where st: "step eval opcode data ?s = (r, s1)" by (cases "step eval opcode data ?s")
      have "r \<noteq> Stop True" using step_no_accept [of opcode data ?s] st by simp
      then have r: "r = Continue" and rn: "run eval script pc' s1 = (Verdict True, s')"
        using less.prems(1) False g st unfolding run.simps [of eval script pc s] by (auto split: outcome.splits)
      have "within_limits ?s" using less.prems(2) by (simp add: within_limits_def values_small_def)
      from step_limits [OF st [unfolded r] this] show ?thesis
        by (rule less.hyps [OF getOp_measure [OF g] rn])
    qed
  qed
qed

lemma evaluate_limits:
  assumes "evaluate eval script s = (Verdict True, s')" and "within_limits s"
  shows "within_limits s' \<and> exec_stack s' = [] \<and> length script \<le> 10000"
proof -
  have "length script \<le> 10000" using assms(1) by (auto simp: evaluate_def Let_def split: if_splits)
  moreover from this have "run eval script 0 (s\<lparr>ev_script := script, ev_current := 0, op_count := 0\<rparr>) = (Verdict True, s')"
    using assms(1) by (simp add: evaluate_def)
  ultimately show ?thesis
    using run_limits assms(2) by (simp add: within_limits_def values_small_def)
qed

end

section \<open>The base class keeps values small\<close>

lemma length_be_minimal: "n < 256 ^ k \<Longrightarrow> length (be_minimal n) \<le> k"
proof (induction n arbitrary: k rule: be_minimal.induct)
  case (1 n)
  show ?case
  proof (cases "n = 0")
    case False
    then obtain j where k: "k = Suc j" using 1(2) by (cases k) auto
    then have "n div 256 < 256 ^ j" using 1(2) by (simp add: div_less_iff_less_mult mult.commute)
    from 1(1) [OF False this] show ?thesis using False k by (simp add: be_minimal.simps [of n])
  qed simp
qed

lemma length_mpi_body: "\<bar>v\<bar> < 256 ^ k \<Longrightarrow> length (mpi_body v) \<le> Suc k"
proof -
  assume "\<bar>v\<bar> < 256 ^ k"
  then have "nat \<bar>v\<bar> < 256 ^ k" by (simp add: nat_less_iff)
  from length_be_minimal [OF this] show ?thesis by (auto simp: mpi_body_def split: list.splits)
qed

lemma mpi_value_bound: "\<bar>mpi_value bs\<bar> < 256 ^ length bs"
proof (cases bs)
  case Nil
  then show ?thesis by (simp add: mpi_value_def)
next
  case (Cons b rest)
  have "int (be_value xs) < 256 ^ length xs" for xs
    using be_value_less [of xs] by (metis of_nat_less_iff of_nat_numeral of_nat_power)
  from this [of "(b AND 0x7f) # rest"] this [of bs] show ?thesis
    using Cons by (auto simp: mpi_value_def)
qed

lemma CastToBigNum_bound:
  assumes "bn_documented bn" and "CastToBigNum bn vch = Some v"
  shows "\<bar>v\<bar> < 256 ^ 4"
proof -
  have l: "length vch \<le> 4" and v: "v = setvch bn (getvch bn (setvch bn vch))"
    using assms(2) by (auto simp: CastToBigNum_def split: if_splits)
  have s: "setvch bn vch = mpi_value (rev vch)" using setvch_doc [OF assms(1)] l by simp
  have b: "\<bar>mpi_value (rev vch)\<bar> < 256 ^ 4"
  proof -
    have "(256 :: int) ^ length vch \<le> 256 ^ 4" using l by (intro power_increasing) simp_all
    then show ?thesis using mpi_value_bound [of "rev vch"] by simp
  qed
  have "length (mpi_body (mpi_value (rev vch))) < 2 ^ 31"
    using length_mpi_body [OF b] by simp
  then have "v = mpi_value (rev vch)" unfolding v s by (rule setvch_getvch [OF assms(1)])
  with b show ?thesis by simp
qed

text \<open>The documented sizes of the digests.\<close>

definition crypto_sized :: "crypto \<Rightarrow> bool" where
  "crypto_sized cr \<longleftrightarrow>
     (\<forall>bs. length (ripemd160 cr bs) = 20 \<and> length (sha1 cr bs) = 20 \<and> length (sha256 cr bs) = 32)"

lemma length_hash_value: "crypto_sized cr \<Longrightarrow> length (hash_value cr opcode vch) \<le> 32"
  by (simp add: hash_value_def crypto_sized_def toPubKeyHash_def)

lemma getvch_small: "bn_documented bn \<Longrightarrow> \<bar>v\<bar> < 256 ^ 300 \<Longrightarrow> length (getvch bn v) \<le> MAX_SCRIPT_ELEMENT_SIZE"
  using length_mpi_body [of v 300] by (simp add: getvch_doc MAX_SCRIPT_ELEMENT_SIZE_def)


named_theorems small_ops \<open>operations keep values small\<close>

lemma values_smallD: "values_small s \<Longrightarrow> v \<in> set (ev_stack s) \<Longrightarrow> length v \<le> MAX_SCRIPT_ELEMENT_SIZE"
  by (simp add: values_small_def)

lemma of_bool_value_small: "length (of_bool_value b) \<le> MAX_SCRIPT_ELEMENT_SIZE"
  by (simp add: of_bool_value_def vchTrue_def vchFalse_def MAX_SCRIPT_ELEMENT_SIZE_def)

lemma cont_small:
  "cont s st = (Continue, s') \<Longrightarrow> values_small s \<Longrightarrow> (\<And>v. v \<in> set st \<Longrightarrow> length v \<le> MAX_SCRIPT_ELEMENT_SIZE) \<Longrightarrow> values_small s'"
  by (auto simp: cont_def values_small_def)

lemma skip_small [small_ops]:
  "(Continue, s) = (Continue, s') \<Longrightarrow> values_small s \<Longrightarrow> values_small s'"
  "refuse s = (Continue, s') \<Longrightarrow> values_small s \<Longrightarrow> values_small s'"
  by (simp_all add: refuse_def)

lemma control_small [small_ops]:
  "eval_if opcode s = (Continue, s') \<Longrightarrow> values_small s \<Longrightarrow> values_small s'"
  "eval_else s = (Continue, s') \<Longrightarrow> values_small s \<Longrightarrow> values_small s'"
  "eval_endif s = (Continue, s') \<Longrightarrow> values_small s \<Longrightarrow> values_small s'"
  "eval_verify s = (Continue, s') \<Longrightarrow> values_small s \<Longrightarrow> values_small s'"
  "eval_toalt s = (Continue, s') \<Longrightarrow> values_small s \<Longrightarrow> values_small s'"
  "eval_fromalt s = (Continue, s') \<Longrightarrow> values_small s \<Longrightarrow> values_small s'"
  by (auto simp: eval_if_def eval_else_def eval_endif_def eval_verify_def eval_toalt_def eval_fromalt_def
      refuse_def cont_def values_small_def Let_def split: if_splits list.splits)

lemma move_subset: "move opcode st = Some st' \<Longrightarrow> set st' \<subseteq> set st"
  by (auto simp: move_def split: if_splits list.splits)

lemma move_small [small_ops]:
  "(case move opcode (ev_stack s) of None \<Rightarrow> refuse s | Some st \<Rightarrow> cont s st) = (Continue, s') \<Longrightarrow>
     values_small s \<Longrightarrow> values_small s'"
proof (cases "move opcode (ev_stack s)")
  case (Some st)
  assume "(case move opcode (ev_stack s) of None \<Rightarrow> refuse s | Some st \<Rightarrow> cont s st) = (Continue, s')" "values_small s"
  with Some move_subset [OF Some] show ?thesis by (auto simp: cont_def values_small_def)
qed (simp add: refuse_def)

lemma pick_small [small_ops]:
  assumes "eval_pick bn opcode s = (Continue, s')" and "values_small s"
  shows "values_small s'"
proof -
  obtain v where v: "CastToBigNum bn (hd (ev_stack s)) = Some v" "\<not> length (ev_stack s) < 2"
    using assms(1) by (auto simp: eval_pick_def refuse_def split: if_splits option.splits)
  define n where "n = nat (getint bn v)"
  define st where "st = tl (ev_stack s)"
  have n: "n < length st" and s': "s' = s\<lparr>ev_stack := st ! n # (if opcode = OP_ROLL then take n st @ drop (Suc n) st else st)\<rparr>"
    using assms(1) v by (auto simp: eval_pick_def refuse_def cont_def Let_def n_def st_def split: if_splits)
  have sub: "set st \<subseteq> set (ev_stack s)" unfolding st_def by (cases "ev_stack s") auto
  have "set (ev_stack s') \<subseteq> set (ev_stack s)"
    using sub nth_mem [OF n] by (auto simp: s' dest: in_set_takeD in_set_dropD split: if_splits)
  then show ?thesis using assms(2) by (auto simp: values_small_def s')
qed

lemma equal_small [small_ops]:
  "eval_equal opcode s = (Continue, s') \<Longrightarrow> values_small s \<Longrightarrow> values_small s'"
  using of_bool_value_small
  by (auto simp: eval_equal_def refuse_def cont_def values_small_def Let_def split: if_splits list.splits)

lemma cat_small [small_ops]: "eval_cat s = (Continue, s') \<Longrightarrow> values_small s \<Longrightarrow> values_small s'"
  by (auto simp: eval_cat_def refuse_def values_small_def Let_def split: if_splits list.splits)

lemma splice_small [small_ops]:
  "eval_substr bn s = (Continue, s') \<Longrightarrow> values_small s \<Longrightarrow> values_small s'"
  "eval_left_right bn opcode s = (Continue, s') \<Longrightarrow> values_small s \<Longrightarrow> values_small s'"
  "eval_invert s = (Continue, s') \<Longrightarrow> values_small s \<Longrightarrow> values_small s'"
  by (auto simp: eval_substr_def eval_left_right_def eval_invert_def refuse_def cont_def values_small_def Let_def min_def
      split: if_splits list.splits option.splits)

lemma bitwise_small [small_ops]: "eval_bitwise opcode s = (Continue, s') \<Longrightarrow> values_small s \<Longrightarrow> values_small s'"
  by (auto simp: eval_bitwise_def MakeSameSize_def refuse_def cont_def values_small_def Let_def split: list.splits if_splits)

lemma crypto_small:
  "eval_crypto cr opcode s = (Continue, s') \<Longrightarrow> crypto_sized cr \<Longrightarrow> values_small s \<Longrightarrow> values_small s'"
proof (cases "ev_stack s")
  case (Cons vch st)
  assume "eval_crypto cr opcode s = (Continue, s')" "crypto_sized cr" "values_small s"
  with Cons length_hash_value [of cr opcode vch] show ?thesis
    by (auto simp: eval_crypto_def cont_def values_small_def MAX_SCRIPT_ELEMENT_SIZE_def)
qed (simp add: eval_crypto_def refuse_def)

lemma within_small [small_ops]: "eval_within bn s = (Continue, s') \<Longrightarrow> values_small s \<Longrightarrow> values_small s'"
  using of_bool_value_small
  by (auto simp: eval_within_def refuse_def cont_def values_small_def split: list.splits option.splits)

lemma unary_bound:
  assumes "bn_documented bn" and "\<bar>v\<bar> < 256 ^ 4"
  shows "\<bar>unary_numeric bn opcode v\<bar> < 256 ^ 300"
proof -
  have "\<bar>unary_numeric bn opcode v\<bar> \<le> 2 * 256 ^ 4 + 1"
    using assms(2) by (auto simp: unary_numeric_def bn_shr_def bn_doc_arith [OF assms(1)] abs_mult sgn_if)
  then show ?thesis by (rule le_less_trans) simp
qed


lemma abs_div_le:
  assumes "(0 :: int) < b"
  shows "0 \<le> \<bar>a\<bar> div b" and "\<bar>a\<bar> div b \<le> \<bar>a\<bar>"
proof -
  show nn: "0 \<le> \<bar>a\<bar> div b" using assms by (simp add: pos_imp_zdiv_nonneg_iff)
  have "\<bar>a\<bar> div b * 1 \<le> \<bar>a\<bar> div b * b" using nn assms by (intro mult_left_mono) simp_all
  also have "\<dots> \<le> \<bar>a\<bar>" using assms by (simp add: div_mult_mod_eq [symmetric] minus_mod_eq_div_mult [symmetric])
  finally show "\<bar>a\<bar> div b \<le> \<bar>a\<bar>" by simp
qed

lemma abs_sgn_mult_le: "0 \<le> q \<Longrightarrow> q \<le> m \<Longrightarrow> \<bar>sgn x * q\<bar> \<le> (m :: int)"
  by (simp add: abs_mult sgn_if)

lemma bn_quot_le: "\<bar>bn_quot a b\<bar> \<le> \<bar>a\<bar>"
proof (cases "b = 0")
  case False
  then show ?thesis
    unfolding bn_quot_def using abs_div_le [of "\<bar>b\<bar>" a] by (auto simp: abs_mult sgn_if)
qed (simp add: bn_quot_def)

lemma bn_shr_le:
  assumes "bn_documented bn"
  shows "\<bar>bn_shr bn v k\<bar> \<le> \<bar>v\<bar>"
proof -
  have "\<bar>sgn v * (\<bar>v\<bar> div 2 ^ k)\<bar> \<le> \<bar>v\<bar>" using abs_div_le [of "2 ^ k" v] by (intro abs_sgn_mult_le) simp_all
  then show ?thesis unfolding bn_shr_def bn_doc_arith [OF assms] by (cases "0 < v") (auto simp del: abs_mult)
qed

lemma bn_rem_le: "\<bar>bn_rem a b\<bar> \<le> \<bar>a\<bar>"
proof -
  have "\<bar>a\<bar> mod \<bar>b\<bar> \<le> \<bar>a\<bar>" by (cases "b = 0") (simp_all add: zmod_le_nonneg_dividend)
  moreover have "0 \<le> \<bar>a\<bar> mod \<bar>b\<bar>" by (cases "b = 0") simp_all
  ultimately show ?thesis unfolding bn_rem_def by (intro abs_sgn_mult_le)
qed

lemma shl_bound:
  assumes "bn_documented bn" and "\<bar>v1\<bar> < 256 ^ 4" and "\<not> BN_cmp bn v2 0 < 0" and "\<not> BN_cmp bn v2 2048 > 0"
  shows "\<bar>(v1 :: int) * 2 ^ unat (getulong bn v2)\<bar> < 256 ^ 300"
proof -
  have v2: "0 \<le> v2" "v2 \<le> 2048" using assms(3,4) by (auto simp: bn_doc_arith [OF assms(1)] split: if_splits)
  then have "unat (getulong bn v2) \<le> 2048"
    by (simp add: getulong_def bn_doc_arith [OF assms(1)] unat_eq_nat_uint uint_word_of_int nat_le_iff)
  then have "(2 :: int) ^ unat (getulong bn v2) \<le> 2 ^ 2048" by (intro power_increasing) simp_all
  then have "\<bar>v1\<bar> * 2 ^ unat (getulong bn v2) \<le> (256 :: int) ^ 4 * 2 ^ 2048"
    using assms(2) by (intro mult_mono) simp_all
  also have "\<dots> < (256 :: int) ^ 300" by simp
  finally show ?thesis by (simp add: abs_mult)
qed

lemma mul_bound:
  assumes "\<bar>v1 :: int\<bar> < 256 ^ 4" and "\<bar>v2\<bar> < 256 ^ 4"
  shows "\<bar>v1 * v2\<bar> < 256 ^ 300"
proof -
  have "\<bar>v1\<bar> * \<bar>v2\<bar> \<le> 256 ^ 4 * 256 ^ 4" using assms by (intro mult_mono) simp_all
  also have "\<dots> < (256 :: int) ^ 300" by simp
  finally show ?thesis by (simp add: abs_mult)
qed

lemma below_bound: "x \<le> 2 * 256 ^ 4 \<Longrightarrow> x < (256 :: int) ^ 300"
  by (erule le_less_trans) simp

lemma binary_bound:
  assumes doc: "bn_documented bn" and v1: "\<bar>v1\<bar> < 256 ^ 4" and v2: "\<bar>v2\<bar> < 256 ^ 4"
    and eq: "binary_numeric bn opcode v1 v2 = Some v"
  shows "\<bar>v\<bar> < 256 ^ 300"
proof -
  have le: "\<bar>v\<bar> < 256 ^ 300" if "\<bar>v\<bar> \<le> \<bar>v1\<bar> + \<bar>v2\<bar>"
    using that v1 v2 by (intro below_bound) simp
  have bool: "\<bar>v\<bar> < 256 ^ 300" if "v = of_bool b" for b
    using that by (intro below_bound) simp
  consider "v = v1 + v2" | "v = v1 - v2" | "v = v1 * v2" | "v = bn_quot v1 v2" | "v = bn_rem v1 v2"
    | "v = v1 * 2 ^ unat (getulong bn v2)" "\<not> BN_cmp bn v2 0 < 0" "\<not> BN_cmp bn v2 2048 > 0"
    | k where "v = bn_shr bn v1 k" | b where "v = of_bool b" | "v = v1" | "v = v2"
    using eq unfolding binary_numeric_def Let_def bn_doc_arith(1-5) [OF doc]
    by (simp split: if_split_asm) blast+
  then show ?thesis
  proof cases
    case 1
    then show ?thesis by (intro le) simp
  next
    case 2
    then show ?thesis by (intro le) simp
  next
    case 9
    then show ?thesis by (intro le) simp
  next
    case 10
    then show ?thesis by (intro le) simp
  next
    case 3
    with mul_bound [OF v1 v2] show ?thesis by simp
  next
    case 4
    with bn_quot_le [of v1 v2] show ?thesis by (intro le) simp
  next
    case 5
    with bn_rem_le [of v1 v2] show ?thesis by (intro le) simp
  next
    case 6
    with shl_bound [OF doc v1] show ?thesis by simp
  next
    case (7 k)
    with bn_shr_le [OF doc, of v1 k] show ?thesis by (intro le) simp
  next
    case (8 b)
    then show ?thesis by (rule bool)
  qed
qed


lemma eval_unary_elim:
  assumes "eval_unary bn opcode s = (Continue, s')"
  obtains vch st v where "ev_stack s = vch # st" "CastToBigNum bn vch = Some v"
    "s' = s\<lparr>ev_stack := getvch bn (unary_numeric bn opcode v) # st\<rparr>"
  using assms by (cases "ev_stack s") (simp_all add: eval_unary_def refuse_def cont_def split: option.split_asm)

lemma eval_binary_elim:
  assumes "eval_binary bn opcode s = (Continue, s')"
  obtains vch1 vch2 st v1 v2 v where "ev_stack s = vch2 # vch1 # st" "CastToBigNum bn vch1 = Some v1"
    "CastToBigNum bn vch2 = Some v2" "binary_numeric bn opcode v1 v2 = Some v"
    "s' = s\<lparr>ev_stack := if opcode = OP_NUMEQUALVERIFY then st else getvch bn v # st\<rparr>"
proof (cases "\<exists>vch2 vch1 st. ev_stack s = vch2 # vch1 # st")
  case True
  then obtain vch2 vch1 st where st: "ev_stack s = vch2 # vch1 # st" by blast
  show ?thesis
  proof (cases "CastToBigNum bn vch1")
    case None
    then show ?thesis using assms st by (simp add: eval_binary_def)
  next
    case (Some v1)
    note v1 = this
    show ?thesis
    proof (cases "CastToBigNum bn vch2")
      case None
      then show ?thesis using assms st v1 by (simp add: eval_binary_def)
    next
      case (Some v2)
      note v2 = this
      show ?thesis
      proof (cases "binary_numeric bn opcode v1 v2")
        case None
        then show ?thesis using assms st v1 v2 by (simp add: eval_binary_def refuse_def)
      next
        case (Some v)
        have "s' = s\<lparr>ev_stack := if opcode = OP_NUMEQUALVERIFY then st else getvch bn v # st\<rparr>"
          using assms st v1 v2 Some
          by (simp add: eval_binary_def refuse_def cont_def Let_def split: if_split_asm)
        with st v1 v2 Some show ?thesis by (rule that)
      qed
    qed
  qed
next
  case False
  then show ?thesis using assms by (simp add: eval_binary_def refuse_def split: list.split_asm)
qed

lemma numeric_small:
  assumes "bn_documented bn"
  shows "eval_unary bn opcode s = (Continue, s') \<Longrightarrow> values_small s \<Longrightarrow> values_small s'"
    and "eval_binary bn opcode s = (Continue, s') \<Longrightarrow> values_small s \<Longrightarrow> values_small s'"
proof -
  assume e: "eval_unary bn opcode s = (Continue, s')" and s: "values_small s"
  from e obtain vch st v where st: "ev_stack s = vch # st" "CastToBigNum bn vch = Some v"
    "s' = s\<lparr>ev_stack := getvch bn (unary_numeric bn opcode v) # st\<rparr>" by (rule eval_unary_elim)
  have "length (getvch bn (unary_numeric bn opcode v)) \<le> MAX_SCRIPT_ELEMENT_SIZE"
    by (rule getvch_small [OF assms unary_bound [OF assms CastToBigNum_bound [OF assms st(2)]]])
  with st(1,3) s show "values_small s'" by (simp add: values_small_def)
next
  assume e: "eval_binary bn opcode s = (Continue, s')" and s: "values_small s"
  from e obtain vch1 vch2 st v1 v2 v where st: "ev_stack s = vch2 # vch1 # st" "CastToBigNum bn vch1 = Some v1"
    "CastToBigNum bn vch2 = Some v2" "binary_numeric bn opcode v1 v2 = Some v"
    "s' = s\<lparr>ev_stack := if opcode = OP_NUMEQUALVERIFY then st else getvch bn v # st\<rparr>" by (rule eval_binary_elim)
  have "length (getvch bn v) \<le> MAX_SCRIPT_ELEMENT_SIZE"
    by (rule getvch_small [OF assms binary_bound [OF assms CastToBigNum_bound [OF assms st(2)]
          CastToBigNum_bound [OF assms st(3)] st(4)]])
  with st(1,5) s show "values_small s'" by (simp add: values_small_def)
qed

lemma push_small:
  assumes "bn_documented bn" and "\<bar>v\<bar> \<le> 1000000"
  shows "cont s (getvch bn v # ev_stack s) = (Continue, s') \<Longrightarrow> values_small s \<Longrightarrow> values_small s'"
proof -
  have "\<bar>v\<bar> < 256 ^ 300" using assms(2) by (intro below_bound) simp
  from getvch_small [OF assms(1) this]
  show "cont s (getvch bn v # ev_stack s) = (Continue, s') \<Longrightarrow> values_small s \<Longrightarrow> values_small s'"
    by (auto simp: cont_def values_small_def)
qed

lemma size_small:
  assumes "bn_documented bn"
  shows "eval_size bn s = (Continue, s') \<Longrightarrow> values_small s \<Longrightarrow> values_small s'"
proof (cases "ev_stack s")
  case (Cons vch st)
  assume e: "eval_size bn s = (Continue, s')" and s: "values_small s"
  have "length vch \<le> 520" using s Cons by (simp add: values_small_def MAX_SCRIPT_ELEMENT_SIZE_def)
  then have "\<bar>int (length vch)\<bar> \<le> 1000000" by simp
  from push_small [OF assms this _ s] show ?thesis using e Cons by (simp add: eval_size_def)
qed (simp add: eval_size_def refuse_def)


lemma if_eq_elim:
  "(if b then x else y) = z \<Longrightarrow> (b \<Longrightarrow> x = z \<Longrightarrow> P) \<Longrightarrow> (\<not> b \<Longrightarrow> y = z \<Longrightarrow> P) \<Longrightarrow> P"
  by (cases b) simp_all

lemma base_small:
  assumes "bn_documented bn" and "crypto_sized cr"
    and "base_eval bn cr opcode s = (Continue, s')" and "within_limits s"
  shows "values_small s'"
proof -
  have s: "values_small s" and depth: "\<bar>int (length (ev_stack s))\<bar> \<le> 1000000"
    using assms(4) by (simp_all add: within_limits_def)
  have op: "\<bar>uint opcode - (uint OP_1 - 1)\<bar> \<le> 1000000"
  proof -
    have "0 \<le> uint opcode" "uint opcode < 256" using uint_lt2p [of opcode] by simp_all
    moreover have "uint OP_1 = 81" by simp
    ultimately show ?thesis by linarith
  qed
  note ops = small_ops [OF _ s] numeric_small [OF assms(1) _ s] size_small [OF assms(1) _ s]
    push_small [OF assms(1) op _ s] push_small [OF assms(1) depth _ s] crypto_small [OF _ assms(2) s]
  show ?thesis
    by (insert assms(3), unfold base_eval_def, (erule if_eq_elim, erule ops)+, erule ops)
qed

named_theorems accepts_nothing \<open>operations never end the script with true\<close>

lemma accepts_nothing_basic [accepts_nothing]:
  "fst (cont s st) \<noteq> Stop True" "fst (refuse s) \<noteq> Stop True" "fst (Continue, s) \<noteq> Stop True"
  by (simp_all add: cont_def refuse_def)

lemma accepts_nothing_control [accepts_nothing]:
  "fst (eval_if opcode s) \<noteq> Stop True" "fst (eval_else s) \<noteq> Stop True" "fst (eval_endif s) \<noteq> Stop True"
  "fst (eval_verify s) \<noteq> Stop True" "fst (eval_toalt s) \<noteq> Stop True" "fst (eval_fromalt s) \<noteq> Stop True"
  by (simp_all add: cont_def refuse_def eval_if_def eval_else_def eval_endif_def eval_verify_def eval_toalt_def
      eval_fromalt_def Let_def split: list.split)

lemma accepts_nothing_stack [accepts_nothing]:
  "fst (case move opcode (ev_stack s) of None \<Rightarrow> refuse s | Some st \<Rightarrow> cont s st) \<noteq> Stop True"
  "fst (eval_pick bn opcode s) \<noteq> Stop True" "fst (eval_size bn s) \<noteq> Stop True"
  "fst (eval_equal opcode s) \<noteq> Stop True" "fst (eval_crypto cr opcode s) \<noteq> Stop True"
  by (simp_all add: cont_def refuse_def eval_pick_def eval_size_def eval_equal_def eval_crypto_def Let_def
      split: list.split option.split)

lemma accepts_nothing_splice [accepts_nothing]:
  "fst (eval_cat s) \<noteq> Stop True" "fst (eval_substr bn s) \<noteq> Stop True"
  "fst (eval_left_right bn opcode s) \<noteq> Stop True" "fst (eval_invert s) \<noteq> Stop True"
  "fst (eval_bitwise opcode s) \<noteq> Stop True"
  by (simp_all add: cont_def refuse_def eval_cat_def eval_substr_def eval_left_right_def eval_invert_def
      eval_bitwise_def Let_def split: list.split option.split prod.split)

lemma accepts_nothing_numeric [accepts_nothing]:
  "fst (eval_unary bn opcode s) \<noteq> Stop True" "fst (eval_binary bn opcode s) \<noteq> Stop True"
  "fst (eval_within bn s) \<noteq> Stop True"
  by (simp_all add: cont_def refuse_def eval_unary_def eval_binary_def eval_within_def Let_def
      split: list.split option.split)

lemma base_no_accept: "fst (base_eval bn cr opcode s) \<noteq> Stop True"
  unfolding base_eval_def by (simp only: accepts_nothing simp_thms split: if_split)

lemma base_bounded: "bn_documented bn \<Longrightarrow> crypto_sized cr \<Longrightarrow> bounded_eval (base_eval bn cr)"
  by unfold_locales (rule base_small, assumption+, rule base_no_accept)

text \<open>Digests that compute, for the witnesses.\<close>

definition ref_crypto :: crypto where
  "ref_crypto =
     \<lparr>sha256 = (\<lambda>bs. take 32 (bs @ replicate 32 0)), ripemd160 = (\<lambda>bs. take 20 (rev bs @ replicate 20 0)),
      sha1 = (\<lambda>bs. take 20 (bs @ replicate 20 0))\<rparr>"

lemma ref_crypto_sized: "crypto_sized ref_crypto"
  by (simp add: crypto_sized_def ref_crypto_def min_def)

interpretation base: bounded_eval "base_eval ref_bn ref_crypto"
  by (rule base_bounded [OF ref_bn_documented ref_crypto_sized])

text \<open>C25: Whatever a script does, when \<open>operator()\<close> accepts it the stacks that are left hold at most a thousand
  values of at most 520 bytes each, every conditional is closed, and the script has at most 10,000 bytes; the
  arithmetic (numbers of at most four bytes, shifts of at most 2,048 bits) cannot break this.\<close>

theorem accepted_within_limits:
  assumes "bn_documented bn" and "crypto_sized cr"
    and "evaluate (base_eval bn cr) script s = (Verdict True, s')" and "within_limits s"
  shows "within_limits s' \<and> exec_stack s' = [] \<and> length script \<le> 10000"
  by (rule bounded_eval.evaluate_limits [OF base_bounded [OF assms(1,2)] assms(3,4)])


text \<open>Doubling 1 in a conditional, and leaving 2.\<close>

definition sample_script :: script where
  "sample_script = [0x51, 0x76, 0x63, 0x76, 0x93, 0x68]"

lemma verdict_of_sample: "fst (evaluate (base_eval ref_bn ref_crypto) sample_script new_evaluator) = Verdict True"
  by code_simp

lemma sample_script_accepted:
  "evaluate (base_eval ref_bn ref_crypto) sample_script new_evaluator =
     (Verdict True, snd (evaluate (base_eval ref_bn ref_crypto) sample_script new_evaluator))"
  by (rule prod_eqI) (simp_all add: verdict_of_sample)

lemma new_evaluator_limits: "within_limits new_evaluator"
  by (simp add: within_limits_def values_small_def new_evaluator_def)

theorem accepted_within_limits_witness:
  "within_limits (snd (evaluate (base_eval ref_bn ref_crypto) sample_script new_evaluator))"
  using accepted_within_limits [OF ref_bn_documented ref_crypto_sized sample_script_accepted new_evaluator_limits]
  by simp

section \<open>What an accepted script is\<close>

lemma run_end: "run eval pre (length pre) st = end_of_script st"
  by (simp add: run.simps)

lemma run_unreadable:
  "getOp s 0 = None \<Longrightarrow> s \<noteq> [] \<Longrightarrow>
     run eval (pre @ s) (length pre) st = (Verdict False, st\<lparr>ev_exec := False \<notin> set (exec_stack st)\<rparr>)"
  by (simp add: run.simps getOp_at_None)

lemma run_instruction:
  assumes "getOp s 0 = Some (opcode, data, k)" and "k \<le> length s" and "0 < k"
  shows "run eval (pre @ s) (length pre) st =
    (case step eval opcode data (st\<lparr>ev_exec := False \<notin> set (exec_stack st), ev_current := length pre + k\<rparr>) of
       (Continue, st') \<Rightarrow> run eval ((pre @ take k s) @ drop k s) (length (pre @ take k s)) st'
     | (Stop b, st') \<Rightarrow> (Verdict b, st') | (Raise, st') \<Rightarrow> (Verdict False, st')
     | (Undefined, st') \<Rightarrow> (Undefined_behaviour, st'))"
proof -
  have "\<not> length (pre @ s) \<le> length pre" using assms(2,3) by auto
  moreover have l: "length (pre @ take k s) = length pre + k" and e: "(pre @ take k s) @ drop k s = pre @ s"
    using assms(2) by simp_all
  ultimately show ?thesis
    unfolding l e run.simps [of eval "pre @ s" "length pre"] by (simp add: getOp_at [OF assms(1)])
qed

text \<open>What every \<open>eval\<close> keeps besides: the count of operations never falls.\<close>

locale counted_eval = bounded_eval +
  assumes count: "eval opcode s = (Continue, s') \<Longrightarrow> op_count s \<le> op_count s'"
begin

lemma step_count:
  assumes "step eval opcode data s = (Continue, s')"
  shows "length data \<le> MAX_SCRIPT_ELEMENT_SIZE" and "\<not> disabled_op opcode"
    and "op_count s + of_bool (opcode > OP_16) \<le> op_count s'"
    and "opcode > OP_16 \<Longrightarrow> op_count s < 201"
proof -
  define s1 where "s1 = (if opcode > OP_16 then s\<lparr>op_count := op_count s + 1\<rparr> else s)"
  define r where "r = (if ev_exec s1 \<and> opcode \<le> OP_PUSHDATA4 then (Continue, s1\<lparr>ev_stack := data # ev_stack s1\<rparr>)
     else if ev_exec s1 \<or> (OP_IF \<le> opcode \<and> opcode \<le> OP_ENDIF) then eval opcode s1 else (Continue, s1))"
  have g: "length data \<le> MAX_SCRIPT_ELEMENT_SIZE" "\<not> (opcode > OP_16 \<and> op_count s1 > 201)" "\<not> disabled_op opcode"
    and res: "(case r of (Continue, s) \<Rightarrow>
        if length (ev_stack s) + length (alt_stack s) > 1000 then (Stop False, s) else (Continue, s) | r \<Rightarrow> r) = (Continue, s')"
    using assms unfolding step_def Let_def s1_def [symmetric] r_def [symmetric] by (auto split: if_splits)
  from res have r: "r = (Continue, s')" by (auto split: prod.splits outcome.splits if_splits)
  have "op_count s1 \<le> op_count s'"
    using r count unfolding r_def by (cases "ev_exec s1 \<and> opcode \<le> OP_PUSHDATA4") (auto split: if_splits)
  then show "op_count s + of_bool (opcode > OP_16) \<le> op_count s'" by (auto simp: s1_def split: if_splits)
  show "opcode > OP_16 \<Longrightarrow> op_count s < 201" using g(2) by (simp add: s1_def)
qed (use assms in \<open>auto simp: step_def Let_def split: if_splits\<close>)

lemma run_wellformed:
  assumes "run eval (pre @ script) (length pre) s = (Verdict True, s')"
  shows "unparsed script = [] \<and>
    (\<forall>(opcode, data)\<in>set (instructions script). length data \<le> MAX_SCRIPT_ELEMENT_SIZE \<and> \<not> disabled_op opcode) \<and>
    op_count s + int (length (filter (\<lambda>(opcode, _). opcode > OP_16) (instructions script))) \<le> max 201 (op_count s)"
  using assms
proof (induction script arbitrary: pre s rule: script_induct)
  case (stop script)
  then show ?case by (cases "script = []") (simp_all add: run_unreadable)
next
  case (step script opcode data k)
  let ?s = "s\<lparr>ev_exec := False \<notin> set (exec_stack s), ev_current := length pre + k\<rparr>"
  obtain r s1 where st: "step eval opcode data ?s = (r, s1)" by (cases "step eval opcode data ?s")
  have "r \<noteq> Stop True" using step_no_accept [of opcode data ?s] st by simp
  then have r: "r = Continue"
    and rn: "run eval ((pre @ take k script) @ drop k script) (length (pre @ take k script)) s1 = (Verdict True, s')"
    using step.prems st unfolding run_instruction [OF step.hyps] by (auto split: outcome.splits)
  note count = step_count [OF st [unfolded r]]
  show ?case
    using step.IH [OF rn] count by (auto simp: instructions_Some [OF step.hyps(1)])
qed

lemma evaluate_wellformed:
  assumes "evaluate eval script s = (Verdict True, s')"
  shows "length script \<le> 10000 \<and> unparsed script = [] \<and>
    (\<forall>(opcode, data)\<in>set (instructions script). length data \<le> MAX_SCRIPT_ELEMENT_SIZE \<and> \<not> disabled_op opcode) \<and>
    length (filter (\<lambda>(opcode, _). opcode > OP_16) (instructions script)) \<le> 201"
proof -
  have len: "length script \<le> 10000" using assms by (auto simp: evaluate_def Let_def split: if_splits)
  with assms have "run eval ([] @ script) (length []) (s\<lparr>ev_script := script, ev_current := 0, op_count := 0\<rparr>) = (Verdict True, s')"
    by (simp add: evaluate_def)
  from run_wellformed [OF this] len show ?thesis by simp
qed

end

named_theorems same_count \<open>operations that leave the count alone\<close>

lemma same_count_basic [same_count]:
  "(Continue, s) = (Continue, s') \<Longrightarrow> op_count s \<le> op_count s'"
  "cont s st = (Continue, s') \<Longrightarrow> op_count s \<le> op_count s'"
  "refuse s = (Continue, s') \<Longrightarrow> op_count s \<le> op_count s'"
  by (auto simp: cont_def refuse_def)

lemma same_count_control [same_count]:
  "eval_if opcode s = (Continue, s') \<Longrightarrow> op_count s \<le> op_count s'"
  "eval_else s = (Continue, s') \<Longrightarrow> op_count s \<le> op_count s'"
  "eval_endif s = (Continue, s') \<Longrightarrow> op_count s \<le> op_count s'"
  "eval_verify s = (Continue, s') \<Longrightarrow> op_count s \<le> op_count s'"
  "eval_toalt s = (Continue, s') \<Longrightarrow> op_count s \<le> op_count s'"
  "eval_fromalt s = (Continue, s') \<Longrightarrow> op_count s \<le> op_count s'"
  by (auto simp: eval_if_def eval_else_def eval_endif_def eval_verify_def eval_toalt_def eval_fromalt_def
      refuse_def cont_def Let_def split: if_splits list.splits)

lemma same_count_stack [same_count]:
  "(case move opcode (ev_stack s) of None \<Rightarrow> refuse s | Some st \<Rightarrow> cont s st) = (Continue, s') \<Longrightarrow> op_count s \<le> op_count s'"
  "eval_pick bn opcode s = (Continue, s') \<Longrightarrow> op_count s \<le> op_count s'"
  "eval_size bn s = (Continue, s') \<Longrightarrow> op_count s \<le> op_count s'"
  "eval_equal opcode s = (Continue, s') \<Longrightarrow> op_count s \<le> op_count s'"
  "eval_crypto cr opcode s = (Continue, s') \<Longrightarrow> op_count s \<le> op_count s'"
  by (auto simp: eval_pick_def eval_size_def eval_equal_def eval_crypto_def refuse_def cont_def Let_def
      split: if_splits list.splits option.splits)

lemma same_count_splice [same_count]:
  "eval_cat s = (Continue, s') \<Longrightarrow> op_count s \<le> op_count s'"
  "eval_substr bn s = (Continue, s') \<Longrightarrow> op_count s \<le> op_count s'"
  "eval_left_right bn opcode s = (Continue, s') \<Longrightarrow> op_count s \<le> op_count s'"
  "eval_invert s = (Continue, s') \<Longrightarrow> op_count s \<le> op_count s'"
  "eval_bitwise opcode s = (Continue, s') \<Longrightarrow> op_count s \<le> op_count s'"
  by (auto simp: eval_cat_def eval_substr_def eval_left_right_def eval_invert_def eval_bitwise_def
      refuse_def cont_def Let_def split: if_splits list.splits option.splits prod.splits)

lemma same_count_numeric [same_count]:
  "eval_unary bn opcode s = (Continue, s') \<Longrightarrow> op_count s \<le> op_count s'"
  "eval_binary bn opcode s = (Continue, s') \<Longrightarrow> op_count s \<le> op_count s'"
  "eval_within bn s = (Continue, s') \<Longrightarrow> op_count s \<le> op_count s'"
  by (erule eval_unary_elim eval_binary_elim, simp)+
    (auto simp: eval_within_def refuse_def cont_def split: list.splits option.splits)

lemma base_count: "base_eval bn cr opcode s = (Continue, s') \<Longrightarrow> op_count s \<le> op_count s'"
  by (unfold base_eval_def, (erule if_eq_elim, erule same_count)+, erule same_count)

lemma base_counted: "bn_documented bn \<Longrightarrow> crypto_sized cr \<Longrightarrow> counted_eval (base_eval bn cr)"
  by (intro counted_eval.intro base_bounded counted_eval_axioms.intro base_count)

interpretation base: counted_eval "base_eval ref_bn ref_crypto"
  by (rule base_counted [OF ref_bn_documented ref_crypto_sized])

text \<open>C26: An accepted script parses to its last byte, pushes no element above 520 bytes, contains none of the
  disabled operations, not even in a branch that is not taken, and at most 201 operations above \<open>OP_16\<close>.\<close>

theorem accepted_script_wellformed:
  assumes "bn_documented bn" and "crypto_sized cr" and "evaluate (base_eval bn cr) script s = (Verdict True, s')"
  shows "length script \<le> 10000 \<and> unparsed script = [] \<and>
    (\<forall>(opcode, data)\<in>set (instructions script). length data \<le> MAX_SCRIPT_ELEMENT_SIZE \<and> \<not> disabled_op opcode) \<and>
    length (filter (\<lambda>(opcode, _). opcode > OP_16) (instructions script)) \<le> 201"
  by (rule counted_eval.evaluate_wellformed [OF base_counted [OF assms(1,2)] assms(3)])

theorem accepted_script_wellformed_witness:
  "unparsed sample_script = [] \<and> length (filter (\<lambda>(opcode, _). opcode > OP_16) (instructions sample_script)) \<le> 201"
  using accepted_script_wellformed [OF ref_bn_documented ref_crypto_sized sample_script_accepted] by simp

text \<open>An operation that \<open>eval\<close> has no case for is skipped: the six words reserved in the opcode table and
  every byte above \<open>OP_NOP10\<close> leave the state as it is, the branch \<^verbatim>\<open>default: break\<close> of the switch.\<close>

theorem reserved_ignored:
  assumes "opcode \<in> {OP_RESERVED, OP_VER, OP_VERIF, OP_VERNOTIF, OP_RESERVED1, OP_RESERVED2} \<or> OP_NOP10 < opcode"
  shows "base_eval bn cr opcode s = (Continue, s)"
  using assms
proof
  assume "opcode \<in> {OP_RESERVED, OP_VER, OP_VERIF, OP_VERNOTIF, OP_RESERVED1, OP_RESERVED2}"
  then show ?thesis by (elim insertE emptyE) (simp_all add: base_eval_def is_move_def)
next
  assume g: "OP_NOP10 < opcode"
  have le: "\<not> opcode \<le> c" if "c \<le> OP_NOP10" for c using order_le_less_trans [OF that g] by simp
  have eq: "opcode \<noteq> c" if "c \<le> OP_NOP10" for c using order_le_less_trans [OF that g] by auto
  show ?thesis unfolding base_eval_def is_move_def by (simp add: le eq)
qed

theorem reserved_ignored_witness:
  "base_eval ref_bn ref_crypto OP_VERIF new_evaluator = (Continue, new_evaluator)"
  by (rule reserved_ignored) simp

section \<open>Data pushed by a script\<close>

lemma step_push:
  assumes "opcode \<le> OP_PUSHDATA4" and "length data \<le> MAX_SCRIPT_ELEMENT_SIZE" and "ev_exec s"
    and "length (ev_stack s) + length (alt_stack s) < 1000"
  shows "step eval opcode data s = (Continue, s\<lparr>ev_stack := data # ev_stack s\<rparr>)"
proof -
  have small: "\<not> opcode > c" if "c \<ge> OP_PUSHDATA4" for c using assms(1) that by fastforce
  then have "opcode \<noteq> c" if "c > OP_PUSHDATA4" for c using that assms(1) by fastforce
  then have "\<not> disabled_op opcode" by (simp add: disabled_op_def)
  with small show ?thesis using assms by (simp add: step_def)
qed

lemma run_pushes:
  assumes "exec_stack s = []" and "\<forall>v\<in>set vs. length v \<le> MAX_SCRIPT_ELEMENT_SIZE"
    and "length vs + length (ev_stack s) + length (alt_stack s) \<le> 1000"
  shows "\<exists>x c. run eval (pre @ concat (map push_data vs)) (length pre) s =
    (Verdict True, s\<lparr>ev_exec := x, ev_current := c, ev_stack := rev vs @ ev_stack s\<rparr>)"
  using assms
proof (induction vs arbitrary: pre s)
  case Nil
  have "run eval (pre @ concat (map push_data [])) (length pre) s =
    (Verdict True, s\<lparr>ev_exec := ev_exec s, ev_current := ev_current s, ev_stack := rev [] @ ev_stack s\<rparr>)"
    using Nil by (simp add: run_end end_of_script_def)
  then show ?case by blast
next
  case (Cons v vs)
  let ?p = "push_data v" and ?r = "concat (map push_data vs)"
  let ?s = "s\<lparr>ev_exec := True, ev_current := length pre + length ?p\<rparr>"
  have v: "length v \<le> MAX_SCRIPT_ELEMENT_SIZE" "length v < 2 ^ 32"
    using Cons.prems(2) by (auto simp: MAX_SCRIPT_ELEMENT_SIZE_def)
  note g = getOp_push_data(1) [OF v(2), of ?r] getOp_push_data(2) [OF v(2)]
  have k: "length ?p \<le> length (?p @ ?r)" "0 < length ?p" by (simp_all add: push_data_def)
  have st: "step eval (hd ?p) v ?s = (Continue, ?s\<lparr>ev_stack := v # ev_stack s\<rparr>)"
    using step_push [OF g(2) v(1), of ?s] Cons.prems(3) by simp
  have "run eval (pre @ ?p @ ?r) (length pre) s =
      run eval ((pre @ ?p) @ ?r) (length (pre @ ?p)) (?s\<lparr>ev_stack := v # ev_stack s\<rparr>)"
    using run_instruction [OF g(1) k, of eval pre s] Cons.prems(1) st by simp
  moreover have "\<exists>x c. run eval ((pre @ ?p) @ ?r) (length (pre @ ?p)) (?s\<lparr>ev_stack := v # ev_stack s\<rparr>) =
    (Verdict True, ?s\<lparr>ev_stack := v # ev_stack s, ev_exec := x, ev_current := c, ev_stack := rev vs @ v # ev_stack s\<rparr>)"
    using Cons.IH [of "?s\<lparr>ev_stack := v # ev_stack s\<rparr>" "pre @ ?p"] Cons.prems by simp
  ultimately show ?case by simp
qed

text \<open>\<open>operator Script()\<close> writes a stack as a script that rebuilds it: whatever \<open>eval\<close> is, evaluating that
  script from an empty stack succeeds and leaves the same values in the same order.\<close>

theorem stack_as_script_rebuilds:
  assumes "within_limits s" and "length (stack_as_script s) \<le> 10000" and "ev_stack s0 = []" and "alt_stack s0 = []"
    and "exec_stack s0 = []"
  shows "fst (evaluate eval (stack_as_script s) s0) = Verdict True \<and>
    ev_stack (snd (evaluate eval (stack_as_script s) s0)) = ev_stack s"
proof -
  let ?s0 = "s0\<lparr>ev_script := stack_as_script s, ev_current := 0, op_count := 0\<rparr>"
  have "\<forall>v\<in>set (rev (ev_stack s)). length v \<le> MAX_SCRIPT_ELEMENT_SIZE"
    and "length (rev (ev_stack s)) + length (ev_stack ?s0) + length (alt_stack ?s0) \<le> 1000" and "exec_stack ?s0 = []"
    using assms by (auto simp: within_limits_def values_small_def)
  from run_pushes [OF this(3,1,2), of eval "[]"] assms(2,3) show ?thesis
    by (auto simp: evaluate_def Let_def stack_as_script_def)
qed

definition sample_stack :: evaluator where
  "sample_stack = new_evaluator\<lparr>ev_stack := [[7, 8, 9], [], replicate 80 1]\<rparr>"

theorem stack_as_script_rebuilds_witness:
  "ev_stack (snd (evaluate (base_eval ref_bn ref_crypto) (stack_as_script sample_stack) new_evaluator)) =
     [[7, 8, 9], [], replicate 80 1]"
proof -
  have "within_limits sample_stack" "length (stack_as_script sample_stack) \<le> 10000"
    by (simp_all add: sample_stack_def within_limits_def values_small_def new_evaluator_def stack_as_script_def
        push_data_def MAX_SCRIPT_ELEMENT_SIZE_def)
  from stack_as_script_rebuilds [OF this, of new_evaluator "base_eval ref_bn ref_crypto"] show ?thesis
    by (simp add: new_evaluator_def sample_stack_def)
qed

end
