(* ===== verification/TxVerify.thy ===== *)
theory TxVerify
  imports Evaluator "HOL-Library.Sublist"
begin

text \<open>
  Signatures and the verification of a transaction's inputs: \<open>TransactionEvaluator\<close>,
  \<open>getSignatureHash\<close> and \<open>verify\<close> of \<^verbatim>\<open>src/coin/Transaction.cpp\<close>. Checking one elliptic-curve
  signature is OpenSSL's: it is the parameter \<open>key_verify\<close>, false also where \<^verbatim>\<open>Key\<close> throws.
\<close>

unbundle bit_operations_syntax

section \<open>The hash that is signed\<close>

text \<open>The copy of the transaction that is serialised, before the hash type is appended.\<close>

definition blank_signatures :: "tx_in list \<Rightarrow> nat \<Rightarrow> script \<Rightarrow> tx_in list" where
  "blank_signatures ins n scriptCode = (map (\<lambda>i. i\<lparr>signature := []\<rparr>) ins)[n := (ins ! n)\<lparr>signature := scriptCode\<rparr>]"

definition zero_other_sequences :: "nat \<Rightarrow> tx_in list \<Rightarrow> tx_in list" where
  "zero_other_sequences n ins = map (\<lambda>(i, x). if i \<noteq> n then x\<lparr>input_sequence := 0\<rparr> else x) (enumerate 0 ins)"

text \<open>\<open>None\<close>: the early return for an output index that is out of range.\<close>

definition sighash_copy :: "transaction \<Rightarrow> script \<Rightarrow> nat \<Rightarrow> u32 \<Rightarrow> transaction option" where
  "sighash_copy txn scriptCode n type =
     (let ins = blank_signatures (tx_inputs txn) n scriptCode; outs = tx_outputs txn in
      case (if type AND 0x1f = SIGHASH_NONE then Some (zero_other_sequences n ins, [])
            else if type AND 0x1f = SIGHASH_SINGLE then
              (if n \<ge> length outs then None
               else Some (zero_other_sequences n ins, replicate n null_output @ [outs ! n]))
            else Some (ins, outs)) of
        None \<Rightarrow> None
      | Some (ins, outs) \<Rightarrow>
          let ins = (if type AND SIGHASH_ANYONECANPAY \<noteq> 0 then [ins ! n] else ins)
          in Some (txn\<lparr>tx_inputs := ins, tx_outputs := outs\<rparr>))"

definition getSignatureHash :: "digest_fn \<Rightarrow> transaction \<Rightarrow> script \<Rightarrow> nat \<Rightarrow> u32 \<Rightarrow> uint256" where
  "getSignatureHash sha txn scriptCode n type =
     (if n \<ge> length (tx_inputs txn) then 1
      else
        let scriptCode = findAndDelete scriptCode [OP_CODESEPARATOR]
        in case sighash_copy txn scriptCode n type of None \<Rightarrow> 1
           | Some copy \<Rightarrow> Hash sha (put_transaction copy @ put_word type))"

section \<open>The evaluator\<close>

text \<open>
  \<open>te_codehash\<close> is the iterator \<^verbatim>\<open>_codehash\<close> as a position in the script under evaluation;
  \<open>None\<close> when it was never set or points into a script evaluated before.
\<close>

record tx_evaluator = evaluator +
  te_txn :: transaction
  te_in :: nat
  te_hash_type :: u32
  te_code_separator :: bool
  te_codehash :: "nat option"

type_synonym key_fn = "byte list \<Rightarrow> uint256 \<Rightarrow> byte list \<Rightarrow> bool"

definition checkSig :: "digest_fn \<Rightarrow> key_fn \<Rightarrow> transaction \<Rightarrow> nat \<Rightarrow> u32 \<Rightarrow> stack_value \<Rightarrow> stack_value \<Rightarrow> script \<Rightarrow> bool" where
  "checkSig sha key_verify txn n hash_type vchSig vchPubKey scriptCode =
     (if vchSig = [] then False
      else
        let hashtype = (if hash_type = 0 then ucast (last vchSig) else hash_type)
        in if hash_type \<noteq> 0 \<and> hashtype \<noteq> ucast (last vchSig) then False
           else key_verify vchPubKey (getSignatureHash sha txn scriptCode n hashtype) (butlast vchSig))"

definition te_check :: "digest_fn \<Rightarrow> key_fn \<Rightarrow> 'a tx_evaluator_scheme \<Rightarrow> script \<Rightarrow> stack_value \<Rightarrow> stack_value \<Rightarrow> bool" where
  "te_check sha key_verify s scriptCode vchSig vchPubKey =
     checkSig sha key_verify (te_txn s) (te_in s) (te_hash_type s) vchSig vchPubKey scriptCode"

text \<open>The script from the most recent code separator, and the state that remembers where it begins.\<close>

definition script_code :: "'a tx_evaluator_scheme \<Rightarrow> (script \<times> 'a tx_evaluator_scheme) option" where
  "script_code s =
     (let s = (if \<not> te_code_separator s then s\<lparr>te_codehash := Some 0\<rparr> else s)
      in map_option (\<lambda>pos. (drop pos (ev_script s), s)) (te_codehash s))"

definition push_result :: "bool \<Rightarrow> bool \<Rightarrow> stack_value list \<Rightarrow> 'a tx_evaluator_scheme \<Rightarrow> outcome \<times> 'a tx_evaluator_scheme" where
  "push_result verify fSuccess st s =
     (let s' = s\<lparr>ev_stack := of_bool_value fSuccess # st\<rparr>
      in if verify then (if fSuccess then cont s st else refuse s') else (Continue, s'))"

definition eval_checksig :: "digest_fn \<Rightarrow> key_fn \<Rightarrow> opcodetype \<Rightarrow> 'a tx_evaluator_scheme \<Rightarrow> outcome \<times> 'a tx_evaluator_scheme" where
  "eval_checksig sha key_verify opcode s =
     (case ev_stack s of
        vchPubKey # vchSig # st \<Rightarrow>
          (case script_code s of None \<Rightarrow> (Undefined, s)
           | Some (scriptCode, s) \<Rightarrow>
               let scriptCode = findAndDelete scriptCode (push_data vchSig);
                   fSuccess = te_check sha key_verify s scriptCode vchSig vchPubKey
               in push_result (opcode = OP_CHECKSIGVERIFY) fSuccess st s)
      | _ \<Rightarrow> refuse s)"

text \<open>The loop over signatures and keys; it is entered with no more signatures than keys.\<close>

fun multisig_loop :: "(stack_value \<Rightarrow> stack_value \<Rightarrow> bool) \<Rightarrow> stack_value list \<Rightarrow> stack_value list \<Rightarrow> bool" where
  "multisig_loop check [] keys = True"
| "multisig_loop check (sig # sigs) [] = False"
| "multisig_loop check (sig # sigs) (key # keys) =
     (let sigs' = (if check sig key then sigs else sig # sigs)
      in if length sigs' > length keys then False else multisig_loop check sigs' keys)"

definition eval_checkmultisig :: "digest_fn \<Rightarrow> key_fn \<Rightarrow> bn_lib \<Rightarrow> opcodetype \<Rightarrow> 'a tx_evaluator_scheme \<Rightarrow>
    outcome \<times> 'a tx_evaluator_scheme" where
  "eval_checkmultisig sha key_verify bn opcode s =
     (let st = ev_stack s in
      if length st < 1 then refuse s
      else
        case CastToBigNum bn (st ! 0) of None \<Rightarrow> (Raise, s)
        | Some v \<Rightarrow>
        let nKeysCount = getint bn v in
        if nKeysCount < 0 \<or> nKeysCount > 20 then refuse s
        else
          let s = s\<lparr>op_count := op_count s + nKeysCount\<rparr>; nkeys = nat nKeysCount in
          if op_count s > 201 then refuse s
          else if length st < 2 + nkeys then refuse s
          else
            case CastToBigNum bn (st ! (1 + nkeys)) of None \<Rightarrow> (Raise, s)
            | Some v \<Rightarrow>
            let nSigsCount = getint bn v in
            if nSigsCount < 0 \<or> nSigsCount > nKeysCount then refuse s
            else
              let nsigs = nat nSigsCount; i = 3 + nkeys + nsigs in
              if length st < i then refuse s
              else
                case script_code s of None \<Rightarrow> (Undefined, s)
                | Some (scriptCode, s) \<Rightarrow>
                    let keys = take nkeys (drop 1 st);
                        sigs = take nsigs (drop (2 + nkeys) st);
                        scriptCode = foldl (\<lambda>code sig. findAndDelete code (push_data sig)) scriptCode sigs;
                        fSuccess = multisig_loop (te_check sha key_verify s scriptCode) sigs keys
                    in push_result (opcode = OP_CHECKMULTISIGVERIFY) fSuccess (drop i st) s)"

definition tx_eval :: "bn_lib \<Rightarrow> crypto \<Rightarrow> key_fn \<Rightarrow> ('a tx_evaluator_scheme) eval_fn" where
  "tx_eval bn cr key_verify opcode s =
     (case base_eval bn cr opcode s of
        (Continue, s) \<Rightarrow>
          if opcode = OP_CODESEPARATOR then (Continue, s\<lparr>te_codehash := Some (ev_current s), te_code_separator := True\<rparr>)
          else if opcode = OP_CHECKSIG \<or> opcode = OP_CHECKSIGVERIFY then
            eval_checksig (sha256 cr) key_verify opcode s
          else if opcode = OP_CHECKMULTISIG \<or> opcode = OP_CHECKMULTISIGVERIFY then
            eval_checkmultisig (sha256 cr) key_verify bn opcode s
          else (Continue, s)
      | r \<Rightarrow> r)"

text \<open>Each script is an object of its own: an iterator saved in one does not point into the next.\<close>

definition tx_evaluate :: "bn_lib \<Rightarrow> crypto \<Rightarrow> key_fn \<Rightarrow> script \<Rightarrow> tx_evaluator \<Rightarrow> verdict \<times> tx_evaluator" where
  "tx_evaluate bn cr key_verify script s = evaluate (tx_eval bn cr key_verify) script (s\<lparr>te_codehash := None\<rparr>)"

definition new_tx_evaluator :: "transaction \<Rightarrow> u32 \<Rightarrow> nat \<Rightarrow> tx_evaluator" where
  "new_tx_evaluator txn type n =
     evaluator.extend new_evaluator
       (tx_evaluator.fields txn n type False None)"

section \<open>Verification of one input\<close>

text \<open>A call of the evaluator that must succeed and leave a value, then the rest.\<close>

definition then_nonempty :: "verdict \<times> tx_evaluator \<Rightarrow> (tx_evaluator \<Rightarrow> verdict) \<Rightarrow> verdict" where
  "then_nonempty r k =
     (case r of (Undefined_behaviour, s) \<Rightarrow> Undefined_behaviour
      | (Verdict b, s) \<Rightarrow> if \<not> b \<or> ev_stack s = [] then Verdict False else k s)"

definition verify :: "bn_lib \<Rightarrow> crypto \<Rightarrow> key_fn \<Rightarrow> transaction \<Rightarrow> nat \<Rightarrow> script \<Rightarrow> u32 \<Rightarrow> bool \<Rightarrow> verdict" where
  "verify bn cr key_verify txn n script type strictPayToScriptHash =
     (if n \<ge> length (tx_inputs txn) then Undefined_behaviour
      else
        let scriptSig = signature (tx_inputs txn ! n) in
        then_nonempty (tx_evaluate bn cr key_verify scriptSig (new_tx_evaluator txn type n)) (\<lambda>s.
          let stackCopy = ev_stack s in
          then_nonempty (tx_evaluate bn cr key_verify script s) (\<lambda>s.
            if CastToBool (hd (ev_stack s)) = False then Verdict False
            else if strictPayToScriptHash \<and> isPayToScriptHash script then
              (if \<not> isPushOnly scriptSig then Verdict False
               else
                 let pubKey2 = hd stackCopy; s = s\<lparr>ev_stack := tl stackCopy\<rparr>
                 in then_nonempty (tx_evaluate bn cr key_verify pubKey2 s)
                      (\<lambda>s. Verdict (CastToBool (hd (ev_stack s)))))
            else Verdict True)))"

fun verify_loop :: "bn_lib \<Rightarrow> crypto \<Rightarrow> key_fn \<Rightarrow> transaction \<Rightarrow> bool \<Rightarrow> (nat \<times> script) list \<Rightarrow> verdict" where
  "verify_loop bn cr key_verify txn strict [] = Verdict True"
| "verify_loop bn cr key_verify txn strict ((i, script) # rest) =
     (case verify bn cr key_verify txn i script 0 strict of
        Undefined_behaviour \<Rightarrow> Undefined_behaviour
      | Verdict b \<Rightarrow> if \<not> b then Verdict False else verify_loop bn cr key_verify txn strict rest)"

definition verify_all :: "bn_lib \<Rightarrow> crypto \<Rightarrow> key_fn \<Rightarrow> transaction \<Rightarrow> script list \<Rightarrow> bool \<Rightarrow> verdict" where
  "verify_all bn cr key_verify txn scripts strict =
     (if length scripts \<noteq> length (tx_inputs txn) then Verdict False
      else verify_loop bn cr key_verify txn strict (enumerate 0 scripts))"

unbundle bit_operations_syntax

section \<open>What is signed\<close>

definition strip_signature :: "tx_in \<Rightarrow> tx_in" where
  "strip_signature i = i\<lparr>signature := []\<rparr>"

lemma blank_signatures_strip:
  assumes "map strip_signature a = map strip_signature b" and "n < length a"
  shows "blank_signatures a n code = blank_signatures b n code"
proof -
  have len: "length a = length b" using assms(1) map_eq_imp_length_eq by blast
  have "strip_signature (a ! n) = strip_signature (b ! n)"
    using assms len by (metis nth_map)
  then have "(a ! n)\<lparr>signature := code\<rparr> = (b ! n)\<lparr>signature := code\<rparr>"
    by (cases "a ! n"; cases "b ! n") (simp add: strip_signature_def)
  moreover have "map (\<lambda>i. i\<lparr>signature := []\<rparr>) a = map (\<lambda>i. i\<lparr>signature := []\<rparr>) b"
    using assms(1) by (simp add: strip_signature_def [abs_def])
  ultimately show ?thesis by (simp add: blank_signatures_def)
qed

text \<open>No signature covers a signature: two transactions that differ only in the signatures of their inputs
  have the same signature hash for every input, script and hash type.\<close>

theorem sighash_ignores_signatures:
  assumes "map strip_signature (tx_inputs a) = map strip_signature (tx_inputs b)"
    and "tx_version a = tx_version b" and "tx_outputs a = tx_outputs b" and "tx_lockTime a = tx_lockTime b"
  shows "getSignatureHash sha a code n type = getSignatureHash sha b code n type"
proof -
  have len: "length (tx_inputs a) = length (tx_inputs b)" using assms(1) map_eq_imp_length_eq by blast
  show ?thesis
  proof (cases "n < length (tx_inputs a)")
    case True
    have upd: "a\<lparr>tx_inputs := x, tx_outputs := y\<rparr> = b\<lparr>tx_inputs := x, tx_outputs := y\<rparr>" for x y
      using assms(2,4) by (cases a; cases b) simp
    show ?thesis
      using True len by (simp add: getSignatureHash_def sighash_copy_def Let_def upd assms(3)
          blank_signatures_strip [OF assms(1) True])
  qed (simp add: getSignatureHash_def len)
qed

definition sample_tx :: "byte \<Rightarrow> transaction" where
  "sample_tx b = \<lparr>tx_version = 1, tx_inputs = [\<lparr>prevout = Coin 5 0, signature = [b], input_sequence = UINT_MAX\<rparr>],
     tx_outputs = [\<lparr>out_value = 7, out_script = [OP_DUP]\<rparr>], tx_lockTime = 0\<rparr>"

theorem sighash_ignores_signatures_witness:
  "getSignatureHash (sha256 ref_crypto) (sample_tx 1) [OP_DUP] 0 SIGHASH_ALL =
     getSignatureHash (sha256 ref_crypto) (sample_tx 2) [OP_DUP] 0 SIGHASH_ALL"
  by (rule sighash_ignores_signatures) (simp_all add: sample_tx_def strip_signature_def)

definition sighash_message :: "transaction \<Rightarrow> script \<Rightarrow> nat \<Rightarrow> u32 \<Rightarrow> byte list option" where
  "sighash_message txn code n type = map_option (\<lambda>c. put_transaction c @ put_word type) (sighash_copy txn code n type)"

lemma blank_signatures_parts:
  assumes "n < length ins"
  shows "map prevout (blank_signatures ins n code) = map prevout ins"
    and "map input_sequence (blank_signatures ins n code) = map input_sequence ins"
    and "signature (blank_signatures ins n code ! n) = code"
    and "i < length ins \<Longrightarrow> i \<noteq> n \<Longrightarrow> signature (blank_signatures ins n code ! i) = []"
  using assms by (simp_all add: blank_signatures_def map_update list_update_same_conv comp_def)

lemma signed_at:
  assumes "n < length ins" "m < length jns" "blank_signatures ins n code = blank_signatures jns m code'" "code \<noteq> []"
  shows "m = n \<and> code' = code"
proof -
  have len: "length ins = length jns"
    using assms(3) by (metis blank_signatures_parts(1) assms(1,2) length_map)
  have "m = n"
  proof (rule ccontr)
    assume "m \<noteq> n"
    with blank_signatures_parts(4) [OF assms(2), of n code'] assms(1) len
    have "signature (blank_signatures jns m code' ! n) = []" by simp
    with blank_signatures_parts(3) [OF assms(1), of code] assms(3,4) show False by simp
  qed
  moreover from this have "code' = code"
    using blank_signatures_parts(3) [OF assms(1), of code] blank_signatures_parts(3) [OF assms(2), of code'] assms(3) by simp
  ultimately show ?thesis ..
qed

definition sighash_ok :: "transaction \<Rightarrow> script \<Rightarrow> bool" where
  "sighash_ok txn code \<longleftrightarrow> transaction_ok txn \<and> script_ok code"

lemma sighash_ok_copy:
  assumes "sighash_ok txn code" and "n < length (tx_inputs txn)"
  shows "transaction_ok (txn\<lparr>tx_inputs := blank_signatures (tx_inputs txn) n code, tx_outputs := tx_outputs txn\<rparr>)"
proof -
  have "\<forall>i\<in>set (blank_signatures (tx_inputs txn) n code). script_ok (signature i)"
    using assms by (auto simp: blank_signatures_def sighash_ok_def script_ok_def dest!: set_update_subset_insert [THEN subsetD])
  then show ?thesis
    using assms by (simp add: sighash_ok_def transaction_ok_def vector_ok_def list_all_iff blank_signatures_def)
qed

text \<open>C3: With \<open>SIGHASH_ALL\<close> a signature commits to everything but signatures: if the bytes that are hashed
  agree, the transactions agree in version, lock time, outputs and every input's coin and sequence number, and
  the same script is signed at the same input.\<close>

theorem sighash_all_commits:
  assumes "sighash_ok a code" and "sighash_ok b code'" and "code \<noteq> []"
    and "n < length (tx_inputs a)" and "m < length (tx_inputs b)"
    and "sighash_message a code n SIGHASH_ALL = sighash_message b code' m SIGHASH_ALL"
  shows "m = n \<and> code' = code \<and> tx_version a = tx_version b \<and> tx_lockTime a = tx_lockTime b \<and>
    tx_outputs a = tx_outputs b \<and> map prevout (tx_inputs a) = map prevout (tx_inputs b) \<and>
    map input_sequence (tx_inputs a) = map input_sequence (tx_inputs b)"
proof -
  have msg: "sighash_message t c k SIGHASH_ALL = Some (put_transaction (t\<lparr>tx_inputs := blank_signatures (tx_inputs t) k c,
      tx_outputs := tx_outputs t\<rparr>) @ put_word SIGHASH_ALL)" for t c k
    by (simp add: sighash_message_def sighash_copy_def SIGHASH_ALL_def SIGHASH_NONE_def SIGHASH_SINGLE_def
        SIGHASH_ANYONECANPAY_def)
  have eq: "a\<lparr>tx_inputs := blank_signatures (tx_inputs a) n code, tx_outputs := tx_outputs a\<rparr> =
      b\<lparr>tx_inputs := blank_signatures (tx_inputs b) m code', tx_outputs := tx_outputs b\<rparr>"
    using assms(6) unfolding msg option.inject
    by (rule transaction_codec.put_inject [OF sighash_ok_copy [OF assms(1,4)] sighash_ok_copy [OF assms(2,5)], THEN conjunct1])
  then have ins: "blank_signatures (tx_inputs a) n code = blank_signatures (tx_inputs b) m code'"
    and rest: "tx_version a = tx_version b" "tx_lockTime a = tx_lockTime b" "tx_outputs a = tx_outputs b"
    by (cases a; cases b; simp)+
  show ?thesis
    using signed_at [OF assms(4,5) ins assms(3)] rest
      blank_signatures_parts(1,2) [OF assms(4), of code] blank_signatures_parts(1,2) [OF assms(5), of code'] ins by simp
qed

theorem sighash_all_commits_witness:
  "sighash_message (sample_tx 1) [OP_DUP] 0 SIGHASH_ALL \<noteq> None \<and>
   map prevout (tx_inputs (sample_tx 1)) = map prevout (tx_inputs (sample_tx 2))"
proof -
  have ok: "sighash_ok (sample_tx b) [OP_DUP]" for b
    by (simp add: sighash_ok_def transaction_ok_def script_ok_def vector_ok_def sample_tx_def MAX_VARINT_SIZE_def)
  have eq: "sighash_message (sample_tx 1) [OP_DUP] 0 SIGHASH_ALL = sighash_message (sample_tx 2) [OP_DUP] 0 SIGHASH_ALL"
    by (simp add: sighash_message_def sighash_copy_def blank_signatures_def sample_tx_def SIGHASH_ALL_def
        SIGHASH_NONE_def SIGHASH_SINGLE_def SIGHASH_ANYONECANPAY_def)
  have "sighash_message (sample_tx 1) [OP_DUP] 0 SIGHASH_ALL \<noteq> None"
    by (simp add: sighash_message_def sighash_copy_def SIGHASH_ALL_def SIGHASH_NONE_def SIGHASH_SINGLE_def
        SIGHASH_ANYONECANPAY_def)
  with sighash_all_commits [OF ok ok _ _ _ eq] show ?thesis by (simp add: sample_tx_def)
qed

section \<open>Signatures in order\<close>

lemma multisig_loop_emb: "multisig_loop check sigs keys \<longleftrightarrow> list_emb check sigs keys"
proof (induction check sigs keys rule: multisig_loop.induct)
  case (3 check sig sigs key keys)
  let ?sigs = "if check sig key then sigs else sig # sigs"
  have "list_emb check (sig # sigs) (key # keys) \<longleftrightarrow> list_emb check ?sigs keys" by simp
  moreover have "length ?sigs > length keys \<Longrightarrow> \<not> list_emb check ?sigs keys"
    using list_emb_length [of check ?sigs keys] by auto
  ultimately show ?case using 3 by (cases "length ?sigs > length keys") (simp_all add: Let_def)
qed simp_all


text \<open>C23: The check of \<open>m\<close> of \<open>n\<close> signatures accepts exactly when the signatures can be matched to distinct
  keys in the order of the keys: the greedy loop, which never looks back and stops early once too many keys have
  failed, loses no match.\<close>

theorem multisig_in_order:
  assumes "ev_stack s = getvch bn n # keys @ getvch bn m # sigs @ dummy # rest"
    and "bn_documented bn" and "m = int (length sigs)" and "n = int (length keys)" and "m \<le> n" and "n \<le> 20"
    and "op_count s + n \<le> 201" and "\<not> te_code_separator s"
  shows "\<exists>s'. eval_checkmultisig sha key_verify bn OP_CHECKMULTISIG s = (Continue, s') \<and>
    ev_stack s' = of_bool_value (list_emb (te_check sha key_verify s
      (foldl (\<lambda>code sig. findAndDelete code (push_data sig)) (ev_script s) sigs)) sigs keys) # rest"
proof -
  have cast: "CastToBigNum bn (getvch bn k) = Some k" "getint bn k = k" if "0 \<le> k" "k \<le> 20" for k
  proof -
    have b: "\<bar>k\<bar> < 256 ^ 1" using that by simp
    have l: "length (mpi_body k) < 2 ^ 31" "length (getvch bn k) \<le> 4"
      using length_mpi_body [OF b] by (simp_all add: getvch_doc [OF assms(2)])
    then show "CastToBigNum bn (getvch bn k) = Some k"
      by (simp add: CastToBigNum_def setvch_getvch [OF assms(2)])
    show "getint bn k = k" using that by (intro getint_doc [OF assms(2)]) (simp_all add: INT_MIN_def INT_MAX_def)
  qed
  let ?n = "int (length keys)" and ?m = "int (length sigs)"
  have mn: "m = ?m" "n = ?n" and le: "length sigs \<le> length keys" "length keys \<le> 20" using assms(3-6) by simp_all
  have n: "CastToBigNum bn (getvch bn ?n) = Some ?n" "getint bn ?n = ?n" using le by (simp_all add: cast)
  have m: "CastToBigNum bn (getvch bn ?m) = Some ?m" "getint bn ?m = ?m" using le by (simp_all add: cast)
  have st: "ev_stack s ! 0 = getvch bn ?n" "ev_stack s ! (1 + length keys) = getvch bn ?m"
    "take (length keys) (drop 1 (ev_stack s)) = keys"
    "take (length sigs) (drop (2 + length keys) (ev_stack s)) = sigs"
    "drop (3 + length keys + length sigs) (ev_stack s) = rest"
    "length (ev_stack s) = 3 + length keys + length sigs + length rest"
    using assms(1) unfolding mn by (simp_all add: nth_append numeral_3_eq_3)
  have guards: "\<not> ?n < 0" "\<not> ?n > 20" "\<not> ?m < 0" "\<not> ?m > ?n" "\<not> op_count s + ?n > 201"
    "\<not> length (ev_stack s) < 1" "\<not> length (ev_stack s) < 2 + length keys"
    "\<not> length (ev_stack s) < 3 + length keys + length sigs"
    using assms(7) le unfolding st(6) mn by simp_all
  have chk: "te_check sha key_verify (s\<lparr>op_count := x, te_codehash := y\<rparr>) = te_check sha key_verify s" for x y
    by (intro ext) (simp add: te_check_def)
  have code: "script_code (s\<lparr>op_count := x\<rparr>) = Some (ev_script s, s\<lparr>op_count := x, te_codehash := Some 0\<rparr>)" for x
    using assms(8) by (simp add: script_code_def)
  have upd: "op_count (s\<lparr>op_count := x\<rparr>) = x" "ev_stack (s\<lparr>op_count := x\<rparr>) = ev_stack s" for x by simp_all
  show ?thesis
    unfolding eval_checkmultisig_def Let_def
    by (simp only: st n m nat_int guards upd code chk multisig_loop_emb option.case prod.case if_False disj_not1 simp_thms if_True)
      (simp add: push_result_def)
qed

text \<open>One signature by the second of two keys, and the keys' owner in another order.\<close>

definition sample_key :: key_fn where
  "sample_key key hash sig \<longleftrightarrow> sig = key"

definition sample_multisig :: tx_evaluator where
  "sample_multisig = (new_tx_evaluator (sample_tx 1) SIGHASH_ALL 0)\<lparr>ev_script := [OP_CHECKMULTISIG],
     ev_stack := [getvch ref_bn 2, [9, 9], [8, 8], getvch ref_bn 1, [8, 8, 1], []]\<rparr>"

theorem multisig_in_order_witness:
  "\<exists>s'. eval_checkmultisig (sha256 ref_crypto) sample_key ref_bn OP_CHECKMULTISIG sample_multisig = (Continue, s') \<and>
     ev_stack s' = [vchTrue]"
proof -
  have emb: "list_emb (te_check (sha256 ref_crypto) sample_key sample_multisig code) [[8, 8, 1]] [[9, 9], [8, 8]] = True" for code
    by (simp add: te_check_def checkSig_def sample_key_def sample_multisig_def new_tx_evaluator_def SIGHASH_ALL_def
        tx_evaluator.defs evaluator.defs new_evaluator_def)
  have st: "ev_stack sample_multisig = getvch ref_bn 2 # [[9, 9], [8, 8]] @ getvch ref_bn 1 # [[8, 8, 1]] @ [] # []"
    and rest: "op_count sample_multisig = 0" "\<not> te_code_separator sample_multisig"
    by (simp_all add: sample_multisig_def new_tx_evaluator_def new_evaluator_def tx_evaluator.defs evaluator.defs)
  show ?thesis
    using multisig_in_order [OF st ref_bn_documented, of "sha256 ref_crypto" sample_key] rest
    unfolding emb of_bool_value_def by simp
qed

unbundle bit_operations_syntax

section \<open>Paying to an address\<close>

lemma run_getOp:
  assumes "getOp script pc = Some (opcode, data, pc')"
  shows "run eval script pc s =
    (case step eval opcode data (s\<lparr>ev_exec := False \<notin> set (exec_stack s), ev_current := pc'\<rparr>) of
       (Continue, s') \<Rightarrow> run eval script pc' s' | (Stop b, s') \<Rightarrow> (Verdict b, s')
     | (Raise, s') \<Rightarrow> (Verdict False, s') | (Undefined, s') \<Rightarrow> (Undefined_behaviour, s'))"
proof -
  have "\<not> length script \<le> pc" using assms getOp_end [of script pc] by (metis option.distinct(1))
  then show ?thesis using assms by (subst run.simps) simp
qed

text \<open>An operation that is executed and within the limits is a call of \<open>eval\<close>.\<close>

lemma step_op:
  assumes "OP_16 < opcode" and "\<not> disabled_op opcode" and "ev_exec s" and "op_count s < 201"
  shows "step eval opcode [] s =
    (case eval opcode (s\<lparr>op_count := op_count s + 1\<rparr>) of
       (Continue, s) \<Rightarrow> if length (ev_stack s) + length (alt_stack s) > 1000 then (Stop False, s) else (Continue, s)
     | r \<Rightarrow> r)"
proof -
  have "\<not> opcode \<le> OP_PUSHDATA4" 
  proof
    assume "opcode \<le> OP_PUSHDATA4"
    also have "OP_PUSHDATA4 < OP_16" by simp
    finally show False using assms(1) by simp
  qed
  then show ?thesis using assms by (simp add: step_def MAX_SCRIPT_ELEMENT_SIZE_def)
qed

lemma tx_eval_dup:
  "tx_eval bn cr kv OP_DUP s = (case ev_stack s of x # r \<Rightarrow> cont s (x # x # r) | _ \<Rightarrow> refuse s)"
  by (simp add: tx_eval_def base_eval_def is_move_def move_def cont_def refuse_def split: list.split)

lemma tx_eval_hash160:
  "tx_eval bn cr kv OP_HASH160 s =
     (case ev_stack s of x # r \<Rightarrow> cont s (toPubKeyHash (sha256 cr) (ripemd160 cr) x # r) | _ \<Rightarrow> refuse s)"
  by (simp add: tx_eval_def base_eval_def is_move_def eval_crypto_def hash_value_def cont_def refuse_def split: list.split)

lemma tx_eval_equal:
  "opcode = OP_EQUAL \<or> opcode = OP_EQUALVERIFY \<Longrightarrow> tx_eval bn cr kv opcode s = eval_equal opcode s"
  by (elim disjE) (simp_all add: tx_eval_def base_eval_def is_move_def eval_equal_def cont_def refuse_def Let_def split: list.split)

lemma tx_eval_checksig:
  "tx_eval bn cr kv OP_CHECKSIG s = eval_checksig (sha256 cr) kv OP_CHECKSIG s"
  by (simp add: tx_eval_def base_eval_def is_move_def)

lemmas tx_ops = tx_eval_dup tx_eval_hash160 tx_eval_equal tx_eval_checksig eval_equal_def

lemma tx_evaluate_run:
  "length script \<le> 10000 \<Longrightarrow> tx_evaluate bn cr kv script s =
     run (tx_eval bn cr kv) script 0 (s\<lparr>te_codehash := None, ev_script := script, ev_current := 0, op_count := 0\<rparr>)"
  by (simp add: tx_evaluate_def evaluate_def)

lemma setAddress_facts:
  "length (setAddress a) = 25" "\<not> isPayToScriptHash (setAddress a)"
  by (simp_all add: setAddress_def push_uint160_def isPayToScriptHash_def)

lemma address_script_runs:
  assumes "exec_stack s = []" and "ev_stack s = [key, sig]" and "alt_stack s = []" and "\<not> te_code_separator s"
  shows "if toPubKeyHash (sha256 cr) (ripemd160 cr) key = le_bytes 20 (unat a)
     then \<exists>s'. tx_evaluate bn cr kv (setAddress a) s = (Verdict True, s') \<and> ev_stack s' =
       [of_bool_value (te_check (sha256 cr) kv s (findAndDelete (setAddress a) (push_data sig)) sig key)]
     else \<exists>s'. tx_evaluate bn cr kv (setAddress a) s = (Verdict False, s')"
proof -
  have len: "length (setAddress a) \<le> 10000" by (simp add: setAddress_facts)
  have fin: "run eval (setAddress a) 25 s = end_of_script s" for eval :: "tx_evaluator eval_fn" and s
    by (simp add: run.simps setAddress_facts)
  show ?thesis
    unfolding tx_evaluate_run [OF len]
    using assms
    by (simp add: run_getOp [OF setAddress_getOp(1)] run_getOp [OF setAddress_getOp(2)] run_getOp [OF setAddress_getOp(3)]
     run_getOp [OF setAddress_getOp(4)] run_getOp [OF setAddress_getOp(5)] step_op step_push tx_ops disabled_op_def
     cont_def refuse_def MAX_SCRIPT_ELEMENT_SIZE_def Let_def eval_checksig_def script_code_def push_result_def te_check_def
     fin end_of_script_def)
qed

lemma then_nonempty_simps [simp]:
  "then_nonempty (Undefined_behaviour, s) k = Undefined_behaviour"
  "then_nonempty (Verdict False, s) k = Verdict False"
  "then_nonempty (Verdict True, s) k = (if ev_stack s = [] then Verdict False else k s)"
  by (simp_all add: then_nonempty_def)

lemma CastToBool_of_bool [simp]: "CastToBool (of_bool_value b) \<longleftrightarrow> b"
  by (simp add: of_bool_value_def vchTrue_def vchFalse_def)

lemma new_tx_evaluator_fields:
  "exec_stack (new_tx_evaluator txn type n) = []" "ev_stack (new_tx_evaluator txn type n) = []"
  "alt_stack (new_tx_evaluator txn type n) = []" "te_code_separator (new_tx_evaluator txn type n) = False"
  "te_txn (new_tx_evaluator txn type n) = txn" "te_in (new_tx_evaluator txn type n) = n"
  "te_hash_type (new_tx_evaluator txn type n) = type"
  by (simp_all add: new_tx_evaluator_def new_evaluator_def tx_evaluator.defs evaluator.defs)


lemma signature_script_runs:
  assumes "length sig \<le> MAX_SCRIPT_ELEMENT_SIZE" and "length key \<le> MAX_SCRIPT_ELEMENT_SIZE"
    and "exec_stack s = []" and "ev_stack s = []" and "alt_stack s = []"
  shows "\<exists>x c. tx_evaluate bn cr kv (push_data sig @ push_data key) s = (Verdict True,
    s\<lparr>te_codehash := None, ev_script := push_data sig @ push_data key, op_count := 0, ev_exec := x, ev_current := c,
      ev_stack := [key, sig]\<rparr>)"
proof -
  let ?script = "push_data sig @ push_data key"
  have len: "length ?script \<le> 10000" using assms(1,2) by (simp add: push_data_def MAX_SCRIPT_ELEMENT_SIZE_def)
  show ?thesis
    using run_pushes [of "s\<lparr>te_codehash := None, ev_script := ?script, ev_current := 0, op_count := 0\<rparr>" "[sig, key]"
        "tx_eval bn cr kv" "[]"] assms
    unfolding tx_evaluate_run [OF len] by simp
qed

text \<open>C1: An input that spends a payment to an address, with a signature script that pushes a signature and a
  key, verifies exactly when the key hashes to the address and the signature is one by that key on the signature
  hash of the payment's script (from which the signature itself was dropped); the other inputs' signatures, the
  strictness of the P2SH rule and the state left by the first script do not matter.\<close>

theorem pay_to_address_verifies:
  assumes "n < length (tx_inputs txn)" and "signature (tx_inputs txn ! n) = push_data sig @ push_data key"
    and "length sig \<le> MAX_SCRIPT_ELEMENT_SIZE" and "length key \<le> MAX_SCRIPT_ELEMENT_SIZE"
  shows "verify bn cr kv txn n (setAddress a) type strict =
    Verdict (toPubKeyHash (sha256 cr) (ripemd160 cr) key = le_bytes 20 (unat a) \<and>
      checkSig (sha256 cr) kv txn n type sig key (findAndDelete (setAddress a) (push_data sig)))"
proof -
  let ?s0 = "new_tx_evaluator txn type n"
  obtain x c where sig: "tx_evaluate bn cr kv (push_data sig @ push_data key) ?s0 = (Verdict True,
      ?s0\<lparr>te_codehash := None, ev_script := push_data sig @ push_data key, op_count := 0, ev_exec := x, ev_current := c,
        ev_stack := [key, sig]\<rparr>)"
    using signature_script_runs [OF assms(3,4) new_tx_evaluator_fields(1-3)] by blast
  define s1 where "s1 = ?s0\<lparr>te_codehash := None, ev_script := push_data sig @ push_data key, op_count := 0,
    ev_exec := x, ev_current := c, ev_stack := [key, sig]\<rparr>"
  have s1: "exec_stack s1 = []" "ev_stack s1 = [key, sig]" "alt_stack s1 = []" "\<not> te_code_separator s1"
    and chk: "te_check sha kv s1 code sig key = checkSig sha kv txn n type sig key code" for sha code
    by (simp_all add: s1_def new_tx_evaluator_fields te_check_def)
  show ?thesis
    using address_script_runs [OF s1, of cr a bn kv] assms(1)
    by (auto simp: verify_def assms(2) sig s1_def [symmetric] s1(2) setAddress_facts chk Let_def split: if_splits)
qed


text \<open>A payment to the key \<open>[8, 8]\<close>, spent with its signature.\<close>

definition sample_spend :: "byte list \<Rightarrow> transaction" where
  "sample_spend key = (sample_tx 1)\<lparr>tx_inputs :=
     [\<lparr>prevout = Coin 5 0, signature = push_data (key @ [1]) @ push_data key, input_sequence = UINT_MAX\<rparr>]\<rparr>"

theorem pay_to_address_verifies_witness:
  "verify ref_bn ref_crypto sample_key (sample_spend [8, 8]) 0
     (setAddress (bytes_to_uint160 (toPubKeyHash (sha256 ref_crypto) (ripemd160 ref_crypto) [8, 8]))) 0 True = Verdict True"
proof -
  let ?h = "toPubKeyHash (sha256 ref_crypto) (ripemd160 ref_crypto) [8, 8]"
  have "le_bytes 20 (unat (bytes_to_uint160 ?h)) = ?h" by code_simp
  then show ?thesis
    using pay_to_address_verifies [of 0 "sample_spend [8, 8]" "[8, 8, 1]" "[8, 8]" ref_bn ref_crypto sample_key
        "bytes_to_uint160 ?h" 0 True]
    by (simp add: sample_spend_def sample_tx_def MAX_SCRIPT_ELEMENT_SIZE_def checkSig_def sample_key_def)
qed

section \<open>Paying to a script\<close>

lemma p2sh_shape:
  assumes "isPayToScriptHash script"
  shows "script = OP_HASH160 # (0x14 # take 20 (drop 2 script)) @ [OP_EQUAL]" and "length (take 20 (drop 2 script)) = 20"
proof -
  have len: "length script = 23" and b: "script ! 0 = OP_HASH160" "script ! 1 = 0x14" "script ! 22 = OP_EQUAL"
    using assms by (simp_all add: isPayToScriptHash_def)
  have "script = take 2 script @ take 20 (drop 2 script) @ drop 22 script"
    using append_take_drop_id [of 2 script] append_take_drop_id [of 20 "drop 2 script"] by simp
  moreover have "take 2 script = [OP_HASH160, 0x14]"
    using len b by (simp add: list_eq_iff_nth_eq less_Suc_eq numeral_2_eq_2)
  moreover have "drop 22 script = [OP_EQUAL]"
    using len b(3) by (simp add: list_eq_iff_nth_eq)
  ultimately show "script = OP_HASH160 # (0x14 # take 20 (drop 2 script)) @ [OP_EQUAL]" by simp
  show "length (take 20 (drop 2 script)) = 20" using len by simp
qed

lemma p2sh_getOp:
  assumes "length h = 20"
  shows "getOp (OP_HASH160 # (0x14 # h) @ [OP_EQUAL]) 0 = Some (OP_HASH160, [], 1)"
    and "getOp (OP_HASH160 # (0x14 # h) @ [OP_EQUAL]) 1 = Some (0x14, h, 22)"
    and "getOp (OP_HASH160 # (0x14 # h) @ [OP_EQUAL]) 22 = Some (OP_EQUAL, [], 23)"
proof -
  have p: "push_data h = 0x14 # h" using assms by (simp add: push_data_def)
  show "getOp (OP_HASH160 # (0x14 # h) @ [OP_EQUAL]) 0 = Some (OP_HASH160, [], 1)"
    by (simp add: getOp_plain)
  show "getOp (OP_HASH160 # (0x14 # h) @ [OP_EQUAL]) 1 = Some (0x14, h, 22)"
    using getOp_at [of "(0x14 # h) @ [OP_EQUAL]" "0x14" h 21 "[OP_HASH160]"] getOp_push_data(1) [of h "[OP_EQUAL]"] assms
    by (simp add: p)
  show "getOp (OP_HASH160 # (0x14 # h) @ [OP_EQUAL]) 22 = Some (OP_EQUAL, [], 23)"
    using getOp_at [of "[OP_EQUAL]" OP_EQUAL "[]" 1 "OP_HASH160 # 0x14 # h"] getOp_plain [of OP_EQUAL "[]"] assms by simp
qed

lemma p2sh_script_runs:
  assumes "isPayToScriptHash script" and "tx_evaluate bn cr kv script s = (Verdict True, s')"
    and "exec_stack s = []" and "ev_stack s = x # r"
  shows "ev_stack s' = of_bool_value (toPubKeyHash (sha256 cr) (ripemd160 cr) x = take 20 (drop 2 script)) # r"
proof -
  define h where "h = take 20 (drop 2 script)"
  have script: "script = OP_HASH160 # (0x14 # h) @ [OP_EQUAL]" and h: "length h = 20"
    using p2sh_shape [OF assms(1)] by (simp_all add: h_def)
  note g = p2sh_getOp [OF h, folded script, unfolded One_nat_def]
  have len: "length script \<le> 10000" "length script = 23" using assms(1) by (simp_all add: isPayToScriptHash_def)
  have fin: "run eval script 23 s = end_of_script s" for eval :: "tx_evaluator eval_fn" and s
    by (simp add: run.simps len)
  have step20: "step eval 0x14 h s = (if length (ev_stack s) + length (alt_stack s) < 1000
      then (Continue, s\<lparr>ev_stack := h # ev_stack s\<rparr>) else (Stop False, s\<lparr>ev_stack := h # ev_stack s\<rparr>))"
    if "ev_exec s" for eval :: "tx_evaluator eval_fn" and s
    using that h by (simp add: step_def disabled_op_def MAX_SCRIPT_ELEMENT_SIZE_def)
  show ?thesis
    using assms(2-4) unfolding tx_evaluate_run [OF len(1)] h_def [symmetric]
    by (auto simp: run_getOp [OF g(1)] run_getOp [OF g(2)] run_getOp [OF g(3)] step_op step20 tx_ops disabled_op_def
        cont_def Let_def fin end_of_script_def split: if_split_asm)
qed

lemma then_nonempty_True:
  "then_nonempty r k = Verdict True \<longleftrightarrow> (\<exists>s. r = (Verdict True, s) \<and> ev_stack s \<noteq> [] \<and> k s = Verdict True)"
  by (cases r) (auto simp: then_nonempty_def split: verdict.split)

context bounded_eval
begin

lemma run_closes: "run eval script pc s = (Verdict True, s') \<Longrightarrow> exec_stack s' = []"
proof (induction "length script - pc" arbitrary: pc s rule: less_induct)
  case less
  show ?case
  proof (cases "getOp script pc")
    case None
    then show ?thesis using less.prems by (subst (asm) run.simps) (auto simp: end_of_script_def split: if_split_asm)
  next
    case (Some x)
    then obtain opcode data pc' where g: "getOp script pc = Some (opcode, data, pc')" by (cases x) auto
    let ?s = "s\<lparr>ev_exec := False \<notin> set (exec_stack s), ev_current := pc'\<rparr>"
    obtain r s1 where st: "step eval opcode data ?s = (r, s1)" by (cases "step eval opcode data ?s")
    have "r \<noteq> Stop True" using step_no_accept [of opcode data ?s] st by simp
    then have "run eval script pc' s1 = (Verdict True, s')"
      using less.prems st unfolding run_getOp [OF g] by (auto split: outcome.splits)
    then show ?thesis by (rule less.hyps [OF getOp_measure [OF g]])
  qed
qed

lemma evaluate_closes: "evaluate eval script s = (Verdict True, s') \<Longrightarrow> exec_stack s' = []"
  by (rule run_closes) (auto simp: evaluate_def Let_def split: if_splits)

end

section \<open>The limits of a transaction's scripts\<close>

lemma push_result_small:
  "push_result v ok st s = (Continue, s') \<Longrightarrow> values_small s \<Longrightarrow> set st \<subseteq> set (ev_stack s) \<Longrightarrow> values_small s'"
  using of_bool_value_small [of ok]
  by (auto simp: push_result_def cont_def refuse_def Let_def values_small_def split: if_splits)

lemma push_result_count: "push_result v ok st s = (Continue, s') \<Longrightarrow> op_count s' = op_count s"
  by (auto simp: push_result_def cont_def refuse_def Let_def split: if_splits)

lemma push_result_accepts [accepts_nothing]: "fst (push_result v ok st s) \<noteq> Stop True"
  by (simp add: push_result_def cont_def refuse_def Let_def)

lemma script_code_same:
  "script_code s = Some (code, s') \<Longrightarrow> ev_stack s' = ev_stack s \<and> alt_stack s' = alt_stack s \<and> op_count s' = op_count s"
  by (auto simp: script_code_def Let_def split: if_splits)

lemma script_code_small: "script_code s = Some (code, s') \<Longrightarrow> values_small s \<Longrightarrow> values_small s'"
  using script_code_same [of s code s'] by (simp add: values_small_def)

lemma checksig_push:
  assumes "eval_checksig sha kv opcode s = (Continue, s')"
  obtains code s1 v ok st where "script_code s = Some (code, s1)" and "set st \<subseteq> set (ev_stack s)"
    and "push_result v ok st s1 = (Continue, s')"
proof -
  obtain k g st where st: "ev_stack s = k # g # st"
    using assms by (auto simp: eval_checksig_def refuse_def split: list.splits)
  obtain code s1 where s1: "script_code s = Some (code, s1)"
    using assms st by (cases "script_code s") (auto simp: eval_checksig_def)
  show ?thesis
    using assms that [OF s1, of st] by (auto simp: eval_checksig_def st s1 Let_def)
qed

lemma checkmultisig_push:
  assumes "eval_checkmultisig sha kv bn opcode s = (Continue, s')"
  obtains n code s1 v ok i where "0 \<le> n" and "script_code (s\<lparr>op_count := op_count s + n\<rparr>) = Some (code, s1)"
    and "push_result v ok (drop i (ev_stack s)) s1 = (Continue, s')"
proof -
  obtain v where v: "CastToBigNum bn (ev_stack s ! 0) = Some v"
    using assms by (auto simp: eval_checkmultisig_def Let_def refuse_def split: if_splits option.splits)
  let ?n = "getint bn v"
  obtain w where w: "CastToBigNum bn (ev_stack s ! (1 + nat ?n)) = Some w"
    using assms v by (auto simp: eval_checkmultisig_def Let_def refuse_def split: if_splits option.splits)
  obtain code s1 where s1: "script_code (s\<lparr>op_count := op_count s + ?n\<rparr>) = Some (code, s1)"
    using assms v w by (auto simp: eval_checkmultisig_def Let_def refuse_def split: if_splits option.splits)
  have "0 \<le> ?n" using assms v w s1 by (auto simp: eval_checkmultisig_def Let_def refuse_def split: if_splits)
  with that [OF _ s1] show ?thesis
    using assms v w s1 by (auto simp: eval_checkmultisig_def Let_def refuse_def split: if_splits)
qed

lemma checks_small [small_ops]:
  "eval_checksig sha kv opcode s = (Continue, s') \<Longrightarrow> values_small s \<Longrightarrow> values_small s'"
  "eval_checkmultisig sha kv bn opcode s = (Continue, s') \<Longrightarrow> values_small s \<Longrightarrow> values_small s'"
proof -
  assume "eval_checksig sha kv opcode s = (Continue, s')" and s: "values_small s"
  then obtain code s1 v ok st where "script_code s = Some (code, s1)" "set st \<subseteq> set (ev_stack s)"
    "push_result v ok st s1 = (Continue, s')" by (elim checksig_push)
  then show "values_small s'"
    using s script_code_same script_code_small push_result_small by metis
next
  assume "eval_checkmultisig sha kv bn opcode s = (Continue, s')" and s: "values_small s"
  then obtain n code s1 v ok i where c: "script_code (s\<lparr>op_count := op_count s + n\<rparr>) = Some (code, s1)"
    "push_result v ok (drop i (ev_stack s)) s1 = (Continue, s')" by (elim checkmultisig_push)
  have "values_small (s\<lparr>op_count := op_count s + n\<rparr>)" using s by (simp add: values_small_def)
  from script_code_small [OF c(1) this] show "values_small s'"
    by (rule push_result_small [OF c(2)]) (simp add: script_code_same [OF c(1)] set_drop_subset)
qed

lemma checks_count [same_count]:
  "eval_checksig sha kv opcode s = (Continue, s') \<Longrightarrow> op_count s \<le> op_count s'"
  "eval_checkmultisig sha kv bn opcode s = (Continue, s') \<Longrightarrow> op_count s \<le> op_count s'"
proof -
  assume "eval_checksig sha kv opcode s = (Continue, s')"
  then show "op_count s \<le> op_count s'"
    by (elim checksig_push) (simp add: push_result_count script_code_same)
next
  assume "eval_checkmultisig sha kv bn opcode s = (Continue, s')"
  then show "op_count s \<le> op_count s'"
    by (elim checkmultisig_push) (simp add: push_result_count script_code_same)
qed

lemma accepts_nothing_checks [accepts_nothing]:
  "fst (eval_checksig sha kv opcode s) \<noteq> Stop True" "fst (eval_checkmultisig sha kv bn opcode s) \<noteq> Stop True"
  by (simp_all add: push_result_accepts eval_checksig_def eval_checkmultisig_def refuse_def Let_def split: list.split option.split)

lemma tx_eval_continue:
  assumes "tx_eval bn cr kv opcode s = (Continue, s')"
  obtains s1 where "base_eval bn cr opcode s = (Continue, s1)"
    and "s' = s1\<lparr>te_codehash := Some (ev_current s1), te_code_separator := True\<rparr> \<or>
      eval_checksig (sha256 cr) kv opcode s1 = (Continue, s') \<or>
      eval_checkmultisig (sha256 cr) kv bn opcode s1 = (Continue, s') \<or> s' = s1"
  using assms by (cases "base_eval bn cr opcode s") (auto simp: tx_eval_def split: outcome.splits if_splits)

lemma tx_counted:
  assumes "bn_documented bn" and "crypto_sized cr"
  shows "counted_eval (tx_eval bn cr kv :: ('a tx_evaluator_scheme) eval_fn)"
proof unfold_locales
  fix opcode and s s' :: "'a tx_evaluator_scheme"
  assume e: "tx_eval bn cr kv opcode s = (Continue, s')"
  then obtain s1 where b: "base_eval bn cr opcode s = (Continue, s1)"
    and r: "s' = s1\<lparr>te_codehash := Some (ev_current s1), te_code_separator := True\<rparr> \<or>
      eval_checksig (sha256 cr) kv opcode s1 = (Continue, s') \<or>
      eval_checkmultisig (sha256 cr) kv bn opcode s1 = (Continue, s') \<or> s' = s1" by (rule tx_eval_continue)
  have c: "op_count s \<le> op_count s1" by (rule base_count [OF b])
  from r show "op_count s \<le> op_count s'"
    using c checks_count by (elim disjE) (fastforce intro: order_trans)+
  assume "within_limits s"
  from base_small [OF assms b this] have "values_small s1" .
  with r show "values_small s'"
    by (elim disjE) (auto simp: values_small_def dest: checks_small [unfolded values_small_def])
next
  fix opcode and s :: "'a tx_evaluator_scheme"
  show "fst (tx_eval bn cr kv opcode s) \<noteq> Stop True"
    using base_no_accept [of bn cr opcode s]
    by (cases "base_eval bn cr opcode s") (auto simp: tx_eval_def accepts_nothing_checks split: outcome.splits)
qed

interpretation tx: counted_eval "tx_eval ref_bn ref_crypto kv"
  by (rule tx_counted [OF ref_bn_documented ref_crypto_sized])


text \<open>C24: The extra state and operations of \<open>TransactionEvaluator\<close> do not break the limits of the stack
  machine: a script it accepts leaves at most a thousand values of at most 520 bytes and no open conditional, it
  parses to its last byte, and at most 201 of its operations are above \<open>OP_16\<close>.\<close>

theorem tx_accepted_limits:
  assumes "bn_documented bn" and "crypto_sized cr" and "tx_evaluate bn cr kv script s = (Verdict True, s')"
    and "within_limits s"
  shows "within_limits s' \<and> exec_stack s' = [] \<and> unparsed script = [] \<and>
    length (filter (\<lambda>(opcode, _). opcode > OP_16) (instructions script)) \<le> 201"
proof -
  note tx = tx_counted [OF assms(1,2), of kv]
  have e: "evaluate (tx_eval bn cr kv) script (s\<lparr>te_codehash := None\<rparr>) = (Verdict True, s')"
    using assms(3) by (simp add: tx_evaluate_def)
  have "within_limits (s\<lparr>te_codehash := None\<rparr>)" using assms(4) by (simp add: within_limits_def values_small_def)
  from bounded_eval.evaluate_limits [OF counted_eval.axioms(1) [OF tx] e this] counted_eval.evaluate_wellformed [OF tx e]
  show ?thesis by blast
qed

lemma sample_spend_accepted:
  "tx_evaluate ref_bn ref_crypto sample_key sample_script (new_tx_evaluator (sample_tx 1) 0 0) =
    (Verdict True, snd (tx_evaluate ref_bn ref_crypto sample_key sample_script (new_tx_evaluator (sample_tx 1) 0 0)))"
proof -
  have "fst (tx_evaluate ref_bn ref_crypto sample_key sample_script (new_tx_evaluator (sample_tx 1) 0 0)) = Verdict True"
    by code_simp
  then show ?thesis by (simp add: prod_eq_iff)
qed

theorem tx_accepted_limits_witness:
  "within_limits (snd (tx_evaluate ref_bn ref_crypto sample_key sample_script (new_tx_evaluator (sample_tx 1) 0 0)))"
proof -
  have "within_limits (new_tx_evaluator (sample_tx 1) 0 0)"
    by (simp add: within_limits_def values_small_def new_tx_evaluator_fields)
  from tx_accepted_limits [OF ref_bn_documented ref_crypto_sized sample_spend_accepted this] show ?thesis by blast
qed

text \<open>C2: A payment to a script hash is only unlocked by a preimage: under the strict rule, \<open>verify\<close> accepts
  only if the signature script is push-only and the last value it leaves hashes to the 20 bytes of the script.\<close>

theorem p2sh_needs_preimage:
  assumes "bn_documented bn" and "crypto_sized cr" and "isPayToScriptHash script"
    and "verify bn cr kv txn n script type True = Verdict True"
  shows "isPushOnly (signature (tx_inputs txn ! n)) \<and>
    (\<exists>s redeem rest. tx_evaluate bn cr kv (signature (tx_inputs txn ! n)) (new_tx_evaluator txn type n) = (Verdict True, s) \<and>
      ev_stack s = redeem # rest \<and> toPubKeyHash (sha256 cr) (ripemd160 cr) redeem = take 20 (drop 2 script))"
proof -
  from assms(4) obtain s s2 where s: "tx_evaluate bn cr kv (signature (tx_inputs txn ! n)) (new_tx_evaluator txn type n) = (Verdict True, s)"
    "ev_stack s \<noteq> []" "tx_evaluate bn cr kv script s = (Verdict True, s2)" "CastToBool (hd (ev_stack s2))"
    and push: "isPushOnly (signature (tx_inputs txn ! n))"
    by (auto simp: verify_def Let_def then_nonempty_True assms(3) split: if_splits)
  obtain redeem rest where st: "ev_stack s = redeem # rest" using s(2) by (cases "ev_stack s") auto
  have "exec_stack s = []"
    using bounded_eval.evaluate_closes [OF counted_eval.axioms(1) [OF tx_counted [OF assms(1,2)]] s(1) [unfolded tx_evaluate_def]] .
  from p2sh_script_runs [OF assms(3) s(3) this st] s(4)
  have "toPubKeyHash (sha256 cr) (ripemd160 cr) redeem = take 20 (drop 2 script)" by simp
  with push s(1) st show ?thesis by blast
qed


text \<open>The redeeming script \<open>OP_1\<close>, paid to by its hash.\<close>

definition sample_p2sh :: "script \<times> transaction" where
  "sample_p2sh =
     (OP_HASH160 # (0x14 # toPubKeyHash (sha256 ref_crypto) (ripemd160 ref_crypto) [OP_1]) @ [OP_EQUAL],
      (sample_tx 1)\<lparr>tx_inputs := [\<lparr>prevout = Coin 5 0, signature = push_data [OP_1], input_sequence = UINT_MAX\<rparr>]\<rparr>)"

theorem p2sh_needs_preimage_witness:
  "\<exists>s rest. tx_evaluate ref_bn ref_crypto sample_key (push_data [OP_1]) (new_tx_evaluator (snd sample_p2sh) 0 0) =
     (Verdict True, s) \<and> (\<exists>redeem. ev_stack s = redeem # rest \<and>
       toPubKeyHash (sha256 ref_crypto) (ripemd160 ref_crypto) redeem = take 20 (drop 2 (fst sample_p2sh)))"
proof -
  have p: "isPayToScriptHash (fst sample_p2sh)" by code_simp
  have v: "verify ref_bn ref_crypto sample_key (snd sample_p2sh) 0 (fst sample_p2sh) 0 True = Verdict True" by code_simp
  have "signature (tx_inputs (snd sample_p2sh) ! 0) = push_data [OP_1]" by (simp add: sample_p2sh_def)
  with p2sh_needs_preimage [OF ref_bn_documented ref_crypto_sized p v] show ?thesis by auto
qed

end
