(* ===== verification/Coinbase.thy ===== *)
theory Coinbase
  imports TxVerify Block
begin

text \<open>
  What a block says in its coinbase script: the height, the root of the spendable coins and the fields of a
  shared block, \<open>checkHeightInCoinbase\<close> to \<open>getPrevShare\<close> of \<^verbatim>\<open>src/coin/Block.cpp\<close> and
  \<^verbatim>\<open>include/coin/Block.h\<close>, and the count of signature operations.
\<close>

section \<open>Definitions\<close>

text \<open>The script of the first input of the first transaction; \<open>None\<close>: there is none, and the code reads
  outside a vector.\<close>

definition coinbase_script :: "block \<Rightarrow> script option" where
  "coinbase_script b =
     (case transactions b of [] \<Rightarrow> None
      | tx # _ \<Rightarrow> (case tx_inputs tx of [] \<Rightarrow> None | i # _ \<Rightarrow> Some (signature i)))"

definition tx_getSigOpCount :: "transaction \<Rightarrow> nat" where
  "tx_getSigOpCount tx =
     (let n = foldl (\<lambda>n i. n + getSigOpCount (signature i)) 0 (tx_inputs tx)
      in foldl (\<lambda>n out. n + getSigOpCount (out_script out)) n (tx_outputs tx))"

definition block_GetSigOpCount :: "block \<Rightarrow> nat" where
  "block_GetSigOpCount b = foldl (\<lambda>n tx. n + tx_getSigOpCount tx) 0 (transactions b)"

text \<open>\<^verbatim>\<open>std::equal\<close> reads as many bytes of its second range as the first has: \<open>None\<close> where that
  range ends first.\<close>

fun std_equal :: "byte list \<Rightarrow> byte list \<Rightarrow> bool option" where
  "std_equal [] ys = Some True"
| "std_equal (x # xs) [] = None"
| "std_equal (x # xs) (y # ys) = (if x \<noteq> y then Some False else std_equal xs ys)"

text \<open>The height is an \<^verbatim>\<open>int\<close>, written as a 64-bit number.\<close>

definition push_height :: "bn_lib \<Rightarrow> int \<Rightarrow> script" where
  "push_height bn height = push_int64 bn (word_of_int height)"

definition checkHeightInCoinbase :: "bn_lib \<Rightarrow> block \<Rightarrow> int \<Rightarrow> bool option" where
  "checkHeightInCoinbase bn b height =
     (case coinbase_script b of None \<Rightarrow> None
      | Some coinbase \<Rightarrow> std_equal (push_height bn height) coinbase)"

definition getHeight :: "bn_lib \<Rightarrow> block \<Rightarrow> int option" where
  "getHeight bn b =
     (case coinbase_script b of None \<Rightarrow> None
      | Some coinbase \<Rightarrow>
          (case getOp2 coinbase 0 of (_, opcode, data, _) \<Rightarrow>
             Some (if opcode < OP_PUSHDATA1 then getint bn (setvch bn data) else 0)))"

definition bytes_as_uint256 :: "byte list \<Rightarrow> uint256" where
  "bytes_as_uint256 vch = (if length vch = 32 then word_of_nat (le_value vch) else 0)"

text \<open>The data of the \<open>n\<close>-th read, counted from 0; a read that fails leaves its position where it stopped.\<close>

primrec nth_read :: "nat \<Rightarrow> script \<Rightarrow> nat \<Rightarrow> opcodetype \<times> byte list" where
  "nth_read 0 s pc = (case getOp2 s pc of (_, opcode, data, _) \<Rightarrow> (opcode, data))"
| "nth_read (Suc n) s pc = (case getOp2 s pc of (_, _, _, pc') \<Rightarrow> nth_read n s pc')"

definition getSpendablesRoot :: "block \<Rightarrow> uint256 option" where
  "getSpendablesRoot b = map_option (\<lambda>s. bytes_as_uint256 (snd (nth_read 1 s 0))) (coinbase_script b)"

definition checkSpendablesRootInCoinbase :: "block \<Rightarrow> uint256 \<Rightarrow> bool option" where
  "checkSpendablesRootInCoinbase b hash =
     map_option (\<lambda>s. hash = bytes_as_uint256 (snd (nth_read 1 s 0))) (coinbase_script b)"

definition getPrevShare :: "block \<Rightarrow> uint256 option" where
  "getPrevShare b = map_option (\<lambda>s. bytes_as_uint256 (snd (nth_read 2 s 0))) (coinbase_script b)"

definition getShareBits :: "bn_lib \<Rightarrow> block \<Rightarrow> int option" where
  "getShareBits bn b =
     map_option (\<lambda>s. case nth_read 3 s 0 of (opcode, data) \<Rightarrow>
       if opcode < OP_PUSHDATA1 then getint bn (setvch bn data) else 0) (coinbase_script b)"

definition getShareTarget :: "bn_lib \<Rightarrow> block \<Rightarrow> uint256 option option" where
  "getShareTarget bn b =
     map_option (\<lambda>bits. map_option (getuint256 bn) (SetCompact bn (word_of_int bits))) (getShareBits bn b)"

definition getRewardee :: "block \<Rightarrow> nat \<Rightarrow> script option" where
  "getRewardee b i =
     (case transactions b of [] \<Rightarrow> None
      | tx # _ \<Rightarrow> (case tx_outputs tx of [] \<Rightarrow> None | out # _ \<Rightarrow> Some (out_script out)))"

section \<open>The height\<close>

lemma std_equal_prefix: "std_equal xs (xs @ ys) = Some True"
  by (induction xs) simp_all

lemma std_equal_None: "std_equal xs ys = None \<longleftrightarrow> (\<exists>z zs. xs = ys @ z # zs)"
proof (induction xs ys rule: std_equal.induct)
  case (3 x xs y ys)
  then show ?case by auto
qed simp_all

lemma length_getvch_int:
  assumes "bn_documented bn" and "\<bar>v\<bar> < 2 ^ 32"
  shows "length (getvch bn v) \<le> 5"
proof -
  have "\<bar>v\<bar> < 256 ^ 4" using assms(2) by simp
  from length_mpi_body [OF this] show ?thesis by (simp add: getvch_doc [OF assms(1)])
qed

lemma sint_height:
  assumes "INT_MIN \<le> h" and "h \<le> INT_MAX"
  shows "sint (word_of_int h :: u64) = h"
proof -
  have "- (2 ^ 63) \<le> h" "h < 2 ^ 63" using assms by (simp_all add: INT_MIN_def INT_MAX_def)
  then show ?thesis by (simp add: signed_take_bit_int_eq_self_iff sint_sbintrunc')
qed

lemma push_height_large:
  assumes "17 \<le> h" and "h \<le> INT_MAX"
  shows "push_height bn h = push_data (getvch bn (setint64 bn (word_of_int h)))"
proof -
  have s: "sint (word_of_int h :: u64) = h" by (rule sint_height) (use assms in \<open>simp_all add: INT_MIN_def\<close>)
  have "word_of_int h \<noteq> (- 1 :: u64)"
  proof
    assume "word_of_int h = (- 1 :: u64)"
    then have "sint (word_of_int h :: u64) = -1" by simp
    with s assms show False by simp
  qed
  moreover have "\<not> (word_of_int h :: u64) \<le>s 16" using s assms by (simp add: word_sle_eq)
  ultimately show ?thesis by (simp add: push_height_def push_int64_def)
qed

text \<open>The height a block writes at the start of its coinbase script is read back: from 17 on,
  \<open>checkHeightInCoinbase\<close> accepts the script and \<open>getHeight\<close> returns the height, whatever follows.\<close>

theorem coinbase_height_roundtrip:
  assumes "bn_documented bn" and "17 \<le> h" and "h \<le> INT_MAX"
    and "coinbase_script b = Some (push_height bn h @ rest)"
  shows "checkHeightInCoinbase bn b h = Some True \<and> getHeight bn b = Some h"
proof
  show "checkHeightInCoinbase bn b h = Some True" by (simp add: checkHeightInCoinbase_def assms(4) std_equal_prefix)
  have s: "setint64 bn (word_of_int h) = h"
    using setint64_doc [OF assms(1)] sint_height [of h] assms(2,3) by (simp add: INT_MIN_def)
  define v where "v = getvch bn h"
  have len: "length v \<le> 5" using assms(2,3) unfolding v_def by (intro length_getvch_int [OF assms(1)]) (simp add: INT_MAX_def)
  have p: "push_height bn h = push_data v" using push_height_large [OF assms(2,3)] by (simp add: s v_def)
  have hd: "hd (push_data v) < OP_PUSHDATA1"
  proof -
    have "(word_of_nat (length v) :: byte) < 76" using len by (simp add: word_less_nat_alt unat_of_nat)
    then show ?thesis using len by (simp add: push_data_def)
  qed
  have "getOp (push_data v @ rest) 0 = Some (hd (push_data v), v, length (push_data v))"
    using getOp_push_data(1) [of v rest] len by simp
  then have g: "getOp2 (push_data v @ rest) 0 = (True, hd (push_data v), v, length (push_data v))"
    by (simp add: getOp_def split: prod.splits if_splits)
  have "length (mpi_body h) < 2 ^ 31" using len by (simp add: v_def getvch_doc [OF assms(1)])
  then have "setvch bn v = h" unfolding v_def by (rule setvch_getvch [OF assms(1)])
  moreover have "getint bn h = h" using assms(2,3) by (intro getint_doc [OF assms(1)]) (simp_all add: INT_MIN_def)
  ultimately show "getHeight bn b = Some h" by (simp add: getHeight_def assms(4) p g hd)
qed

definition coinbase_block :: "script \<Rightarrow> block" where
  "coinbase_block s = \<lparr>header = \<lparr>bh_version = 2, bh_prevBlock = 0, bh_merkleRoot = 0, bh_time = 0, bh_bits = 0, bh_nonce = 0\<rparr>,
     transactions = [\<lparr>tx_version = 1, tx_inputs = [\<lparr>prevout = null_coin, signature = s, input_sequence = UINT_MAX\<rparr>],
       tx_outputs = [], tx_lockTime = 0\<rparr>], merkleTree = []\<rparr>"

theorem coinbase_height_roundtrip_witness:
  "getHeight ref_bn (coinbase_block (push_height ref_bn 227931 @ [1, 2])) = Some 227931"
  using coinbase_height_roundtrip [OF ref_bn_documented, of 227931 "coinbase_block (push_height ref_bn 227931 @ [1, 2])" "[1, 2]"]
  by (simp add: coinbase_block_def coinbase_script_def INT_MAX_def)

text \<open>The check of the height reads past the end of the coinbase script exactly when that script is a
  proper prefix of the expected one, the empty script included.\<close>

theorem checkHeight_reads_past_end:
  "coinbase_script b = Some s \<Longrightarrow>
     checkHeightInCoinbase bn b h = None \<longleftrightarrow> (\<exists>z zs. push_height bn h = s @ z # zs)"
  by (simp add: checkHeightInCoinbase_def std_equal_None)

theorem checkHeight_reads_past_end_witness:
  "checkHeightInCoinbase ref_bn (coinbase_block []) 16 = None"
proof -
  have "push_height ref_bn 16 = [] @ 0x60 # []" by code_simp
  then show ?thesis
    using checkHeight_reads_past_end [of "coinbase_block []" "[]" ref_bn 16] by (simp add: coinbase_block_def coinbase_script_def)
qed

end
