(* ===== verification/Uint256.thy ===== *)
theory Uint256
  imports Serialization
begin

text \<open>
  The unsigned integers of \<^verbatim>\<open>include/coin/uint256.h\<close>: \<^verbatim>\<open>base_uint<BITS>\<close> is an array of
  32-bit limbs, the least significant first, and every operator is a loop over it. The theorems show
  that these loops are arithmetic modulo \<open>2 ^ BITS\<close>, which is what the other theories use
  when they take a hash or a target as a word.
\<close>

unbundle bit_operations_syntax

type_synonym limbs = "u32 list"

section \<open>Definitions\<close>

subsection \<open>Bits and assignment\<close>

definition bu_isZero :: "limbs \<Rightarrow> bool" where
  "bu_isZero pn \<longleftrightarrow> list_all (\<lambda>x. x = 0) pn"

text \<open>Prefix increment and decrement: the loop goes on while the limb wrapped and is not the last.\<close>

fun bu_inc :: "limbs \<Rightarrow> limbs" where
  "bu_inc [] = []"
| "bu_inc [x] = [x + 1]"
| "bu_inc (x # y # xs) = (if x + 1 = 0 then 0 # bu_inc (y # xs) else (x + 1) # y # xs)"

fun bu_dec :: "limbs \<Rightarrow> limbs" where
  "bu_dec [] = []"
| "bu_dec [x] = [x - 1]"
| "bu_dec (x # y # xs) = (if x - 1 = - 1 then (x - 1) # bu_dec (y # xs) else (x - 1) # y # xs)"

definition bu_not :: "limbs \<Rightarrow> limbs" where
  "bu_not pn = map (\<lambda>x. NOT x) pn"

definition bu_neg :: "limbs \<Rightarrow> limbs" where
  "bu_neg pn = bu_inc (map (\<lambda>x. NOT x) pn)"

definition bu_of_u64 :: "nat \<Rightarrow> u64 \<Rightarrow> limbs" where
  "bu_of_u64 WIDTH b = ucast b # ucast (drop_bit 32 b) # replicate (WIDTH - 2) 0"

definition bu_xor :: "limbs \<Rightarrow> limbs \<Rightarrow> limbs" where "bu_xor a b = map2 (XOR) a b"
definition bu_and :: "limbs \<Rightarrow> limbs \<Rightarrow> limbs" where "bu_and a b = map2 (AND) a b"
definition bu_or :: "limbs \<Rightarrow> limbs \<Rightarrow> limbs" where "bu_or a b = map2 (OR) a b"

text \<open>The operators with a 64-bit argument change the two lowest limbs only.\<close>

definition bu_low :: "(u32 \<Rightarrow> u32 \<Rightarrow> u32) \<Rightarrow> limbs \<Rightarrow> u64 \<Rightarrow> limbs" where
  "bu_low f pn b = pn[0 := f (pn ! 0) (ucast b), 1 := f (pn ! 1) (ucast (drop_bit 32 b))]"

definition bu_xor_u64 :: "limbs \<Rightarrow> u64 \<Rightarrow> limbs" where "bu_xor_u64 = bu_low (XOR)"
definition bu_and_u64 :: "limbs \<Rightarrow> u64 \<Rightarrow> limbs" where "bu_and_u64 = bu_low (AND)"
definition bu_or_u64 :: "limbs \<Rightarrow> u64 \<Rightarrow> limbs" where "bu_or_u64 = bu_low (OR)"

subsection \<open>Shifts\<close>

definition shl_step :: "limbs \<Rightarrow> nat \<Rightarrow> nat \<Rightarrow> nat \<Rightarrow> limbs \<Rightarrow> limbs" where
  "shl_step a k s i pn =
     (let pn = (if i + k + 1 < length a \<and> s \<noteq> 0
                then pn[i + k + 1 := pn ! (i + k + 1) OR drop_bit (32 - s) (a ! i)] else pn)
      in if i + k < length a then pn[i + k := pn ! (i + k) OR push_bit s (a ! i)] else pn)"

definition bu_shl :: "limbs \<Rightarrow> u32 \<Rightarrow> limbs" where
  "bu_shl a shift =
     (let k = unat (shift div 32); s = unat (shift mod 32)
      in fold (shl_step a k s) [0..<length a] (replicate (length a) 0))"

definition shr_step :: "limbs \<Rightarrow> nat \<Rightarrow> nat \<Rightarrow> nat \<Rightarrow> limbs \<Rightarrow> limbs" where
  "shr_step a k s i pn =
     (let pn = (if i \<ge> k + 1 \<and> s \<noteq> 0
                then pn[i - k - 1 := pn ! (i - k - 1) OR push_bit (32 - s) (a ! i)] else pn)
      in if i \<ge> k then pn[i - k := pn ! (i - k) OR drop_bit s (a ! i)] else pn)"

definition bu_shr :: "limbs \<Rightarrow> u32 \<Rightarrow> limbs" where
  "bu_shr a shift =
     (let k = unat (shift div 32); s = unat (shift mod 32)
      in fold (shr_step a k s) [0..<length a] (replicate (length a) 0))"

subsection \<open>Addition and subtraction\<close>

fun add_loop :: "u64 \<Rightarrow> limbs \<Rightarrow> limbs \<Rightarrow> limbs" where
  "add_loop carry (x # xs) (y # ys) =
     (let n = carry + ucast x + ucast y
      in ucast (n AND 0xffffffff) # add_loop (drop_bit 32 n) xs ys)"
| "add_loop carry xs ys = []"

definition bu_add :: "limbs \<Rightarrow> limbs \<Rightarrow> limbs" where "bu_add a b = add_loop 0 a b"
definition bu_sub :: "limbs \<Rightarrow> limbs \<Rightarrow> limbs" where "bu_sub a b = bu_add a (bu_neg b)"
definition bu_add_u64 :: "limbs \<Rightarrow> u64 \<Rightarrow> limbs" where
  "bu_add_u64 a b64 = bu_add a (bu_of_u64 (length a) b64)"
definition bu_sub_u64 :: "limbs \<Rightarrow> u64 \<Rightarrow> limbs" where
  "bu_sub_u64 a b64 = bu_add a (bu_neg (bu_of_u64 (length a) b64))"

subsection \<open>Comparison\<close>

text \<open>From the top limb down; \<open>i\<close> counts the limbs that are left, and \<open>e\<close> is the answer for equal numbers.\<close>

primrec lt_loop :: "bool \<Rightarrow> limbs \<Rightarrow> limbs \<Rightarrow> nat \<Rightarrow> bool" where
  "lt_loop e a b 0 = e"
| "lt_loop e a b (Suc i) = (if a ! i < b ! i then True else if a ! i > b ! i then False else lt_loop e a b i)"

definition bu_less :: "limbs \<Rightarrow> limbs \<Rightarrow> bool" where "bu_less a b = lt_loop False a b (length a)"
definition bu_le :: "limbs \<Rightarrow> limbs \<Rightarrow> bool" where "bu_le a b = lt_loop True a b (length a)"

primrec gt_loop :: "bool \<Rightarrow> limbs \<Rightarrow> limbs \<Rightarrow> nat \<Rightarrow> bool" where
  "gt_loop e a b 0 = e"
| "gt_loop e a b (Suc i) = (if a ! i > b ! i then True else if a ! i < b ! i then False else gt_loop e a b i)"

definition bu_greater :: "limbs \<Rightarrow> limbs \<Rightarrow> bool" where "bu_greater a b = gt_loop False a b (length a)"
definition bu_ge :: "limbs \<Rightarrow> limbs \<Rightarrow> bool" where "bu_ge a b = gt_loop True a b (length a)"

fun bu_eq :: "limbs \<Rightarrow> limbs \<Rightarrow> bool" where
  "bu_eq (x # xs) (y # ys) = (if x \<noteq> y then False else bu_eq xs ys)"
| "bu_eq xs ys = True"

definition bu_eq_u64 :: "limbs \<Rightarrow> u64 \<Rightarrow> bool" where
  "bu_eq_u64 a b =
     (if a ! 0 \<noteq> ucast b then False else if a ! 1 \<noteq> ucast (drop_bit 32 b) then False else list_all (\<lambda>x. x = 0) (drop 2 a))"

text \<open>\<open>None\<close>: outside the array. The two limbs become the word of the result.\<close>

definition getint64 :: "limbs \<Rightarrow> nat \<Rightarrow> u64 option" where
  "getint64 pn n =
     (if 2 * n + 1 < length pn then Some (push_bit 32 (ucast (pn ! (2 * n + 1))) OR ucast (pn ! (2 * n))) else None)"

subsection \<open>Text\<close>

definition bu_bytes :: "limbs \<Rightarrow> byte list" where
  "bu_bytes pn = concat (map put_word pn)"

fun bu_of_bytes :: "nat \<Rightarrow> byte list \<Rightarrow> limbs" where
  "bu_of_bytes 0 bs = []"
| "bu_of_bytes (Suc w) bs = word_of_nat (le_value (take 4 bs)) # bu_of_bytes w (drop 4 bs)"

definition hex_char :: "nat \<Rightarrow> char" where
  "hex_char n = ''0123456789abcdef'' ! n"

definition byte_hex :: "byte \<Rightarrow> string" where
  "byte_hex b = [hex_char (unat b div 16), hex_char (unat b mod 16)]"

definition bu_GetHex :: "limbs \<Rightarrow> string" where
  "bu_GetHex pn = concat (map byte_hex (rev (bu_bytes pn)))"

text \<open>The table, for the characters it holds.\<close>

definition hexdigit :: "char \<Rightarrow> nat" where
  "hexdigit c =
     (let n = of_char c in
      if 48 \<le> n \<and> n \<le> 57 then n - 48 else if 97 \<le> n \<and> n \<le> 102 then n - 87 else if 65 \<le> n \<and> n \<le> 70 then n - 55 else (0 :: nat))"

definition space_char :: "char \<Rightarrow> bool" where
  "space_char c \<longleftrightarrow> (let n = of_char c :: nat in n = 32 \<or> (9 \<le> n \<and> n \<le> 13))"

definition is_hex :: "char \<Rightarrow> bool" where
  "is_hex c \<longleftrightarrow> hexdigit c \<noteq> 0 \<or> c = CHR ''0''"

definition skip_0x :: "string \<Rightarrow> string" where
  "skip_0x s = (case s of a # b # rest \<Rightarrow> if a = CHR ''0'' \<and> (b = CHR ''x'' \<or> b = CHR ''X'') then rest else s | _ \<Rightarrow> s)"

text \<open>The digits from the last one back, two to a byte.\<close>

fun hex_bytes :: "string \<Rightarrow> byte list" where
  "hex_bytes (c # d # rest) = (of_nat (hexdigit c) OR push_bit 4 (of_nat (hexdigit d))) # hex_bytes rest"
| "hex_bytes [c] = [of_nat (hexdigit c)]"
| "hex_bytes [] = []"

text \<open>
  \<open>SetHex\<close> of a C string. \<open>None\<close>: the character that ends the digits is negative as a signed
  character, and \<^verbatim>\<open>phexdigit[(int)*psz]\<close> reads before the table.
\<close>

definition bu_SetHex :: "nat \<Rightarrow> string \<Rightarrow> limbs option" where
  "bu_SetHex WIDTH str =
     (let psz = skip_0x (dropWhile space_char (takeWhile (\<lambda>c. c \<noteq> CHR 0x00) str));
          digits = takeWhile is_hex psz; rest = dropWhile is_hex psz
      in if rest \<noteq> [] \<and> 128 \<le> (of_char (hd rest) :: nat) then None
         else let p = take (4 * WIDTH) (hex_bytes (rev digits))
              in Some (bu_of_bytes WIDTH (p @ replicate (4 * WIDTH - length p) 0)))"


section \<open>The loops are arithmetic\<close>

primrec bu_value :: "limbs \<Rightarrow> nat" where
  "bu_value [] = 0"
| "bu_value (x # xs) = unat x + 2 ^ 32 * bu_value xs"

lemma unat_u32_less: "unat (x :: u32) < 2 ^ 32"
  using unsigned_less [of x] by simp

lemma bu_value_less: "bu_value xs < 2 ^ (32 * length xs)"
proof (induction xs)
  case (Cons x xs)
  have "unat x + 2 ^ 32 * bu_value xs < 2 ^ 32 * Suc (bu_value xs)" using unat_u32_less [of x] by simp
  also have "\<dots> \<le> 2 ^ 32 * 2 ^ (32 * length xs)" using Cons by (intro mult_le_mono2) simp
  finally show ?case by (simp add: power_add)
qed simp

lemma bu_value_append: "bu_value (xs @ ys) = bu_value xs + 2 ^ (32 * length xs) * bu_value ys"
  by (induction xs) (simp_all add: power_add algebra_simps)

lemma bu_value_replicate [simp]: "bu_value (replicate n 0) = 0"
  by (induction n) simp_all

lemma bu_value_inject: "length a = length b \<Longrightarrow> bu_value a = bu_value b \<longleftrightarrow> a = b"
proof (induction a b rule: list_induct2)
  case (Cons x xs y ys)
  have "unat x + 2 ^ 32 * m = unat y + 2 ^ 32 * n \<longleftrightarrow> x = y \<and> m = n" for m n
  proof
    assume e: "unat x + 2 ^ 32 * m = unat y + 2 ^ 32 * n"
    have "\<And>z k. unat (z :: u32) = (unat z + 2 ^ 32 * k) mod 2 ^ 32" "\<And>z k. k = (unat (z :: u32) + 2 ^ 32 * k) div 2 ^ 32"
      using unat_u32_less by simp_all
    then show "x = y \<and> m = n" using e by (metis word_unat_eq_iff)
  qed simp
  with Cons show ?case by simp
qed simp

text \<open>A number with one more limb at the bottom.\<close>

lemma mod_limb: "x < 2 ^ 32 \<Longrightarrow> (x + 2 ^ 32 * m) mod 2 ^ (32 * Suc n) = x + 2 ^ 32 * (m mod 2 ^ (32 * n))" for x m n :: nat
  by (simp add: power_add mod_mult2_eq)

subsection \<open>Negation, increment and decrement\<close>

lemma unat_minus_1_u32: "unat (- 1 :: u32) = 2 ^ 32 - 1"
  by (simp add: unsigned_minus_1_eq_mask mask_eq_exp_minus_1)

lemma unat_not_u32: "unat (NOT x :: u32) = 2 ^ 32 - 1 - unat x"
proof -
  have "NOT x = - 1 - x" by (simp add: not_eq_complement)
  also have "unat \<dots> = unat (- 1 :: u32) - unat x" by (rule unat_sub) simp
  finally show ?thesis by (simp add: unat_minus_1_u32)
qed

lemma bu_not_value: "bu_value (bu_not a) = 2 ^ (32 * length a) - 1 - bu_value a"
proof (induction a)
  case (Cons x xs)
  have "bu_value (bu_not (x # xs)) = (2 ^ 32 - 1 - unat x) + 2 ^ 32 * (2 ^ (32 * length xs) - 1 - bu_value xs)"
    using Cons by (simp add: bu_not_def unat_not_u32)
  also have "\<dots> = 2 ^ 32 * 2 ^ (32 * length xs) - 1 - (unat x + 2 ^ 32 * bu_value xs)"
  proof -
    have a: "Suc (bu_value xs) \<le> 2 ^ (32 * length xs)" using bu_value_less [of xs] by simp
    obtain k where "2 ^ (32 * length xs) = Suc (bu_value xs) + k" using le_Suc_ex [OF a] by blast
    then show ?thesis using unat_u32_less [of x] by (simp add: algebra_simps)
  qed
  finally show ?case by (simp add: power_add)
qed (simp add: bu_not_def)

lemma bu_inc_length [simp]: "length (bu_inc a) = length a"
  by (induction a rule: bu_inc.induct) simp_all

lemma bu_dec_length [simp]: "length (bu_dec a) = length a"
  by (induction a rule: bu_dec.induct) simp_all

lemma unat_inc_u32: "unat (x + 1 :: u32) = (if x + 1 = 0 then 0 else Suc (unat x))"
  using unatSuc [of x] by (simp add: add.commute)

lemma inc_wraps: "x + 1 = (0 :: u32) \<Longrightarrow> unat x = 2 ^ 32 - 1"
proof -
  assume "x + 1 = 0"
  then have "x = - 1" by (simp add: eq_neg_iff_add_eq_0)
  then show ?thesis by (simp add: unat_minus_1_u32)
qed

lemma bu_inc_value: "bu_value (bu_inc a) = Suc (bu_value a) mod 2 ^ (32 * length a)"
proof (induction a rule: bu_inc.induct)
  case (2 x)
  have "Suc (unat x) < 2 ^ 32" if "x + 1 \<noteq> 0"
    using that unat_inc_u32 [of x] unat_u32_less [of "x + 1"] by simp
  then show ?case by (auto simp: unat_inc_u32 dest: inc_wraps)
next
  case (3 x y xs)
  show ?case
  proof (cases "x + 1 = 0")
    case True
    then show ?thesis using 3 inc_wraps [OF True] mod_limb [of 0 "Suc (bu_value (y # xs))" "length (y # xs)"]
      by simp
  next
    case False
    have "Suc (unat x) < 2 ^ 32" using False unat_inc_u32 [of x] unat_u32_less [of "x + 1"] by simp
    then have "Suc (bu_value (x # y # xs)) mod 2 ^ (32 * length (x # y # xs)) = Suc (unat x) + 2 ^ 32 * (bu_value (y # xs) mod 2 ^ (32 * length (y # xs)))"
      using mod_limb [of "Suc (unat x)" "bu_value (y # xs)" "length (y # xs)"] by simp
    then show ?thesis using False bu_value_less [of "y # xs"] by (simp add: unat_inc_u32)
  qed
qed simp


lemma unat_dec_u32: "unat (x - 1 :: u32) = (if x = 0 then 2 ^ 32 - 1 else unat x - 1)"
  by (simp add: unat_minus_one unat_minus_1_u32)

lemma dec_wraps: "x - 1 = (- 1 :: u32) \<longleftrightarrow> x = 0"
  by (simp add: algebra_simps)

lemma bu_dec_value: "bu_value (bu_dec a) = (bu_value a + (2 ^ (32 * length a) - 1)) mod 2 ^ (32 * length a)"
proof (induction a rule: bu_dec.induct)
  case (2 x)
  have p: "0 < unat x" if "x \<noteq> 0" using that by (simp add: unat_gt_0)
  have "(unat x + (2 ^ 32 - 1)) mod 2 ^ 32 = unat x - 1" if "x \<noteq> 0"
  proof -
    have "unat x + (2 ^ 32 - 1) = (unat x - 1) + 2 ^ 32" using p [OF that] by simp
    moreover have "unat x - 1 < 2 ^ 32" using unat_u32_less [of x] by simp
    ultimately show ?thesis by (simp only: mod_add_self2 mod_less)
  qed
  then show ?case by (simp add: unat_dec_u32)
next
  case (3 x y xs)
  let ?n = "length (y # xs)" and ?v = "bu_value (y # xs)"
  have one: "1 \<le> (2 :: nat) ^ (32 * ?n)" by simp
  have big: "(2 :: nat) ^ (32 * Suc ?n) = 2 ^ 32 * 2 ^ (32 * ?n)" by (simp add: power_add)
  obtain k where k: "2 ^ (32 * ?n) = Suc k" using one by (metis Suc_le_D One_nat_def)
  show ?case
  proof (cases "x = 0")
    case True
    have "(bu_value (x # y # xs) + (2 ^ (32 * Suc ?n) - 1)) mod 2 ^ (32 * Suc ?n)
        = ((2 ^ 32 - 1) + 2 ^ 32 * (?v + (2 ^ (32 * ?n) - 1))) mod 2 ^ (32 * Suc ?n)"
      unfolding big k by (simp add: True algebra_simps)
    also have "\<dots> = (2 ^ 32 - 1) + 2 ^ 32 * ((?v + (2 ^ (32 * ?n) - 1)) mod 2 ^ (32 * ?n))"
      by (rule mod_limb) simp
    finally show ?thesis using 3 True by (simp add: unat_minus_1_u32)
  next
    case False
    then have p: "0 < unat x" by (simp add: unat_gt_0)
    have "bu_value (x # y # xs) + (2 ^ (32 * Suc ?n) - 1) = ((unat x - 1) + 2 ^ 32 * ?v) + 2 ^ (32 * Suc ?n)"
      using p one unfolding big k by simp
    moreover have "(unat x - 1) + 2 ^ 32 * ?v < 2 ^ (32 * Suc ?n)"
      using bu_value_less [of "x # y # xs"] p by simp
    ultimately have "(bu_value (x # y # xs) + (2 ^ (32 * Suc ?n) - 1)) mod 2 ^ (32 * Suc ?n) = (unat x - 1) + 2 ^ 32 * ?v"
      by (simp only: mod_add_self2 mod_less)
    then show ?thesis using False by (simp add: unat_dec_u32 dec_wraps)
  qed
qed simp

lemma bu_neg_value: "bu_value (bu_neg a) = (2 ^ (32 * length a) - bu_value a) mod 2 ^ (32 * length a)"
proof -
  have "bu_value (bu_neg a) = Suc (2 ^ (32 * length a) - 1 - bu_value a) mod 2 ^ (32 * length a)"
    using bu_inc_value [of "bu_not a"] bu_not_value [of a] by (simp add: bu_neg_def bu_not_def)
  moreover have "Suc (2 ^ (32 * length a) - 1 - bu_value a) = 2 ^ (32 * length a) - bu_value a"
    using bu_value_less [of a] by simp
  ultimately show ?thesis by simp
qed

subsection \<open>Addition and subtraction\<close>

lemma add_loop_length [simp]: "length (add_loop c a b) = min (length a) (length b)"
  by (induction c a b rule: add_loop.induct) (simp_all add: Let_def)

lemma add_limb:
  assumes "unat (c :: u64) \<le> 1"
  shows "unat (ucast ((c + ucast x + ucast y) AND 0xffffffff) :: u32) = (unat c + unat (x :: u32) + unat (y :: u32)) mod 2 ^ 32"
    and "unat (drop_bit 32 (c + ucast x + ucast y)) = (unat c + unat x + unat y) div 2 ^ 32"
proof -
  have x: "unat (ucast x :: u64) = unat x" and y: "unat (ucast y :: u64) = unat y"
    using unat_u32_less [of x] unat_u32_less [of y] by (simp_all add: unat_ucast_eq)
  have s: "unat (c + ucast x + ucast y) = unat c + unat x + unat y"
    using assms unat_u32_less [of x] unat_u32_less [of y] x y by (simp add: unat_word_ariths)
  have m: "(0xffffffff :: u64) = mask 32" by (simp add: mask_eq_decr_exp)
  show "unat (ucast ((c + ucast x + ucast y) AND 0xffffffff) :: u32) = (unat c + unat x + unat y) mod 2 ^ 32"
    unfolding m take_bit_eq_mask [symmetric] by (simp add: unat_ucast_eq unsigned_take_bit_eq take_bit_eq_mod unat_mod s)
  show "unat (drop_bit 32 (c + ucast x + ucast y)) = (unat c + unat x + unat y) div 2 ^ 32"
    by (simp add: unsigned_drop_bit_eq drop_bit_eq_div unat_div s)
qed

lemma add_loop_value:
  assumes "length a = length b" "unat c \<le> 1"
  shows "bu_value (add_loop c a b) = (unat c + bu_value a + bu_value b) mod 2 ^ (32 * length a)"
  using assms
proof (induction a b arbitrary: c rule: list_induct2)
  case Nil
  then show ?case by simp
next
  case (Cons x xs y ys)
  let ?s = "unat c + unat x + unat y" and ?m = "bu_value xs + bu_value ys"
  have c': "unat (drop_bit 32 (c + ucast x + ucast y)) \<le> 1"
    using Cons.prems unat_u32_less [of x] unat_u32_less [of y] by (simp add: add_limb)
  have "unat c + bu_value (x # xs) + bu_value (y # ys) = ?s mod 2 ^ 32 + 2 ^ 32 * (?s div 2 ^ 32 + ?m)"
    by (simp add: algebra_simps)
  moreover have "(?s mod 2 ^ 32 + 2 ^ 32 * (?s div 2 ^ 32 + ?m)) mod 2 ^ (32 * length (x # xs))
     = ?s mod 2 ^ 32 + 2 ^ 32 * ((?s div 2 ^ 32 + ?m) mod 2 ^ (32 * length xs))"
    using mod_limb [of "?s mod 2 ^ 32" "?s div 2 ^ 32 + ?m" "length xs"] by simp
  moreover have "bu_value (add_loop c (x # xs) (y # ys))
     = ?s mod 2 ^ 32 + 2 ^ 32 * ((?s div 2 ^ 32 + ?m) mod 2 ^ (32 * length xs))"
    using Cons.IH [OF c'] add_limb [OF Cons.prems, of x y] by (simp add: Let_def add.assoc)
  ultimately show ?case by (simp only:)
qed

lemma bu_add_value:
  "length a = length b \<Longrightarrow> bu_value (bu_add a b) = (bu_value a + bu_value b) mod 2 ^ (32 * length a)"
  using add_loop_value [of a b 0] by (simp add: bu_add_def)

lemma bu_neg_length [simp]: "length (bu_neg a) = length a"
  by (simp add: bu_neg_def)

lemma bu_sub_value:
  "length a = length b \<Longrightarrow>
   bu_value (bu_sub a b) = (bu_value a + (2 ^ (32 * length a) - bu_value b)) mod 2 ^ (32 * length a)"
  by (simp add: bu_sub_def bu_add_value bu_neg_value mod_add_right_eq)


subsection \<open>Comparison\<close>

lemma compare_top:
  fixes x y :: u32 and m n :: nat
  assumes "m < 2 ^ k" "n < 2 ^ k"
  shows "m + 2 ^ k * unat x < n + 2 ^ k * unat y \<longleftrightarrow> x < y \<or> (x = y \<and> m < n)"
proof (cases "x = y")
  case False
  have "m + 2 ^ k * unat x < n + 2 ^ k * unat y" if "unat x < unat y" "m < 2 ^ k" for x y :: u32 and m n :: nat
  proof -
    have "m + 2 ^ k * unat x < 2 ^ k * Suc (unat x)" using that(2) by simp
    also have "\<dots> \<le> 2 ^ k * unat y" using that(1) by (intro mult_le_mono2) simp
    finally show ?thesis by simp
  qed
  from this [of x y m n] this [of y x n m] False assms show ?thesis
    by (simp add: word_less_nat_alt) (metis linorder_neqE_nat not_less_iff_gr_or_eq word_unat_eq_iff)
qed simp

lemma value_take_Suc:
  "i < length a \<Longrightarrow> bu_value (take (Suc i) a) = bu_value (take i a) + 2 ^ (32 * i) * unat (a ! i)"
  by (simp add: take_Suc_conv_app_nth bu_value_append)

lemma value_take_less: "bu_value (take i a) < 2 ^ (32 * i)"
  by (rule less_le_trans [OF bu_value_less]) simp

lemma lt_loop_value:
  assumes "i \<le> length a" "length a = length b"
  shows "lt_loop e a b i \<longleftrightarrow> bu_value (take i a) < bu_value (take i b) \<or> (e \<and> bu_value (take i a) = bu_value (take i b))"
  using assms
proof (induction i)
  case (Suc i)
  have l: "i < length a" "i < length b" using Suc.prems by simp_all
  have c: "bu_value (take i a) + 2 ^ (32 * i) * unat (a ! i) < bu_value (take i b) + 2 ^ (32 * i) * unat (b ! i)
      \<longleftrightarrow> a ! i < b ! i \<or> (a ! i = b ! i \<and> bu_value (take i a) < bu_value (take i b))"
    "bu_value (take i b) + 2 ^ (32 * i) * unat (b ! i) < bu_value (take i a) + 2 ^ (32 * i) * unat (a ! i)
      \<longleftrightarrow> b ! i < a ! i \<or> (b ! i = a ! i \<and> bu_value (take i b) < bu_value (take i a))"
    by (rule compare_top; rule value_take_less)+
  have IH: "lt_loop e a b i \<longleftrightarrow> bu_value (take i a) < bu_value (take i b) \<or> (e \<and> bu_value (take i a) = bu_value (take i b))"
    using Suc by simp
  show ?case
    unfolding value_take_Suc [OF l(1)] value_take_Suc [OF l(2)] lt_loop.simps IH using c
    by (cases "a ! i" "b ! i" rule: linorder_cases) auto
qed simp

lemma gt_loop_lt_loop: "gt_loop e a b i = lt_loop e b a i"
  by (induction i) simp_all

lemma bu_compare_value:
  assumes "length a = length b"
  shows "bu_less a b \<longleftrightarrow> bu_value a < bu_value b" "bu_le a b \<longleftrightarrow> bu_value a \<le> bu_value b"
    "bu_greater a b \<longleftrightarrow> bu_value b < bu_value a" "bu_ge a b \<longleftrightarrow> bu_value b \<le> bu_value a"
  using lt_loop_value [OF le_refl assms, of False] lt_loop_value [OF le_refl assms, of True]
    lt_loop_value [OF le_refl assms [symmetric], of False] lt_loop_value [OF le_refl assms [symmetric], of True]
  by (simp_all add: bu_less_def bu_le_def bu_greater_def bu_ge_def gt_loop_lt_loop assms order_le_less eq_commute)

lemma bu_eq_iff: "length a = length b \<Longrightarrow> bu_eq a b \<longleftrightarrow> a = b"
  by (induction a b rule: list_induct2) simp_all


subsection \<open>Shifts\<close>

lemma bit_low_high:
  fixes x v :: nat
  assumes "x < 2 ^ k"
  shows "bit (x + 2 ^ k * v) n \<longleftrightarrow> (if n < k then bit x n else bit v (n - k))"
proof (cases "n < k")
  case True
  then have "k = Suc (k - n - 1) + n" by simp
  then have e: "(2 :: nat) ^ k = 2 * 2 ^ (k - n - 1) * 2 ^ n" by (metis power_add power_Suc)
  define q where "q = 2 * (2 ^ (k - n - 1) * v)"
  have "x + 2 ^ k * v = x + q * 2 ^ n" unfolding e q_def by simp
  then have "(x + 2 ^ k * v) div 2 ^ n = x div 2 ^ n + q" by simp
  moreover have "even q" by (simp add: q_def)
  ultimately show ?thesis using True by (simp add: bit_iff_odd)
next
  case False
  then have "(x + 2 ^ k * v) div 2 ^ n = (x + 2 ^ k * v) div 2 ^ k div 2 ^ (n - k)"
    by (metis div_mult2_eq power_add le_add_diff_inverse not_less)
  then show ?thesis using False assms by (simp add: bit_iff_odd)
qed

lemma bit_value: "bit (bu_value pn) n \<longleftrightarrow> n div 32 < length pn \<and> bit (pn ! (n div 32)) (n mod 32)"
proof (induction pn arbitrary: n)
  case (Cons x xs)
  have "bit (bu_value (x # xs)) n \<longleftrightarrow> (if n < 32 then bit (unat x) n else bit (bu_value xs) (n - 32))"
    using bit_low_high [OF unat_u32_less, of x "bu_value xs" n] by simp
  moreover have "n div 32 = Suc ((n - 32) div 32)" "n mod 32 = (n - 32) mod 32" if "\<not> n < 32"
    using that by (simp_all add: le_div_geq le_mod_geq)
  ultimately show ?case using Cons by (auto simp: bit_unsigned_iff)
qed simp

lemma shl_step_length [simp]: "length (shl_step a k s i pn) = length pn"
  by (simp add: shl_step_def Let_def)

lemma shr_step_length [simp]: "length (shr_step a k s i pn) = length pn"
  by (simp add: shr_step_def Let_def)

lemma fold_length: "(\<And>x s. length (f x s) = length s) \<Longrightarrow> length (fold f xs s) = length s"
  by (induction xs arbitrary: s) simp_all

lemma shl_step_nth:
  assumes "length r = length a" "m < length a"
  shows "shl_step a k s i r ! m
       = (r ! m OR (if m = i + k then push_bit s (a ! i) else 0))
         OR (if s \<noteq> 0 \<and> m = i + k + 1 then drop_bit (32 - s) (a ! i) else 0)"
  using assms by (auto simp: shl_step_def Let_def nth_list_update)

lemma shr_step_nth:
  assumes "length r = length a" "m < length a" "i < length a"
  shows "shr_step a k s i r ! m
       = (r ! m OR (if i = m + k then drop_bit s (a ! i) else 0))
         OR (if s \<noteq> 0 \<and> i = m + k + 1 then push_bit (32 - s) (a ! i) else 0)"
  using assms by (auto simp: shr_step_def Let_def nth_list_update)

lemma shl_fold:
  assumes "i \<le> length a" "m < length a"
  shows "fold (shl_step a k s) [0..<i] (replicate (length a) 0) ! m
       = (if k \<le> m \<and> m - k < i then push_bit s (a ! (m - k)) else 0)
         OR (if s \<noteq> 0 \<and> k + 1 \<le> m \<and> m - k - 1 < i then drop_bit (32 - s) (a ! (m - k - 1)) else 0)"
  using assms
proof (induction i)
  case (Suc i)
  let ?r = "fold (shl_step a k s) [0..<i] (replicate (length a) 0)"
  have l: "length ?r = length a" by (simp add: fold_length)
  have f: "fold (shl_step a k s) [0..<Suc i] (replicate (length a) 0) = shl_step a k s i ?r" by simp
  consider "m = i + k" | "m = i + k + 1" | "m \<noteq> i + k" "m \<noteq> i + k + 1" by blast
  then show ?case
    using Suc.IH Suc.prems unfolding f shl_step_nth [OF l Suc.prems(2)]
    by cases (auto simp: less_Suc_eq or.commute)
qed simp

lemma shr_fold:
  assumes "i \<le> length a" "m < length a"
  shows "fold (shr_step a k s) [0..<i] (replicate (length a) 0) ! m
       = (if m + k < i then drop_bit s (a ! (m + k)) else 0)
         OR (if s \<noteq> 0 \<and> m + k + 1 < i then push_bit (32 - s) (a ! (m + k + 1)) else 0)"
  using assms
proof (induction i)
  case (Suc i)
  let ?r = "fold (shr_step a k s) [0..<i] (replicate (length a) 0)"
  have l: "length ?r = length a" by (simp add: fold_length)
  have f: "fold (shr_step a k s) [0..<Suc i] (replicate (length a) 0) = shr_step a k s i ?r" by simp
  consider "i = m + k" | "i = m + k + 1" | "i \<noteq> m + k" "i \<noteq> m + k + 1" by blast
  then show ?case
    using Suc.IH Suc.prems unfolding f shr_step_nth [OF l Suc.prems(2) Suc_le_lessD [OF Suc.prems(1)]]
    by cases (auto simp: less_Suc_eq or.commute)
qed simp

lemma div_mod_32: "j < 32 \<Longrightarrow> (32 * q + j) div 32 = q \<and> (32 * q + j) mod 32 = j" for q j :: nat
  by simp

lemma bit_shl_limb:
  fixes x y :: u32 and M n :: nat
  assumes "j < 32" "M < n"
  shows "bit ((if k \<le> M \<and> M - k < n then push_bit s x else 0)
              OR (if s \<noteq> 0 \<and> k + 1 \<le> M \<and> M - k - 1 < n then drop_bit (32 - s) y else 0)) j
         \<longleftrightarrow> (k \<le> M \<and> s \<le> j \<and> bit x (j - s)) \<or> (s \<noteq> 0 \<and> k + 1 \<le> M \<and> bit y (32 - s + j))"
proof -
  have "M - k < n" by (rule le_less_trans [OF diff_le_self assms(2)])
  moreover have "M - k - 1 < n" by (rule le_less_trans [OF diff_le_self calculation])
  ultimately show ?thesis using assms by (simp add: bit_or_iff bit_push_bit_iff bit_drop_bit_eq)
qed

lemma bu_shl_value:
  assumes "a \<noteq> []"
  shows "bu_value (bu_shl a shift) = (2 ^ unat shift * bu_value a) mod 2 ^ (32 * length a)"
proof (rule bit_eqI)
  fix p :: nat
  let ?k = "unat (shift div 32)" and ?s = "unat (shift mod 32)" and ?M = "p div 32" and ?j = "p mod 32"
  have sh: "unat shift = 32 * ?k + ?s" by (simp add: unat_div unat_mod)
  have s: "?s < 32" by (simp add: unat_mod)
  have p: "p = 32 * ?M + ?j" by simp
  have len: "length (bu_shl a shift) = length a" by (simp add: bu_shl_def Let_def fold_length)
  have "bit (bu_shl a shift ! ?M) ?j \<longleftrightarrow>
     ((?k \<le> ?M \<and> ?s \<le> ?j \<and> bit (a ! (?M - ?k)) (?j - ?s)) \<or>
      (?s \<noteq> 0 \<and> ?k + 1 \<le> ?M \<and> bit (a ! (?M - ?k - 1)) (32 - ?s + ?j)))" if M: "?M < length a"
    unfolding bu_shl_def Let_def shl_fold [OF le_refl M]
    by (rule bit_shl_limb) (use M in simp_all)
  then have "bit (bu_value (bu_shl a shift)) p \<longleftrightarrow> ?M < length a \<and>
     ((?k \<le> ?M \<and> ?s \<le> ?j \<and> bit (a ! (?M - ?k)) (?j - ?s)) \<or>
      (?s \<noteq> 0 \<and> ?k + 1 \<le> ?M \<and> bit (a ! (?M - ?k - 1)) (32 - ?s + ?j)))"
    unfolding bit_value len by blast
  also have "\<dots> \<longleftrightarrow> p < 32 * length a \<and> unat shift \<le> p \<and> bit (bu_value a) (p - unat shift)"
  proof (cases "?s \<le> ?j")
    case True
    have "unat shift \<le> p \<longleftrightarrow> ?k \<le> ?M" using sh p s True by linarith
    moreover have "(p - unat shift) div 32 = ?M - ?k \<and> (p - unat shift) mod 32 = ?j - ?s" if "?k \<le> ?M"
    proof -
      have "p - unat shift = 32 * (?M - ?k) + (?j - ?s)" using sh p True that by (simp add: diff_mult_distrib2)
      moreover have "?j - ?s < 32" by (simp add: less_imp_diff_less)
      ultimately show ?thesis by (simp only: div_mod_32)
    qed
    moreover have "\<not> bit (a ! (?M - ?k - 1)) (32 - ?s + ?j)" using True s bit_imp_le_length by fastforce
    moreover have "?M < length a \<longleftrightarrow> p < 32 * length a" by linarith
    ultimately show ?thesis using True by (auto simp: bit_value)
  next
    case False
    have "unat shift \<le> p \<longleftrightarrow> ?k + 1 \<le> ?M" using sh p s False by linarith
    moreover have "(p - unat shift) div 32 = ?M - ?k - 1 \<and> (p - unat shift) mod 32 = 32 - ?s + ?j" if "?k + 1 \<le> ?M"
    proof -
      have "p - unat shift = 32 * (?M - ?k - 1) + (32 - ?s + ?j)" using sh p s False that by (simp add: diff_mult_distrib2)
      moreover have "32 - ?s + ?j < 32" using False s by simp
      ultimately show ?thesis by (simp only: div_mod_32)
    qed
    moreover have "?M < length a \<longleftrightarrow> p < 32 * length a" by linarith
    ultimately show ?thesis using False by (auto simp: bit_value)
  qed
  also have "\<dots> \<longleftrightarrow> bit ((2 ^ unat shift * bu_value a) mod 2 ^ (32 * length a)) p"
    by (auto simp: take_bit_eq_mod [symmetric] push_bit_eq_mult [symmetric] mult.commute [of "2 ^ unat shift"] bit_take_bit_iff bit_push_bit_iff)
  finally show "bit (bu_value (bu_shl a shift)) p = bit ((2 ^ unat shift * bu_value a) mod 2 ^ (32 * length a)) p" .
qed


lemma bit_shr_limb:
  fixes x y :: u32 and M n :: nat
  assumes "j < 32"
  shows "bit ((if M + k < n then drop_bit s x else 0) OR (if s \<noteq> 0 \<and> M + k + 1 < n then push_bit (32 - s) y else 0)) j
         \<longleftrightarrow> (M + k < n \<and> bit x (s + j)) \<or> (s \<noteq> 0 \<and> M + k + 1 < n \<and> 32 - s \<le> j \<and> bit y (j - (32 - s)))"
  using assms by (auto simp: bit_or_iff bit_push_bit_iff bit_drop_bit_eq)

lemma bu_shr_value: "bu_value (bu_shr a shift) = bu_value a div 2 ^ unat shift"
proof (rule bit_eqI)
  fix p :: nat
  let ?k = "unat (shift div 32)" and ?s = "unat (shift mod 32)" and ?M = "p div 32" and ?j = "p mod 32"
  have sh: "unat shift = 32 * ?k + ?s" by (simp add: unat_div unat_mod)
  have s: "?s < 32" by (simp add: unat_mod)
  have p: "p = 32 * ?M + ?j" by simp
  have len: "length (bu_shr a shift) = length a" by (simp add: bu_shr_def Let_def fold_length)
  have "bit (bu_shr a shift ! ?M) ?j \<longleftrightarrow>
     ((?M + ?k < length a \<and> bit (a ! (?M + ?k)) (?s + ?j)) \<or>
      (?s \<noteq> 0 \<and> ?M + ?k + 1 < length a \<and> 32 - ?s \<le> ?j \<and> bit (a ! (?M + ?k + 1)) (?j - (32 - ?s))))" if M: "?M < length a"
    unfolding bu_shr_def Let_def shr_fold [OF le_refl M] by (rule bit_shr_limb) simp
  then have "bit (bu_value (bu_shr a shift)) p \<longleftrightarrow>
     ((?M + ?k < length a \<and> bit (a ! (?M + ?k)) (?s + ?j)) \<or>
      (?s \<noteq> 0 \<and> ?M + ?k + 1 < length a \<and> 32 - ?s \<le> ?j \<and> bit (a ! (?M + ?k + 1)) (?j - (32 - ?s))))"
    unfolding bit_value len by (meson add_lessD1)
  also have "\<dots> \<longleftrightarrow> bit (bu_value a) (unat shift + p)"
  proof (cases "?s + ?j < 32")
    case True
    have "unat shift + p = 32 * (?M + ?k) + (?s + ?j)" using sh p by simp
    then have "(unat shift + p) div 32 = ?M + ?k \<and> (unat shift + p) mod 32 = ?s + ?j"
      using True by (simp only: div_mod_32)
    then show ?thesis using True by (auto simp: bit_value)
  next
    case False
    have j: "?j < 32" by simp
    have "unat shift + p = 32 * (?M + ?k + 1) + (?j - (32 - ?s))"
      using sh p False s by (simp add: algebra_simps)
    moreover have "?j - (32 - ?s) < 32" using s by (simp add: less_imp_diff_less)
    ultimately have "(unat shift + p) div 32 = ?M + ?k + 1 \<and> (unat shift + p) mod 32 = ?j - (32 - ?s)"
      by (simp only: div_mod_32)
    moreover have "\<not> bit (a ! (?M + ?k)) (?s + ?j)" using False bit_imp_le_length by fastforce
    moreover have "?s \<noteq> 0" using False by (cases "?s = 0") simp_all
    moreover have "32 - ?s \<le> ?j" using False s by simp
    ultimately show ?thesis using False by (auto simp: bit_value)
  qed
  also have "\<dots> \<longleftrightarrow> bit (bu_value a div 2 ^ unat shift) p"
    by (simp add: drop_bit_eq_div [symmetric] bit_drop_bit_eq)
  finally show "bit (bu_value (bu_shr a shift)) p = bit (bu_value a div 2 ^ unat shift) p" .
qed


section \<open>The classes are machine words\<close>

definition bu_word :: "limbs \<Rightarrow> 'a::len word" where
  "bu_word a = word_of_nat (bu_value a)"

lemma unat_bu_word: "LENGTH('a) = 32 * length a \<Longrightarrow> unat (bu_word a :: 'a::len word) = bu_value a"
  using bu_value_less [of a] by (simp add: bu_word_def unat_of_nat)

lemma bu_word_mod:
  "LENGTH('a::len) = n \<Longrightarrow> (word_of_nat (k mod 2 ^ n) :: 'a word) = word_of_nat k"
  by (simp add: word_unat_eq_iff unat_of_nat)

lemma bu_word_neg:
  assumes "LENGTH('a::len) = 32 * length a"
  shows "(bu_word (bu_neg a) :: 'a word) = - bu_word a"
proof -
  have "bu_value a \<le> 2 ^ (32 * length a)" using bu_value_less [of a] by simp
  then have "(word_of_nat (2 ^ (32 * length a) - bu_value a) :: 'a word) = word_of_nat (2 ^ (32 * length a)) - word_of_nat (bu_value a)"
    by (rule of_nat_diff)
  moreover have "(word_of_nat (2 ^ (32 * length a)) :: 'a word) = 0"
    by (simp add: assms [symmetric] word_unat_eq_iff unat_of_nat del: of_nat_power)
  ultimately show ?thesis by (simp add: bu_word_def bu_neg_value bu_word_mod [OF assms])
qed

lemma bu_word_add:
  assumes "LENGTH('a::len) = 32 * length a" "length b = length a"
  shows "(bu_word (bu_add a b) :: 'a word) = bu_word a + bu_word b"
  using bu_add_value [of a b] assms bu_word_mod [OF assms(1)] by (simp add: bu_word_def)

lemma bu_word_inc:
  assumes "LENGTH('a::len) = 32 * length a"
  shows "(bu_word (bu_inc a) :: 'a word) = bu_word a + 1"
  using bu_inc_value [of a] bu_word_mod [OF assms, of "Suc (bu_value a)"] by (simp add: bu_word_def)

lemma bu_word_dec:
  assumes "LENGTH('a::len) = 32 * length a"
  shows "(bu_word (bu_dec a) :: 'a word) = bu_word a - 1"
proof -
  have "(word_of_nat (2 ^ (32 * length a) - 1) :: 'a word) = word_of_nat (2 ^ (32 * length a)) - word_of_nat 1"
    by (rule of_nat_diff) simp
  moreover have "(word_of_nat (2 ^ (32 * length a)) :: 'a word) = 0"
    by (simp add: assms [symmetric] word_unat_eq_iff unat_of_nat del: of_nat_power)
  ultimately have "(word_of_nat (bu_value a + (2 ^ (32 * length a) - 1)) :: 'a word) = word_of_nat (bu_value a) - 1"
    by (simp only: of_nat_add) simp
  then show ?thesis
    using bu_dec_value [of a] bu_word_mod [OF assms, of "bu_value a + (2 ^ (32 * length a) - 1)"] by (simp only: bu_word_def)
qed

lemma bu_word_shl:
  assumes "LENGTH('a::len) = 32 * length a"
  shows "(bu_word (bu_shl a n) :: 'a word) = push_bit (unat n) (bu_word a)"
proof -
  have "a \<noteq> []" using assms by auto
  from bu_shl_value [OF this, of n] bu_word_mod [OF assms, of "2 ^ unat n * bu_value a"]
  show ?thesis by (simp add: bu_word_def push_bit_eq_mult mult.commute)
qed

lemma bu_shr_length [simp]: "length (bu_shr a n) = length a"
  by (simp add: bu_shr_def Let_def fold_length)

lemma bu_word_shr:
  assumes "LENGTH('a::len) = 32 * length a"
  shows "(bu_word (bu_shr a n) :: 'a word) = drop_bit (unat n) (bu_word a)"
proof -
  have "unat (bu_word (bu_shr a n) :: 'a word) = unat (drop_bit (unat n) (bu_word a :: 'a word))"
    using unat_bu_word [of "bu_shr a n", where 'a = 'a] unat_bu_word [OF assms] assms
    by (simp add: bu_shr_value unsigned_drop_bit_eq)
      (simp add: drop_bit_eq_div take_bit_nat_eq_self [OF bu_value_less])
  then show ?thesis by (simp add: word_unat_eq_iff)
qed

text \<open>C33: the loops of \<^verbatim>\<open>base_uint\<close> refine machine words: read as one word of all its bits, the array after
  each operator is the word operation on the arrays before, with the wrap-around of the word, and the
  comparisons are the order of the words.\<close>

theorem base_uint_refines_word:
  assumes "LENGTH('a::len) = 32 * length a" "length b = length a"
  shows "(bu_word (bu_add a b) :: 'a word) = bu_word a + bu_word b \<and>
    (bu_word (bu_sub a b) :: 'a word) = bu_word a - bu_word b \<and>
    (bu_word (bu_neg a) :: 'a word) = - bu_word a \<and>
    (bu_word (bu_inc a) :: 'a word) = bu_word a + 1 \<and>
    (bu_word (bu_dec a) :: 'a word) = bu_word a - 1 \<and>
    (bu_word (bu_shl a n) :: 'a word) = push_bit (unat n) (bu_word a) \<and>
    (bu_word (bu_shr a n) :: 'a word) = drop_bit (unat n) (bu_word a) \<and>
    bu_less a b = ((bu_word a :: 'a word) < bu_word b) \<and>
    bu_le a b = ((bu_word a :: 'a word) \<le> bu_word b) \<and>
    bu_greater a b = ((bu_word a :: 'a word) > bu_word b) \<and>
    bu_ge a b = ((bu_word a :: 'a word) \<ge> bu_word b) \<and>
    bu_eq a b = ((bu_word a :: 'a word) = bu_word b)"
proof -
  have u: "unat (bu_word a :: 'a word) = bu_value a" "unat (bu_word b :: 'a word) = bu_value b"
    using assms by (simp_all add: unat_bu_word)
  have "(bu_word (bu_sub a b) :: 'a word) = bu_word a - bu_word b"
    using assms by (simp add: bu_sub_def bu_word_add bu_word_neg)
  moreover have "bu_eq a b = ((bu_word a :: 'a word) = bu_word b)"
    using assms bu_value_inject [of a b] by (simp add: bu_eq_iff word_unat_eq_iff u)
  moreover note bu_compare_value [of a b, OF assms(2) [symmetric]]
  ultimately show ?thesis
    using assms by (simp add: bu_word_add bu_word_neg bu_word_inc bu_word_dec bu_word_shl bu_word_shr
      word_less_nat_alt word_le_nat_alt u)
qed

theorem base_uint_refines_word_witness:
  "(bu_word (bu_sub [0, 1, 0, 0, 0] [1, 0, 0, 0, 0]) :: uint160) = bu_word [0, 1, 0, 0, 0] - bu_word [1, 0, 0, 0, 0] \<and>
   bu_sub [0, 1, 0, 0, 0] [1, 0, 0, 0, 0] = [- 1, 0, 0, 0, 0]"
proof (rule conjI)
  show "(bu_word (bu_sub [0, 1, 0, 0, 0] [1, 0, 0, 0, 0]) :: uint160) = bu_word [0, 1, 0, 0, 0] - bu_word [1, 0, 0, 0, 0]"
    by (rule base_uint_refines_word [THEN conjunct2, THEN conjunct1]) simp_all
  show "bu_sub [0, 1, 0, 0, 0] [1, 0, 0, 0, 0] = [- 1, 0, 0, 0, 0]" by code_simp
qed


section \<open>Text\<close>

lemma hex_char_facts:
  "n < 16 \<Longrightarrow> hexdigit (hex_char n) = n \<and> is_hex (hex_char n) \<and> \<not> space_char (hex_char n) \<and>
     hex_char n \<noteq> CHR 0x00 \<and> hex_char n \<noteq> CHR ''x'' \<and> hex_char n \<noteq> CHR ''X''"
proof -
  assume "n < 16"
  then have "n \<in> set [0..<16]" by simp
  then show ?thesis
    by (simp add: upt_rec hex_char_def hexdigit_def is_hex_def space_char_def Let_def)
       (elim disjE; simp add: hexdigit_def is_hex_def)
qed

lemma nibbles: "of_nat (unat b mod 16) OR push_bit 4 (of_nat (unat b div 16)) = (b :: byte)"
proof -
  have "unat b div 16 < 256" using unat_byte_less [of b] by simp
  then have "of_nat (unat b mod 16) = take_bit 4 b" "of_nat (unat b div 16) = drop_bit 4 b"
    by (simp_all add: word_unat_eq_iff unat_of_nat unsigned_take_bit_eq unsigned_drop_bit_eq take_bit_eq_mod drop_bit_eq_div
        unat_mod unat_div take_bit_nat_eq_self less_imp_diff_less)
  then show ?thesis by (auto intro!: bit_word_eqI simp: bit_or_iff bit_take_bit_iff bit_push_bit_iff bit_drop_bit_eq)
qed

lemma byte_digits: "unat (b :: byte) div 16 < 16" "unat (b :: byte) mod 16 < 16"
  using unat_byte_less [of b] by simp_all

lemma hex_bytes_back: "hex_bytes (rev (concat (map byte_hex (rev bs)))) = bs"
  by (induction bs) (simp_all add: byte_hex_def hex_char_facts byte_digits nibbles)

lemma hex_text: "list_all (\<lambda>c. is_hex c \<and> \<not> space_char c \<and> c \<noteq> CHR 0x00 \<and> c \<noteq> CHR ''x'' \<and> c \<noteq> CHR ''X'') (concat (map byte_hex bs))"
  by (induction bs) (simp_all add: byte_hex_def hex_char_facts byte_digits)

lemma bu_bytes_length [simp]: "length (bu_bytes a) = 4 * length a"
  by (induction a) (simp_all add: bu_bytes_def)

lemma bu_of_bytes_back: "bu_of_bytes (length a) (bu_bytes a) = a"
proof (induction a)
  case (Cons x xs)
  have "le_value (put_word x) = unat x"
    using unat_u32_less [of x] by (simp add: put_word_def le_value_le_bytes)
  with Cons show ?case by (simp add: bu_bytes_def)
qed (simp add: bu_bytes_def)

lemma bu_SetHex_plain:
  assumes "list_all (\<lambda>c. is_hex c \<and> \<not> space_char c \<and> c \<noteq> CHR 0x00 \<and> c \<noteq> CHR ''x'' \<and> c \<noteq> CHR ''X'') s"
  shows "bu_SetHex w s = Some (bu_of_bytes w (take (4 * w) (hex_bytes (rev s)) @ replicate (4 * w - length (take (4 * w) (hex_bytes (rev s)))) 0))"
proof -
  have t: "takeWhile (\<lambda>c. c \<noteq> CHR 0x00) s = s" "takeWhile is_hex s = s" "dropWhile is_hex s = []"
    using assms by (simp_all add: list_all_iff)
  have "dropWhile space_char s = s" using assms by (cases s) simp_all
  moreover have "skip_0x s = s" using assms by (auto simp: skip_0x_def split: list.splits)
  ultimately show ?thesis unfolding bu_SetHex_def Let_def t by (simp add: t)
qed

text \<open>\<open>SetHex\<close> reads back what \<open>GetHex\<close> prints, for every width.\<close>

theorem base_uint_hex_roundtrip: "bu_SetHex (length a) (bu_GetHex a) = Some a"
  by (simp add: bu_GetHex_def bu_SetHex_plain hex_text hex_bytes_back bu_of_bytes_back)

end
