(* ===== verification/Util.thy ===== *)
theory Util
  imports Uint256
begin

text \<open>
  The helpers of \<^verbatim>\<open>src/coin/util.cpp\<close>, \<^verbatim>\<open>include/coin/util.h\<close> and
  \<^verbatim>\<open>src/coin/Currency.cpp\<close>: hexadecimal text, decimal amounts, and the clock adjusted by the
  peers. A C string is the list of its characters before the terminator. \<^verbatim>\<open>boost::lexical_cast\<close> is a
  parameter.
\<close>

unbundle bit_operations_syntax

section \<open>Hexadecimal text\<close>

text \<open>
  \<^verbatim>\<open>phexdigit\<close> of \<open>ParseHex\<close>: the row of the small letters has no comma at its end, so that its last
  entry and the first of the next row are one, \<open>-1 - 1\<close>, for the character \<open>o\<close>, the rows after it
  move up by one, and the last entry is zero.
\<close>

definition parse_digit :: "char \<Rightarrow> int" where
  "parse_digit c =
     (let n = of_char c :: int in
      if 48 \<le> n \<and> n \<le> 57 then n - 48 else if 65 \<le> n \<and> n \<le> 70 then n - 55
      else if 97 \<le> n \<and> n \<le> 102 then n - 87 else if n = 111 then - 2 else if n = 255 then 0 else - 1)"

function parse_hex_loop :: "string \<Rightarrow> byte list \<Rightarrow> byte list" where
  "parse_hex_loop psz vch =
     (case dropWhile space_char psz of [] \<Rightarrow> vch
      | a # rest \<Rightarrow>
          if parse_digit a = - 1 then vch
          else (case rest of [] \<Rightarrow> vch
                | b # rest' \<Rightarrow>
                    if parse_digit b = - 1 then vch
                    else parse_hex_loop rest'
                      (vch @ [push_bit 4 (word_of_int (parse_digit a)) OR word_of_int (parse_digit b)])))"
  by pat_completeness auto
termination
proof (relation "measure (\<lambda>(psz, _). length psz)", simp)
  fix psz :: string and vch a rest b rest'
  assume "dropWhile space_char psz = a # rest" "rest = b # rest'"
  moreover have "length (dropWhile space_char psz) \<le> length psz" by (rule length_dropWhile_le)
  ultimately show "((rest', vch @ [push_bit 4 (word_of_int (parse_digit a)) OR word_of_int (parse_digit b)]), psz, vch)
      \<in> measure (\<lambda>(psz, _). length psz)" by simp
qed

declare parse_hex_loop.simps [simp del]

definition c_str :: "string \<Rightarrow> string" where
  "c_str s = takeWhile (\<lambda>c. c \<noteq> CHR 0x00) s"

definition ParseHex :: "string \<Rightarrow> byte list" where
  "ParseHex str = parse_hex_loop (c_str str) []"

text \<open>The space after a byte is written after the last one too: \<^verbatim>\<open>p != pend\<close> holds in the loop.\<close>

definition HexStr :: "byte list \<Rightarrow> bool \<Rightarrow> string" where
  "HexStr vch fSpaces = concat (map (\<lambda>p. byte_hex p @ (if fSpaces then '' '' else [])) vch)"

definition long_digit :: "char \<Rightarrow> u64" where
  "long_digit c =
     (let n = of_char c :: nat in
      if 48 \<le> n \<and> n \<le> 57 then word_of_nat (n - 48) else if 65 \<le> n \<and> n \<le> 70 then word_of_nat (n - 55)
      else if 97 \<le> n \<and> n \<le> 102 then word_of_nat (n - 87) else - 1)"

text \<open>\<^verbatim>\<open>ret << 4\<close> of the 64-bit \<^verbatim>\<open>long\<close>, with the wrap-around of the machine.\<close>

fun hex2long_loop :: "u64 \<Rightarrow> string \<Rightarrow> u64" where
  "hex2long_loop ret [] = ret"
| "hex2long_loop ret (c # cs) =
     (if ret <s 0 then ret else hex2long_loop (push_bit 4 ret OR long_digit c) cs)"

definition hex2long :: "string \<Rightarrow> int" where
  "hex2long s = sint (hex2long_loop 0 (c_str s))"

section \<open>Decimal amounts\<close>

text \<open>\<^verbatim>\<open>lexical_cast\<close> of a 64-bit integer to text and back; \<open>None\<close>: \<^verbatim>\<open>bad_lexical_cast\<close>.\<close>

record lexical =
  to_text :: "int \<Rightarrow> string"
  of_text :: "string \<Rightarrow> int option"

definition INT64_MAX :: int where "INT64_MAX = 9223372036854775807"

fun decimal :: "nat \<Rightarrow> string" where
  "decimal n = (if n < 10 then [hex_char n] else decimal (n div 10) @ [hex_char (n mod 10)])"

declare decimal.simps [simp del]

definition is_digit :: "char \<Rightarrow> bool" where
  "is_digit c \<longleftrightarrow> (let n = of_char c :: nat in 48 \<le> n \<and> n \<le> 57)"

definition decimal_value :: "string \<Rightarrow> nat" where
  "decimal_value s = foldl (\<lambda>v c. 10 * v + (of_char c - 48)) 0 s"

definition lexical_documented :: "lexical \<Rightarrow> bool" where
  "lexical_documented lc \<longleftrightarrow>
     (\<forall>n. 0 \<le> n \<longrightarrow> to_text lc n = decimal (nat n)) \<and>
     (\<forall>s. s \<noteq> [] \<longrightarrow> (\<forall>c\<in>set s. is_digit c) \<longrightarrow> int (decimal_value s) \<le> INT64_MAX \<longrightarrow>
        of_text lc s = Some (int (decimal_value s)))"

definition ref_lexical :: lexical where
  "ref_lexical =
     \<lparr>to_text = (\<lambda>n. if n < 0 then CHR ''-'' # decimal (nat (- n)) else decimal (nat n)),
      of_text = (\<lambda>s. if s \<noteq> [] \<and> list_all is_digit s \<and> int (decimal_value s) \<le> INT64_MAX
                     then Some (int (decimal_value s)) else None)\<rparr>"

lemma ref_lexical_documented: "lexical_documented ref_lexical"
  by (auto simp: lexical_documented_def ref_lexical_def list_all_iff)

text \<open>\<^verbatim>\<open>power(10, _decimals)\<close> is an \<^verbatim>\<open>int\<close>: with more than nine decimals it overflows, and the
  model is of at most nine. The product and the sum are 64-bit, with the wrap-around of the machine.\<close>

definition format_amount :: "lexical \<Rightarrow> nat \<Rightarrow> u64 \<Rightarrow> string" where
  "format_amount lc decimals subunit =
     (let negative = subunit <s 0;
          subunit = (if negative then - subunit else subunit);
          str = to_text lc (sint subunit);
          len = length str;
          str = (if len < 1 + decimals then replicate (1 + decimals - len) (CHR ''0'') @ str else str);
          p = length str - decimals;
          str = take p str @ ''.'' @ drop p str
      in if negative then CHR ''-'' # str else str)"

definition parse_amount :: "lexical \<Rightarrow> nat \<Rightarrow> string \<Rightarrow> u64 option" where
  "parse_amount lc decimals str =
     (let negative = (str \<noteq> [] \<and> hd str = CHR ''-'');
          str = (if negative then drop 1 str else str);
          whole = takeWhile (\<lambda>c. c \<noteq> CHR ''.'') str
      in case of_text lc whole of None \<Rightarrow> None
         | Some w \<Rightarrow>
             let subunit = word_of_int (10 ^ decimals * w) :: u64 in
             case (if CHR ''.'' \<in> set str
                   then map_option (\<lambda>f. subunit + word_of_int f)
                     (of_text lc (take decimals (drop (length whole + 1) str @ replicate decimals (CHR ''0''))))
                   else Some subunit) of
               None \<Rightarrow> None
             | Some s \<Rightarrow> Some (if negative then - s else s))"

section \<open>The clock of the network\<close>

record time_data =
  setKnown :: "u32 list"
  vTimeOffsets :: "int list"
  nTimeOffset :: int
  fDone :: bool

definition no_time_data :: time_data where
  "no_time_data = \<lparr>setKnown = [], vTimeOffsets = [], nTimeOffset = 0, fDone = False\<rparr>"

definition GetAdjustedTime :: "time_data \<Rightarrow> int \<Rightarrow> int" where
  "GetAdjustedTime td now = now + nTimeOffset td"

text \<open>On the smallest number the negation overflows and gives that number back.\<close>

definition abs64 :: "int \<Rightarrow> int" where
  "abs64 n = (if n \<ge> 0 then n else if n = - INT64_MAX - 1 then n else - n)"

definition AddTimeData :: "time_data \<Rightarrow> u32 \<Rightarrow> u64 \<Rightarrow> u64 \<Rightarrow> time_data" where
  "AddTimeData td ip nTime now =
     (let nOffsetSample = sint (nTime - now) in
      if ip \<in> set (setKnown td) then td
      else
        let td = td\<lparr>setKnown := ip # setKnown td\<rparr>;
            offsets = (if vTimeOffsets td = [] then [0] else vTimeOffsets td) @ [nOffsetSample]
        in if length offsets \<ge> 5 \<and> length offsets mod 2 = 1 then
             (let offsets = sort offsets; nMedian = offsets ! (length offsets div 2);
                  td = td\<lparr>vTimeOffsets := offsets\<rparr>
              in if abs64 nMedian < 70 * 60 then td\<lparr>nTimeOffset := nMedian\<rparr>
                 else td\<lparr>nTimeOffset := 0,
                         fDone := fDone td \<or> \<not> list_ex (\<lambda>n. n \<noteq> 0 \<and> abs64 n < 5 * 60) offsets\<rparr>)
           else td\<lparr>vTimeOffsets := offsets\<rparr>)"


section \<open>Hexadecimal text is read back\<close>

lemma parse_digit_hex: "n < 16 \<Longrightarrow> parse_digit (hex_char n) = int n"
proof -
  assume "n < 16"
  then have "n \<in> set [0..<16]" by simp
  then show ?thesis
    by (simp add: upt_rec hex_char_def parse_digit_def Let_def) (elim disjE; simp)
qed

lemma parse_hex_space: "space_char c \<Longrightarrow> parse_hex_loop (c # s) vch = parse_hex_loop s vch"
  by (simp add: parse_hex_loop.simps [of "c # s"] parse_hex_loop.simps [of s])

lemma parse_hex_byte: "parse_hex_loop (byte_hex b @ s) vch = parse_hex_loop s (vch @ [b])"
proof -
  have "push_bit 4 (word_of_int (int (unat b div 16))) OR word_of_int (int (unat b mod 16)) = b"
    unfolding of_int_of_nat_eq or.commute [of "push_bit 4 (of_nat (unat b div 16))"] by (rule nibbles)
  then show ?thesis
    using byte_digits [of b] hex_char_facts [of "unat b div 16"]
    by (simp add: parse_hex_loop.simps [of "hex_char (unat b div 16) # hex_char (unat b mod 16) # s"] byte_hex_def parse_digit_hex)
qed

lemma parse_hex_HexStr: "parse_hex_loop (HexStr v sp) vch = vch @ v"
proof (induction v arbitrary: vch)
  case Nil
  then show ?case by (simp add: HexStr_def parse_hex_loop.simps)
next
  case (Cons b v)
  have "HexStr (b # v) sp = byte_hex b @ (if sp then '' '' else []) @ HexStr v sp" by (simp add: HexStr_def)
  moreover have "space_char (CHR '' '')" by (simp add: space_char_def)
  ultimately show ?case using Cons by (cases sp) (simp_all add: parse_hex_byte parse_hex_space)
qed

lemma HexStr_no_nul: "c_str (HexStr v sp) = HexStr v sp"
proof -
  have "\<forall>c\<in>set (HexStr v sp). c \<noteq> CHR 0x00"
    using hex_char_facts byte_digits by (auto simp: HexStr_def byte_hex_def split: if_splits)
  then show ?thesis by (simp add: c_str_def)
qed

text \<open>\<open>ParseHex\<close> reads back what \<open>HexStr\<close> prints, with and without spaces.\<close>

theorem hex_str_roundtrip: "ParseHex (HexStr v spaces) = v"
  by (simp add: ParseHex_def HexStr_no_nul parse_hex_HexStr)

text \<open>A text of the letter \<open>o\<close> is read as bytes: the missing comma of the table gives it a value.\<close>

theorem parse_hex_reads_o: "ParseHex (concat (replicate n ''oo'')) = replicate n 0xfe"
proof -
  have o: "(- 2 :: byte) = 0xfe" by (rule sym) (simp only: eq_neg_iff_add_eq_0, simp)
  have step: "parse_hex_loop (''oo'' @ s) vch = parse_hex_loop s (vch @ [- 2])" for s vch
    by (simp add: parse_hex_loop.simps [of "''oo'' @ s"] parse_hex_loop.simps [of "CHR ''o'' # CHR ''o'' # s"] space_char_def parse_digit_def)
  have "parse_hex_loop (concat (replicate n ''oo'')) vch = vch @ replicate n (- 2)" for vch
  proof (induction n arbitrary: vch)
    case 0
    then show ?case by (simp add: parse_hex_loop.simps)
  next
    case (Suc n)
    then show ?case using step [of "concat (replicate n ''oo'')" vch] by simp
  qed
  moreover have "c_str (concat (replicate n ''oo'')) = concat (replicate n ''oo'')"
    by (induction n) (simp_all add: c_str_def)
  ultimately show ?thesis by (simp add: ParseHex_def o [symmetric])
qed

section \<open>Amounts are read back\<close>

lemma decimal_value_append: "decimal_value (xs @ ys) = decimal_value xs * 10 ^ length ys + decimal_value ys"
proof (induction ys rule: rev_induct)
  case (snoc y ys)
  have s: "decimal_value (zs @ [y]) = 10 * decimal_value zs + (of_char y - 48)" for zs
    by (simp add: decimal_value_def)
  show ?case using snoc by (simp add: s append_assoc [symmetric] del: append_assoc)
qed (simp add: decimal_value_def)

lemma decimal_value_zeros: "decimal_value (replicate k (CHR ''0'') @ s) = decimal_value s"
proof -
  have "decimal_value (replicate k (CHR ''0'')) = 0"
    by (induction k) (simp_all add: decimal_value_append [of "[_]", simplified] decimal_value_def)
  then show ?thesis by (simp add: decimal_value_append)
qed

lemma digit_char: "n < 10 \<Longrightarrow> is_digit (hex_char n) \<and> (of_char (hex_char n) :: nat) - 48 = n"
proof -
  assume "n < 10"
  then have "n \<in> set [0..<10]" by simp
  then show ?thesis
    by (simp add: upt_rec hex_char_def is_digit_def Let_def) (elim disjE; simp)
qed

lemma decimal_digits: "(\<forall>c\<in>set (decimal n). is_digit c) \<and> decimal_value (decimal n) = n \<and> decimal n \<noteq> []"
proof (induction n rule: decimal.induct)
  case (1 n)
  show ?case
  proof (cases "n < 10")
    case True
    then show ?thesis using digit_char [of n] by (simp add: decimal.simps [of n] decimal_value_def)
  next
    case False
    have "decimal_value [hex_char (n mod 10)] = n mod 10" using digit_char [of "n mod 10"] by (simp add: decimal_value_def)
    then show ?thesis using False 1 digit_char [of "n mod 10"] by (simp add: decimal.simps [of n] decimal_value_append)
  qed
qed

lemma decimal_value_less: "\<forall>c\<in>set s. is_digit c \<Longrightarrow> decimal_value s < 10 ^ length s"
proof (induction s rule: rev_induct)
  case (snoc c s)
  have "decimal_value [c] < 10" using snoc.prems by (auto simp: is_digit_def Let_def decimal_value_def)
  then show ?case using snoc by (simp add: decimal_value_append)
qed (simp add: decimal_value_def)

lemma digit_not_point: "is_digit c \<Longrightarrow> c \<noteq> CHR ''.'' \<and> c \<noteq> CHR ''-''"
  by (auto simp: is_digit_def)


text \<open>The text of an amount without its sign: digits, the point, and as many digits as decimals.\<close>

lemma amount_text:
  fixes s :: string and m d :: nat
  assumes "s \<noteq> []" "\<forall>c\<in>set s. is_digit c" "decimal_value s = m"
  defines "str \<equiv> (if length s < 1 + d then replicate (1 + d - length s) (CHR ''0'') @ s else s)"
  shows "\<exists>w f. take (length str - d) str = w \<and> drop (length str - d) str = f \<and> w \<noteq> [] \<and> length f = d \<and>
    (\<forall>c\<in>set w \<union> set f. is_digit c) \<and> decimal_value w = m div 10 ^ d \<and> decimal_value f = m mod 10 ^ d"
proof -
  let ?p = "length str - d"
  have len: "1 + d \<le> length str" by (simp add: str_def)
  have dig: "\<forall>c\<in>set str. is_digit c" using assms(2) by (auto simp: str_def is_digit_def)
  have v: "decimal_value str = m" using assms(3) by (simp add: str_def decimal_value_zeros)
  have lf: "length (drop ?p str) = d" using len by simp
  have f: "decimal_value (drop ?p str) < 10 ^ d"
    using decimal_value_less [of "drop ?p str"] dig lf by (metis in_set_dropD)
  have "m = decimal_value (take ?p str) * 10 ^ d + decimal_value (drop ?p str)"
    using decimal_value_append [of "take ?p str" "drop ?p str"] v lf by simp
  then have "decimal_value (take ?p str) = m div 10 ^ d \<and> decimal_value (drop ?p str) = m mod 10 ^ d"
    using f by simp
  moreover have "take ?p str \<noteq> []" using len by (cases str) simp_all
  moreover have "\<forall>c\<in>set (take ?p str) \<union> set (drop ?p str). is_digit c"
    using dig by (auto dest: in_set_takeD in_set_dropD)
  ultimately show ?thesis using lf by blast
qed

lemma parse_unsigned:
  assumes "lexical_documented lc" "w \<noteq> []" "length f = d" "0 < d" "\<forall>c\<in>set w \<union> set f. is_digit c"
    and "int (decimal_value w) \<le> INT64_MAX" "int (decimal_value f) \<le> INT64_MAX"
  shows "parse_amount lc d (w @ CHR ''.'' # f) = Some (word_of_int (10 ^ d * int (decimal_value w)) + word_of_int (int (decimal_value f)))"
    and "parse_amount lc d (CHR ''-'' # w @ CHR ''.'' # f) = Some (- (word_of_int (10 ^ d * int (decimal_value w)) + word_of_int (int (decimal_value f))))"
proof -
  have d: "\<forall>c\<in>set w. c \<noteq> CHR ''.''" using assms(5) digit_not_point by blast
  then have t: "takeWhile (\<lambda>c. c \<noteq> CHR ''.'') (w @ CHR ''.'' # f) = w" by (simp add: takeWhile_append2)
  have h: "hd (w @ CHR ''.'' # f) \<noteq> CHR ''-''" using assms(2,5) digit_not_point by (cases w) auto
  have f: "f \<noteq> []" using assms(3,4) by auto
  have "of_text lc w = Some (int (decimal_value w))" "of_text lc f = Some (int (decimal_value f))"
    using assms(1,2,5,6,7) f by (simp_all add: lexical_documented_def)
  then show "parse_amount lc d (w @ CHR ''.'' # f) = Some (word_of_int (10 ^ d * int (decimal_value w)) + word_of_int (int (decimal_value f)))"
    and "parse_amount lc d (CHR ''-'' # w @ CHR ''.'' # f) = Some (- (word_of_int (10 ^ d * int (decimal_value w)) + word_of_int (int (decimal_value f))))"
    using h assms(3) by (simp_all add: parse_amount_def Let_def t)
qed

text \<open>An amount is read back from its text, for one to nine decimals and every amount but the smallest
  number of 64 bits.\<close>

theorem amount_roundtrip:
  assumes "lexical_documented lc" "0 < d" "d \<le> 9" "sint n \<noteq> - INT64_MAX - 1"
  shows "parse_amount lc d (format_amount lc d n) = Some n"
proof -
  define m where "m = nat \<bar>sint n\<bar>"
  have range: "- INT64_MAX - 1 \<le> sint n" "sint n \<le> INT64_MAX"
    using sint_ge [of n] sint_lt [of n] by (simp_all add: INT64_MAX_def)
  then have m: "int m \<le> INT64_MAX" using assms(4) by (auto simp: m_def INT64_MAX_def)
  have neg: "n <s 0 \<longleftrightarrow> sint n < 0" by (simp add: word_sless_alt)
  have "sint (if n <s 0 then - n else n) = int m"
  proof (cases "sint n < 0")
    case True
    have "sint (- n) = - sint n"
      using True assms(4) range
      by (simp add: sint_word_ariths signed_take_bit_int_eq_self_iff INT64_MAX_def)
    then show ?thesis using True neg by (simp add: m_def)
  qed (simp add: neg m_def)
  then have t: "to_text lc (sint (if n <s 0 then - n else n)) = decimal m"
    using assms(1) by (simp add: lexical_documented_def)
  define str where "str = (if length (decimal m) < 1 + d then replicate (1 + d - length (decimal m)) (CHR ''0'') @ decimal m else decimal m)"
  have fa: "format_amount lc d n = (if n <s 0 then [CHR ''-''] else []) @ take (length str - d) str @ CHR ''.'' # drop (length str - d) str"
    unfolding format_amount_def Let_def t str_def [symmetric] by simp
  obtain w f where wf: "format_amount lc d n = (if n <s 0 then [CHR ''-''] else []) @ w @ CHR ''.'' # f"
    "w \<noteq> []" "length f = d" "\<forall>c\<in>set w \<union> set f. is_digit c" "decimal_value w = m div 10 ^ d" "decimal_value f = m mod 10 ^ d"
    using amount_text [of "decimal m" m d, folded str_def] decimal_digits [of m] unfolding fa by blast
  have le: "int (decimal_value w) \<le> INT64_MAX" "int (decimal_value f) \<le> INT64_MAX"
  proof -
    have "m div 10 ^ d \<le> m" "m mod 10 ^ d \<le> m" by simp_all
    with m show "int (decimal_value w) \<le> INT64_MAX" "int (decimal_value f) \<le> INT64_MAX" unfolding wf by linarith+
  qed
  have "word_of_int (10 ^ d * int (decimal_value w)) + word_of_int (int (decimal_value f)) = (word_of_int (int m) :: u64)"
  proof -
    have "10 ^ d * int (m div 10 ^ d) + int (m mod 10 ^ d) = int m"
      by (simp add: of_nat_div of_nat_mod)
    then show ?thesis unfolding wf(5,6) by (metis of_int_add)
  qed
  note P = parse_unsigned [OF assms(1) wf(2,3) assms(2) wf(4) le, unfolded this]
  show ?thesis
  proof (cases "sint n < 0")
    case True
    then have "- (word_of_int (int m) :: u64) = n" by (simp add: m_def)
    then show ?thesis using P(2) True neg by (simp add: wf(1))
  next
    case False
    then have "(word_of_int (int m) :: u64) = n" by (simp add: m_def)
    then show ?thesis using P(1) False neg by (simp add: wf(1))
  qed
qed

theorem amount_roundtrip_witness:
  "parse_amount ref_lexical 8 (format_amount ref_lexical 8 (- 150000000)) = Some (- 150000000)"
  by (rule amount_roundtrip [OF ref_lexical_documented]) (simp_all add: INT64_MAX_def)

section \<open>The clock stays near the system's\<close>

definition clock_ok :: "time_data \<Rightarrow> bool" where
  "clock_ok td \<longleftrightarrow> \<bar>nTimeOffset td\<bar> < 70 * 60 \<and> (\<forall>n\<in>set (vTimeOffsets td). n \<noteq> - INT64_MAX - 1) \<and>
     distinct (setKnown td) \<and>
     length (vTimeOffsets td) = (if setKnown td = [] then 0 else Suc (length (setKnown td)))"

lemma abs64_abs: "n \<noteq> - INT64_MAX - 1 \<Longrightarrow> abs64 n = \<bar>n\<bar>"
  by (simp add: abs64_def)

lemma AddTimeData_ok:
  assumes "clock_ok td" "sint (nTime - now) \<noteq> - INT64_MAX - 1"
  shows "clock_ok (AddTimeData td ip nTime now)"
proof (cases "ip \<in> set (setKnown td)")
  case True
  then show ?thesis using assms by (simp add: AddTimeData_def Let_def)
next
  case False
  define os where "os = (if vTimeOffsets td = [] then [0] else vTimeOffsets td) @ [sint (nTime - now)]"
  have os: "\<forall>n\<in>set os. n \<noteq> - INT64_MAX - 1" using assms by (auto simp: os_def clock_ok_def INT64_MAX_def)
  have len: "length os = Suc (Suc (length (setKnown td)))"
    using assms(1) by (auto simp: os_def clock_ok_def split: if_splits)
  have med: "abs64 (sort os ! (length os div 2)) = \<bar>sort os ! (length os div 2)\<bar>"
  proof (rule abs64_abs)
    have "length os div 2 < length os" using len by simp
    then have "sort os ! (length os div 2) \<in> set os" by (metis length_sort nth_mem set_sort)
    then show "sort os ! (length os div 2) \<noteq> - INT64_MAX - 1" using os by blast
  qed
  have sel: "vTimeOffsets (td\<lparr>setKnown := k\<rparr>) = vTimeOffsets td" "setKnown (td\<lparr>setKnown := k\<rparr>) = k"
    "fDone (td\<lparr>setKnown := k, vTimeOffsets := v\<rparr>) = fDone td" "fDone (td\<lparr>setKnown := k\<rparr>) = fDone td" for k v
    by simp_all
  have eq: "AddTimeData td ip nTime now =
     (let td = td\<lparr>setKnown := ip # setKnown td\<rparr> in
      if length os \<ge> 5 \<and> length os mod 2 = 1 then
        (if abs64 (sort os ! (length os div 2)) < 70 * 60
         then td\<lparr>vTimeOffsets := sort os, nTimeOffset := sort os ! (length os div 2)\<rparr>
         else td\<lparr>vTimeOffsets := sort os, nTimeOffset := 0,
                  fDone := fDone td \<or> \<not> list_ex (\<lambda>n. n \<noteq> 0 \<and> abs64 n < 5 * 60) (sort os)\<rparr>)
      else td\<lparr>vTimeOffsets := os\<rparr>)"
    using False unfolding AddTimeData_def Let_def os_def by (simp only: if_False sel length_sort)
  have "distinct (ip # setKnown td)" "\<bar>nTimeOffset td\<bar> < 70 * 60" using False assms(1) by (simp_all add: clock_ok_def)
  then show ?thesis unfolding eq Let_def clock_ok_def med using os len by simp
qed

text \<open>Whatever the peers report, the adjusted time stays within seventy minutes of the system's, and every
  peer counts once; a report whose distance from our clock is the smallest number of 64 bits is excluded.\<close>

theorem adjusted_time_bounded:
  assumes "list_all (\<lambda>(ip, t, now). sint (t - now) \<noteq> - INT64_MAX - 1) reports"
  shows "let td = foldl (\<lambda>td (ip, t, now). AddTimeData td ip t now) no_time_data reports
    in \<bar>GetAdjustedTime td now - now\<bar> < 70 * 60 \<and> distinct (setKnown td) \<and>
       length (vTimeOffsets td) \<le> Suc (length (setKnown td))"
proof -
  have "clock_ok (foldl (\<lambda>td (ip, t, now). AddTimeData td ip t now) td reports)" if "clock_ok td" for td
    using that assms by (induction reports arbitrary: td) (auto simp: AddTimeData_ok)
  from this [of no_time_data] show ?thesis
    by (auto simp: clock_ok_def no_time_data_def GetAdjustedTime_def Let_def split: if_splits)
qed

text \<open>Five samples, zero among them, whose median is used.\<close>

theorem adjusted_time_bounded_witness:
  "let td = foldl (\<lambda>td (ip, t, now). AddTimeData td ip t now) no_time_data
       [(1, 1100, 1000), (2, 1060, 1000), (3, 940, 1000), (3, 0, 1000), (4, 9000, 1000)]
   in \<bar>GetAdjustedTime td 1000 - 1000\<bar> < 70 * 60 \<and> distinct (setKnown td) \<and>
      length (vTimeOffsets td) \<le> Suc (length (setKnown td))"
  by (rule adjusted_time_bounded) (simp add: INT64_MAX_def)

end
