(* ===== verification/ChainRules.thy ===== *)
theory ChainRules
  imports AuxPow BlockTree Coinbase Util
begin

text \<open>
  The rules of the chains, \<^verbatim>\<open>include/coinChain/Chain.h\<close> and \<^verbatim>\<open>src/coinChain/Chain.cpp\<close>:
  the checks that need no context, the subsidy, standard transactions, proof of work and the next
  difficulty. Every virtual function is one definition, with a case for each of the seven chains.
  The clock is an argument; the Scrypt hash of a header, the mersenne twister of the random subsidy,
  SHA256 and OpenSSL's numbers are parameters.
\<close>

unbundle bit_operations_syntax

datatype chain = Bitcoin | Testnet3 | Namecoin | Litecoin | Terracoin | Dogecoin | Dogetest

definition all_chains :: "chain list" where
  "all_chains = [Bitcoin, Testnet3, Namecoin, Litecoin, Terracoin, Dogecoin, Dogetest]"

fun chain_name :: "chain \<Rightarrow> string" where
  "chain_name Bitcoin = ''bitcoin''" | "chain_name Testnet3 = ''testnet3''"
| "chain_name Namecoin = ''namecoin''" | "chain_name Litecoin = ''litecoin''"
| "chain_name Terracoin = ''terracoin''" | "chain_name Dogecoin = ''dogecoin''"
| "chain_name Dogetest = ''dogetest''"

text \<open>The chains that a \<^verbatim>\<open>RegisterChain\<close> object inserts, and the choice by name; \<open>None\<close> is the
  exception of an unknown name.\<close>

definition registered :: "chain list" where
  "registered = [Bitcoin, Testnet3, Namecoin, Litecoin, Dogecoin, Dogetest]"

definition select_chain :: "string \<Rightarrow> chain option" where
  "select_chain name = List.find (\<lambda>c. chain_name c = name) registered"

section \<open>Constants of the chains\<close>

fun max_money :: "chain \<Rightarrow> int" where
  "max_money Terracoin = 8400000000000000"
| "max_money Dogecoin = 1000000000000000000"
| "max_money Dogetest = 1000000000000000000"
| "max_money _ = 2100000000000000"

definition max_block_size :: nat where "max_block_size = 1000000"

definition range :: "chain \<Rightarrow> int \<Rightarrow> bool" where
  "range c v \<longleftrightarrow> v \<ge> 0 \<and> v \<le> max_money c"

fun min_fee :: "chain \<Rightarrow> int" where
  "min_fee Bitcoin = 10000" | "min_fee Namecoin = 500000" | "min_fee Litecoin = 500000"
| "min_fee Dogecoin = 100000000" | "min_fee Dogetest = 100000000" | "min_fee _ = 0"

fun maturity :: "chain \<Rightarrow> int \<Rightarrow> int" where
  "maturity Dogecoin height = (if height \<ge> 145000 then 60 * 4 else 30)"
| "maturity Dogetest height = (if height \<ge> 145000 then 60 * 4 else 30)"
| "maturity _ height = 100"

datatype change_id = BIP0016 | BIP0030

fun timeStamp :: "chain \<Rightarrow> change_id \<Rightarrow> int" where
  "timeStamp Bitcoin i = (case i of BIP0016 \<Rightarrow> 1333238400 | BIP0030 \<Rightarrow> 1331769600)"
| "timeStamp Namecoin i = (case i of BIP0016 \<Rightarrow> 1333238400 | BIP0030 \<Rightarrow> 1331769600)"
| "timeStamp Testnet3 i = (case i of BIP0016 \<Rightarrow> 1329264000 | BIP0030 \<Rightarrow> 1329696000)"
| "timeStamp _ i = 1349049600"

fun duplicateTx :: "chain \<Rightarrow> int \<Rightarrow> int" where
  "duplicateTx Bitcoin cnf = (if cnf = -91723 then -91881 else if cnf = -91813 then -91843 else cnf)"
| "duplicateTx _ cnf = cnf"

text \<open>Quorum and majority for accepting, and for enforcing, a block version.\<close>

fun accept_votes :: "chain \<Rightarrow> nat \<times> nat" where
  "accept_votes Bitcoin = (1000, 950)" | "accept_votes Terracoin = (1000, 950)"
| "accept_votes Testnet3 = (100, 75)" | "accept_votes _ = (1000, 1001)"

fun enforce_votes :: "chain \<Rightarrow> nat \<times> nat" where
  "enforce_votes Bitcoin = (1000, 750)" | "enforce_votes Terracoin = (1000, 750)"
| "enforce_votes Testnet3 = (100, 51)" | "enforce_votes _ = (1000, 1001)"

definition maxInterBlockTime :: "chain \<Rightarrow> int" where
  "maxInterBlockTime c = (if c = Testnet3 then 2 * 10 * 60 else INT_MAX)"

definition adhere_aux_pow :: "chain \<Rightarrow> bool" where
  "adhere_aux_pow c \<longleftrightarrow> c = Namecoin \<or> c = Dogecoin"

definition adhere_names :: "chain \<Rightarrow> bool" where
  "adhere_names c \<longleftrightarrow> c = Namecoin"

definition enforce_name_rules :: "chain \<Rightarrow> int \<Rightarrow> bool" where
  "enforce_name_rules c n \<longleftrightarrow> c = Namecoin \<and> (if n > 500000000 then n > 1386499470 else n > 150000)"

text \<open>\<open>None\<close>: a shift by a negative amount, for a negative height. Heights are unbounded; the code's
  are an \<^verbatim>\<open>int\<close>, and four times one stays below \<open>2 ^ 31\<close> up to block 536870911.\<close>

definition network_fee :: "chain \<Rightarrow> int \<Rightarrow> int option" where
  "network_fee c n =
     (if c \<noteq> Namecoin then Some 0
      else
        let height = n - 1;
            height = (if height \<ge> 24000 then height + (height - 24000) * 3 else height);
            epoch = height div 8192
        in if epoch \<ge> 60 then Some 0
           else if height < 0 then None
           else let res = (50 * tx_COIN) div 2 ^ nat epoch
                in Some (res - (res div 2 ^ 14) * (height mod 8192)))"

definition expirationDepth :: "chain \<Rightarrow> int \<Rightarrow> int" where
  "expirationDepth c n =
     (if c \<noteq> Namecoin then 0
      else let height = n - 1
           in if height < 24000 then 12000 else if height < 48000 then height - 12000 else 36000)"

definition proofOfWorkLimit :: "bn_lib \<Rightarrow> chain \<Rightarrow> int" where
  "proofOfWorkLimit bn c =
     setuint256 bn (drop_bit (if c = Litecoin \<or> c = Dogecoin \<or> c = Dogetest then 20 else 32) (- 1))"

section \<open>Checkpoints\<close>

definition bitcoin_checkpoints :: "(int \<times> uint256) list" where
  "bitcoin_checkpoints =
     [(11111, 0x69e244f73d78e8fd29ba2fd2ed618bd6fa2ee92559f542fdb26e7c1d),
      (33333, 0x2dd5588a74784eaa7ab0507a18ad16a236e7b1ce69f00d7ddfb5d0a6),
      (68555, 0x1e1b4903550a0b96e9a9405c8a95f387162e4944e8d9fbe501cd6a),
      (70567, 0x6a49b14bcf27462068f1264c961f11fa2e0eddd2be0791e1d4124a),
      (74000, 0x573993a3c9e41ce34471c079dcf5f52a0e824a81e7f953b8661a20),
      (105000, 0x291ce28027faea320c8d2b054b2e0fe44a773f3eefb151d6bdc97),
      (118000, 0x774a7f8a7a12dc906ddb9e17e75d684f15e00f8767f9e8f36553),
      (134444, 0x5b12ffd4cd315cd34ffd4a594f430ac814c91184a0d42d2b0fe),
      (140700, 0x33b512028abb90e1626d8b346fd0ed598ac0a3c371138dce2bd),
      (168000, 0x99e61ea72015e79632f216fe6cb33d7899acb35b75c8303b763),
      (193000, 0x59f452a5f7340de6682a977387c17010ff6e6c3bd83ca8b1317),
      (210000, 0x48b95347e83192f69cf0366076336c639f9b7228e9ba171342e),
      (216116, 0x1b4f4b433e81ee46494af945cf96014816a4e2370f11b23df4e),
      (225430, 0x1c108384350f74090433e7fcf79a606b8e797f065b130575932),
      (250000, 0x3887df1f29024b06fc2200b55f8af8f35453d7be294df2d214),
      (279000, 0x1ae8c72a0b0c301f67e3afca10e819efa9041e458e9bd7e40),
      (295000, 0x4d9b4ef50f0f9d686fd69db2e03af35a100370c64632a983)]"

definition testnet3_checkpoints :: "(int \<times> uint256) list" where
  "testnet3_checkpoints =
     [(546, 0x2a936ca763904c3c35fce2f3556c559c0214345d31b1bcebf76acb70),
      (2016, 0x89d757fd95d79f7fcc2bc25ca7fc16492dca9aa610730ea05d9d3de9),
      (4032, 0x1af3b22a7598b10574deb6b3e2d596f36d62b0a49cb89a1f99ab81eb),
      (6048, 0xbe66197ad285aedd52e56036f28d595fe281858bc5d562173d4d6de),
      (8064, 0x118da1e2165a19307b86f87eba814845e8a0f99734dce279ca3fb029),
      (10080, 0x7c4fc01a14af8067762fb807144b1b59cd4ec79ffc61efae3439757d),
      (51000, 0xba96cf383b6a372e843d61d00f461b2e67c2181938ba8a2ebe7f1d2),
      (101000, 0x381fb63636f367615251da84cb729a47fb0b1a4fb870b44485eaf1),
      (151000, 0x1124fa27eca4c692c2493e88d93b366f4035b560586cd8aa9726c6),
      (201000, 0xb5d8920d803a70efdaf04be2bde49946181900821cd792e1dd27c5),
      (251000, 0x651c576426da716ebd9f26f7ebe41e714eedeeef32575177b84bfa3),
      (281000, 0x6e28c6b63c4299a8a37f0c66cc528f6e9fc7992e0be31f141ce1ac4d)]"

definition namecoin_checkpoints :: "(int \<times> uint256) list" where
  "namecoin_checkpoints =
     [(2016, 0x660bad0d9fbde55ba7ee14ddf766ed5f527e3fbca523ac11460b92),
      (4032, 0x493b5696ad482deb79da835fe2385304b841beef1938655ddbc411),
      (6048, 0x27939a2e1d8bb63f36c47da858e56d570f143e67e85068943470c9),
      (8064, 0x3a01f708da7396e54d081701ea406ed163e519589717d8b7c95a5),
      (10080, 0xfed3899f818b2228b4f01b9a0a7eeee907abd172852df71c64b06),
      (12096, 0x6c06988ff361f124314f9f4bb45b6997d90a7ee4cedf434c670f),
      (14112, 0x45d95e0588c47c17d593c7b5cb4fb1e56213d1b3843c1773df2b),
      (16128, 0x1d9964f9483f9096cf9d6c6c2886ed1e5dec95ad2aeec3ce72fa9),
      (18940, 0x87f7fc0c8085217503ba86f796fa4984f7e5a08b6c4c12906c05),
      (30240, 0xe1c8c862ff342358384d4c22fa6ea5f669f3e1cdcf34111f8017371c3c0be1da),
      (57000, 0xaa3ec60168a0200799e362e2b572ee01f3c3852030d07d036e0aa884ec61f203),
      (112896, 0x73f880e78a04dd6a31efc8abf7ca5db4e262c4ae130d559730d6ccb8808095bf),
      (182000, 0xd47b4a8fd282f635d66ce34ebbeb26ffd64c35b41f286646598abfd813cba6d9),
      (193000, 0x3b85e70ba7f5433049cfbcf0ae35ed869496dbedcd1c0fafadb0284ec81d7b58)]"

definition litecoin_checkpoints :: "(int \<times> uint256) list" where
  "litecoin_checkpoints =
     [(1, 0x80ca095ed10b02e53d769eb6eaf92cd04e9e0759e5be4a8477b42911ba49c78f),
      (2, 0x13957807cdd1d02f993909fa59510e318763f99a506c4c426e3b254af09f40d7),
      (1500, 0x841a2965955dd288cfa707a755d05a54e45f8bd476835ec9af4402a2b59a2967),
      (4032, 0x9ce90e427198fc0ef05e5905ce3503725b80e26afd35a987965fd7e3d9cf0846),
      (8064, 0xeb984353fc5190f210651f150c40b8a4bab9eeeff0b729fcb3987da694430d70),
      (16128, 0x602edf1859b7f9a6af809f1d9b0e6cb66fdc1d4d9dcd7a4bec03e12a1ccd153d),
      (23420, 0xd80fdf9ca81afd0bd2b2a90ac3a9fe547da58f2530ec874e978fce0b5101b507),
      (50000, 0x69dc37eb029b68f075a5012dcc0419c127672adb4f3a32882b2b3e71d07a20a6),
      (80000, 0x4fcb7c02f676a300503f49c764a89955a8f920b46a8cbecb4867182ecdb2e90a),
      (120000, 0xbd9d26924f05f6daa7f0155f32828ec89e8e29cee9e7121b026a7a3552ac6131),
      (161500, 0xdbe89880474f4bb4f75c227c77ba1cdc024991123b28b8418dbbf7798471ff43),
      (179620, 0x2ad9c65c990ac00426d18e446e0fd7be2ffa69e9a7dcb28358a50b2b78b9f709)]"

definition terracoin_checkpoints :: "(int \<times> uint256) list" where
  "terracoin_checkpoints =
     [(0, 0x804bbc6a621a9dbb564ce469f492e1ccf2d70f8a6b241e26a277afa2),
      (1, 0xfbc1c60a7610c894f98d102390e9e00cc18caced4eb4198ec0c3645),
      (31, 0x45341e3ebdfa180e4a0f1e4da23829609517a3673b4a796714a7593),
      (104, 0x6afe30806352f2015829527dd91f19fbc2d28f799c3ad61c37746fdb),
      (355, 0xc0e178ddd6a8f15724f37470428c233883c302267299b21fb5d237),
      (721, 0x27671a417f3d3eafac6d150f0b2ccba37f0b63f75bc657ec25950ed),
      (2000, 0x283ecd683fe30d4542929a78873df7818029793f84e9c65dc337d94),
      (3000, 0x317b69ff2a56284442fede7ffa66f75d000f1cf34171ad671db4b6),
      (4000, 0x1190cad5d66d028b6afcf22db58d2b5c17abf2bf2e1353be13097d),
      (4255, 0x18b3ba5b241f3e88b4a88e580f9e7dd0fc7fc786ff22c586e53dd9),
      (5631, 0x1243509866938e344c0010bd88b156da27ef9d707cb1f1698f2a32),
      (6000, 0xc1abfd7c29d07e23ef52631c6874e42e6a240a4d3678d9c716d81),
      (7395, 0x5d8e1281d6b28fe6b504ab81e7e3ec561e97b7a98973e449f7fb),
      (8001, 0x1ca63707536b6dfc8ba4c5aa7fce19b6295ef73e195554cdb92d44),
      (8157, 0x1303998da2714abf02159f1421103e77fee3b876d69c0fa7b108d9),
      (12311, 0x2b5708fefdceb5db42cd2135eaf23f23a95c285e8f310262f8d639),
      (13224, 0x765c69f777ccbc44fab23edab9126f1b4ec5078450aebc3809c36),
      (14401, 0x388541b88c57883a480fd6cfa7b93f68e0c71538b08b2c4d875fa2),
      (15238, 0xae09d46bc1a9c5ca4c7b5e51bf23d3108926daa140d64355d390),
      (18426, 0x1fb1c075dbfa27f7ba83928a2d35152ccae59c742f698fb8cb8108),
      (19114, 0x22224f57adecffdc8f5cffb3b932838310aefdd12aaabcc6122259),
      (20124, 0x2374e0e1fcee28b520dff3f3e86cb7ff7afdea112aaf2002101900),
      (21711, 0x2189b0ae139b8c449bbcb99d520b8a798b7e0f0ff8ab8539e9bcb4),
      (22100, 0x142ace7d8db003da69191896986c5564e604e3100d14c17daaf90f),
      (22566, 0xc28dc052d277d18e104e4e63c53e4018273b3af49f772af205d43),
      (24076, 0x522702c7f0ee6fa2ce3978cc0f3056ecc73d8cde1035891c5c4d5),
      (25372, 0x202428a01ad6b8a2e256162b5bba35efd1e7f45dc42dbf5861f784),
      (25538, 0x2faa5586493e3821d90482348b0462d625d03d086a4a2a2301f6ef),
      (26814, 0x179b0ed2a7d4390ff2c6213f1c522790b4e084a4e2036b53e6765b),
      (28326, 0x141af96e4ab491d6534a6740491d62799b1669418d33bb007acfd7),
      (28951, 0x2404c991c7f9e1d641e8938f1ab704a3f9e1d22589d817948a202f),
      (30765, 0x4be710d96035855f406c1393c922d5948d82dce494368e3993c76a),
      (32122, 0x109367e18d9c9762cdb8bfb3c524628ad2ce9bcb02a6a9bfa13e39),
      (33526, 0x406137d7afb03df768f0c6d7ab1efdbc14325d018b62b7ef17fa1c),
      (34310, 0x325205f89b7685639fc997248cbaf8dbf2d53ad2e00f98948de58c),
      (35277, 0x214b28bc7b1ea230417442417d2381673bcec4ac3ef87c6d0b9f8),
      (36341, 0x143a6fd244037ebf301c6898f34c6db428916057eadddec4e35061),
      (51013, 0x2afdd383affb15708fd329feaa68fdabe477bce4eceec7525dc7f2),
      (63421, 0x20867e3050e7f4b4402c578215a2174723f614d31d5f21eb61a173),
      (67755, 0x1151bbacf6f169312aaa0c71e0f71765ceb4e8ebffabc219993ba7),
      (69198, 0x41498e3911ccbd9aee327bb9bc58dcdf4cd51956909ce5575fccf5),
      (71945, 0x6d1cb2ad6700614c54a962bbe7d6baeb02c227b9dda2e0a59077da),
      (74654, 0x1b274b44531f13d5a023ae0450e765e403893c64aea7c6c21eec8e),
      (77505, 0x3be70f239212ba753a1fdd985fee027e276556619eeb40a771c151),
      (95971, 0x9d877e435995db1565558e30a7f8ee220cad5d0a4a055d0ebb8bf),
      (106681, 0xd081d43eb74429e7344f18c4300796faaa54f5432c4976a9fc2b),
      (106685, 0x17e88ad9cf01e74941a134434bf0c39ef254498e4cbb754b604f),
      (106693, 0x271eb870d1573f3c1e1ba4c33a56f80333b89219d8affb2a8dadc),
      (106715, 0x12d109bfe2a5b464defb0214b5b25090acb9cc0fd9ca054c53d6a),
      (106725, 0x7c734700d0be1f0c2358f57a009752257da8dcc2206185e9a580a),
      (106748, 0x148fc833528722f41af106c08ed2da67e777f5a6b8ec2d60d695),
      (106753, 0x3cb9976d3785c2960728bdd67d4ddfce640682b9c9c4df8582d9),
      (106759, 0x2ed231df0f8c4f21f2a73eeacbbc88f411b438ad4fd4b60418c42),
      (107368, 0x9062fe1b4c0654b3d152282545aa8beba3c0e4981d9dfa71b1eaa),
      (108106, 0x282bf4e2bd0571c42165a67ffede3b81f2387e301369162107020),
      (110197, 0x2d863064910c8964f5d8e2883aca9760c19368fe043263e2bfdd)]"

definition dogecoin_checkpoints :: "(int \<times> uint256) list" where
  "dogecoin_checkpoints =
     [(0, 0x1a91e3dace36e2be3bf030a65679fe821aa1d6ef92e7c9902eb318182c355691),
      (42279, 0x8444c3ef39a46222e87584ef956ad2c9ef401578bd8b51e8e4b9a86ec3134d3a),
      (42400, 0x557bb7c17ed9e6d4a6f9361cfddf7c1fc0bdc394af7019167442b41f507252b4),
      (104679, 0x35eb87ae90d44b98898fec8c39577b76cb1eb08e1261cfc10706c8ce9a1d01cf),
      (128370, 0x3f9265c94cab7dc3bd6a2ad2fb26c8845cb41cff437e0a75ae006997b4974be6),
      (145000, 0xcc47cae70d7c5c92828d3214a266331dde59087d4a39071fa76ddfff9b7bde72),
      (165393, 0x7154efb4009e18c1c6a6a79fc6015f48502bcd0a1edd9c20e44cd7cbbe2eeef1),
      (186774, 0x3c712c49b34a5f34d4b963750d6ba02b73e8a938d2ee415dcda141d89f5cb23a),
      (199992, 0x3408ff829b7104eebaf61fd2ba2203ef2a43af38b95b353e992ef48f00ebb190),
      (225000, 0xbe148d9c5eab4a33392a6367198796784479720d06bfdd07bd547fe934eea15a),
      (250000, 0xe4bcfe8d970979f7e30e2809ab51908d435677998cf759169407824d4f36460),
      (270639, 0xc587a36dd4f60725b9dd01d99694799bef111fc584d659f6756ab06d2a90d911),
      (299742, 0x1cc89c0c8a58046bf0222fe131c099852bd9af25a80e07922918ef5fb39d6742),
      (323141, 0x60c9f919f9b271add6ef5671e9538bad296d79f7fdc6487ba702bf2ba131d31d),
      (339202, 0x8c29048df5ae9df38a67ea9470fdd404d281a3a5c6f33080cd5bf14aa496ab03)]"

definition dogetest_checkpoints :: "(int \<times> uint256) list" where
  "dogetest_checkpoints =
     [(0, 0xbb0a78264637406b6360aad926284d544d7049f45189db5664f3c4d07350559e),
      (42279, 0x8444c3ef39a46222e87584ef956ad2c9ef401578bd8b51e8e4b9a86ec3134d3a),
      (42400, 0x557bb7c17ed9e6d4a6f9361cfddf7c1fc0bdc394af7019167442b41f507252b4)]"

fun checkpoints :: "chain \<Rightarrow> (int \<times> uint256) list" where
  "checkpoints Bitcoin = bitcoin_checkpoints"
| "checkpoints Testnet3 = testnet3_checkpoints"
| "checkpoints Namecoin = namecoin_checkpoints"
| "checkpoints Litecoin = litecoin_checkpoints"
| "checkpoints Terracoin = terracoin_checkpoints"
| "checkpoints Dogecoin = dogecoin_checkpoints"
| "checkpoints Dogetest = dogetest_checkpoints"

definition checkPoints :: "chain \<Rightarrow> u32 \<Rightarrow> uint256 \<Rightarrow> bool" where
  "checkPoints c height hash =
     (case map_of (checkpoints c) (sint height) of None \<Rightarrow> True | Some h \<Rightarrow> hash = h)"

text \<open>\<^verbatim>\<open>TestNet3Chain\<close> does not override the default.\<close>

definition totalBlocksEstimate :: "chain \<Rightarrow> int" where
  "totalBlocksEstimate c = (if c = Testnet3 then 0 else fst (last (checkpoints c)))"

section \<open>Genesis blocks\<close>

record genesis =
  gen_prefix :: u64
  gen_number :: int
  gen_text :: string
  gen_key :: string
  gen_coins :: u64
  gen_time :: u32
  gen_bits :: u32
  gen_nonce :: u32

definition bitcoin_genesis :: "genesis" where
  "bitcoin_genesis =
     \<lparr>gen_prefix = 0x1d00ffff, gen_number = 4,
      gen_text = ''The Times 03/Jan/2009 Chancellor on brink of second bailout for banks'',
      gen_key = ''04678afdb0fe5548271967f1a67130b7105cd6a828e03909a67962e0ea1f61deb649f6bc3f4cef38c4f35504e51ec112de5c384df7ba0b8d578a4c702b6bf11d5f'',
      gen_coins = 50, gen_time = 1231006505, gen_bits = 0x1d00ffff, gen_nonce = 2083236893\<rparr>"

definition testnet3_genesis :: "genesis" where
  "testnet3_genesis =
     \<lparr>gen_prefix = 0x1d00ffff, gen_number = 4,
      gen_text = ''The Times 03/Jan/2009 Chancellor on brink of second bailout for banks'',
      gen_key = ''04678afdb0fe5548271967f1a67130b7105cd6a828e03909a67962e0ea1f61deb649f6bc3f4cef38c4f35504e51ec112de5c384df7ba0b8d578a4c702b6bf11d5f'',
      gen_coins = 50, gen_time = 1296688602, gen_bits = 0x1d00ffff, gen_nonce = 414098458\<rparr>"

definition namecoin_genesis :: "genesis" where
  "namecoin_genesis =
     \<lparr>gen_prefix = 0x1c007fff, gen_number = 522,
      gen_text = ''... choose what comes next.  Lives of your own, or a return to chains. -- V'',
      gen_key = ''04b620369050cd899ffbbc4e8ee51e8c4534a855bb463439d63d235d4779685d8b6f4870a238cf365ac94fa13ef9a2a22cd99d0d5ee86dcabcafce36c7acf43ce5'',
      gen_coins = 50, gen_time = 1303000001, gen_bits = 0x1c007fff, gen_nonce = 0xa21ea192\<rparr>"

definition litecoin_genesis :: "genesis" where
  "litecoin_genesis =
     \<lparr>gen_prefix = 486604799, gen_number = 4,
      gen_text = ''NY Times 05/Oct/2011 Steve Jobs, Apple'' @ [CHR 0xE2, CHR 0x80, CHR 0x99] @ ''s Visionary, Dies at 56'',
      gen_key = ''040184710fa689ad5023690c80f3a49c8f13f8d45b8c857fbcbc8bc4a8e4d3eb4b10f4d4604fa08dce601aaf0f470216fe1b51850b4acf21b179c45070ac7b03a9'',
      gen_coins = 50, gen_time = 1317972665, gen_bits = 0x1e0ffff0, gen_nonce = 2084524493\<rparr>"

definition terracoin_genesis :: "genesis" where
  "terracoin_genesis =
     \<lparr>gen_prefix = 486604799, gen_number = 4,
      gen_text = ''June 4th 1978 - March 6th 2009 ; Rest In Peace, Stephanie.'',
      gen_key = ''04678afdb0fe5548271967f1a67130b7105cd6a828e03909a67962e0ea1f61deb649f6bc3f4cef38c4f35504e51ec112de5c384df7ba0b8d578a4c702b6bf11d5f'',
      gen_coins = 50, gen_time = 1351242683, gen_bits = 0x1d00ffff, gen_nonce = 0xa81b842a\<rparr>"

definition dogecoin_genesis :: "genesis" where
  "dogecoin_genesis =
     \<lparr>gen_prefix = 486604799, gen_number = 4,
      gen_text = ''Nintondo'',
      gen_key = ''040184710fa689ad5023690c80f3a49c8f13f8d45b8c857fbcbc8bc4a8e4d3eb4b10f4d4604fa08dce601aaf0f470216fe1b51850b4acf21b179c45070ac7b03a9'',
      gen_coins = 88, gen_time = 1386325540, gen_bits = 0x1e0ffff0, gen_nonce = 99943\<rparr>"

definition dogetest_genesis :: "genesis" where
  "dogetest_genesis =
     \<lparr>gen_prefix = 486604799, gen_number = 4,
      gen_text = ''Nintondo'',
      gen_key = ''040184710fa689ad5023690c80f3a49c8f13f8d45b8c857fbcbc8bc4a8e4d3eb4b10f4d4604fa08dce601aaf0f470216fe1b51850b4acf21b179c45070ac7b03a9'',
      gen_coins = 88, gen_time = 1391503289, gen_bits = 0x1e0ffff0, gen_nonce = 997879\<rparr>"

fun genesis_data :: "chain \<Rightarrow> genesis" where
  "genesis_data Bitcoin = bitcoin_genesis"
| "genesis_data Testnet3 = testnet3_genesis"
| "genesis_data Namecoin = namecoin_genesis"
| "genesis_data Litecoin = litecoin_genesis"
| "genesis_data Terracoin = terracoin_genesis"
| "genesis_data Dogecoin = dogecoin_genesis"
| "genesis_data Dogetest = dogetest_genesis"

definition genesis_tx :: "bn_lib \<Rightarrow> genesis \<Rightarrow> transaction" where
  "genesis_tx bn g =
     \<lparr>tx_version = 1,
      tx_inputs =
        [\<lparr>prevout = null_coin,
          signature = push_int64 bn (gen_prefix g) @ push_data (getvch bn (gen_number g))
                      @ push_data (map of_char (gen_text g)),
          input_sequence = UINT_MAX\<rparr>],
      tx_outputs =
        [\<lparr>out_value = gen_coins g * 100000000, out_script = push_data (ParseHex (gen_key g)) @ [OP_CHECKSIG]\<rparr>],
      tx_lockTime = 0\<rparr>"

definition genesisBlock :: "bn_lib \<Rightarrow> digest_fn \<Rightarrow> chain \<Rightarrow> block" where
  "genesisBlock bn sha c =
     (let g = genesis_data c
      in updateMerkleTree sha
           (addTransaction
             \<lparr>header = \<lparr>bh_version = 1, bh_prevBlock = 0, bh_merkleRoot = 0, bh_time = gen_time g, bh_bits = gen_bits g,
                        bh_nonce = gen_nonce g\<rparr>,
              transactions = [], merkleTree = []\<rparr> (genesis_tx bn g)))"

section \<open>The checks without context\<close>

datatype check_error = Vin_empty | Vout_empty | Tx_size | Value_negative | Value_too_high | Total_out_of_range
  | Duplicate_inputs | Coinbase_script_size | Prevout_null
  | Block_size | Time_too_far | First_not_coinbase | More_than_one_coinbase | Too_many_sigops | Merkle_mismatch

text \<open>The amounts are 64-bit; their running total is kept at its width.\<close>

fun check_outputs :: "chain \<Rightarrow> u64 \<Rightarrow> tx_out list \<Rightarrow> check_error + unit" where
  "check_outputs c nValueOut [] = Inr ()"
| "check_outputs c nValueOut (out # outs) =
     (if out_value out <s 0 then Inl Value_negative
      else if sint (out_value out) > max_money c then Inl Value_too_high
      else
        let nValueOut = nValueOut + out_value out
        in if \<not> range c (sint nValueOut) then Inl Total_out_of_range else check_outputs c nValueOut outs)"

fun check_duplicates :: "coin set \<Rightarrow> tx_in list \<Rightarrow> check_error + unit" where
  "check_duplicates seen [] = Inr ()"
| "check_duplicates seen (i # is) =
     (if prevout i \<in> seen then Inl Duplicate_inputs else check_duplicates (insert (prevout i) seen) is)"

fun check_prevouts :: "tx_in list \<Rightarrow> check_error + unit" where
  "check_prevouts [] = Inr ()"
| "check_prevouts (i # is) = (if coin_isNull (prevout i) then Inl Prevout_null else check_prevouts is)"

definition check_tx :: "chain \<Rightarrow> transaction \<Rightarrow> check_error + unit" where
  "check_tx c txn =
     (if tx_inputs txn = [] then Inl Vin_empty
      else if tx_outputs txn = [] then Inl Vout_empty
      else if length (put_transaction txn) > max_block_size then Inl Tx_size
      else
        and_then (check_outputs c 0 (tx_outputs txn)) (\<lambda>_.
        and_then (check_duplicates {} (tx_inputs txn)) (\<lambda>_.
          if isCoinBase txn then
            (let n = length (signature (tx_inputs txn ! 0)) in
             if n < 2 \<or> n > 100 then Inl Coinbase_script_size else Inr ())
          else check_prevouts (tx_inputs txn))))"

fun check_txs :: "chain \<Rightarrow> transaction list \<Rightarrow> check_error + unit" where
  "check_txs c [] = Inr ()"
| "check_txs c (t # ts) = and_then (check_tx c t) (\<lambda>_. check_txs c ts)"

definition MAX_BLOCK_SIGOPS :: nat where "MAX_BLOCK_SIGOPS = MAX_BLOCK_SIZE div 50"

definition check_block :: "digest_fn \<Rightarrow> chain \<Rightarrow> int \<Rightarrow> mined_block \<Rightarrow> check_error + unit" where
  "check_block sha c now b =
     (let txs = transactions b in
      if txs = [] \<or> length txs > max_block_size \<or> length (put_mined_block b) > max_block_size then Inl Block_size
      else if uint (bh_time (header b)) > now + 2 * 60 * 60 then Inl Time_too_far
      else if txs = [] \<or> \<not> isCoinBase (txs ! 0) then Inl First_not_coinbase
      else if list_ex isCoinBase (tl txs) then Inl More_than_one_coinbase
      else
        and_then (check_txs c txs) (\<lambda>_.
          if block_GetSigOpCount (block.truncate b) > MAX_BLOCK_SIGOPS then Inl Too_many_sigops
          else if bh_merkleRoot (header b) \<noteq> fst (buildMerkleTree sha (block.truncate b)) then Inl Merkle_mismatch
          else Inr ()))"

section \<open>Standard transactions\<close>

definition MAX_STANDARD_TX_SIZE :: nat where "MAX_STANDARD_TX_SIZE = MAX_BLOCK_SIZE_GEN div 5"

text \<open>\<^verbatim>\<open>_value*1000\<close> is signed, and unsigned for the division by a size.\<close>

definition isDust :: "tx_out \<Rightarrow> int \<Rightarrow> bool" where
  "isDust out fee =
     ((out_value out * 1000) div (3 * (word_of_nat (length (put_output out)) + 148)) < word_of_int fee)"

definition standard_input :: "bool \<Rightarrow> tx_in \<Rightarrow> bool" where
  "standard_input canonical i \<longleftrightarrow>
     (if length (signature i) > 500 then False else if \<not> isPushOnly (signature i) then False
      else if canonical \<and> \<not> hasCanonicalPushes (signature i) then False else True)"

definition standard_output :: "tx_out \<Rightarrow> bool" where
  "standard_output out \<longleftrightarrow> (if \<not> fst (Solver (out_script out)) then False else \<not> isDust out MIN_RELAY_TX_FEE)"

text \<open>The size is an \<^verbatim>\<open>unsigned int\<close>.\<close>

definition standard_size :: "transaction \<Rightarrow> bool" where
  "standard_size tx \<longleftrightarrow> unat (word_of_nat (length (put_transaction tx)) :: u32) < MAX_STANDARD_TX_SIZE"

definition bitcoin_isStandard :: "transaction \<Rightarrow> bool" where
  "bitcoin_isStandard tx \<longleftrightarrow> standard_size tx \<and> list_all (standard_input True) (tx_inputs tx) \<and>
     list_all standard_output (tx_outputs tx)"

definition namecoin_isStandard :: "transaction \<Rightarrow> bool" where
  "namecoin_isStandard tx \<longleftrightarrow> standard_size tx \<and> list_all (standard_input False) (tx_inputs tx) \<and>
     list_all standard_output (tx_outputs tx)"

definition terracoin_isStandard :: "transaction \<Rightarrow> bool" where
  "terracoin_isStandard tx \<longleftrightarrow> list_all (\<lambda>i. isPushOnly (signature i)) (tx_inputs tx) \<and>
     list_all (\<lambda>out. fst (Solver (out_script out))) (tx_outputs tx)"

fun isStandard :: "chain \<Rightarrow> transaction \<Rightarrow> bool" where
  "isStandard Bitcoin tx \<longleftrightarrow> bitcoin_isStandard tx"
| "isStandard Namecoin tx \<longleftrightarrow> namecoin_isStandard tx"
| "isStandard Terracoin tx \<longleftrightarrow> terracoin_isStandard tx"
| "isStandard _ tx \<longleftrightarrow> True"

section \<open>The subsidy\<close>

text \<open>\<open>None\<close>: a shift of a 64-bit number by 64 bits or more.\<close>

definition halving :: "nat \<Rightarrow> u32 \<Rightarrow> int option" where
  "halving period height =
     (let n = unat height div period in if n < 64 then Some ((50 * tx_COIN) div 2 ^ n) else None)"

definition uint256_hex :: "uint256 \<Rightarrow> string" where
  "uint256_hex h = bu_GetHex (bu_of_bytes 8 (put_word h))"

text \<open>\<open>mt s n\<close> is the number that boost draws from 1 to \<open>n\<close> with the seed \<open>s\<close>.\<close>

definition random_coins :: "(u32 \<Rightarrow> int \<Rightarrow> int) \<Rightarrow> uint256 \<Rightarrow> int \<Rightarrow> int" where
  "random_coins mt prev n =
     (let seed = hex2long (take 7 (drop 7 (uint256_hex prev))) in (1 + mt (word_of_int seed) n) * tx_COIN)"

definition bitcoin_subsidy :: "u32 \<Rightarrow> int option" where "bitcoin_subsidy height = halving 210000 height"
definition testnet_subsidy :: "u32 \<Rightarrow> int option" where "testnet_subsidy height = halving 210000 height"
definition namecoin_subsidy :: "u32 \<Rightarrow> int option" where "namecoin_subsidy height = halving 210000 height"
definition litecoin_subsidy :: "u32 \<Rightarrow> int option" where "litecoin_subsidy height = halving 840000 height"
definition terracoin_subsidy :: "u32 \<Rightarrow> int option" where "terracoin_subsidy height = halving 1050000 height"

definition dogecoin_subsidy :: "(u32 \<Rightarrow> int \<Rightarrow> int) \<Rightarrow> u32 \<Rightarrow> uint256 \<Rightarrow> int" where
  "dogecoin_subsidy mt height prev =
     (if height = 0 then 88 * tx_COIN
      else if height < 100000 then random_coins mt prev 999999
      else if height < 145000 then random_coins mt prev 499999
      else if height < 600000 then (500000 * tx_COIN) div 2 ^ (unat height div 100000)
      else 10000 * tx_COIN)"

definition dogetest_subsidy :: "(u32 \<Rightarrow> int \<Rightarrow> int) \<Rightarrow> u32 \<Rightarrow> uint256 \<Rightarrow> int" where
  "dogetest_subsidy mt height prev =
     (if height = 0 then 88 * tx_COIN
      else if height < 100000 then random_coins mt prev 999999
      else if height < 145000 then random_coins mt prev 499999
      else if height < 600000 then (500000 * tx_COIN) div 2 ^ (unat height div 100000)
      else 10000 * tx_COIN)"

fun subsidy :: "(u32 \<Rightarrow> int \<Rightarrow> int) \<Rightarrow> chain \<Rightarrow> u32 \<Rightarrow> uint256 \<Rightarrow> int option" where
  "subsidy mt Bitcoin height prev = bitcoin_subsidy height"
| "subsidy mt Testnet3 height prev = testnet_subsidy height"
| "subsidy mt Namecoin height prev = namecoin_subsidy height"
| "subsidy mt Litecoin height prev = litecoin_subsidy height"
| "subsidy mt Terracoin height prev = terracoin_subsidy height"
| "subsidy mt Dogecoin height prev = Some (dogecoin_subsidy mt height prev)"
| "subsidy mt Dogetest height prev = Some (dogetest_subsidy mt height prev)"

lemmas halving_subsidies = bitcoin_subsidy_def testnet_subsidy_def namecoin_subsidy_def litecoin_subsidy_def terracoin_subsidy_def

section \<open>Proof of work\<close>

text \<open>\<open>None\<close>: a target whose compact form cannot be read, or a proof whose transaction has no input.\<close>

definition target_in_range :: "bn_lib \<Rightarrow> chain \<Rightarrow> int \<Rightarrow> bool" where
  "target_in_range bn c target \<longleftrightarrow>
     \<not> (BN_cmp bn (proofOfWorkLimit bn c) 0 \<noteq> 0 \<and>
        (BN_cmp bn target 0 \<le> 0 \<or> BN_cmp bn target (proofOfWorkLimit bn c) > 0))"

definition simple_work :: "bn_lib \<Rightarrow> chain \<Rightarrow> uint256 \<Rightarrow> u32 \<Rightarrow> bool option" where
  "simple_work bn c hash nBits =
     (case SetCompact bn nBits of None \<Rightarrow> None
      | Some target \<Rightarrow>
          if \<not> target_in_range bn c target then Some False
          else if hash > getuint256 bn target then Some False else Some True)"

definition merged_work :: "bn_lib \<Rightarrow> digest_fn \<Rightarrow> (block_header \<Rightarrow> uint256) \<Rightarrow> chain \<Rightarrow> mined_block \<Rightarrow> bool option" where
  "merged_work bn sha work_hash c b =
     (case SetCompact bn (bh_bits (header b)) of None \<Rightarrow> None
      | Some target \<Rightarrow>
          if \<not> target_in_range bn c target then Some False
          else if bh_version (header b) AND BLOCK_VERSION_AUXPOW \<noteq> 0 then
            (case auxpow_Check sha (block_aux_pow b) (header_getHash sha (header b)) (version_chain (bh_version (header b))) of
               None \<Rightarrow> None
             | Some ok \<Rightarrow>
                 if \<not> ok then Some False
                 else if work_hash (parentBlock (block_aux_pow b)) > getuint256 bn target then Some False else Some True)
          else if work_hash (header b) > getuint256 bn target then Some False else Some True)"

definition bitcoin_work :: "bn_lib \<Rightarrow> digest_fn \<Rightarrow> mined_block \<Rightarrow> bool option" where
  "bitcoin_work bn sha b = simple_work bn Bitcoin (header_getHash sha (header b)) (bh_bits (header b))"

definition testnet_work :: "bn_lib \<Rightarrow> digest_fn \<Rightarrow> mined_block \<Rightarrow> bool option" where
  "testnet_work bn sha b = simple_work bn Testnet3 (header_getHash sha (header b)) (bh_bits (header b))"

definition terracoin_work :: "bn_lib \<Rightarrow> digest_fn \<Rightarrow> mined_block \<Rightarrow> bool option" where
  "terracoin_work bn sha b = simple_work bn Terracoin (header_getHash sha (header b)) (bh_bits (header b))"

definition litecoin_work :: "bn_lib \<Rightarrow> (block_header \<Rightarrow> uint256) \<Rightarrow> mined_block \<Rightarrow> bool option" where
  "litecoin_work bn scrypt b = simple_work bn Litecoin (scrypt (header b)) (bh_bits (header b))"

definition dogetest_work :: "bn_lib \<Rightarrow> (block_header \<Rightarrow> uint256) \<Rightarrow> mined_block \<Rightarrow> bool option" where
  "dogetest_work bn scrypt b = simple_work bn Dogetest (scrypt (header b)) (bh_bits (header b))"

definition namecoin_work :: "bn_lib \<Rightarrow> digest_fn \<Rightarrow> mined_block \<Rightarrow> bool option" where
  "namecoin_work bn sha b = merged_work bn sha (header_getHash sha) Namecoin b"

definition dogecoin_work :: "bn_lib \<Rightarrow> digest_fn \<Rightarrow> (block_header \<Rightarrow> uint256) \<Rightarrow> mined_block \<Rightarrow> bool option" where
  "dogecoin_work bn sha scrypt b = merged_work bn sha scrypt Dogecoin b"

fun checkProofOfWork :: "bn_lib \<Rightarrow> digest_fn \<Rightarrow> (block_header \<Rightarrow> uint256) \<Rightarrow> chain \<Rightarrow> mined_block \<Rightarrow> bool option" where
  "checkProofOfWork bn sha scrypt Bitcoin b = bitcoin_work bn sha b"
| "checkProofOfWork bn sha scrypt Testnet3 b = testnet_work bn sha b"
| "checkProofOfWork bn sha scrypt Namecoin b = namecoin_work bn sha b"
| "checkProofOfWork bn sha scrypt Litecoin b = litecoin_work bn scrypt b"
| "checkProofOfWork bn sha scrypt Terracoin b = terracoin_work bn sha b"
| "checkProofOfWork bn sha scrypt Dogecoin b = dogecoin_work bn sha scrypt b"
| "checkProofOfWork bn sha scrypt Dogetest b = dogetest_work bn scrypt b"

lemmas chain_work = bitcoin_work_def testnet_work_def namecoin_work_def litecoin_work_def terracoin_work_def
  dogecoin_work_def dogetest_work_def simple_work_def merged_work_def

section \<open>The next difficulty\<close>

text \<open>\<open>Time_overflow\<close>: the difference of two times does not fit an \<^verbatim>\<open>int\<close>.\<close>

datatype work_error = Tree tree_error | Time_overflow

definition of_tree :: "tree_error + 'a \<Rightarrow> work_error + 'a" where
  "of_tree r = (case r of Inl e \<Rightarrow> Inl (Tree e) | Inr x \<Rightarrow> Inr x)"

definition c_div :: "int \<Rightarrow> int \<Rightarrow> int" where "c_div a b = bn_quot a b"
definition c_rem :: "int \<Rightarrow> int \<Rightarrow> int" where "c_rem a b = bn_rem a b"

definition int_minus :: "u32 \<Rightarrow> u32 \<Rightarrow> work_error + int" where
  "int_minus a b =
     (let d = sint a - sint b in if INT_MIN \<le> d \<and> d \<le> INT_MAX then Inr d else Inl Time_overflow)"

definition clamp :: "int \<Rightarrow> int \<Rightarrow> int \<Rightarrow> int" where
  "clamp lo hi t = (let t = (if t < lo then lo else t) in if t > hi then hi else t)"

text \<open>\<^verbatim>\<open>blk - n\<close>, and the read of its element.\<close>

definition blocks_back :: "tree \<Rightarrow> blockref \<Rightarrow> int \<Rightarrow> work_error + blockref" where
  "blocks_back st blk n =
     and_then (of_tree (advance st (Some blk) (- n))) (\<lambda>it. case it of None \<Rightarrow> Inl (Tree Out_of_range) | Some r \<Rightarrow> Inr r)"

definition retarget :: "bn_lib \<Rightarrow> int \<Rightarrow> u32 \<Rightarrow> int \<Rightarrow> int \<Rightarrow> work_error + u32" where
  "retarget bn limit bits nActualTimespan nTargetTimespan =
     (case SetCompact bn bits of None \<Rightarrow> Inl (Tree Bad_bits)
      | Some target \<Rightarrow>
          (case BN_div bn (BN_mul bn target nActualTimespan) (bn_of_int64 bn (word_of_int nTargetTimespan)) of
             None \<Rightarrow> Inl (Tree Bad_bits)
           | Some (q, _) \<Rightarrow> Inr (GetCompact bn (if BN_cmp bn q limit > 0 then limit else q))))"

text \<open>From the former block on, for the chains that bound the time span by a factor of four.\<close>

definition retarget_since :: "bn_lib \<Rightarrow> chain \<Rightarrow> blockref \<Rightarrow> int \<Rightarrow> blockref \<Rightarrow> work_error + u32" where
  "retarget_since bn c blk nTargetTimespan former =
     and_then (int_minus (ref_time blk) (ref_time former)) (\<lambda>nActualTimespan.
       retarget bn (proofOfWorkLimit bn c) (ref_bits blk)
         (bn_of_int32 bn (word_of_int (clamp (nTargetTimespan div 4) (nTargetTimespan * 4) nActualTimespan)))
         nTargetTimespan)"

definition two_weeks :: int where "two_weeks = 14 * 24 * 60 * 60"

definition bitcoin_next :: "bn_lib \<Rightarrow> tree \<Rightarrow> blockref \<Rightarrow> work_error + u32" where
  "bitcoin_next bn st blk =
     and_then (of_tree (height_of st (ref_hash blk))) (\<lambda>h.
       if h = 0 then Inr (GetCompact bn (proofOfWorkLimit bn Bitcoin))
       else if c_rem (h + 1) 2016 \<noteq> 0 then Inr (ref_bits blk)
       else and_then (blocks_back st blk (2016 - 1)) (retarget_since bn Bitcoin blk two_weeks))"

text \<open>Back to the last block that was not mined with the minimum difficulty.\<close>

fun last_regular :: "nat \<Rightarrow> bn_lib \<Rightarrow> tree \<Rightarrow> blockref \<Rightarrow> work_error + u32" where
  "last_regular 0 bn st blk = Inl (Tree Diverges)"
| "last_regular (Suc fuel) bn st blk =
     and_then (of_tree (height_of st (ref_hash blk))) (\<lambda>h.
       if c_rem h 2016 \<noteq> 0 \<and> ref_bits blk = GetCompact bn (proofOfWorkLimit bn Testnet3)
       then and_then (of_tree (step_back st blk)) (last_regular fuel bn st)
       else Inr (ref_bits blk))"

definition testnet_next :: "bn_lib \<Rightarrow> tree \<Rightarrow> blockref \<Rightarrow> work_error + u32" where
  "testnet_next bn st blk =
     and_then (of_tree (height_of st (ref_hash blk))) (\<lambda>h.
       if h = 0 then Inr (GetCompact bn (proofOfWorkLimit bn Testnet3))
       else if c_rem (h + 1) 2016 \<noteq> 0 then last_regular (Suc (nat \<bar>h\<bar>)) bn st blk
       else and_then (blocks_back st blk (2016 - 1)) (retarget_since bn Testnet3 blk two_weeks))"

definition namecoin_next :: "bn_lib \<Rightarrow> tree \<Rightarrow> blockref \<Rightarrow> work_error + u32" where
  "namecoin_next bn st blk =
     and_then (of_tree (height_of st (ref_hash blk))) (\<lambda>h.
       if h = 0 then Inr 0x1c007fff
       else if c_rem (h + 1) 2016 \<noteq> 0 then Inr (ref_bits blk)
       else
         and_then (blocks_back st blk (2016 - 1)) (\<lambda>former.
         and_then (if h \<ge> 19200 \<and> h + 1 > 2016 then blocks_back st blk 2016 else Inr former)
           (retarget_since bn Namecoin blk two_weeks)))"

definition litecoin_next :: "bn_lib \<Rightarrow> tree \<Rightarrow> blockref \<Rightarrow> work_error + u32" where
  "litecoin_next bn st blk =
     and_then (of_tree (height_of st (ref_hash blk))) (\<lambda>h.
       if h = 0 then Inr (gen_bits (genesis_data Litecoin))
       else if c_rem (h + 1) 2016 \<noteq> 0 then Inr (ref_bits blk)
       else
         and_then (blocks_back st blk (if h + 1 \<noteq> 2016 then 2016 else 2016 - 1))
           (retarget_since bn Litecoin blk 302400))"

definition terracoin_next :: "bn_lib \<Rightarrow> tree \<Rightarrow> blockref \<Rightarrow> work_error + u32" where
  "terracoin_next bn st blk =
     and_then (of_tree (height_of st (ref_hash blk))) (\<lambda>h.
       if h = 0 then Inr (GetCompact bn (proofOfWorkLimit bn Terracoin))
       else if c_rem (h + 1) 30 \<noteq> 0 then Inr (ref_bits blk)
       else and_then (blocks_back st blk (30 - 1)) (retarget_since bn Terracoin blk (60 * 60)))"

text \<open>Dogecoin counts blocks, so that a branch block has the count of its height.\<close>

definition doge_timespan :: "int \<Rightarrow> int \<Rightarrow> int" where
  "doge_timespan nHeight t =
     (if nHeight \<ge> 145000 then clamp (60 - 60 div 4) (60 + 60 div 2) (60 + c_div (t - 60) 8)
      else if nHeight > 10000 then clamp (14400 div 4) (14400 * 4) t
      else if nHeight > 5000 then clamp (14400 div 8) (14400 * 4) t
      else clamp (14400 div 16) (14400 * 4) t)"

definition doge_next :: "bn_lib \<Rightarrow> chain \<Rightarrow> tree \<Rightarrow> blockref \<Rightarrow> work_error + u32" where
  "doge_next bn c st blk =
     and_then (of_tree (count_of st (ref_hash blk))) (\<lambda>nHeight.
     and_then (of_tree (height_of st (ref_hash blk))) (\<lambda>h.
       let fNew = (nHeight \<ge> 145000);
           retargetTimespan = (if fNew then 60 else 14400);
           retargetInterval = (if fNew then 1 else 240)
       in if h = 0 then Inr (gen_bits (genesis_data c))
          else if c_rem nHeight retargetInterval \<noteq> 0 then Inr (ref_bits blk)
          else
            and_then (blocks_back st blk (if nHeight \<noteq> retargetInterval then retargetInterval else retargetInterval - 1)) (\<lambda>former.
              retarget bn (proofOfWorkLimit bn c) (ref_bits blk)
                (bn_of_int64 bn (word_of_int (doge_timespan nHeight (sint (ref_time blk) - sint (ref_time former)))))
                retargetTimespan)))"

definition dogecoin_next :: "bn_lib \<Rightarrow> tree \<Rightarrow> blockref \<Rightarrow> work_error + u32" where
  "dogecoin_next bn st blk = doge_next bn Dogecoin st blk"

definition dogetest_next :: "bn_lib \<Rightarrow> tree \<Rightarrow> blockref \<Rightarrow> work_error + u32" where
  "dogetest_next bn st blk = doge_next bn Dogetest st blk"

fun nextWorkRequired :: "bn_lib \<Rightarrow> chain \<Rightarrow> tree \<Rightarrow> blockref \<Rightarrow> work_error + u32" where
  "nextWorkRequired bn Bitcoin st blk = bitcoin_next bn st blk"
| "nextWorkRequired bn Testnet3 st blk = testnet_next bn st blk"
| "nextWorkRequired bn Namecoin st blk = namecoin_next bn st blk"
| "nextWorkRequired bn Litecoin st blk = litecoin_next bn st blk"
| "nextWorkRequired bn Terracoin st blk = terracoin_next bn st blk"
| "nextWorkRequired bn Dogecoin st blk = dogecoin_next bn st blk"
| "nextWorkRequired bn Dogetest st blk = dogetest_next bn st blk"

section \<open>Accepted transactions\<close>

lemma max_money_bounds: "0 < max_money c \<and> max_money c \<le> 10 ^ 18"
  by (cases c) simp_all

text \<open>The running total of amounts that passed never wraps.\<close>

lemma check_outputs_iff:
  assumes "0 \<le> sint v" "sint v \<le> max_money c"
  shows "check_outputs c v outs = Inr () \<longleftrightarrow>
    list_all (\<lambda>out. 0 \<le> out_amount out \<and> out_amount out \<le> max_money c) outs \<and>
    sint v + sum_list (map out_amount outs) \<le> max_money c"
  using assms
proof (induction outs arbitrary: v)
  case Nil
  then show ?case by simp
next
  case (Cons out outs)
  let ?a = "out_amount out"
  show ?case
  proof (cases "0 \<le> ?a \<and> ?a \<le> max_money c")
    case True
    have s: "sint (v + out_value out) = sint v + ?a"
      using True Cons.prems max_money_bounds [of c] by (simp add: out_amount_def sint_word_ariths signed_take_bit_int_eq_self_iff)
    show ?thesis
    proof (cases "sint v + ?a \<le> max_money c")
      case small: True
      then have "check_outputs c (v + out_value out) outs = Inr () \<longleftrightarrow>
        list_all (\<lambda>out. 0 \<le> out_amount out \<and> out_amount out \<le> max_money c) outs \<and>
        sint v + ?a + sum_list (map out_amount outs) \<le> max_money c"
        using Cons.IH [of "v + out_value out"] True Cons.prems by (simp add: s)
      then show ?thesis
        using True small Cons.prems s by (simp add: out_amount_def [abs_def] word_sless_alt range_def add.assoc)
    next
      case False
      have "0 \<le> sum_list (map out_amount outs)" if "list_all (\<lambda>out. 0 \<le> out_amount out \<and> out_amount out \<le> max_money c) outs"
        using that by (intro sum_list_nonneg) (auto simp: list_all_iff)
      then show ?thesis
        using True False s by (auto simp: out_amount_def [abs_def] word_sless_alt range_def)
    qed
  next
    case False
    then show ?thesis by (auto simp: out_amount_def word_sless_alt)
  qed
qed

lemma check_duplicates_iff:
  "check_duplicates seen is = Inr () \<longleftrightarrow> distinct (map prevout is) \<and> prevout ` set is \<inter> seen = {}"
  by (induction "is" arbitrary: seen) auto

lemma check_prevouts_iff: "check_prevouts is = Inr () \<longleftrightarrow> list_all (\<lambda>i. \<not> coin_isNull (prevout i)) is"
  by (induction "is") auto

text \<open>C35: a transaction passes \<open>check\<close> exactly when it has inputs and outputs, its size is within the limit, every amount
  and their true sum are within the chain's range, no coin is spent twice, a coinbase has a script of 2 to
  100 bytes and any other transaction spends no null coin. The running total at its width never wraps.\<close>

theorem check_tx_spec:
  "check_tx c txn = Inr () \<longleftrightarrow>
     tx_inputs txn \<noteq> [] \<and> tx_outputs txn \<noteq> [] \<and> length (put_transaction txn) \<le> 1000000 \<and>
     list_all (\<lambda>out. 0 \<le> out_amount out \<and> out_amount out \<le> max_money c) (tx_outputs txn) \<and>
     sum_list (map out_amount (tx_outputs txn)) \<le> max_money c \<and>
     distinct (map prevout (tx_inputs txn)) \<and>
     (if isCoinBase txn
      then 2 \<le> length (signature (tx_inputs txn ! 0)) \<and> length (signature (tx_inputs txn ! 0)) \<le> 100
      else list_all (\<lambda>i. \<not> coin_isNull (prevout i)) (tx_inputs txn))"
proof -
  have "check_outputs c 0 (tx_outputs txn) = Inr () \<longleftrightarrow>
     list_all (\<lambda>out. 0 \<le> out_amount out \<and> out_amount out \<le> max_money c) (tx_outputs txn) \<and>
     sum_list (map out_amount (tx_outputs txn)) \<le> max_money c"
    using check_outputs_iff [of 0 c "tx_outputs txn"] max_money_bounds [of c] by simp
  then show ?thesis
    by (auto simp: check_tx_def and_then_Inr_iff check_duplicates_iff check_prevouts_iff max_block_size_def Let_def)
qed

section \<open>The supply\<close>

lemma halving_sum:
  assumes "0 < p"
  shows "(\<Sum>h<N * p. (50 * tx_COIN) div 2 ^ (h div p)) = int p * (\<Sum>k<N. (50 * tx_COIN) div 2 ^ k)"
proof -
  have "(\<Sum>h = k * p..<k * p + p. (50 * tx_COIN) div 2 ^ (h div p)) = int p * ((50 * tx_COIN) div 2 ^ k)" for k
  proof -
    have "h div p = k" if "h \<in> {k * p..<k * p + p}" for h
      using that assms by (intro div_nat_eqI) (auto simp: algebra_simps)
    then have "(\<Sum>h = k * p..<k * p + p. (50 * tx_COIN) div 2 ^ (h div p)) = (\<Sum>h = k * p..<k * p + p. (50 * tx_COIN) div 2 ^ k)"
      by (intro sum.cong) simp_all
    then show ?thesis by simp
  qed
  then show ?thesis by (simp add: sum.nat_group [symmetric] sum_distrib_left)
qed

lemma all_halvings: "(\<Sum>k<64. (50 * tx_COIN) div 2 ^ k :: int) = 9999999989"
  by (simp add: tx_COIN_def lessThan_nat_numeral lessThan_Suc)


lemma halving_total:
  assumes "0 < p" "n \<le> 64 * p"
  shows "(\<Sum>h<n. (50 * tx_COIN) div 2 ^ (h div p)) \<le> int p * 9999999989"
proof -
  have "(\<Sum>h<n. (50 * tx_COIN) div 2 ^ (h div p)) \<le> (\<Sum>h<64 * p. (50 * tx_COIN) div 2 ^ (h div p))"
    using assms(2) by (intro sum_mono2) (auto simp: tx_COIN_def pos_imp_zdiv_nonneg_iff)
  then show ?thesis using halving_sum [OF assms(1), of 64] all_halvings by simp
qed

text \<open>The period of the halvings of a chain, 0 for the random chains.\<close>

fun halving_period :: "chain \<Rightarrow> nat" where
  "halving_period Litecoin = 840000" | "halving_period Terracoin = 1050000"
| "halving_period Dogecoin = 0" | "halving_period Dogetest = 0" | "halving_period _ = 210000"

lemma subsidy_halving:
  "0 < halving_period c \<Longrightarrow> subsidy mt c h prev = halving (halving_period c) h"
  by (cases c) (simp_all add: halving_subsidies)

text \<open>C38: the blocks of a chain with halvings create, over all heights where its shift is defined, exactly
  \<open>period * 9999999989\<close> units, and never more before; for Bitcoin, the test network and Namecoin this is below
  their \<open>max_money\<close>, and for Litecoin and Terracoin it is above.\<close>

theorem supply_of_halvings:
  assumes "0 < halving_period c" "n \<le> 64 * halving_period c"
  shows "(\<Sum>h<64 * halving_period c. the (subsidy mt c (word_of_nat h) prev)) = int (halving_period c) * 9999999989 \<and>
    (int (halving_period c) * 9999999989 \<le> max_money c) = (c \<noteq> Litecoin \<and> c \<noteq> Terracoin) \<and>
    (\<Sum>h<n. the (subsidy mt c (word_of_nat h) prev)) \<le> int (halving_period c) * 9999999989"
proof -
  let ?p = "halving_period c"
  have p: "?p \<le> 1050000" by (cases c) simp_all
  have s: "the (subsidy mt c (word_of_nat h) prev) = (50 * tx_COIN) div 2 ^ (h div ?p)" if "h < 64 * ?p" for h
  proof -
    have "h < 2 ^ 32" using that p by simp
    moreover have "h div ?p < 64" using that assms(1) by (simp add: div_less_iff_less_mult)
    ultimately show ?thesis by (simp add: subsidy_halving [OF assms(1)] halving_def unat_of_nat Let_def)
  qed
  have sums: "(\<Sum>h<k. the (subsidy mt c (word_of_nat h) prev)) = (\<Sum>h<k. (50 * tx_COIN) div 2 ^ (h div ?p))" if "k \<le> 64 * ?p" for k
    using that by (intro sum.cong) (simp_all add: s)
  have "(int ?p * 9999999989 \<le> max_money c) = (c \<noteq> Litecoin \<and> c \<noteq> Terracoin)"
    using assms(1) by (cases c) simp_all
  then show ?thesis
    using sums [OF assms(2)] sums [OF order_refl] halving_sum [OF assms(1), of 64] halving_total [OF assms] all_halvings by simp
qed

theorem supply_of_halvings_witness:
  "(\<Sum>h<64 * halving_period Bitcoin. the (subsidy (\<lambda>_ _. 1) Bitcoin (word_of_nat h) 0)) = 2099999997690000"
  using supply_of_halvings [of Bitcoin 0 "\<lambda>_ _. 1" 0] by simp


section \<open>The next difficulty\<close>

lemma clamp_bounds: "lo \<le> hi \<Longrightarrow> lo \<le> clamp lo hi t \<and> clamp lo hi t \<le> hi"
  by (simp add: clamp_def Let_def)

lemma of_tree_Inr [simp]: "of_tree r = Inr x \<longleftrightarrow> r = Inr x"
  by (simp add: of_tree_def split: sum.splits)

lemma limit_doc:
  assumes "bn_documented bn"
  shows "proofOfWorkLimit bn c = (if c = Litecoin \<or> c = Dogecoin \<or> c = Dogetest then 2 ^ 236 - 1 else 2 ^ 224 - 1)"
  by (simp add: proofOfWorkLimit_def setuint256_doc [OF assms] unsigned_drop_bit_eq unsigned_minus_1_eq_mask
      drop_bit_mask_eq mask_eq_exp_minus_1)

text \<open>One adjustment: the new target is the compact form of a number that is at most four times the old target, not
  above the limit, and at least the \<open>k\<close>-th part of the old target, unless it is the limit.\<close>

definition adjusted :: "bn_lib \<Rightarrow> int \<Rightarrow> int \<Rightarrow> int \<Rightarrow> u32 \<Rightarrow> bool" where
  "adjusted bn limit k t w \<longleftrightarrow>
     (\<exists>v. w = GetCompact bn v \<and> v \<le> limit \<and> v \<le> 4 * t \<and> (v = limit \<or> t div k \<le> v))"

lemma retarget_adjusted:
  assumes "bn_documented bn" "SetCompact bn bits = Some t" "0 \<le> t" "0 < q" "0 < k" "k * q < 2 ^ 31"
    and "q \<le> a" "a \<le> 4 * (k * q)" "retarget bn limit bits a (k * q) = Inr w"
  shows "adjusted bn limit k t w"
proof -
  have kq: "0 < k * q" using assms(4,5) by simp
  have T: "bn_of_int64 bn (word_of_int (k * q)) = k * q"
    using kq assms(6) unfolding bn_of_int_doc [OF assms(1)]
    by (simp add: sint_sbintrunc' signed_take_bit_int_eq_self_iff del: of_int_mult)
  have q: "bn_quot (t * a) (k * q) = t * a div (k * q)"
    using assms(3,4,7) kq by (cases "t = 0") (simp_all add: bn_quot_def sgn_if mult_less_0_iff)
  define v where "v = t * a div (k * q)"
  have "v \<le> t * (4 * (k * q)) div (k * q)"
    unfolding v_def using assms(3,8) kq by (intro zdiv_mono1 mult_left_mono) simp_all
  also have "\<dots> = 4 * t"
  proof -
    have "t * (4 * (k * q)) = (k * q) * (4 * t)" by simp
    then show ?thesis using kq by (simp only: nonzero_mult_div_cancel_left)
  qed
  finally have hi: "v \<le> 4 * t" .
  have "t div k = t * q div (k * q)" using assms(4) by simp
  also have "\<dots> \<le> v"
    unfolding v_def using assms(3,7) kq by (intro zdiv_mono1 mult_left_mono) simp_all
  finally have lo: "t div k \<le> v" .
  have "w = GetCompact bn (if v > limit then limit else v)"
    using assms(2,9) kq unfolding retarget_def bn_doc_arith [OF assms(1)] T
    by (simp add: q v_def [symmetric] split: if_splits)
  then show ?thesis using hi lo unfolding adjusted_def by (intro exI [of _ "if v > limit then limit else v"]) auto
qed

lemma retarget_since_adjusted:
  assumes "bn_documented bn" "SetCompact bn (ref_bits blk) = Some t" "0 \<le> t" "0 < q" "q < 2 ^ 26"
    and "retarget_since bn c blk (4 * q) former = Inr w"
  shows "adjusted bn (proofOfWorkLimit bn c) 4 t w"
proof -
  obtain d where r: "retarget bn (proofOfWorkLimit bn c) (ref_bits blk) (bn_of_int32 bn (word_of_int (clamp q (16 * q) d))) (4 * q) = Inr w"
    using assms(6) by (auto simp: retarget_since_def and_then_Inr_iff)
  have c: "q \<le> clamp q (16 * q) d" "clamp q (16 * q) d \<le> 16 * q" using clamp_bounds [of q "16 * q" d] assms(4) by auto
  then have a: "bn_of_int32 bn (word_of_int (clamp q (16 * q) d)) = clamp q (16 * q) d"
    using assms(4,5) by (simp add: bn_of_int_doc [OF assms(1)] sint_sbintrunc' signed_take_bit_int_eq_self_iff)
  show ?thesis
    by (rule retarget_adjusted [OF assms(1-4) _ _ c(1)]) (use c(2) assms(5) r a in simp_all)
qed

text \<open>The part of the old target a new one keeps at least: Dogecoin's first blocks may be sixteen and eight times harder.\<close>

definition least_part :: "chain \<Rightarrow> int \<Rightarrow> int" where
  "least_part c n = (if c = Dogecoin \<or> c = Dogetest then (if n > 10000 then 4 else if n > 5000 then 8 else 16) else 4)"

lemma doge_adjusted:
  assumes "bn_documented bn" "SetCompact bn bits = Some t" "0 \<le> t"
    and "retarget bn limit bits (bn_of_int64 bn (word_of_int (doge_timespan n d))) (if n \<ge> 145000 then 60 else 14400) = Inr w"
    and "c = Dogecoin \<or> c = Dogetest"
  shows "adjusted bn limit (least_part c n) t w"
proof -
  let ?T = "if n \<ge> 145000 then 60 else 14400 :: int" and ?k = "least_part c n"
  let ?a = "doge_timespan n d"
  have k: "?k = (if n > 10000 then 4 else if n > 5000 then 8 else 16)" using assms(5) by (auto simp: least_part_def)
  have a: "?T div ?k \<le> ?a \<and> ?a \<le> 4 * ?T"
    unfolding doge_timespan_def k
    using clamp_bounds [of "60 - 60 div 4" "60 + 60 div 2" "60 + c_div (d - 60) 8"] clamp_bounds [of "14400 div 4" "14400 * 4" d]
      clamp_bounds [of "14400 div 8" "14400 * 4" d] clamp_bounds [of "14400 div 16" "14400 * 4" d]
    by auto
  have T: "?T = ?k * (?T div ?k)" by (simp add: k)
  have "bn_of_int64 bn (word_of_int ?a) = ?a"
  proof -
    have "0 \<le> ?T div ?k" "?T \<le> 14400" by (simp_all add: k)
    then have "0 \<le> ?a" "?a \<le> 57600" using a by linarith+
    then show ?thesis
      unfolding bn_of_int_doc [OF assms(1)] by (simp add: sint_sbintrunc' signed_take_bit_int_eq_self_iff)
  qed
  then have r: "retarget bn limit bits ?a (?k * (?T div ?k)) = Inr w" using assms(4) T by simp
  show ?thesis
    by (rule retarget_adjusted [OF assms(1-3) _ _ _ _ _ r]) (use a in \<open>auto simp: k\<close>)
qed

text \<open>C37: The next difficulty is bounded by the last one. After the first block, the number of bits that the code asks for is
  that of the last block, or it is the compact form of a target that is at most four times the last one, never above
  the limit of the chain, and not less than a quarter of the last one unless it is the limit; on the Dogecoin chains
  a sixteenth up to the count 5000 and an eighth up to 10000. On the test network this holds at the end of an interval; in
  between it goes back to the bits of an earlier block.\<close>

theorem next_work_bounded:
  assumes "bn_documented bn" "height_of st (ref_hash blk) = Inr h" "h \<noteq> 0" "count_of st (ref_hash blk) = Inr n"
    and "c = Testnet3 \<Longrightarrow> c_rem (h + 1) 2016 = 0"
    and "SetCompact bn (ref_bits blk) = Some t" "0 \<le> t" "nextWorkRequired bn c st blk = Inr w"
  shows "w = ref_bits blk \<or> adjusted bn (proofOfWorkLimit bn c) (least_part c n) t w"
proof (cases "w = ref_bits blk")
  case w: False
  show ?thesis
  proof (cases "c = Dogecoin \<or> c = Dogetest")
    case True
    then have "doge_next bn c st blk = Inr w" using assms(8) by (auto simp: dogecoin_next_def dogetest_next_def)
    then obtain d where "retarget bn (proofOfWorkLimit bn c) (ref_bits blk) (bn_of_int64 bn (word_of_int (doge_timespan n d)))
        (if n \<ge> 145000 then 60 else 14400) = Inr w"
      using assms(2-4) w by (auto simp: doge_next_def and_then_Inr_iff Let_def split: if_splits)
    then show ?thesis using doge_adjusted [OF assms(1,6,7) _ True] by blast
  next
    case False
    then have k: "least_part c n = 4" by (simp add: least_part_def)
    have "\<exists>q former. 0 < q \<and> q < 2 ^ 26 \<and> retarget_since bn c blk (4 * q) former = Inr w"
    proof (cases c)
      case Bitcoin
      then show ?thesis using assms(2,3,8) w
        by (intro exI [of _ 302400]) (auto simp: bitcoin_next_def and_then_Inr_iff two_weeks_def split: if_splits)
    next
      case Testnet3
      then show ?thesis using assms(2,3,5,8) w
        by (intro exI [of _ 302400]) (auto simp: testnet_next_def and_then_Inr_iff two_weeks_def split: if_splits)
    next
      case Namecoin
      then show ?thesis using assms(2,3,8) w
        by (intro exI [of _ 302400]) (auto simp: namecoin_next_def and_then_Inr_iff two_weeks_def split: if_splits)
    next
      case Litecoin
      then show ?thesis using assms(2,3,8) w
        by (intro exI [of _ 75600]) (auto simp: litecoin_next_def and_then_Inr_iff split: if_splits)
    next
      case Terracoin
      then show ?thesis using assms(2,3,8) w
        by (intro exI [of _ 900]) (auto simp: terracoin_next_def and_then_Inr_iff split: if_splits)
    qed (use False in simp_all)
    then show ?thesis using retarget_since_adjusted [OF assms(1,6,7)] by (auto simp: k)
  qed
qed simp



text \<open>The step back from a known block.\<close>

lemma step_back_known:
  assumes "tree_inv bn A st" "known st (ref_hash e) = Some e" "sm_get (heights st) (ref_hash e) = Some n" "n \<noteq> 0"
  obtains p m where "step_back st e = Inr p" "known st (ref_hash p) = Some p"
    "sm_get (heights st) (ref_hash p) = Some m" "\<bar>n\<bar> = \<bar>m\<bar> + 1"
  using assms(1,2)
proof (cases rule: known_cases)
  case (branch k)
  obtain p n' m where p: "known st (ref_prev e) = Some p" "ref_hash p = ref_prev e"
    "sm_get (heights st) (ref_hash e) = Some n'" "sm_get (heights st) (ref_hash p) = Some m" "n' = - \<bar>m\<bar> - 1" "step_back st e = Inr p"
    by (rule branch_parent [OF assms(1) branch(3)])
  then show thesis using that [of p m] assms(3) by simp
next
  case (in_trunk i)
  have n: "n = int i" using in_trunk(1) assms(3) by simp
  then obtain j where j: "i = Suc j" using assms(4) by (cases i) auto
  have t: "j < length (trunk st)" using in_trunk(2) j by simp
  have "sm_get (heights st) (ref_hash (trunk st ! j)) = Some (int j)" by (rule inv_maps(7) [OF assms(1) t])
  moreover have "step_back st e = Inr (trunk st ! j)"
    using in_trunk(1,3) assms(3) t j n by (simp add: step_back_def advance_def height_of_def trunk_at_def)
  moreover have "known st (ref_hash (trunk st ! j)) = Some (trunk st ! j)"
    by (rule known_trunk [OF assms(1)]) (use t in simp)
  ultimately show thesis using that [of "trunk st ! j" "int j"] n j by simp
qed

lemma last_regular_ends:
  assumes "tree_inv bn A st" "known st (ref_hash e) = Some e" "sm_get (heights st) (ref_hash e) = Some n"
  shows "\<exists>b m. last_regular (Suc (nat \<bar>n\<bar>)) bn st e = Inr (ref_bits b) \<and> known st (ref_hash b) = Some b \<and>
    sm_get (heights st) (ref_hash b) = Some m \<and> \<bar>m\<bar> \<le> \<bar>n\<bar> \<and>
    (c_rem m 2016 = 0 \<or> ref_bits b \<noteq> GetCompact bn (proofOfWorkLimit bn Testnet3))"
  using assms(2,3)
proof (induction "nat \<bar>n\<bar>" arbitrary: n e)
  case 0
  then show ?case by (auto simp: height_of_def of_tree_def c_rem_def bn_rem_def)
next
  case (Suc k)
  have h: "height_of st (ref_hash e) = Inr n" using Suc.prems by (simp add: height_of_def)
  show ?case
  proof (cases "c_rem n 2016 \<noteq> 0 \<and> ref_bits e = GetCompact bn (proofOfWorkLimit bn Testnet3)")
    case True
    have "n \<noteq> 0" using Suc.hyps(2) by auto
    then obtain p m where p: "step_back st e = Inr p" "known st (ref_hash p) = Some p"
      "sm_get (heights st) (ref_hash p) = Some m" "\<bar>n\<bar> = \<bar>m\<bar> + 1"
      by (rule step_back_known [OF assms(1) Suc.prems])
    have k: "k = nat \<bar>m\<bar>" using Suc.hyps(2) p(4) by simp
    obtain b m' where b: "last_regular (Suc (nat \<bar>m\<bar>)) bn st p = Inr (ref_bits b)" "known st (ref_hash b) = Some b"
      "sm_get (heights st) (ref_hash b) = Some m'" "\<bar>m'\<bar> \<le> \<bar>m\<bar>"
      "c_rem m' 2016 = 0 \<or> ref_bits b \<noteq> GetCompact bn (proofOfWorkLimit bn Testnet3)"
      using Suc.hyps(1) [OF k p(2,3)] by blast
    have "last_regular (Suc (nat \<bar>n\<bar>)) bn st e = last_regular (Suc (nat \<bar>m\<bar>)) bn st p"
      using True p(1) h Suc.hyps(2) k by (simp add: of_tree_def)
    then show ?thesis using b p(4) by (intro exI [of _ b] exI [of _ m']) simp
  next
    case False
    then show ?thesis using Suc.prems h by (intro exI [of _ e] exI [of _ n]) (auto simp: of_tree_def)
  qed
qed

text \<open>C39: on the test network the search for the last block of a regular difficulty ends for every block of a
  consistent tree, in a branch too, and returns the bits of a block no higher, which is at the start of an interval
  or was not mined with the minimum difficulty.\<close>

theorem testnet_search_ends:
  assumes "tree_inv bn A st" "known st (ref_hash e) = Some e" "height_of st (ref_hash e) = Inr n"
    and "n \<noteq> 0" "c_rem (n + 1) 2016 \<noteq> 0"
  shows "\<exists>b m. nextWorkRequired bn Testnet3 st e = Inr (ref_bits b) \<and> known st (ref_hash b) = Some b \<and>
    height_of st (ref_hash b) = Inr m \<and> \<bar>m\<bar> \<le> \<bar>n\<bar> \<and>
    (c_rem m 2016 = 0 \<or> ref_bits b \<noteq> GetCompact bn (proofOfWorkLimit bn Testnet3))"
proof -
  have "sm_get (heights st) (ref_hash e) = Some n" using assms(3) by (simp add: height_of_def split: option.splits)
  from last_regular_ends [OF assms(1,2) this]
  obtain b m where "last_regular (Suc (nat \<bar>n\<bar>)) bn st e = Inr (ref_bits b)" "known st (ref_hash b) = Some b"
    "sm_get (heights st) (ref_hash b) = Some m" "\<bar>m\<bar> \<le> \<bar>n\<bar>"
    "c_rem m 2016 = 0 \<or> ref_bits b \<noteq> GetCompact bn (proofOfWorkLimit bn Testnet3)" by blast
  then show ?thesis using assms(3-5) by (intro exI [of _ b] exI [of _ m]) (simp add: testnet_next_def height_of_def of_tree_def del: last_regular.simps)
qed

section \<open>Proof of work\<close>

text \<open>The hash that has to be below the target.\<close>

definition worked_hash :: "digest_fn \<Rightarrow> (block_header \<Rightarrow> uint256) \<Rightarrow> chain \<Rightarrow> mined_block \<Rightarrow> uint256" where
  "worked_hash sha scrypt c b =
     (let hash = (if c = Litecoin \<or> c = Dogecoin \<or> c = Dogetest then scrypt else header_getHash sha)
      in if adhere_aux_pow c \<and> bh_version (header b) AND BLOCK_VERSION_AUXPOW \<noteq> 0
         then hash (parentBlock (block_aux_pow b)) else hash (header b))"

lemma accepted_target:
  assumes "bn_documented bn" "checkProofOfWork bn sha scrypt c b = Some True"
  shows "\<exists>t. SetCompact bn (bh_bits (header b)) = Some t \<and> 0 < t \<and> t \<le> proofOfWorkLimit bn c \<and>
    uint (worked_hash sha scrypt c b) \<le> t"
proof -
  have lim: "0 < proofOfWorkLimit bn c" "proofOfWorkLimit bn c < 2 ^ 256" by (simp_all add: limit_doc [OF assms(1)])
  have "\<exists>t. SetCompact bn (bh_bits (header b)) = Some t \<and> target_in_range bn c t \<and>
    \<not> worked_hash sha scrypt c b > getuint256 bn t"
    using assms(2)
    by (cases c) (auto simp: chain_work worked_hash_def adhere_aux_pow_def
        split: option.splits if_splits)
  then obtain t where t: "SetCompact bn (bh_bits (header b)) = Some t" "target_in_range bn c t"
    "\<not> worked_hash sha scrypt c b > getuint256 bn t" by blast
  have r: "0 < t" "t \<le> proofOfWorkLimit bn c"
    using t(2) lim by (auto simp: target_in_range_def bn_doc_arith [OF assms(1)] split: if_splits)
  have "uint (getuint256 bn t) = t"
    using getuint256_abs [OF assms(1), of t] r lim by (simp add: unsigned_of_int take_bit_int_eq_self)
  then have "uint (worked_hash sha scrypt c b) \<le> t" using t(3) by (simp add: not_less word_le_def)
  then show ?thesis using t(1) r by blast
qed

text \<open>C36: an accepted proof of work has a positive target within the limit of the chain, and the hash, of the parent
  block for merged mining, is at most that target.\<close>

theorem accepted_work_below_target:
  assumes "bn_documented bn" "checkProofOfWork bn sha scrypt c b = Some True"
  shows "\<exists>t. SetCompact bn (bh_bits (header b)) = Some t \<and> 0 < t \<and> t \<le> proofOfWorkLimit bn c \<and>
    uint (worked_hash sha scrypt c b) \<le> t"
  by (rule accepted_target [OF assms])

section \<open>Names\<close>

text \<open>A name that has expired at one height is expired at every later one: the horizon never moves back.\<close>

theorem expiry_is_final:
  "n \<le> m \<Longrightarrow> n - expirationDepth Namecoin n \<le> m - expirationDepth Namecoin m"
  by (simp add: expirationDepth_def Let_def)


section \<open>The theorems at work\<close>

definition terra_ref :: "nat \<Rightarrow> blockref" where
  "terra_ref i = \<lparr>ref_version = 1, ref_hash = word_of_nat (Suc i), ref_prev = word_of_nat i,
     ref_time = word_of_nat (100 * i), ref_bits = 0x01100000\<rparr>"

definition terra_tree :: tree where
  "terra_tree = empty_tree\<lparr>trunk := map terra_ref [0..<30], heights := map (\<lambda>i. (word_of_nat (Suc i), int i)) [0..<30]\<rparr>"

lemma terra_height: "height_of terra_tree (ref_hash (terra_ref 29)) = Inr 29"
  by code_simp

lemma terra_former: "blocks_back terra_tree (terra_ref 29) 29 = Inr (terra_ref 0)"
proof -
  have "trunk terra_tree ! 0 = terra_ref 0" "length (trunk terra_tree) = 30"
    by (simp_all add: terra_tree_def)
  moreover have "back_loop terra_tree 29 (terra_ref 29) = Inr (terra_ref 29, 29)"
    using terra_height back_loop.simps(2) [of terra_tree 28 "terra_ref 29"] by (simp del: back_loop.simps)
  ultimately show ?thesis
    using terra_height by (simp add: blocks_back_def advance_def trunk_at_def of_tree_def del: back_loop.simps)
qed

lemma terra_bits: "SetCompact ref_bn (ref_bits (terra_ref 29)) = Some 16"
  by code_simp

lemma terra_next: "nextWorkRequired ref_bn Terracoin terra_tree (terra_ref 29) = Inr (GetCompact ref_bn 12)"
proof -
  have "int_minus (ref_time (terra_ref 29)) (ref_time (terra_ref 0)) = Inr 2900"
    by (simp add: int_minus_def terra_ref_def INT_MIN_def INT_MAX_def)
  then have "retarget_since ref_bn Terracoin (terra_ref 29) 3600 (terra_ref 0) = Inr (GetCompact ref_bn 12)"
    using terra_bits
    by (simp add: retarget_since_def retarget_def clamp_def bn_of_int_doc [OF ref_bn_documented] limit_doc [OF ref_bn_documented]
        bn_doc_arith [OF ref_bn_documented] bn_quot_def)
  then show ?thesis
    using terra_height terra_former by (simp add: terracoin_next_def of_tree_def c_rem_def bn_rem_def)
qed

theorem next_work_bounded_witness:
  "GetCompact ref_bn 12 = ref_bits (terra_ref 29) \<or> adjusted ref_bn (proofOfWorkLimit ref_bn Terracoin) 4 16 (GetCompact ref_bn 12)"
proof -
  have "count_of terra_tree (ref_hash (terra_ref 29)) = Inr 30" using terra_height by (simp add: count_of_def and_then_def)
  from next_work_bounded [OF ref_bn_documented terra_height _ this _ terra_bits _ terra_next] show ?thesis
    by (simp add: least_part_def)
qed


theorem expiry_is_final_witness: "30000 - expirationDepth Namecoin 30000 \<le> 50001 - expirationDepth Namecoin 50001"
  by (rule expiry_is_final) simp


theorem testnet_search_ends_witness:
  "\<exists>b m. nextWorkRequired ref_bn Testnet3 sample_tree (sample_ref 4 3 0x0200ff00) = Inr (ref_bits b) \<and>
    known sample_tree (ref_hash b) = Some b \<and> height_of sample_tree (ref_hash b) = Inr m \<and> \<bar>m\<bar> \<le> \<bar>3\<bar> \<and>
    (c_rem m 2016 = 0 \<or> ref_bits b \<noteq> GetCompact ref_bn (proofOfWorkLimit ref_bn Testnet3))"
  by (rule testnet_search_ends [OF sample_tree_inv])
    (simp_all add: known_def height_of_def sm_get_def sample_tree_def c_rem_def bn_rem_def)

definition easy_block :: mined_block where
  "easy_block =
     \<lparr>header = \<lparr>bh_version = 2, bh_prevBlock = 0, bh_merkleRoot = 0, bh_time = 0, bh_bits = 0x0200ff00, bh_nonce = 0\<rparr>,
      transactions = [], merkleTree = [], ignore_aux_pow = True, block_aux_pow = sample_aux\<rparr>"

lemma easy_bits: "SetCompact ref_bn (bh_bits (header easy_block)) = Some 255"
  by (simp add: easy_block_def SetCompact_def ref_bn_def compact_bytes_def be_size_def mpi_value_def be_value_def)

lemma easy_work: "checkProofOfWork ref_bn (\<lambda>_. []) (\<lambda>_. 0) Bitcoin easy_block = Some True"
  using easy_bits
  by (simp add: chain_work target_in_range_def limit_doc [OF ref_bn_documented] bn_doc_arith [OF ref_bn_documented]
      header_getHash_def Hash_def bytes_to_uint256_def)

theorem accepted_work_below_target_witness:
  "\<exists>t. SetCompact ref_bn (bh_bits (header easy_block)) = Some t \<and> 0 < t \<and> t \<le> proofOfWorkLimit ref_bn Bitcoin \<and>
    uint (worked_hash (\<lambda>_. []) (\<lambda>_. 0) Bitcoin easy_block) \<le> t"
  by (rule accepted_work_below_target [OF ref_bn_documented easy_work])

end
