(* ===== verification/Claims.thy ===== *)
theory Claims
  imports Transaction StdMap
begin

text \<open>
  The memory pool of \<^verbatim>\<open>include/coinChain/Claims.h\<close> and \<^verbatim>\<open>src/coinChain/Claims.cpp\<close>: the unconfirmed
  transactions with their fees, the order in which they go into a block, the coins they spend and the
  scripts they pay to, and the selection of transactions for a block.
\<close>

section \<open>Claims\<close>

record claim =
  cl_txn :: transaction
  cl_timestamp :: u32
  cl_size :: u32
  cl_fee :: u64
  cl_delta :: u32
  cl_depends :: "uint256 list"

definition tx_size :: "transaction \<Rightarrow> nat" where
  "tx_size txn = length (put_transaction txn)"

text \<open>The constructor; \<open>now\<close> is the time of the clock.\<close>

definition new_claim :: "u32 \<Rightarrow> transaction \<Rightarrow> u64 \<Rightarrow> u32 \<Rightarrow> claim" where
  "new_claim now txn fee ts =
     \<lparr>cl_txn = txn, cl_timestamp = (if ts \<noteq> 0 then ts else now), cl_size = of_nat (tx_size txn),
      cl_fee = fee, cl_delta = of_nat (length (tx_outputs txn)) - of_nat (length (tx_inputs txn)),
      cl_depends = []\<rparr>"

type_synonym confirmations = "(uint256 \<times> claim) list"

text \<open>
  The order of the priorities: by fee per byte, the products as signed 64-bit numbers, then by the
  change of the number of spendables, a signed 32-bit number.
\<close>

definition rate_product :: "claim \<Rightarrow> claim \<Rightarrow> int" where
  "rate_product a b = sint (cl_fee a * ucast (cl_size b))"

definition claim_before :: "claim \<Rightarrow> claim \<Rightarrow> bool" where
  "claim_before l r =
     (if rate_product l r > rate_product r l then True
      else if rate_product l r < rate_product r l then False
      else cl_delta l <s cl_delta r)"

definition null_claim :: claim where
  "null_claim = new_claim 0 null_transaction 0 0"

definition claim_of :: "confirmations \<Rightarrow> uint256 \<Rightarrow> claim" where
  "claim_of m h = sm_at null_claim m h"

definition prio_before :: "confirmations \<Rightarrow> uint256 \<Rightarrow> uint256 \<Rightarrow> bool" where
  "prio_before m l r = claim_before (claim_of m l) (claim_of m r)"

text \<open>
  A \<^verbatim>\<open>std::set\<close> with this order: it takes two elements of which neither is before the other for the
  same, does not insert the second one and erases the first one for it.
\<close>

fun set_insert :: "('a \<Rightarrow> 'a \<Rightarrow> bool) \<Rightarrow> 'a \<Rightarrow> 'a list \<Rightarrow> 'a list" where
  "set_insert lt x [] = [x]"
| "set_insert lt x (y # ys) =
     (if lt y x then y # set_insert lt x ys
      else if lt x y then x # y # ys
      else y # ys)"

definition set_erase :: "('a \<Rightarrow> 'a \<Rightarrow> bool) \<Rightarrow> 'a \<Rightarrow> 'a list \<Rightarrow> 'a list" where
  "set_erase lt x ys = filter (\<lambda>y. lt x y \<or> lt y x) ys"

record claims =
  confirmations :: confirmations
  priorities :: "uint256 list"
  spents :: "coin set"
  scripts :: "(script \<times> coin) list"

definition no_claims :: claims where
  "no_claims = \<lparr>confirmations = [], priorities = [], spents = {}, scripts = []\<rparr>"

section \<open>Queries\<close>

definition claims_spent :: "claims \<Rightarrow> coin \<Rightarrow> bool" where
  "claims_spent s c \<longleftrightarrow> c \<in> spents s"

definition claims_have :: "claims \<Rightarrow> uint256 \<Rightarrow> bool" where
  "claims_have s h \<longleftrightarrow> sm_has (confirmations s) h"

definition claims_count :: "claims \<Rightarrow> nat" where
  "claims_count s = length (confirmations s)"

definition claims_timestamp :: "claims \<Rightarrow> uint256 \<Rightarrow> u32" where
  "claims_timestamp s h = (case sm_get (confirmations s) h of None \<Rightarrow> 0 | Some c \<Rightarrow> cl_timestamp c)"

definition claims_prev :: "claims \<Rightarrow> coin \<Rightarrow> tx_out" where
  "claims_prev s c =
     (case sm_get (confirmations s) (coin_hash c) of
        None \<Rightarrow> null_output
      | Some cl \<Rightarrow>
          let outs = tx_outputs (cl_txn cl)
          in if unat (coin_index c) < length outs then outs ! unat (coin_index c) else null_output)"

definition claims_claimed :: "claims \<Rightarrow> script \<Rightarrow> (coin \<times> tx_out) list" where
  "claims_claimed s scr =
     concat (map (\<lambda>(scr', c).
       if scr' \<noteq> scr then []
       else (case sm_get (confirmations s) (coin_hash c) of None \<Rightarrow> []
             | Some cl \<Rightarrow> [(c, tx_outputs (cl_txn cl) ! unat (coin_index c))])) (scripts s))"

section \<open>Insertion and removal\<close>

text \<open>
  An input that spends an output of a claim adds that claim's size and fee; the change of the number
  of spendables that it adds is the new transaction's own, not the claim's.
\<close>

definition add_dependency :: "confirmations \<Rightarrow> transaction \<Rightarrow> tx_in \<Rightarrow> claim \<Rightarrow> claim" where
  "add_dependency m txn i cl =
     (case sm_get m (coin_hash (prevout i)) of
        None \<Rightarrow> cl
      | Some d \<Rightarrow> cl\<lparr>cl_depends := cl_depends cl @ [coin_hash (prevout i)],
                    cl_size := cl_size cl + cl_size d,
                    cl_fee := cl_fee cl + cl_fee d,
                    cl_delta := cl_delta cl + (of_nat (length (tx_outputs txn)) - of_nat (length (tx_inputs txn)))\<rparr>)"

definition output_coins :: "uint256 \<Rightarrow> transaction \<Rightarrow> (script \<times> coin) list" where
  "output_coins h txn = map (\<lambda>(idx, out). (out_script out, Coin h (of_nat idx))) (enumerate 0 (tx_outputs txn))"

definition claims_insert ::
  "digest_fn \<Rightarrow> u32 \<Rightarrow> transaction \<Rightarrow> coin set \<Rightarrow> u64 \<Rightarrow> u32 \<Rightarrow> claims \<Rightarrow> claims" where
  "claims_insert sha now txn sp fee ts s =
     (let m = confirmations s;
          cl = fold (add_dependency m txn) (tx_inputs txn) (new_claim now txn fee ts);
          h = tx_getHash sha (cl_txn cl);
          m' = sm_insert h cl m
      in s\<lparr>confirmations := m',
           priorities := set_insert (prio_before m') h (priorities s),
           spents := spents s \<union> sp,
           scripts := scripts s @ output_coins h txn\<rparr>)"

fun remove_first :: "('a \<Rightarrow> bool) \<Rightarrow> 'a list \<Rightarrow> 'a list" where
  "remove_first p [] = []"
| "remove_first p (x # xs) = (if p x then xs else x # remove_first p xs)"

definition claims_erase :: "uint256 \<Rightarrow> claims \<Rightarrow> claims" where
  "claims_erase h s =
     (case sm_get (confirmations s) h of
        None \<Rightarrow> s
      | Some cl \<Rightarrow>
          s\<lparr>priorities := set_erase (prio_before (confirmations s)) h (priorities s),
            spents := spents s - set (map prevout (tx_inputs (cl_txn cl))),
            scripts := fold (\<lambda>e. remove_first ((=) e)) (output_coins h (cl_txn cl)) (scripts s),
            confirmations := sm_erase h (confirmations s)\<rparr>)"

definition claims_purge :: "u32 \<Rightarrow> claims \<Rightarrow> claims" where
  "claims_purge before s =
     (let death_row = map fst (filter (\<lambda>(h, cl). cl_timestamp cl < before) (confirmations s))
      in fold claims_erase death_row s)"

section \<open>The selection of transactions for a block\<close>

text \<open>
  \<open>insert_claim\<close> puts the claims that a claim depends on before it; the recursion runs over lists of
  hashes, as the loop does, and it may not end (\<open>None\<close>) if claims depend on each other in a circle.
  The result is the sizes it added up, the transactions and the hashes inserted so far.
\<close>

type_synonym selection = "transaction list \<times> uint256 set"

partial_function (option) insert_deps ::
  "digest_fn \<Rightarrow> confirmations \<Rightarrow> uint256 list \<Rightarrow> selection \<Rightarrow> (nat \<times> selection) option" where
  "insert_deps sha m hs sel =
     (case hs of
        [] \<Rightarrow> Some (0, sel)
      | h # hs \<Rightarrow>
          if h \<in> snd sel then insert_deps sha m hs sel
          else (case sm_get m h of
                  None \<Rightarrow> insert_deps sha m hs sel
                | Some cl \<Rightarrow>
                    Option.bind (insert_deps sha m (cl_depends cl) sel) (\<lambda>(n, txns, ins).
                    Option.bind (insert_deps sha m hs
                        (txns @ [cl_txn cl], insert (tx_getHash sha (cl_txn cl)) ins)) (\<lambda>(n', sel').
                      Some (n + unat (cl_size cl) + n', sel')))))"

definition insert_claim ::
  "digest_fn \<Rightarrow> confirmations \<Rightarrow> claim \<Rightarrow> selection \<Rightarrow> (nat \<times> selection) option" where
  "insert_claim sha m cl sel =
     Option.bind (insert_deps sha m (cl_depends cl) sel) (\<lambda>(n, txns, ins).
       Some (n + unat (cl_size cl), txns @ [cl_txn cl], insert (tx_getHash sha (cl_txn cl)) ins))"

fun select_loop ::
  "digest_fn \<Rightarrow> confirmations \<Rightarrow> uint256 list \<Rightarrow> nat \<Rightarrow> u64 \<Rightarrow> selection \<Rightarrow> (transaction list \<times> u64) option" where
  "select_loop sha m [] sz fee sel = Some (fst sel, fee)"
| "select_loop sha m (p # ps) sz fee sel =
     (case sm_get m p of
        None \<Rightarrow> select_loop sha m ps sz fee sel
      | Some cl \<Rightarrow>
          if p \<in> snd sel then select_loop sha m ps sz fee sel
          else if sz + unat (cl_size cl) \<ge> MAX_BLOCK_SIZE then Some (fst sel, fee)
          else Option.bind (insert_claim sha m cl sel) (\<lambda>(n, sel').
                 select_loop sha m ps (sz + n) (fee + cl_fee cl) sel'))"

definition claims_transactions :: "digest_fn \<Rightarrow> claims \<Rightarrow> nat \<Rightarrow> (transaction list \<times> u64) option" where
  "claims_transactions sha s header_and_coinbase =
     select_loop sha (confirmations s) (priorities s) header_and_coinbase 0 ([], {})"

text \<open>
  \<open>claims\<close>: the hashes of the selected transactions that a filter finds relevant; the filter is updated
  on the way (\<open>relevant\<close> is its method).
\<close>

fun relevant_hashes ::
  "digest_fn \<Rightarrow> ('f \<Rightarrow> transaction \<Rightarrow> bool \<times> 'f) \<Rightarrow> transaction list \<Rightarrow> 'f \<Rightarrow> uint256 list \<times> 'f" where
  "relevant_hashes sha relevant [] f = ([], f)"
| "relevant_hashes sha relevant (tx # txs) f =
     (let (b, f') = relevant f tx; (hs, f'') = relevant_hashes sha relevant txs f'
      in (if b then tx_getHash sha tx # hs else hs, f''))"

definition claims_claims ::
  "digest_fn \<Rightarrow> ('f \<Rightarrow> transaction \<Rightarrow> bool \<times> 'f) \<Rightarrow> claims \<Rightarrow> 'f \<Rightarrow> (uint256 list \<times> 'f) option" where
  "claims_claims sha relevant s f =
     map_option (\<lambda>(txns, fee). relevant_hashes sha relevant txns f) (claims_transactions sha s 1000)"

text \<open>The loop of \<open>threshold\<close> does not move on to the next claim.\<close>

partial_function (option) threshold_loop :: "confirmations \<Rightarrow> uint256 list \<Rightarrow> nat \<Rightarrow> u64 \<Rightarrow> u64 option" where
  "threshold_loop m ps sz fee =
     (case ps of [] \<Rightarrow> Some fee
      | p # ps' \<Rightarrow>
          if sz < MAX_BLOCK_SIZE
          then threshold_loop m ps (sz + unat (cl_size (claim_of m p))) (cl_fee (claim_of m p))
          else Some fee)"

definition claims_threshold :: "claims \<Rightarrow> nat \<Rightarrow> u64 option" where
  "claims_threshold s header_and_coinbase =
     threshold_loop (confirmations s) (priorities s) header_and_coinbase 0"

section \<open>Invariants of the pool\<close>

text \<open>
  The claims are filed under the hash of their transaction and only claims have a priority; no claim
  depends on itself through others; the size of a claim covers its transaction and the claims it
  depends on.
\<close>

definition present :: "confirmations \<Rightarrow> uint256 list \<Rightarrow> uint256 list" where
  "present m ds = filter (sm_has m) ds"

definition claims_ok :: "digest_fn \<Rightarrow> claims \<Rightarrow> bool" where
  "claims_ok sha s \<longleftrightarrow>
     sm_ok (confirmations s)
     \<and> (\<forall>h cl. sm_get (confirmations s) h = Some cl \<longrightarrow> tx_getHash sha (cl_txn cl) = h)
     \<and> (\<forall>h \<in> set (priorities s). sm_has (confirmations s) h)"

definition ranked :: "confirmations \<Rightarrow> (uint256 \<Rightarrow> nat) \<Rightarrow> bool" where
  "ranked m r \<longleftrightarrow>
     (\<forall>h cl d. sm_get m h = Some cl \<longrightarrow> d \<in> set (present m (cl_depends cl)) \<longrightarrow> r d < r h)"

definition sizes_ok :: "confirmations \<Rightarrow> bool" where
  "sizes_ok m \<longleftrightarrow>
     (\<forall>h cl. sm_get m h = Some cl \<longrightarrow>
       tx_size (cl_txn cl) + sum_list (map (\<lambda>d. unat (cl_size (claim_of m d))) (present m (cl_depends cl)))
         \<le> unat (cl_size cl))"

definition pool_ok :: "digest_fn \<Rightarrow> claims \<Rightarrow> bool" where
  "pool_ok sha s \<longleftrightarrow> claims_ok sha s \<and> (\<exists>r. ranked (confirmations s) r) \<and> sizes_ok (confirmations s)"

lemma claim_of_Some: "sm_get m h = Some cl \<Longrightarrow> claim_of m h = cl"
  by (simp add: claim_of_def sm_at_def)

lemma sm_has_Some: "sm_has m h \<longleftrightarrow> (\<exists>cl. sm_get m h = Some cl)"
  by (auto simp: sm_has_def)

lemma not_before_self: "\<not> claim_before l l" "\<not> prio_before m h h"
  by (simp_all add: claim_before_def prio_before_def)

lemma set_erase_self: "h \<notin> set (set_erase (prio_before m) h ps)"
  by (simp add: set_erase_def not_before_self)

lemma set_erase_subset: "set (set_erase lt h ps) \<subseteq> set ps"
  by (auto simp: set_erase_def)

lemma set_insert_subset: "set (set_insert lt x ps) \<subseteq> insert x (set ps)"
  by (induction lt x ps rule: set_insert.induct) auto

subsection \<open>Removal\<close>

lemma claims_erase_simps:
  "confirmations (claims_erase h s) = (if claims_have s h then sm_erase h (confirmations s) else confirmations s)"
  "set (priorities (claims_erase h s)) \<subseteq> set (priorities s)"
  "claims_have s h \<Longrightarrow> h \<notin> set (priorities (claims_erase h s))"
  by (auto simp: claims_erase_def claims_have_def sm_has_def set_erase_self subsetD [OF set_erase_subset]
      split: option.splits)

lemma erase_claims_ok: "claims_ok sha s \<Longrightarrow> claims_ok sha (claims_erase h s)"
  unfolding claims_ok_def
  using claims_erase_simps(2) [of h s] claims_erase_simps(3) [of s h]
  by (auto simp: claims_erase_simps(1) sm_has_Some claims_have_def split: if_splits)

lemma present_erase: "present (sm_erase h m) ds = filter (\<lambda>d. d \<noteq> h) (present m ds)"
  by (induction ds) (auto simp: present_def sm_has_def)

lemma erase_ranked: "ranked m r \<Longrightarrow> ranked (sm_erase h m) r"
  by (auto simp: ranked_def present_erase split: if_splits)

lemma sum_list_filter_le: "sum_list (map f (filter P xs)) \<le> (sum_list (map f xs) :: nat)"
  by (induction xs) auto

lemma erase_sizes_ok:
  assumes "sizes_ok m"
  shows "sizes_ok (sm_erase h m)"
  unfolding sizes_ok_def
proof (intro allI impI)
  fix h' cl
  assume "sm_get (sm_erase h m) h' = Some cl"
  then have "sm_get m h' = Some cl" by (auto split: if_splits)
  then have "tx_size (cl_txn cl) + sum_list (map (\<lambda>d. unat (cl_size (claim_of m d))) (present m (cl_depends cl)))
      \<le> unat (cl_size cl)"
    using assms by (auto simp: sizes_ok_def)
  moreover have "map (\<lambda>d. unat (cl_size (claim_of (sm_erase h m) d))) (present (sm_erase h m) (cl_depends cl))
    = map (\<lambda>d. unat (cl_size (claim_of m d))) (filter (\<lambda>d. d \<noteq> h) (present m (cl_depends cl)))"
    by (auto simp: present_erase claim_of_def sm_at_def)
  ultimately show "tx_size (cl_txn cl)
      + sum_list (map (\<lambda>d. unat (cl_size (claim_of (sm_erase h m) d))) (present (sm_erase h m) (cl_depends cl)))
      \<le> unat (cl_size cl)"
    using sum_list_filter_le [of "\<lambda>d. unat (cl_size (claim_of m d))" "\<lambda>d. d \<noteq> h" "present m (cl_depends cl)"]
    by (simp del: map_eq_conv)
qed

lemma erase_pool_ok: "pool_ok sha s \<Longrightarrow> pool_ok sha (claims_erase h s)"
  using erase_ranked erase_sizes_ok erase_claims_ok
  by (auto simp: pool_ok_def claims_erase_simps(1))

lemma purge_pool_ok: "pool_ok sha s \<Longrightarrow> pool_ok sha (claims_purge before s)"
proof -
  have "pool_ok sha (fold claims_erase hs s)" if "pool_ok sha s" for hs s
    using that by (induction hs arbitrary: s) (auto intro: erase_pool_ok)
  then show "pool_ok sha s \<Longrightarrow> pool_ok sha (claims_purge before s)"
    by (simp add: claims_purge_def Let_def)
qed

subsection \<open>Insertion\<close>

definition dep_hashes :: "confirmations \<Rightarrow> transaction \<Rightarrow> uint256 list" where
  "dep_hashes m txn = present m (map (coin_hash \<circ> prevout) (tx_inputs txn))"

definition built_claim :: "confirmations \<Rightarrow> u32 \<Rightarrow> transaction \<Rightarrow> u64 \<Rightarrow> u32 \<Rightarrow> claim" where
  "built_claim m now txn fee ts = fold (add_dependency m txn) (tx_inputs txn) (new_claim now txn fee ts)"

lemma fold_add_dependency:
  "cl_txn (fold (add_dependency m txn) is cl) = cl_txn cl"
  "cl_depends (fold (add_dependency m txn) is cl) = cl_depends cl @ present m (map (coin_hash \<circ> prevout) is)"
  "cl_size (fold (add_dependency m txn) is cl) = cl_size cl
     + sum_list (map (\<lambda>d. cl_size (claim_of m d)) (present m (map (coin_hash \<circ> prevout) is)))"
  "cl_fee (fold (add_dependency m txn) is cl) = cl_fee cl
     + sum_list (map (\<lambda>d. cl_fee (claim_of m d)) (present m (map (coin_hash \<circ> prevout) is)))"
  by (induction "is" arbitrary: cl)
    (auto simp: add_dependency_def present_def sm_has_def claim_of_def sm_at_def split: option.splits)

lemma built_claim_simps:
  "cl_txn (built_claim m now txn fee ts) = txn"
  "cl_depends (built_claim m now txn fee ts) = dep_hashes m txn"
  "cl_size (built_claim m now txn fee ts) = of_nat (tx_size txn) + sum_list (map (\<lambda>d. cl_size (claim_of m d)) (dep_hashes m txn))"
  "cl_fee (built_claim m now txn fee ts) = fee + sum_list (map (\<lambda>d. cl_fee (claim_of m d)) (dep_hashes m txn))"
  by (simp_all add: built_claim_def fold_add_dependency new_claim_def dep_hashes_def)

lemma claims_insert_simps:
  assumes "\<not> claims_have s (tx_getHash sha txn)"
  shows "confirmations (claims_insert sha now txn sp fee ts s)
      = sm_put (tx_getHash sha txn) (built_claim (confirmations s) now txn fee ts) (confirmations s)"
    and "set (priorities (claims_insert sha now txn sp fee ts s)) \<subseteq> insert (tx_getHash sha txn) (set (priorities s))"
  using assms set_insert_subset
  by (simp_all add: claims_insert_def Let_def flip: built_claim_def)
    (simp_all add: built_claim_simps sm_insert_def claims_have_def)

text \<open>A transaction is new to the pool when neither it nor anything that depends on it is there.\<close>

definition new_to_pool :: "digest_fn \<Rightarrow> claims \<Rightarrow> transaction \<Rightarrow> bool" where
  "new_to_pool sha s txn \<longleftrightarrow>
     \<not> claims_have s (tx_getHash sha txn)
     \<and> list_all (\<lambda>(h, cl). tx_getHash sha txn \<notin> set (cl_depends cl)) (confirmations s)"

definition whole_size :: "claims \<Rightarrow> transaction \<Rightarrow> nat" where
  "whole_size s txn = tx_size txn
     + sum_list (map (\<lambda>d. unat (cl_size (claim_of (confirmations s) d))) (dep_hashes (confirmations s) txn))"

lemma insert_claims_ok:
  assumes "claims_ok sha s" "\<not> claims_have s (tx_getHash sha txn)"
  shows "claims_ok sha (claims_insert sha now txn sp fee ts s)"
  using assms claims_insert_simps(2) [OF assms(2), of now sp fee ts]
  by (auto simp: claims_ok_def claims_insert_simps(1) built_claim_simps sm_has_Some split: if_splits)

lemma new_depends:
  assumes "claims_ok sha s" "new_to_pool sha s txn" "sm_get (confirmations s) h = Some cl"
  shows "tx_getHash sha txn \<notin> set (cl_depends cl)"
  using assms sm_get_iff [of "confirmations s" h cl]
  by (auto simp: claims_ok_def new_to_pool_def list_all_iff)

lemma present_put:
  "h \<notin> set ds \<Longrightarrow> present (sm_put h cl m) ds = present m ds"
  by (induction ds) (auto simp: present_def sm_has_def)

lemma map_claim_of_put:
  "h \<notin> set ds \<Longrightarrow> map (\<lambda>d. f (claim_of (sm_put h cl m) d)) (present m ds) = map (\<lambda>d. f (claim_of m d)) (present m ds)"
  by (induction ds) (auto simp: present_def claim_of_def sm_at_def)

lemma dep_hashes_present: "d \<in> set (dep_hashes m txn) \<Longrightarrow> sm_has m d"
  by (auto simp: dep_hashes_def present_def)

lemma insert_ranked:
  assumes "ranked (confirmations s) r" "claims_ok sha s" "new_to_pool sha s txn"
  shows "\<exists>r. ranked (confirmations (claims_insert sha now txn sp fee ts s)) r"
proof -
  let ?m = "confirmations s" and ?h = "tx_getHash sha txn"
  let ?r = "r(?h := Suc (sum_list (map r (dep_hashes ?m txn))))"
  have nh: "\<not> claims_have s ?h" using assms(3) by (simp add: new_to_pool_def)
  have "ranked (sm_put ?h (built_claim ?m now txn fee ts) ?m) ?r"
    unfolding ranked_def
  proof (intro allI impI)
    fix h cl d
    assume cl: "sm_get (sm_put ?h (built_claim ?m now txn fee ts) ?m) h = Some cl"
      and d: "d \<in> set (present (sm_put ?h (built_claim ?m now txn fee ts) ?m) (cl_depends cl))"
    show "?r d < ?r h"
    proof (cases "h = ?h")
      case True
      then have ds: "cl_depends cl = dep_hashes ?m txn" using cl by (auto simp: built_claim_simps)
      then have dm: "d \<in> set (dep_hashes ?m txn)" using d by (simp add: present_def)
      then have "d \<noteq> ?h" using dep_hashes_present nh by (auto simp: claims_have_def)
      moreover have "r d \<le> sum_list (map r (dep_hashes ?m txn))"
        using dm by (simp add: member_le_sum_list)
      ultimately show ?thesis using True by simp
    next
      case False
      then have g: "sm_get ?m h = Some cl" using cl by simp
      then have nd: "?h \<notin> set (cl_depends cl)" by (rule new_depends [OF assms(2,3)])
      then have "d \<in> set (present ?m (cl_depends cl))" using d by (simp add: present_put)
      then have "r d < r h" "d \<noteq> ?h" using assms(1) g nd by (auto simp: ranked_def present_def)
      then show ?thesis using False by simp
    qed
  qed
  then show ?thesis using claims_insert_simps(1) [OF nh] by auto
qed

lemma unat_sum_list:
  assumes "n + sum_list (map unat ws) < 2 ^ 32"
  shows "unat (of_nat n + sum_list ws :: u32) = n + sum_list (map unat ws)"
proof -
  have "of_nat n + sum_list ws = (of_nat (n + sum_list (map unat ws)) :: u32)"
    by (induction ws) (simp_all add: algebra_simps)
  then show ?thesis using assms by (simp only: unat_of_nat) simp
qed

lemma insert_sizes_ok:
  assumes "sizes_ok (confirmations s)" "claims_ok sha s" "new_to_pool sha s txn" "whole_size s txn < 2 ^ 32"
  shows "sizes_ok (confirmations (claims_insert sha now txn sp fee ts s))"
proof -
  let ?m = "confirmations s" and ?h = "tx_getHash sha txn"
  let ?cl = "built_claim ?m now txn fee ts"
  have nh: "\<not> claims_have s ?h" using assms(3) by (simp add: new_to_pool_def)
  have "sizes_ok (sm_put ?h ?cl ?m)"
    unfolding sizes_ok_def
  proof (intro allI impI)
    fix h cl
    assume cl: "sm_get (sm_put ?h ?cl ?m) h = Some cl"
    let ?ds = "cl_depends cl"
    have nd: "?h \<notin> set ?ds"
    proof (cases "h = ?h")
      case True
      then show ?thesis
        using cl nh dep_hashes_present by (auto simp: built_claim_simps claims_have_def)
    qed (use cl new_depends [OF assms(2,3)] in auto)
    have sum: "map (\<lambda>d. unat (cl_size (claim_of (sm_put ?h ?cl ?m) d))) (present (sm_put ?h ?cl ?m) ?ds)
      = map (\<lambda>d. unat (cl_size (claim_of ?m d))) (present ?m ?ds)"
      unfolding present_put [OF nd] by (rule map_claim_of_put [OF nd])
    have "tx_size (cl_txn cl) + sum_list (map (\<lambda>d. unat (cl_size (claim_of ?m d))) (present ?m ?ds)) \<le> unat (cl_size cl)"
    proof (cases "h = ?h")
      case True
      then have "cl = ?cl" using cl by simp
      moreover have "present ?m (dep_hashes ?m txn) = dep_hashes ?m txn"
        by (simp add: dep_hashes_def present_def)
      ultimately show ?thesis
        using unat_sum_list [of "tx_size txn" "map (\<lambda>d. cl_size (claim_of ?m d)) (dep_hashes ?m txn)"] assms(4)
        by (simp add: built_claim_simps whole_size_def comp_def)
    qed (use cl assms(1) in \<open>auto simp: sizes_ok_def\<close>)
    then show "tx_size (cl_txn cl) + sum_list (map (\<lambda>d. unat (cl_size (claim_of (sm_put ?h ?cl ?m) d)))
        (present (sm_put ?h ?cl ?m) ?ds)) \<le> unat (cl_size cl)"
      by (simp only: sum)
  qed
  then show ?thesis using claims_insert_simps(1) [OF nh] by simp
qed

lemma insert_pool_ok:
  assumes "pool_ok sha s" "new_to_pool sha s txn" "whole_size s txn < 2 ^ 32"
  shows "pool_ok sha (claims_insert sha now txn sp fee ts s)"
  using assms insert_ranked [of s _ sha txn now sp fee ts] insert_sizes_ok [of s sha txn now sp fee ts]
    insert_claims_ok [of sha s txn now sp fee ts]
  by (auto simp: pool_ok_def new_to_pool_def)

section \<open>The selection\<close>

definition deps_before :: "digest_fn \<Rightarrow> confirmations \<Rightarrow> transaction list \<Rightarrow> bool" where
  "deps_before sha m txns \<longleftrightarrow>
     list_all (\<lambda>i. set (present m (cl_depends (claim_of m (tx_getHash sha (txns ! i)))))
       \<subseteq> set (map (tx_getHash sha) (take i txns))) [0..<length txns]"

definition total_size :: "transaction list \<Rightarrow> nat" where
  "total_size txns = sum_list (map tx_size txns)"

definition good_selection :: "digest_fn \<Rightarrow> confirmations \<Rightarrow> transaction list \<Rightarrow> bool" where
  "good_selection sha m txns \<longleftrightarrow>
     distinct (map (tx_getHash sha) txns) \<and> deps_before sha m txns
     \<and> list_all (\<lambda>t. map_option cl_txn (sm_get m (tx_getHash sha t)) = Some t) txns"

lemma deps_before_snoc:
  "deps_before sha m (txns @ [t]) \<longleftrightarrow> deps_before sha m txns
     \<and> set (present m (cl_depends (claim_of m (tx_getHash sha t)))) \<subseteq> set (map (tx_getHash sha) txns)"
  by (auto simp: deps_before_def list_all_iff nth_append less_Suc_eq)

lemma total_size_snoc: "total_size (txns @ [t]) = total_size txns + tx_size t"
  by (simp add: total_size_def)

lemma good_snoc:
  assumes "good_selection sha m txns" "sm_get m h = Some cl" "tx_getHash sha (cl_txn cl) = h"
    and "h \<notin> set (map (tx_getHash sha) txns)" "set (present m (cl_depends cl)) \<subseteq> set (map (tx_getHash sha) txns)"
  shows "good_selection sha m (txns @ [cl_txn cl])"
  using assms by (auto simp: good_selection_def deps_before_snoc claim_of_def sm_at_def)

definition extends ::
  "digest_fn \<Rightarrow> confirmations \<Rightarrow> (uint256 \<Rightarrow> nat) \<Rightarrow> nat \<Rightarrow> uint256 list \<Rightarrow> selection \<Rightarrow> (nat \<times> selection) option \<Rightarrow> bool"
where
  "extends sha m r k hs sel res \<longleftrightarrow>
     (\<exists>n txns. res = Some (n, txns, set (map (tx_getHash sha) txns))
       \<and> good_selection sha m txns
       \<and> snd sel \<subseteq> set (map (tx_getHash sha) txns)
       \<and> set (present m hs) \<subseteq> set (map (tx_getHash sha) txns)
       \<and> total_size txns \<le> total_size (fst sel) + n
       \<and> total_size txns \<le> total_size (fst sel) + sum_list (map (\<lambda>d. unat (cl_size (claim_of m d))) (present m hs))
       \<and> (\<forall>x \<in> set (map (tx_getHash sha) txns) - snd sel. r x < k))"

lemma insert_deps_extends:
  assumes "ranked m r" "sizes_ok m"
    and hash: "\<And>h cl. sm_get m h = Some cl \<Longrightarrow> tx_getHash sha (cl_txn cl) = h"
    and "good_selection sha m txns" "\<And>h. h \<in> set (present m hs) \<Longrightarrow> r h < k"
  shows "extends sha m r k hs (txns, set (map (tx_getHash sha) txns))
    (insert_deps sha m hs (txns, set (map (tx_getHash sha) txns)))"
  using assms(4,5)
proof (induction k arbitrary: hs txns rule: less_induct)
  case (less k)
  let ?H = "\<lambda>txns. set (map (tx_getHash sha) txns)"
  show ?case
    using less.prems
  proof (induction hs arbitrary: txns)
    case Nil
    then show ?case by (subst insert_deps.simps) (simp add: extends_def present_def)
  next
    case (Cons h hs)
    have rest: "extends sha m r k hs (txns, ?H txns) (insert_deps sha m hs (txns, ?H txns))"
      if "good_selection sha m txns" for txns
      using Cons.IH that Cons.prems(2) by (simp add: present_def)
    consider (old) "h \<in> ?H txns" | (gone) "h \<notin> ?H txns" "sm_get m h = None"
      | (new) cl where "h \<notin> ?H txns" "sm_get m h = Some cl"
      by (cases "sm_get m h") auto
    then show ?case
    proof cases
      case old
      then have "insert_deps sha m (h # hs) (txns, ?H txns) = insert_deps sha m hs (txns, ?H txns)"
        by (subst insert_deps.simps) simp
      then have eq: "insert_deps sha m (h # hs) (txns, ?H txns) = insert_deps sha m hs (txns, ?H txns)" .
      from rest [OF Cons.prems(1)] obtain n t where t: "insert_deps sha m hs (txns, ?H txns) = Some (n, t, ?H t)"
        "good_selection sha m t" "?H txns \<subseteq> ?H t" "set (present m hs) \<subseteq> ?H t"
        "total_size t \<le> total_size txns + n"
        "total_size t \<le> total_size txns + sum_list (map (\<lambda>d. unat (cl_size (claim_of m d))) (present m hs))"
        "\<forall>x \<in> ?H t - ?H txns. r x < k"
        unfolding extends_def snd_conv fst_conv by blast
      have "set (present m (h # hs)) \<subseteq> ?H t"
        using t(3,4) old by (auto simp: present_def)
      moreover have "total_size t \<le> total_size txns + sum_list (map (\<lambda>d. unat (cl_size (claim_of m d))) (present m (h # hs)))"
        using t(6) by (simp add: present_def)
      ultimately show ?thesis
        unfolding eq extends_def fst_conv snd_conv using t by blast
    next
      case gone
      then have "insert_deps sha m (h # hs) (txns, ?H txns) = insert_deps sha m hs (txns, ?H txns)"
        by (subst insert_deps.simps) simp
      then show ?thesis
        using rest [OF Cons.prems(1)] gone by (simp add: extends_def present_def sm_has_def)
    next
      case new
      have hk: "r h < k" using Cons.prems(2) new(2) by (simp add: present_def sm_has_def)
      have "extends sha m r (r h) (cl_depends cl) (txns, ?H txns) (insert_deps sha m (cl_depends cl) (txns, ?H txns))"
        by (rule less.IH [OF hk Cons.prems(1)]) (use assms(1) new(2) in \<open>auto simp: ranked_def\<close>)
      then obtain n t1 where t1: "insert_deps sha m (cl_depends cl) (txns, ?H txns) = Some (n, t1, ?H t1)"
        "good_selection sha m t1" "?H txns \<subseteq> ?H t1" "set (present m (cl_depends cl)) \<subseteq> ?H t1"
        "total_size t1 \<le> total_size txns + n"
        "total_size t1 \<le> total_size txns + sum_list (map (\<lambda>d. unat (cl_size (claim_of m d))) (present m (cl_depends cl)))"
        "\<forall>x \<in> ?H t1 - ?H txns. r x < r h"
        unfolding extends_def snd_conv fst_conv by blast
      let ?t2 = "t1 @ [cl_txn cl]"
      have hcl: "tx_getHash sha (cl_txn cl) = h" by (rule hash [OF new(2)])
      have "h \<notin> ?H t1" using t1(7) new(1) by blast
      then have g2: "good_selection sha m ?t2"
        using good_snoc [OF t1(2) new(2) hcl _ t1(4)] by simp
      have H2: "?H ?t2 = insert h (?H t1)" by (simp add: hcl)
      have s2: "total_size ?t2 \<le> total_size txns + unat (cl_size cl)"
        "total_size ?t2 \<le> total_size txns + n + unat (cl_size cl)"
        using t1(5,6) assms(2) new(2) by (fastforce simp: sizes_ok_def total_size_snoc)+
      from rest [OF g2] obtain n' t3 where t3: "insert_deps sha m hs (?t2, ?H ?t2) = Some (n', t3, ?H t3)"
        "good_selection sha m t3" "?H ?t2 \<subseteq> ?H t3" "set (present m hs) \<subseteq> ?H t3"
        "total_size t3 \<le> total_size ?t2 + n'"
        "total_size t3 \<le> total_size ?t2 + sum_list (map (\<lambda>d. unat (cl_size (claim_of m d))) (present m hs))"
        "\<forall>x \<in> ?H t3 - ?H ?t2. r x < k"
        unfolding extends_def snd_conv fst_conv by blast
      have eq: "insert_deps sha m (h # hs) (txns, ?H txns) = Some (n + unat (cl_size cl) + n', t3, ?H t3)"
        using new t1(1) t3(1) unfolding H2
        by (subst insert_deps.simps) (simp add: hcl)
      have pres: "present m (h # hs) = h # present m hs" "claim_of m h = cl"
        using new(2) by (simp_all add: present_def sm_has_def claim_of_Some)
      have "r x < k" if "x \<in> ?H t3" "x \<notin> ?H txns" for x
      proof (cases "x \<in> ?H t1")
        case True
        then have "r x < r h" using t1(7) that(2) by blast
        then show ?thesis using hk by simp
      next
        case False
        then show ?thesis using t3(7) that(1) hk unfolding H2 by (cases "x = h") blast+
      qed
      then have new_ranks: "\<forall>x \<in> ?H t3 - ?H txns. r x < k" by blast
      have sub: "?H txns \<subseteq> ?H t3" "set (h # present m hs) \<subseteq> ?H t3"
        using t1(3) t3(3,4) unfolding H2 list.set by blast+
      have sums: "total_size t3 \<le> total_size txns + (n + unat (cl_size cl) + n')"
        "total_size t3 \<le> total_size txns + sum_list (map (\<lambda>d. unat (cl_size (claim_of m d))) (h # present m hs))"
        using t3(5,6) s2 by (simp_all add: pres)
      show ?thesis
        unfolding eq extends_def fst_conv snd_conv pres(1)
        using t3(2) sub sums new_ranks by blast
    qed
  qed
qed

text \<open>The sizes the selection adds up: of every transaction it took, the size of its claim.\<close>

definition carried :: "digest_fn \<Rightarrow> confirmations \<Rightarrow> transaction list \<Rightarrow> nat" where
  "carried sha m txns = sum_list (map (\<lambda>t. unat (cl_size (claim_of m (tx_getHash sha t)))) txns)"

lemma carried_append [simp]: "carried sha m (xs @ ys) = carried sha m xs + carried sha m ys"
  by (simp add: carried_def)

lemma carried_Cons:
  "sm_get m h = Some cl \<Longrightarrow> tx_getHash sha (cl_txn cl) = h \<Longrightarrow> carried sha m (cl_txn cl # ts) = unat (cl_size cl) + carried sha m ts"
  by (simp add: carried_def claim_of_Some)

lemma carried_Nil [simp]: "carried sha m [] = 0"
  by (simp add: carried_def)

lemma insert_deps_carried:
  assumes "insert_deps sha m hs sel = Some y"
  shows "(\<forall>h cl. sm_get m h = Some cl \<longrightarrow> tx_getHash sha (cl_txn cl) = h) \<longrightarrow>
    (\<exists>new. fst (snd y) = fst sel @ new \<and> fst y = carried sha m new)"
  using assms
proof (induction rule: insert_deps.raw_induct [rotated, consumes 1, case_names step])
  case (step f sha m hs sel y)
  show ?case
  proof
    assume hash: "\<forall>h cl. sm_get m h = Some cl \<longrightarrow> tx_getHash sha (cl_txn cl) = h"
    have ih: "\<exists>new. fst (snd y') = fst sel' @ new \<and> fst y' = carried sha m new" if "f sha m hs' sel' = Some y'" for hs' sel' y'
      using step(1) [OF that] hash by blast
    show "\<exists>new. fst (snd y) = fst sel @ new \<and> fst y = carried sha m new"
    proof (cases hs)
      case Nil
      then show ?thesis using step(2) by (intro exI [of _ "[]"]) (auto simp: carried_def)
    next
      case (Cons h hs')
      show ?thesis
      proof (cases "h \<in> snd sel \<or> sm_get m h = None")
        case True
        then have "f sha m hs' sel = Some y" using step(2) Cons by (auto split: if_splits)
        then show ?thesis by (rule ih)
      next
        case False
        then obtain cl where cl: "sm_get m h = Some cl" by blast
        then obtain n t1 i1 n' sel' where r: "f sha m (cl_depends cl) sel = Some (n, t1, i1)"
          "f sha m hs' (t1 @ [cl_txn cl], insert (tx_getHash sha (cl_txn cl)) i1) = Some (n', sel')"
          "y = (n + unat (cl_size cl) + n', sel')"
          using step(2) Cons False by (auto simp: bind_eq_Some_conv)
        obtain new1 where new1: "t1 = fst sel @ new1" "n = carried sha m new1" using ih [OF r(1)] by auto
        obtain new2 where new2: "fst sel' = t1 @ [cl_txn cl] @ new2" "n' = carried sha m new2" using ih [OF r(2)] by auto
        show ?thesis
          by (rule exI [of _ "new1 @ [cl_txn cl] @ new2"])
            (use r(3) new1 new2 carried_Cons [OF cl] hash cl in simp)
      qed
    qed
  qed
qed

lemma insert_claim_extends:
  assumes "pool_ok sha s" "sm_get (confirmations s) h = Some cl" "good_selection sha (confirmations s) txns"
    and "h \<notin> set (map (tx_getHash sha) txns)"
  shows "\<exists>n txns'. insert_claim sha (confirmations s) cl (txns, set (map (tx_getHash sha) txns))
      = Some (n, txns', set (map (tx_getHash sha) txns'))
    \<and> carried sha (confirmations s) txns' = carried sha (confirmations s) txns + n
    \<and> good_selection sha (confirmations s) txns' \<and> total_size txns' \<le> total_size txns + n
    \<and> total_size txns' \<le> total_size txns + unat (cl_size cl)
    \<and> set (map (tx_getHash sha) txns) \<subseteq> set (map (tx_getHash sha) txns') \<and> h \<in> set (map (tx_getHash sha) txns')"
proof -
  let ?m = "confirmations s" and ?H = "\<lambda>txns. set (map (tx_getHash sha) txns)"
  obtain r where r: "ranked ?m r" using assms(1) by (auto simp: pool_ok_def)
  have hash: "tx_getHash sha (cl_txn cl) = h" if "sm_get ?m h = Some cl" for h cl
    using assms(1) that by (simp add: pool_ok_def claims_ok_def)
  have "extends sha ?m r (r h) (cl_depends cl) (txns, ?H txns) (insert_deps sha ?m (cl_depends cl) (txns, ?H txns))"
    by (rule insert_deps_extends [OF r _ hash assms(3)])
      (use assms(1,2) r in \<open>auto simp: pool_ok_def ranked_def\<close>)
  then obtain n t1 where t1: "insert_deps sha ?m (cl_depends cl) (txns, ?H txns) = Some (n, t1, ?H t1)"
    "good_selection sha ?m t1" "?H txns \<subseteq> ?H t1" "set (present ?m (cl_depends cl)) \<subseteq> ?H t1"
    "total_size t1 \<le> total_size txns + n"
    "total_size t1 \<le> total_size txns + sum_list (map (\<lambda>d. unat (cl_size (claim_of ?m d))) (present ?m (cl_depends cl)))"
    "\<forall>x \<in> ?H t1 - ?H txns. r x < r h"
    unfolding extends_def snd_conv fst_conv by blast
  have hcl: "tx_getHash sha (cl_txn cl) = h" by (rule hash [OF assms(2)])
  have nh: "h \<notin> ?H t1" using t1(7) assms(4) by blast
  have sz: "tx_size (cl_txn cl) + sum_list (map (\<lambda>d. unat (cl_size (claim_of ?m d))) (present ?m (cl_depends cl))) \<le> unat (cl_size cl)"
    using assms(1,2) by (simp add: pool_ok_def sizes_ok_def)
  have "\<exists>new. t1 = txns @ new \<and> n = carried sha ?m new" using insert_deps_carried [OF t1(1)] hash by simp
  then have "carried sha ?m (t1 @ [cl_txn cl]) = carried sha ?m txns + (n + unat (cl_size cl))"
    using carried_Cons [OF assms(2) hcl] by auto
  then show ?thesis
    using t1(1,3,5,6) sz good_snoc [OF t1(2) assms(2) hcl nh t1(4)] hcl
    by (auto simp: insert_claim_def total_size_snoc)
qed

text \<open>How far the selection went: every claim up to some priority is taken, and the next one no longer fits.\<close>

definition stops_full :: "digest_fn \<Rightarrow> confirmations \<Rightarrow> nat \<Rightarrow> uint256 list \<Rightarrow> transaction list \<Rightarrow> bool" where
  "stops_full sha m hc ps txns \<longleftrightarrow>
     (\<exists>taken rest. ps = taken @ rest \<and>
       (\<forall>p\<in>set taken. sm_has m p \<longrightarrow> p \<in> set (map (tx_getHash sha) txns)) \<and>
       (rest = [] \<or> MAX_BLOCK_SIZE \<le> hc + carried sha m txns + unat (cl_size (claim_of m (hd rest)))))"

lemma stops_full_Cons:
  assumes "stops_full sha m hc ps txns" and "sm_has m p \<Longrightarrow> p \<in> set (map (tx_getHash sha) txns)"
  shows "stops_full sha m hc (p # ps) txns"
proof -
  obtain taken rest where "ps = taken @ rest" "\<forall>p\<in>set taken. sm_has m p \<longrightarrow> p \<in> set (map (tx_getHash sha) txns)"
    "rest = [] \<or> MAX_BLOCK_SIZE \<le> hc + carried sha m txns + unat (cl_size (claim_of m (hd rest)))"
    using assms(1) unfolding stops_full_def by blast
  then show ?thesis unfolding stops_full_def using assms(2) by (intro exI [of _ "p # taken"] exI [of _ rest]) auto
qed

lemma select_loop_good:
  assumes "pool_ok sha s" "good_selection sha (confirmations s) txns" "hc + total_size txns \<le> sz"
    and "txns = [] \<or> hc + total_size txns < MAX_BLOCK_SIZE" "sz = hc + carried sha (confirmations s) txns"
  shows "\<exists>txns' fee'. select_loop sha (confirmations s) ps sz fee (txns, set (map (tx_getHash sha) txns)) = Some (txns', fee')
    \<and> good_selection sha (confirmations s) txns' \<and> (txns' = [] \<or> hc + total_size txns' < MAX_BLOCK_SIZE)
    \<and> set (map (tx_getHash sha) txns) \<subseteq> set (map (tx_getHash sha) txns')
    \<and> stops_full sha (confirmations s) hc ps txns'"
  using assms(2-)
proof (induction ps arbitrary: txns sz fee)
  case Nil
  then show ?case by (simp add: stops_full_def)
next
  case (Cons p ps)
  let ?H = "\<lambda>txns. set (map (tx_getHash sha) txns)" and ?m = "confirmations s"
  have skip: ?case if p: "sm_has ?m p \<Longrightarrow> p \<in> ?H txns"
    and eq: "select_loop sha ?m (p # ps) sz fee (txns, ?H txns) = select_loop sha ?m ps sz fee (txns, ?H txns)"
  proof -
    obtain txns' fee' where t: "select_loop sha ?m ps sz fee (txns, ?H txns) = Some (txns', fee')"
      "good_selection sha ?m txns'" "txns' = [] \<or> hc + total_size txns' < MAX_BLOCK_SIZE" "?H txns \<subseteq> ?H txns'"
      "stops_full sha ?m hc ps txns'"
      using Cons.IH [OF Cons.prems, of fee] by blast
    have "stops_full sha ?m hc (p # ps) txns'" by (rule stops_full_Cons [OF t(5)]) (use p t(4) in blast)
    then show ?thesis unfolding eq using t by blast
  qed
  show ?case
  proof (cases "sm_get ?m p")
    case None
    then show ?thesis by (intro skip) (simp_all add: sm_has_def)
  next
    case (Some cl)
    consider (old) "p \<in> ?H txns" | (full) "p \<notin> ?H txns" "sz + unat (cl_size cl) \<ge> MAX_BLOCK_SIZE"
      | (fits) "p \<notin> ?H txns" "sz + unat (cl_size cl) < MAX_BLOCK_SIZE" by fastforce
    then show ?thesis
    proof cases
      case old
      then show ?thesis using Some by (intro skip) auto
    next
      case full
      have "stops_full sha ?m hc (p # ps) txns"
        unfolding stops_full_def using full Cons.prems(4) Some
        by (intro exI [of _ "[]"] exI [of _ "p # ps"]) (simp add: claim_of_Some)
      then show ?thesis using full Some Cons.prems by auto
    next
      case fits
      then obtain n t where t: "insert_claim sha ?m cl (txns, ?H txns) = Some (n, t, ?H t)"
        "carried sha ?m t = carried sha ?m txns + n" "good_selection sha ?m t" "total_size t \<le> total_size txns + n"
        "total_size t \<le> total_size txns + unat (cl_size cl)" "?H txns \<subseteq> ?H t" "p \<in> ?H t"
        using insert_claim_extends [OF assms(1) Some Cons.prems(1)] by blast
      have b: "hc + total_size t \<le> sz + n" "t = [] \<or> hc + total_size t < MAX_BLOCK_SIZE" "sz + n = hc + carried sha ?m t"
        using t(2,4,5) Cons.prems(2,4) fits by auto
      obtain txns' fee' where r: "select_loop sha ?m ps (sz + n) (fee + cl_fee cl) (t, ?H t) = Some (txns', fee')"
        "good_selection sha ?m txns'" "txns' = [] \<or> hc + total_size txns' < MAX_BLOCK_SIZE" "?H t \<subseteq> ?H txns'"
        "stops_full sha ?m hc ps txns'"
        using Cons.IH [OF t(3) b(1,2,3), of "fee + cl_fee cl"] by blast
      have "select_loop sha ?m (p # ps) sz fee (txns, ?H txns) = Some (txns', fee')"
        using Some fits t(1) r(1) by simp
      moreover have "stops_full sha ?m hc (p # ps) txns'"
        by (rule stops_full_Cons [OF r(5)]) (use t(7) r(4) in blast)
      ultimately show ?thesis using r(2-4) t(6) by blast
    qed
  qed
qed

lemma transactions_good:
  assumes "pool_ok sha s"
  shows "\<exists>txns fee. claims_transactions sha s hc = Some (txns, fee)
    \<and> good_selection sha (confirmations s) txns \<and> (txns = [] \<or> hc + total_size txns < MAX_BLOCK_SIZE)
    \<and> stops_full sha (confirmations s) hc (priorities s) txns"
  using select_loop_good [OF assms, of "[]" hc hc "priorities s" 0]
  by (auto simp: claims_transactions_def good_selection_def deps_before_def total_size_def)

section \<open>What holds of the pool\<close>

text \<open>
  A digest for examples: the first byte, so that the hash of a transaction is the low byte of its
  version.
\<close>

definition first_byte :: digest_fn where
  "first_byte bs = take 1 bs"

lemma first_byte_hash: "tx_getHash first_byte txn = ucast (ucast (tx_version txn) :: byte)"
proof -
  have "put_word (v :: u32) = of_nat (unat v) # le_bytes 3 (unat v div 256)" for v
    using le_bytes.simps(2) [of 3 "unat v"] by (simp add: put_word_def)
  then show ?thesis
    by (simp add: tx_getHash_def Hash_def first_byte_def put_transaction_def bytes_to_uint256_def Let_def)
qed

definition sample_tx :: "u32 \<Rightarrow> coin \<Rightarrow> transaction" where
  "sample_tx v c =
     \<lparr>tx_version = v, tx_inputs = [\<lparr>prevout = c, signature = [], input_sequence = 0\<rparr>],
      tx_outputs = [\<lparr>out_value = 5, out_script = []\<rparr>], tx_lockTime = 0\<rparr>"

lemma sample_tx_simps [simp]:
  "tx_version (sample_tx v c) = v"
  "tx_inputs (sample_tx v c) = [\<lparr>prevout = c, signature = [], input_sequence = 0\<rparr>]"
  "tx_outputs (sample_tx v c) = [\<lparr>out_value = 5, out_script = []\<rparr>]"
  by (simp_all add: sample_tx_def)

lemma sample_tx_size: "tx_size (sample_tx v c) = 60"
  by (simp add: tx_size_def sample_tx_def put_transaction_def put_vector_def put_input_def put_output_def
      put_coin_def put_script_def put_varint_def)

lemma pool_ok_no_claims: "pool_ok sha no_claims"
  by (simp add: pool_ok_def no_claims_def claims_ok_def ranked_def sizes_ok_def)

text \<open>C19: Every operation of the memory pool keeps a consistent pool consistent: erasing any claim, purging
  the claims before any time, and inserting a transaction that is new to it, if the sizes it adds up stay below 32
  bits. In a consistent pool claims are filed under the hash of their transaction, only claims have a priority,
  dependencies are not circular, and the size of a claim covers its transaction and the claims it depends on.\<close>

theorem pool_invariant:
  assumes "pool_ok sha s"
  shows "pool_ok sha (claims_erase h s) \<and> pool_ok sha (claims_purge before s) \<and>
    (new_to_pool sha s txn \<and> whole_size s txn < 2 ^ 32 \<longrightarrow> pool_ok sha (claims_insert sha now txn sp fee ts s))"
  using insert_pool_ok [OF assms] erase_pool_ok [OF assms] purge_pool_ok [OF assms] by blast

text \<open>A pool of two claims, of which the second spends an output of the first.\<close>

lemma two_claims:
  defines "s1 \<equiv> claims_insert first_byte 7 (sample_tx 1 (Coin 9 0)) {Coin 9 0} 100 0 no_claims"
  shows "pool_ok first_byte s1" and "new_to_pool first_byte s1 (sample_tx 2 (Coin 1 0))"
    and "whole_size s1 (sample_tx 2 (Coin 1 0)) < 2 ^ 32"
proof -
  have n1: "\<not> claims_have no_claims (tx_getHash first_byte (sample_tx 1 (Coin 9 0)))"
    by (simp add: claims_have_def sm_has_def) (simp add: no_claims_def)
  show "pool_ok first_byte s1"
    unfolding s1_def by (rule insert_pool_ok [OF pool_ok_no_claims])
      (simp_all add: new_to_pool_def claims_have_def whole_size_def sample_tx_size dep_hashes_def present_def no_claims_def sm_has_def)
  have c: "confirmations s1 = [(1, built_claim [] 7 (sample_tx 1 (Coin 9 0)) 100 0)]"
    by (simp add: s1_def claims_insert_simps(1) [OF n1] first_byte_hash) (simp add: no_claims_def)
  show "new_to_pool first_byte s1 (sample_tx 2 (Coin 1 0))"
    by (simp add: new_to_pool_def c claims_have_def sm_has_def sm_get_def first_byte_hash)
      (simp add: built_claim_simps dep_hashes_def present_def sm_has_def)
  have "dep_hashes (confirmations s1) (sample_tx 2 (Coin 1 0)) = [1]"
    by (simp add: c dep_hashes_def present_def sm_has_def sm_get_def)
  moreover have "claim_of (confirmations s1) 1 = built_claim [] 7 (sample_tx 1 (Coin 9 0)) 100 0"
    by (simp add: c claim_of_def sm_at_def sm_get_def)
  moreover have "dep_hashes [] (sample_tx 1 (Coin 9 0)) = []"
    by (simp add: dep_hashes_def present_def sm_has_def)
  ultimately show "whole_size s1 (sample_tx 2 (Coin 1 0)) < 2 ^ 32"
    by (simp add: whole_size_def sample_tx_size built_claim_simps)
qed

theorem pool_invariant_witness:
  "pool_ok first_byte (claims_insert first_byte 7 (sample_tx 2 (Coin 1 0)) {Coin 1 0} 30 0
     (claims_insert first_byte 7 (sample_tx 1 (Coin 9 0)) {Coin 9 0} 100 0 no_claims))"
  using pool_invariant [OF two_claims(1), of 1 0 "sample_tx 2 (Coin 1 0)"] two_claims(2,3) by blast

definition family :: "digest_fn \<Rightarrow> transaction \<Rightarrow> u64 \<Rightarrow> transaction \<Rightarrow> u64 \<Rightarrow> claims" where
  "family sha p fp ch fc =
     claims_insert sha 1 ch (set (map prevout (tx_inputs ch))) fc 0
       (claims_insert sha 1 p (set (map prevout (tx_inputs p))) fp 0 no_claims)"

lemma family_confirmations:
  assumes "tx_getHash sha ch \<noteq> tx_getHash sha p"
  shows "sm_get (confirmations (family sha p fp ch fc)) =
    [tx_getHash sha p \<mapsto> built_claim [] 1 p fp 0,
     tx_getHash sha ch \<mapsto> built_claim [(tx_getHash sha p, built_claim [] 1 p fp 0)] 1 ch fc 0]"
proof -
  let ?s = "claims_insert sha 1 p (set (map prevout (tx_inputs p))) fp 0 no_claims"
  have n1: "\<not> claims_have no_claims (tx_getHash sha p)"
    by (simp add: claims_have_def sm_has_def) (simp add: no_claims_def)
  have c: "confirmations ?s = [(tx_getHash sha p, built_claim [] 1 p fp 0)]"
    by (simp add: claims_insert_simps(1) [OF n1]) (simp add: no_claims_def)
  have n2: "\<not> claims_have ?s (tx_getHash sha ch)"
    unfolding claims_have_def sm_has_def c using assms by (simp add: sm_get_def)
  show ?thesis
    unfolding family_def claims_insert_simps(1) [OF n2] c
    using assms by (simp add: sm_get_def fun_eq_iff)
qed

lemma claims_insert_priorities:
  "priorities (claims_insert sha now txn sp fee ts s) =
    set_insert (prio_before (confirmations (claims_insert sha now txn sp fee ts s))) (tx_getHash sha txn) (priorities s)"
  by (simp add: claims_insert_def Let_def fold_add_dependency new_claim_def)

lemma family_priorities:
  "priorities (family sha p fp ch fc) =
    set_insert (prio_before (confirmations (family sha p fp ch fc))) (tx_getHash sha ch) [tx_getHash sha p]"
  unfolding family_def claims_insert_priorities [of sha 1 ch]
  by (simp add: claims_insert_priorities [of sha 1 p]) (simp add: no_claims_def)

text \<open>The fee of a selection counts the fee of a parent again for each of its children: when a claim
  and its child are selected one after the other, the fee they are said to pay is the parent's twice
  and the child's once, more than the block's coinbase may claim.
\<close>

theorem fees_counted_twice:
  assumes "tx_getHash sha ch \<noteq> tx_getHash sha p" and "tx_inputs ch = [i]"
    and "coin_hash (prevout i) = tx_getHash sha p"
    and "priorities (family sha p fp ch fc) = [tx_getHash sha p, tx_getHash sha ch]"
    and "list_all (\<lambda>j. coin_hash (prevout j) \<noteq> tx_getHash sha ch) (tx_inputs p)"
    and "hc + 2 * tx_size p + tx_size ch < MAX_BLOCK_SIZE"
  shows "claims_transactions sha (family sha p fp ch fc) hc = Some ([p, ch], fp + (fc + fp))"
proof -
  let ?hp = "tx_getHash sha p" and ?hc = "tx_getHash sha ch"
  let ?cp = "built_claim [] 1 p fp 0"
  let ?cc = "built_claim [(?hp, ?cp)] 1 ch fc 0"
  let ?m = "confirmations (family sha p fp ch fc)"
  have get: "sm_get ?m ?hp = Some ?cp" "sm_get ?m ?hc = Some ?cc"
    using assms(1) by (simp_all add: family_confirmations)
  have small: "hc + 2 * tx_size p + tx_size ch < 2 ^ 32" using assms(6) by (simp add: MAX_BLOCK_SIZE_def)
  have dp: "dep_hashes [] p = []" by (simp add: dep_hashes_def present_def sm_has_def)
  have dc: "dep_hashes [(?hp, ?cp)] ch = [?hp]"
    using assms(2,3) by (simp add: dep_hashes_def present_def sm_has_def sm_get_def)
  have up: "unat (cl_size ?cp) = tx_size p"
    using small by (simp add: built_claim_simps dp unat_of_nat)
  have uc: "unat (cl_size ?cc) = tx_size ch + tx_size p"
    using unat_sum_list [of "tx_size ch" "[cl_size ?cp]"] small up
    by (simp add: built_claim_simps(3) [of "[(?hp, ?cp)]"] dc claim_of_def sm_at_def sm_get_def)
  have nil: "insert_deps sha ?m [] sel = Some (0, sel)" for sel by (subst insert_deps.simps) simp
  have ip: "insert_claim sha ?m ?cp ([], {}) = Some (tx_size p, [p], {?hp})"
    by (simp add: insert_claim_def built_claim_simps(1,2) dp nil up)
  have one: "insert_deps sha ?m [?hp] ([p], {?hp}) = Some (0, [p], {?hp})"
    by (subst insert_deps.simps) (simp add: nil)
  have ic: "insert_claim sha ?m ?cc ([p], {?hp}) = Some (tx_size ch + tx_size p, [p, ch], {?hc, ?hp})"
    by (simp add: insert_claim_def built_claim_simps(1) built_claim_simps(2) [of "[(?hp, ?cp)]"] dc one uc)
  have fee: "cl_fee ?cp = fp" "cl_fee ?cc = fc + fp"
    by (simp add: built_claim_simps dp)
      (simp add: built_claim_simps(4) [of "[(?hp, ?cp)]"] dc claim_of_def sm_at_def sm_get_def built_claim_simps(4) dp)
  have "select_loop sha ?m [?hp, ?hc] hc 0 ([], {}) = Some ([p, ch], fp + (fc + fp))"
    using assms(1,6) by (simp add: get up uc ip ic fee)
  then show ?thesis by (simp add: claims_transactions_def assms(4))
qed

lemma two_claims_selected:
  "claims_transactions first_byte (family first_byte (sample_tx 1 (Coin 9 0)) 100 (sample_tx 2 (Coin 1 0)) 30) 1000
   = Some ([sample_tx 1 (Coin 9 0), sample_tx 2 (Coin 1 0)], 230)"
proof -
  let ?p = "sample_tx 1 (Coin 9 0)" and ?c = "sample_tx 2 (Coin 1 0)"
  have h: "tx_getHash first_byte ?p = 1" "tx_getHash first_byte ?c = 2"
    by (simp_all add: first_byte_hash)
  have dp: "dep_hashes [] ?p = []" by (simp add: dep_hashes_def present_def sm_has_def)
  let ?cp = "built_claim [] 1 ?p 100 0" and ?cc = "built_claim [(1, built_claim [] 1 ?p 100 0)] 1 ?c 30 0"
  have dc: "dep_hashes [(1, ?cp)] ?c = [1]" by (simp add: dep_hashes_def present_def sm_has_def sm_get_def)
  have sp: "cl_size ?cp = 60" "cl_fee ?cp = 100" by (simp_all add: built_claim_simps dp sample_tx_size)
  have sc: "cl_size ?cc = 120" "cl_fee ?cc = 130"
    by (simp_all add: built_claim_simps(3,4) [of "[(1, ?cp)]"] dc sample_tx_size claim_of_def sm_at_def sm_get_def sp)
  have g: "claim_of (confirmations (family first_byte ?p 100 ?c 30)) 1 = ?cp"
    "claim_of (confirmations (family first_byte ?p 100 ?c 30)) 2 = ?cc"
    by (simp_all add: claim_of_def sm_at_def family_confirmations h)
  have "prio_before (confirmations (family first_byte ?p 100 ?c 30)) 1 2"
    by (simp add: prio_before_def g claim_before_def rate_product_def sp sc)
  then have "priorities (family first_byte ?p 100 ?c 30) = [1, 2]"
    by (simp add: family_priorities h)
  then show ?thesis
    using fees_counted_twice [of first_byte ?c ?p _ 100 30 1000] by (simp add: h sample_tx_size MAX_BLOCK_SIZE_def)
qed


theorem fees_counted_twice_witness:
  "claims_transactions first_byte (family first_byte (sample_tx 1 (Coin 9 0)) 100 (sample_tx 2 (Coin 1 0)) 30) 1000
   = Some ([sample_tx 1 (Coin 9 0), sample_tx 2 (Coin 1 0)], 230)"
  by (rule two_claims_selected)

text \<open>C20: The selection for a block always ends. No transaction is in it twice, every transaction comes after the
  claims it depends on, it fits into a block together with the header and the coinbase, and it is not cut short: every claim is
  taken, in the order of the priorities, up to the first whose size, added to those of the claims taken, would fill a block.
  (The size of a claim counts its parents again.)\<close>

theorem block_selection_fits:
  assumes "pool_ok sha s"
  shows "\<exists>txns fee taken rest. claims_transactions sha s hc = Some (txns, fee)
    \<and> distinct (map (tx_getHash sha) txns) \<and> deps_before sha (confirmations s) txns
    \<and> (txns = [] \<or> hc + sum_list (map tx_size txns) < MAX_BLOCK_SIZE)
    \<and> priorities s = taken @ rest
    \<and> (\<forall>p\<in>set taken. claims_have s p \<longrightarrow> p \<in> set (map (tx_getHash sha) txns))
    \<and> (rest = [] \<or> MAX_BLOCK_SIZE \<le> hc + carried sha (confirmations s) txns + unat (cl_size (claim_of (confirmations s) (hd rest))))"
proof -
  obtain txns fee where t: "claims_transactions sha s hc = Some (txns, fee)" "good_selection sha (confirmations s) txns"
    "txns = [] \<or> hc + total_size txns < MAX_BLOCK_SIZE" "stops_full sha (confirmations s) hc (priorities s) txns"
    using transactions_good [OF assms, of hc] by blast
  obtain taken rest where r: "priorities s = taken @ rest"
    "\<forall>p\<in>set taken. sm_has (confirmations s) p \<longrightarrow> p \<in> set (map (tx_getHash sha) txns)"
    "rest = [] \<or> MAX_BLOCK_SIZE \<le> hc + carried sha (confirmations s) txns + unat (cl_size (claim_of (confirmations s) (hd rest)))"
    using t(4) unfolding stops_full_def by blast
  show ?thesis
    by (intro exI [of _ txns] exI [of _ fee] exI [of _ taken] exI [of _ rest])
      (use t(1-3) r in \<open>auto simp: good_selection_def total_size_def claims_have_def\<close>)
qed

theorem block_selection_fits_witness:
  "distinct (map (tx_getHash first_byte) [sample_tx 1 (Coin 9 0), sample_tx 2 (Coin 1 0)]) \<and>
   deps_before first_byte (confirmations (family first_byte (sample_tx 1 (Coin 9 0)) 100 (sample_tx 2 (Coin 1 0)) 30))
     [sample_tx 1 (Coin 9 0), sample_tx 2 (Coin 1 0)]"
proof -
  let ?s = "family first_byte (sample_tx 1 (Coin 9 0)) 100 (sample_tx 2 (Coin 1 0)) 30"
  have "pool_ok first_byte ?s"
  proof -
    let ?s1 = "claims_insert first_byte 1 (sample_tx 1 (Coin 9 0)) {Coin 9 0} 100 0 no_claims"
    have n1: "\<not> claims_have no_claims (tx_getHash first_byte (sample_tx 1 (Coin 9 0)))"
      by (simp add: claims_have_def sm_has_def) (simp add: no_claims_def)
    have c: "confirmations ?s1 = [(1, built_claim [] 1 (sample_tx 1 (Coin 9 0)) 100 0)]"
      by (simp add: claims_insert_simps(1) [OF n1] first_byte_hash) (simp add: no_claims_def)
    show ?thesis
      unfolding family_def
      by (simp, intro insert_pool_ok pool_ok_no_claims)
        (simp_all add: new_to_pool_def claims_have_def whole_size_def sample_tx_size dep_hashes_def present_def no_claims_def
          sm_has_def c [unfolded no_claims_def] sm_get_def first_byte_hash built_claim_simps claim_of_def sm_at_def)
  qed
  from block_selection_fits [OF this, of 1000] show ?thesis
    using two_claims_selected by auto
qed

text \<open>Of two claims with the same fee per byte and the same change of the number of spendables only the
  first one gets a priority: the second one stays in the pool but never goes into a block.
\<close>

theorem equal_claims_lost:
  assumes "tx_getHash sha b \<noteq> tx_getHash sha a" and "hc + tx_size a < MAX_BLOCK_SIZE"
    and "list_all (\<lambda>i. coin_hash (prevout i) \<noteq> tx_getHash sha a) (tx_inputs b)"
    and "fa * of_nat (tx_size b) = fb * (of_nat (tx_size a) :: u64)" and "tx_size b < 2 ^ 32"
    and "length (tx_outputs a) + length (tx_inputs b) = length (tx_outputs b) + length (tx_inputs a)"
  shows "claims_transactions sha (family sha a fa b fb) hc = Some ([a], fa)
    \<and> claims_have (family sha a fa b fb) (tx_getHash sha b)"
proof -
  let ?ha = "tx_getHash sha a" and ?hb = "tx_getHash sha b"
  let ?ca = "built_claim [] 1 a fa 0" and ?cb = "built_claim [(?ha, built_claim [] 1 a fa 0)] 1 b fb 0"
  let ?m = "confirmations (family sha a fa b fb)"
  have none: "add_dependency m b i cl = cl" if "i \<in> set (tx_inputs b)" "m = [(?ha, ?ca)]" for m i cl
    using assms(3) that by (auto simp: add_dependency_def sm_get_def list_all_iff)
  have "fold (add_dependency [(?ha, ?ca)] b) is cl = cl" if "set is \<subseteq> set (tx_inputs b)" for "is" cl
    using that by (induction "is" arbitrary: cl) (auto simp: none)
  then have cb: "?cb = new_claim 1 b fb 0" by (simp add: built_claim_def)
  have "fold (add_dependency [] a) is cl = cl" for "is" cl
    by (induction "is" arbitrary: cl) (auto simp: add_dependency_def)
  then have ca: "?ca = new_claim 1 a fa 0" by (simp add: built_claim_def)
  have sizes: "tx_size a < 2 ^ 32" using assms(2) by (simp add: MAX_BLOCK_SIZE_def)
  have narrow: "ucast (of_nat n :: u32) = (of_nat n :: u64)" if "n < 2 ^ 32" for n
    using that by (simp add: word_unat_eq_iff unat_ucast_eq unat_of_nat)
  have get: "sm_get ?m ?ha = Some ?ca" "sm_get ?m ?hb = Some ?cb"
    using assms(1) by (simp_all add: family_confirmations)
  have of: "claim_of ?m ?ha = ?ca" "claim_of ?m ?hb = ?cb" using get by (simp_all add: claim_of_Some)
  have "(of_nat (length (tx_outputs a) + length (tx_inputs b)) :: u32) = of_nat (length (tx_outputs b) + length (tx_inputs a))"
    by (simp only: assms(6))
  then have delta: "(of_nat (length (tx_outputs a)) - of_nat (length (tx_inputs a)) :: u32) =
      of_nat (length (tx_outputs b)) - of_nat (length (tx_inputs b))"
    by (simp add: algebra_simps)
  have fb: "cl_fee ?cb = fb" "cl_size ?cb = of_nat (tx_size b)"
    "cl_delta ?cb = of_nat (length (tx_outputs b)) - of_nat (length (tx_inputs b))"
    unfolding cb by (simp_all add: new_claim_def)
  have fa: "cl_fee ?ca = fa" "cl_size ?ca = of_nat (tx_size a)"
    "cl_delta ?ca = of_nat (length (tx_outputs a)) - of_nat (length (tx_inputs a))"
    unfolding ca by (simp_all add: new_claim_def)
  have "\<not> prio_before ?m ?ha ?hb" "\<not> prio_before ?m ?hb ?ha"
    unfolding prio_before_def of claim_before_def rate_product_def fa fb delta
    using assms(4) by (simp_all add: narrow [OF assms(5)] narrow [OF sizes])
  then have ps: "priorities (family sha a fa b fb) = [?ha]"
    by (simp add: family_priorities)
  have nil: "insert_deps sha ?m [] sel = Some (0, sel)" for sel by (subst insert_deps.simps) simp
  have ia: "insert_claim sha ?m ?ca ([], {}) = Some (tx_size a, [a], {?ha})"
    using sizes by (simp add: insert_claim_def ca new_claim_def nil unat_of_nat)
  have "unat (cl_size ?ca) = tx_size a" "cl_fee ?ca = fa" using sizes by (simp_all add: ca new_claim_def unat_of_nat)
  then have "select_loop sha ?m [?ha] hc 0 ([], {}) = Some ([a], fa)"
    using assms(2) by (simp add: get ia)
  then show ?thesis using get by (simp add: claims_transactions_def ps claims_have_def sm_has_def)
qed

theorem equal_claims_lost_witness:
  "claims_transactions first_byte (family first_byte (sample_tx 1 (Coin 9 0)) 100 (sample_tx 2 (Coin 8 0)) 100) 1000
     = Some ([sample_tx 1 (Coin 9 0)], 100)
   \<and> claims_have (family first_byte (sample_tx 1 (Coin 9 0)) 100 (sample_tx 2 (Coin 8 0)) 100)
       (tx_getHash first_byte (sample_tx 2 (Coin 8 0)))"
  by (rule equal_claims_lost) (simp_all add: first_byte_hash sample_tx_size MAX_BLOCK_SIZE_def)

text \<open>The loop of the fee threshold ends, because it adds up the size of the first claim until that fills
  a block, and it returns the fee of that claim, the one of the highest priority, whatever else is in the pool.
\<close>

theorem threshold_is_first_fee:
  assumes "priorities s = p # ps" and "0 < cl_size (claim_of (confirmations s) p)" and "hc < MAX_BLOCK_SIZE"
  shows "claims_threshold s hc = Some (cl_fee (claim_of (confirmations s) p))"
proof -
  let ?m = "confirmations s" and ?c = "claim_of (confirmations s) p"
  have pos: "0 < unat (cl_size ?c)" using assms(2) by (simp add: word_less_nat_alt)
  have again: "threshold_loop ?m (p # ps) sz (cl_fee ?c) = Some (cl_fee ?c)" for sz
  proof (induction "MAX_BLOCK_SIZE - sz" arbitrary: sz rule: less_induct)
    case less
    then show ?case using pos by (subst threshold_loop.simps) simp
  qed
  show ?thesis
    unfolding claims_threshold_def assms(1)
    using assms(3) again by (subst threshold_loop.simps) simp
qed

theorem threshold_is_first_fee_witness:
  "claims_threshold (no_claims\<lparr>confirmations := [(1, (new_claim 1 (sample_tx 1 (Coin 9 0)) 100 0))], priorities := [1]\<rparr>) 1000
   = Some 100"
proof -
  let ?s = "no_claims\<lparr>confirmations := [(1, (new_claim 1 (sample_tx 1 (Coin 9 0)) 100 0))], priorities := [1]\<rparr>"
  have "claim_of (confirmations ?s) 1 = new_claim 1 (sample_tx 1 (Coin 9 0)) 100 0"
    by (simp add: claim_of_def sm_at_def sm_get_def)
  then show ?thesis
    using threshold_is_first_fee [of ?s 1 "[]" 1000] by (simp add: new_claim_def sample_tx_size MAX_BLOCK_SIZE_def)
qed

end
