(* ===== verification/NameOperation.thy ===== *)
theory NameOperation
  imports TxVerify
begin

text \<open>
  Names of \<^verbatim>\<open>include/coin/NameOperation.h\<close> and \<^verbatim>\<open>src/coin/NameOperation.cpp\<close>, with the class
  \<open>DropEvaluator\<close> of \<^verbatim>\<open>include/coin/Script.h\<close>: a name operation is written before an ordinary output script
  and dropped again, the evaluator of names runs what was dropped, and \<open>NameOperation\<close> follows the one name
  of a transaction from its inputs to its outputs.
\<close>

section \<open>What a script drops\<close>

record drop_evaluator = evaluator +
  de_dropped :: "stack_value list"

text \<open>\<open>OP_DROP\<close> records the front of the vector, the bottom of the stack, and removes the top.\<close>

definition drop_eval :: "bn_lib \<Rightarrow> crypto \<Rightarrow> drop_evaluator eval_fn" where
  "drop_eval bn cr opcode s =
     (if opcode = OP_2DROP then
        (case ev_stack s of
           x2 # x1 # r \<Rightarrow> (Continue, s\<lparr>ev_stack := r, de_dropped := de_dropped s @ [x2, x1]\<rparr>)
         | _ \<Rightarrow> refuse s)
      else if opcode = OP_DROP then
        (case ev_stack s of [] \<Rightarrow> refuse s
         | x # r \<Rightarrow> (Continue, s\<lparr>ev_stack := r, de_dropped := de_dropped s @ [last (x # r)]\<rparr>))
      else base_eval bn cr opcode s)"

definition new_drop_evaluator :: drop_evaluator where
  "new_drop_evaluator = evaluator.extend new_evaluator (drop_evaluator.fields [])"

definition dropped_value :: "bn_lib \<Rightarrow> stack_value \<Rightarrow> script" where
  "dropped_value bn val =
     (if length val = 1 \<and> 0 < val ! 0 \<and> val ! 0 < 16 then push_int64 bn (ucast (val ! 0)) else push_data val)"

definition dropped_script :: "bn_lib \<Rightarrow> drop_evaluator \<Rightarrow> script" where
  "dropped_script bn s = concat (map (dropped_value bn) (de_dropped s))"

definition getDropped :: "bn_lib \<Rightarrow> crypto \<Rightarrow> script \<Rightarrow> script" where
  "getDropped bn cr script = dropped_script bn (snd (evaluate (drop_eval bn cr) script new_drop_evaluator))"

section \<open>The evaluator of names\<close>

definition OP_NAME_NEW :: int where "OP_NAME_NEW = 1"
definition OP_NAME_FIRSTUPDATE :: int where "OP_NAME_FIRSTUPDATE = 2"
definition OP_NAME_UPDATE :: int where "OP_NAME_UPDATE = 3"

lemmas name_opcodes = OP_NAME_NEW_def OP_NAME_FIRSTUPDATE_def OP_NAME_UPDATE_def

record name_evaluator = evaluator +
  ne_name_script :: bool
  ne_ignore_rules :: bool

definition new_name_evaluator :: "bool \<Rightarrow> name_evaluator" where
  "new_name_evaluator ignore = evaluator.extend new_evaluator (name_evaluator.fields False ignore)"

definition vch_uint160 :: "stack_value \<Rightarrow> uint160" where
  "vch_uint160 vch = (if length vch = 20 then word_of_nat (le_value vch) else 0)"

definition eval_name_new :: "name_evaluator \<Rightarrow> outcome \<times> name_evaluator" where
  "eval_name_new s =
     (let s = s\<lparr>ne_name_script := True\<rparr>
      in if length (ev_stack s) \<noteq> 1 then (Stop False, s)
         else if length (last (ev_stack s)) \<noteq> 20 then (Stop False, s)
         else (Stop True, s))"

definition eval_name_firstupdate :: "crypto \<Rightarrow> name_evaluator \<Rightarrow> outcome \<times> name_evaluator" where
  "eval_name_firstupdate cr s =
     (let s = s\<lparr>ne_name_script := True\<rparr>
      in case ev_stack s of
           [name, rnd, value] \<Rightarrow> (Continue, s\<lparr>ev_stack := [name, value]\<rparr>)
         | [name, rnd, value, h] \<Rightarrow>
             let hash = vch_uint160 (toPubKeyHash (sha256 cr) (ripemd160 cr) (rnd @ name))
             in if vch_uint160 h = hash then (Stop True, s\<lparr>ev_stack := [name, value, h]\<rparr>)
                else if ne_ignore_rules s then (Stop True, s\<lparr>ne_name_script := False\<rparr>)
                else (Stop False, s)
         | _ \<Rightarrow> (Stop False, s))"

definition eval_name_update :: "name_evaluator \<Rightarrow> outcome \<times> name_evaluator" where
  "eval_name_update s =
     (let s = s\<lparr>ne_name_script := True\<rparr>
      in case ev_stack s of
           [name, value] \<Rightarrow> (Continue, s)
         | [name2, value2, name1, value1] \<Rightarrow>
             if name2 \<noteq> name1 \<and> \<not> ne_ignore_rules s then (Stop False, s)
             else (Stop True, s\<lparr>ev_stack := [name1, value2]\<rparr>)
         | _ \<Rightarrow> (Stop False, s))"

definition name_eval :: "crypto \<Rightarrow> name_evaluator eval_fn" where
  "name_eval cr opcode s =
     (let name_op = uint opcode - uint OP_1 + 1
      in if name_op = OP_NAME_NEW then eval_name_new s
         else if name_op = OP_NAME_FIRSTUPDATE then eval_name_firstupdate cr s
         else if name_op = OP_NAME_UPDATE then eval_name_update s
         else (Continue, s))"

definition was_name_new :: "name_evaluator \<Rightarrow> bool" where
  "was_name_new s \<longleftrightarrow> length (ev_stack s) = 1"

definition was_first_update :: "name_evaluator \<Rightarrow> bool" where
  "was_first_update s \<longleftrightarrow> length (ev_stack s) = 3"

section \<open>The operation of a transaction\<close>

text \<open>
  The constructor leaves the sum of the network fees and the height of the input without a value: they
  are what the memory holds, the parameters of \<open>new_name_operation\<close>.
\<close>

record name_operation =
  no_allow_overwrite :: bool
  no_name_in :: script
  no_input_count :: int
  no_name_out :: script
  no_network_fee :: u64
  no_requires_network_fee :: bool
  no_ignore_rules :: bool
  no_name :: "byte list"
  no_value :: "byte list"

datatype name_error = Only_one_name | Invalid_name_script | Network_fee_too_small

definition new_name_operation :: "u64 \<Rightarrow> int \<Rightarrow> bool \<Rightarrow> name_operation" where
  "new_name_operation fee_memory count_memory ignore =
     \<lparr>no_allow_overwrite = True, no_name_in = [], no_input_count = count_memory, no_name_out = [],
      no_network_fee = fee_memory, no_requires_network_fee = False, no_ignore_rules = ignore,
      no_name = [], no_value = []\<rparr>"

definition name_input ::
  "bn_lib \<Rightarrow> crypto \<Rightarrow> tx_out \<Rightarrow> int \<Rightarrow> name_operation \<Rightarrow> name_error + bool \<times> name_operation" where
  "name_input bn cr coin count op =
     (let dropped = getDropped bn cr (out_script coin)
      in if dropped = [] then Inr (False, op)
         else
           let ev = snd (evaluate (name_eval cr) dropped (new_name_evaluator (no_ignore_rules op)))
           in if \<not> ne_name_script ev then Inr (False, op)
              else if \<not> no_allow_overwrite op then Inl Only_one_name
              else
                let op = op\<lparr>no_name_in := dropped\<rparr>;
                    op = (if was_name_new ev then op\<lparr>no_input_count := count\<rparr>
                          else op\<lparr>no_allow_overwrite := False\<rparr>)
                in Inr (\<not> was_name_new ev, op))"

text \<open>
  The second output with a name operation is not refused: the code makes an exception and does not throw
  it.
\<close>

definition name_output ::
  "bn_lib \<Rightarrow> crypto \<Rightarrow> tx_out \<Rightarrow> name_operation \<Rightarrow> name_error + bool \<times> name_operation" where
  "name_output bn cr coin op =
     (let script = out_script coin
      in if length script = 1 \<and> script ! 0 = OP_RETURN then
           Inr (False, op\<lparr>no_network_fee := no_network_fee op + out_value coin\<rparr>)
         else
           let dropped = getDropped bn cr script
           in if no_name_out op = [] \<and> dropped \<noteq> [] then
                let op = op\<lparr>no_name_out := dropped\<rparr>;
                    allow_only_new = (no_name_in op = []);
                    ev0 = new_name_evaluator (no_ignore_rules op);
                    (ok, ev1) = (if allow_only_new then (True, ev0)
                                 else case evaluate (name_eval cr) (no_name_in op) ev0 of
                                        (v, ev) \<Rightarrow> (v = Verdict True \<and> ev_stack ev \<noteq> [], ev))
                in if \<not> ok then Inl Invalid_name_script
                   else
                     case evaluate (name_eval cr) dropped ev1 of
                       (v, ev) \<Rightarrow>
                         if \<not> (v = Verdict True \<and> ev_stack ev \<noteq> []) then Inl Invalid_name_script
                         else if \<not> ne_name_script ev then Inr (False, op)
                         else if was_name_new ev \<or> allow_only_new then Inr (False, op)
                         else
                           let op = op\<lparr>no_value := ev_stack ev ! 1\<rparr>;
                               op = (if was_first_update ev
                                     then op\<lparr>no_name := ev_stack ev ! 0, no_requires_network_fee := True\<rparr>
                                     else op)
                           in Inr (True, op)
              else Inr (False, op))"

definition name_check_fees :: "u64 \<Rightarrow> name_operation \<Rightarrow> name_error + unit" where
  "name_check_fees min_fee op =
     (if no_requires_network_fee op \<and> sint (no_network_fee op) < sint min_fee then Inl Network_fee_too_small
      else Inr ())"

definition name_reserve :: "name_operation \<Rightarrow> bool" where
  "name_reserve op \<longleftrightarrow> no_requires_network_fee op"

section \<open>Name scripts\<close>

text \<open>The scripts of the three operations, before the script of an address.\<close>

definition name_new_script :: "stack_value \<Rightarrow> uint160 \<Rightarrow> script" where
  "name_new_script h a = OP_1 # push_data h @ OP_2DROP # setAddress a"

definition name_firstupdate_script :: "stack_value \<Rightarrow> stack_value \<Rightarrow> stack_value \<Rightarrow> uint160 \<Rightarrow> script" where
  "name_firstupdate_script name rnd value a =
     0x52 # push_data name @ push_data rnd @ push_data value @ OP_2DROP # OP_2DROP # setAddress a"

definition name_update_script :: "stack_value \<Rightarrow> stack_value \<Rightarrow> uint160 \<Rightarrow> script" where
  "name_update_script name value a =
     0x53 # push_data name @ push_data value @ OP_2DROP # OP_DROP # setAddress a"


section \<open>Running a script from its front\<close>

lemma run_op_front:
  assumes "opcode > OP_PUSHDATA4"
  shows "run eval (pre @ opcode # rest) (length pre) s =
    (case step eval opcode [] (s\<lparr>ev_exec := False \<notin> set (exec_stack s), ev_current := length pre + 1\<rparr>) of
       (Continue, s') \<Rightarrow> run eval ((pre @ [opcode]) @ rest) (length (pre @ [opcode])) s'
     | (Stop b, s') \<Rightarrow> (Verdict b, s') | (Raise, s') \<Rightarrow> (Verdict False, s')
     | (Undefined, s') \<Rightarrow> (Undefined_behaviour, s'))"
proof -
  have e: "take 1 (opcode # rest) = [opcode]" "drop 1 (opcode # rest) = rest" by simp_all
  show ?thesis using run_instruction [OF getOp_plain [OF assms], of rest eval pre s] unfolding e by simp
qed

lemma run_push_front:
  assumes "exec_stack s = []" and "length v \<le> MAX_SCRIPT_ELEMENT_SIZE"
    and "length (ev_stack s) + length (alt_stack s) < 1000"
  shows "run eval (pre @ push_data v @ rest) (length pre) s =
    run eval ((pre @ push_data v) @ rest) (length (pre @ push_data v))
      (s\<lparr>ev_exec := True, ev_current := length pre + length (push_data v), ev_stack := v # ev_stack s\<rparr>)"
proof -
  have v: "length v < 2 ^ 32" using assms(2) by (simp add: MAX_SCRIPT_ELEMENT_SIZE_def)
  have k: "length (push_data v) \<le> length (push_data v @ rest)" "0 < length (push_data v)" by (simp_all add: push_data_def)
  note g = getOp_push_data(1) [OF v, of rest] getOp_push_data(2) [OF v]
  have e: "take (length (push_data v)) (push_data v @ rest) = push_data v"
    "drop (length (push_data v)) (push_data v @ rest) = rest" by simp_all
  let ?s = "s\<lparr>ev_exec := True, ev_current := length pre + length (push_data v)\<rparr>"
  have "step eval (hd (push_data v)) v ?s = (Continue, ?s\<lparr>ev_stack := v # ev_stack s\<rparr>)"
    using step_push [OF g(2) assms(2), of ?s] assms(3) by simp
  then show ?thesis using run_instruction [OF g(1) k, of eval pre s] assms(1) unfolding e by simp
qed

lemma step_small_op:
  assumes "OP_PUSHDATA4 < opcode" and "opcode \<le> OP_16" and "ev_exec s"
  shows "step eval opcode [] s =
    (case eval opcode s of
       (Continue, s) \<Rightarrow> if length (ev_stack s) + length (alt_stack s) > 1000 then (Stop False, s) else (Continue, s)
     | r \<Rightarrow> r)"
proof -
  have "\<not> disabled_op opcode" using assms(2) by (auto simp: disabled_op_def)
  moreover have "\<not> opcode > OP_16" "\<not> opcode \<le> OP_PUSHDATA4" using assms(1,2) by simp_all
  ultimately show ?thesis using assms(3) by (simp add: step_def MAX_SCRIPT_ELEMENT_SIZE_def Let_def)
qed

lemma getvch_small_number: "bn_documented bn \<Longrightarrow> getvch bn 1 = [1]" "bn_documented bn \<Longrightarrow> getvch bn 2 = [2]"
  "bn_documented bn \<Longrightarrow> getvch bn 3 = [3]"
  by (simp_all add: getvch_def bn_doc_bn2mpi mpi_body_def be_minimal.simps be_size_def)


lemma drop_eval_push:
  "OP_1 \<le> opcode \<Longrightarrow> opcode \<le> OP_16 \<Longrightarrow>
     drop_eval bn cr opcode s = cont s (getvch bn (uint opcode - 80) # ev_stack s)"
  by (auto simp: drop_eval_def base_eval_def)

lemma drop_eval_2drop:
  "drop_eval bn cr OP_2DROP s =
     (case ev_stack s of
        x2 # x1 # r \<Rightarrow> (Continue, s\<lparr>ev_stack := r, de_dropped := de_dropped s @ [x2, x1]\<rparr>)
      | _ \<Rightarrow> refuse s)"
  by (simp add: drop_eval_def)

lemma drop_eval_drop:
  "drop_eval bn cr OP_DROP s =
     (case ev_stack s of [] \<Rightarrow> refuse s
      | x # r \<Rightarrow> (Continue, s\<lparr>ev_stack := r, de_dropped := de_dropped s @ [last (x # r)]\<rparr>))"
  by (simp add: drop_eval_def)

lemma drop_eval_dup: "ev_stack s = [] \<Longrightarrow> drop_eval bn cr OP_DUP s = refuse s"
  by (simp add: drop_eval_def base_eval_def is_move_def move_def)

lemma length_push_data: "length v \<le> MAX_SCRIPT_ELEMENT_SIZE \<Longrightarrow> length (push_data v) \<le> 523"
  by (simp add: push_data_def MAX_SCRIPT_ELEMENT_SIZE_def)

text \<open>The rest of a script, by what is left of it.\<close>

definition resume :: "('a evaluator_scheme) eval_fn \<Rightarrow> script \<Rightarrow> script \<Rightarrow> 'a evaluator_scheme \<Rightarrow>
    verdict \<times> 'a evaluator_scheme" where
  "resume eval script rest s = run eval script (length script - length rest) s"

definition at_rest :: "script \<Rightarrow> script \<Rightarrow> 'a evaluator_scheme \<Rightarrow> 'a evaluator_scheme" where
  "at_rest script rest s = s\<lparr>ev_exec := True, ev_current := length script - length rest\<rparr>"

lemma at_rest_simps [simp]:
  "ev_exec (at_rest script rest s)" "exec_stack (at_rest script rest s) = exec_stack s"
  "ev_stack (at_rest script rest s) = ev_stack s" "alt_stack (at_rest script rest s) = alt_stack s"
  "op_count (at_rest script rest s) = op_count s"
  by (simp_all add: at_rest_def)

lemma resume_op:
  assumes "suffix (opcode # rest) script" and "opcode > OP_PUSHDATA4" and "exec_stack s = []"
  shows "step eval opcode [] (at_rest script rest s) = (Continue, s') \<Longrightarrow>
      resume eval script (opcode # rest) s = resume eval script rest s'"
    and "step eval opcode [] (at_rest script rest s) = (Stop b, s') \<Longrightarrow>
      resume eval script (opcode # rest) s = (Verdict b, s')"
proof -
  obtain pre where p: "script = pre @ opcode # rest" using assms(1) by (auto simp: suffix_def)
  have r: "at_rest script rest s = s\<lparr>ev_exec := False \<notin> set (exec_stack s), ev_current := length pre + 1\<rparr>"
    using assms(3) by (simp add: at_rest_def p)
  show "step eval opcode [] (at_rest script rest s) = (Continue, s') \<Longrightarrow>
      resume eval script (opcode # rest) s = resume eval script rest s'"
    and "step eval opcode [] (at_rest script rest s) = (Stop b, s') \<Longrightarrow>
      resume eval script (opcode # rest) s = (Verdict b, s')"
    using run_op_front [OF assms(2), of eval pre rest s, folded r] by (simp_all add: resume_def p)
qed

lemma resume_push:
  assumes "suffix (push_data v @ rest) script" and "exec_stack s = []" and "length v \<le> MAX_SCRIPT_ELEMENT_SIZE"
    and "length (ev_stack s) + length (alt_stack s) < 1000"
  shows "resume eval script (push_data v @ rest) s = resume eval script rest ((at_rest script rest s)\<lparr>ev_stack := v # ev_stack s\<rparr>)"
proof -
  obtain pre where p: "script = pre @ push_data v @ rest" using assms(1) by (auto simp: suffix_def)
  then show ?thesis
    using run_push_front [OF assms(2-4), of eval pre rest] by (simp add: resume_def at_rest_def)
qed

lemma resume_start:
  "length script \<le> 10000 \<Longrightarrow>
     evaluate eval script s = resume eval script script (s\<lparr>ev_script := script, ev_current := 0, op_count := 0\<rparr>)"
  by (simp add: evaluate_def resume_def)

lemma resume_end: "resume eval script [] s = end_of_script s"
  by (simp add: resume_def run.simps)

text \<open>With an empty stack the script of an address stops at its first operation: what was dropped stays.\<close>

lemma drop_resume_address:
  assumes "suffix (setAddress a) script" and "exec_stack s = []" and "ev_stack s = []" and "op_count s < 201"
  shows "de_dropped (snd (resume (drop_eval bn cr) script (setAddress a) s)) = de_dropped s"
proof -
  let ?r = "OP_HASH160 # push_uint160 a @ [OP_EQUALVERIFY, OP_CHECKSIG]"
  have e: "setAddress a = OP_DUP # ?r" by (simp add: setAddress_def)
  let ?s = "(at_rest script ?r s)"
  have "step (drop_eval bn cr) OP_DUP [] ?s = (Stop False, ?s\<lparr>op_count := op_count s + 1\<rparr>)"
    using assms(3,4) by (simp add: step_op drop_eval_dup disabled_op_def refuse_def)
  then show ?thesis
    using resume_op(2) [OF assms(1) [unfolded e] _ assms(2), of "drop_eval bn cr" False] unfolding e by (simp add: at_rest_def)
qed

lemma drop_resume_number:
  assumes "suffix (opcode # rest) script" and "OP_1 \<le> opcode" and "opcode \<le> OP_16" and "exec_stack s = []"
    and "length (ev_stack s) + length (alt_stack s) < 1000"
  shows "resume (drop_eval bn cr) script (opcode # rest) s =
    resume (drop_eval bn cr) script rest ((at_rest script rest s)\<lparr>ev_stack := getvch bn (uint opcode - 80) # ev_stack s\<rparr>)"
proof (rule resume_op(1) [OF assms(1) _ assms(4)])
  have "OP_PUSHDATA4 < OP_1" by simp
  then show o: "OP_PUSHDATA4 < opcode" using assms(2) by (rule less_le_trans)
  show "step (drop_eval bn cr) opcode [] (at_rest script rest s) =
      (Continue, (at_rest script rest s)\<lparr>ev_stack := getvch bn (uint opcode - 80) # ev_stack s\<rparr>)"
    using assms(2,3,5) o by (simp add: step_small_op drop_eval_push cont_def)
qed

lemma drop_resume_2drop:
  assumes "suffix (OP_2DROP # rest) script" and "exec_stack s = []" and "ev_stack s = x2 # x1 # r"
    and "length r + length (alt_stack s) \<le> 1000" and "op_count s < 201"
  shows "resume (drop_eval bn cr) script (OP_2DROP # rest) s = resume (drop_eval bn cr) script rest
    ((at_rest script rest s)\<lparr>op_count := op_count s + 1, ev_stack := r, de_dropped := de_dropped s @ [x2, x1]\<rparr>)"
proof (rule resume_op(1) [OF assms(1) _ assms(2)])
  show "step (drop_eval bn cr) OP_2DROP [] (at_rest script rest s) = (Continue,
      (at_rest script rest s)\<lparr>op_count := op_count s + 1, ev_stack := r, de_dropped := de_dropped s @ [x2, x1]\<rparr>)"
    using assms(3,4,5) by (simp add: step_op drop_eval_2drop disabled_op_def at_rest_def)
qed simp

lemma drop_resume_drop:
  assumes "suffix (OP_DROP # rest) script" and "exec_stack s = []" and "ev_stack s = x # r"
    and "length r + length (alt_stack s) \<le> 1000" and "op_count s < 201"
  shows "resume (drop_eval bn cr) script (OP_DROP # rest) s = resume (drop_eval bn cr) script rest
    ((at_rest script rest s)\<lparr>op_count := op_count s + 1, ev_stack := r, de_dropped := de_dropped s @ [last (x # r)]\<rparr>)"
proof (rule resume_op(1) [OF assms(1) _ assms(2)])
  show "step (drop_eval bn cr) OP_DROP [] (at_rest script rest s) = (Continue,
      (at_rest script rest s)\<lparr>op_count := op_count s + 1, ev_stack := r, de_dropped := de_dropped s @ [last (x # r)]\<rparr>)"
    using assms(3,4,5) by (simp add: step_op drop_eval_drop disabled_op_def at_rest_def)
qed simp

lemmas drop_resumes = drop_resume_number drop_resume_2drop drop_resume_drop resume_push

definition fresh :: "drop_evaluator \<Rightarrow> bool" where
  "fresh s \<longleftrightarrow> exec_stack s = [] \<and> ev_stack s = [] \<and> alt_stack s = [] \<and> op_count s = 0 \<and> de_dropped s = []"

lemma getDropped_resume:
  assumes "length script \<le> 10000"
    and "\<And>s. fresh s \<Longrightarrow> de_dropped (snd (resume (drop_eval bn cr) script script s)) = vs"
  shows "getDropped bn cr script = concat (map (dropped_value bn) vs)"
  using assms(2) [of "new_drop_evaluator\<lparr>ev_script := script, ev_current := 0, op_count := 0\<rparr>"]
  by (simp add: getDropped_def dropped_script_def resume_start [OF assms(1)] fresh_def new_drop_evaluator_def
      new_evaluator_def drop_evaluator.defs evaluator.defs)

lemma name_new_dropped:
  assumes bn: "bn_documented bn" and small: "length h \<le> MAX_SCRIPT_ELEMENT_SIZE"
  shows "getDropped bn cr (name_new_script h a) = concat (map (dropped_value bn) [h, [1]])"
proof (rule getDropped_resume)
  let ?a = "setAddress a" and ?script = "name_new_script h a"
  show "length ?script \<le> 10000"
    using small [THEN length_push_data] by (simp add: name_new_script_def setAddress_facts)
  have suf: "suffix ?a ?script" "suffix (OP_2DROP # ?a) ?script" "suffix (push_data h @ OP_2DROP # ?a) ?script"
    "suffix (OP_1 # push_data h @ OP_2DROP # ?a) ?script"
    by (auto simp: name_new_script_def suffix_def)
  fix s assume "fresh s"
  then have "de_dropped (snd (resume (drop_eval bn cr) ?script (OP_1 # push_data h @ OP_2DROP # ?a) s)) = [h, [1]]"
    using suf small bn by (simp add: drop_resumes drop_resume_address getvch_small_number at_rest_def fresh_def)
  then show "de_dropped (snd (resume (drop_eval bn cr) ?script ?script s)) = [h, [1]]"
    by (simp add: name_new_script_def)
qed

lemma firstupdate_dropped:
  assumes bn: "bn_documented bn" and small: "length name \<le> MAX_SCRIPT_ELEMENT_SIZE"
    "length rnd \<le> MAX_SCRIPT_ELEMENT_SIZE" "length value \<le> MAX_SCRIPT_ELEMENT_SIZE"
  shows "getDropped bn cr (name_firstupdate_script name rnd value a) =
    concat (map (dropped_value bn) [value, rnd, name, [2]])"
proof (rule getDropped_resume)
  let ?a = "setAddress a" and ?script = "name_firstupdate_script name rnd value a"
  show "length ?script \<le> 10000"
    using small [THEN length_push_data] by (simp add: name_firstupdate_script_def setAddress_facts)
  have suf: "suffix ?a ?script" "suffix (OP_2DROP # ?a) ?script" "suffix (OP_2DROP # OP_2DROP # ?a) ?script"
    "suffix (push_data value @ OP_2DROP # OP_2DROP # ?a) ?script"
    "suffix (push_data rnd @ push_data value @ OP_2DROP # OP_2DROP # ?a) ?script"
    "suffix (push_data name @ push_data rnd @ push_data value @ OP_2DROP # OP_2DROP # ?a) ?script"
    "suffix (0x52 # push_data name @ push_data rnd @ push_data value @ OP_2DROP # OP_2DROP # ?a) ?script"
    by (auto simp: name_firstupdate_script_def suffix_def)
  fix s assume "fresh s"
  then have "de_dropped (snd (resume (drop_eval bn cr) ?script
      (0x52 # push_data name @ push_data rnd @ push_data value @ OP_2DROP # OP_2DROP # ?a) s)) = [value, rnd, name, [2]]"
    using suf small bn by (simp add: drop_resumes drop_resume_address getvch_small_number at_rest_def fresh_def)
  then show "de_dropped (snd (resume (drop_eval bn cr) ?script ?script s)) = [value, rnd, name, [2]]"
    by (simp add: name_firstupdate_script_def)
qed

lemma update_dropped:
  assumes bn: "bn_documented bn" and small: "length name \<le> MAX_SCRIPT_ELEMENT_SIZE" "length value \<le> MAX_SCRIPT_ELEMENT_SIZE"
  shows "getDropped bn cr (name_update_script name value a) = concat (map (dropped_value bn) [value, name, [3]])"
proof (rule getDropped_resume)
  let ?a = "setAddress a" and ?script = "name_update_script name value a"
  show "length ?script \<le> 10000"
    using small [THEN length_push_data] by (simp add: name_update_script_def setAddress_facts)
  have suf: "suffix ?a ?script" "suffix (OP_DROP # ?a) ?script" "suffix (OP_2DROP # OP_DROP # ?a) ?script"
    "suffix (push_data value @ OP_2DROP # OP_DROP # ?a) ?script"
    "suffix (push_data name @ push_data value @ OP_2DROP # OP_DROP # ?a) ?script"
    "suffix (0x53 # push_data name @ push_data value @ OP_2DROP # OP_DROP # ?a) ?script"
    by (auto simp: name_update_script_def suffix_def)
  fix s assume "fresh s"
  then have "de_dropped (snd (resume (drop_eval bn cr) ?script
      (0x53 # push_data name @ push_data value @ OP_2DROP # OP_DROP # ?a) s)) = [value, name, [3]]"
    using suf small bn by (simp add: drop_resumes drop_resume_address getvch_small_number at_rest_def fresh_def)
  then show "de_dropped (snd (resume (drop_eval bn cr) ?script ?script s)) = [value, name, [3]]"
    by (simp add: name_update_script_def)
qed

text \<open>A value is written back as it was, unless the code takes it for a small number.\<close>

definition plain_value :: "stack_value \<Rightarrow> bool" where
  "plain_value v \<longleftrightarrow> length v \<le> MAX_SCRIPT_ELEMENT_SIZE \<and> \<not> (length v = 1 \<and> 0 < v ! 0 \<and> v ! 0 < 16)"

lemma dropped_value_plain: "plain_value v \<Longrightarrow> dropped_value bn v = push_data v"
  by (auto simp: plain_value_def dropped_value_def)

lemma dropped_value_number: "dropped_value bn [1] = [OP_1]" "dropped_value bn [2] = [0x52]" "dropped_value bn [3] = [0x53]"
  by (simp_all add: dropped_value_def push_int64_def word_sle_eq)

section \<open>What the evaluator of names answers\<close>

lemma resume_small_op:
  assumes "suffix (opcode # rest) script" and "OP_1 \<le> opcode" and "opcode \<le> OP_16" and "exec_stack s = []"
  shows "eval opcode (at_rest script rest s) = (Continue, s') \<Longrightarrow> length (ev_stack s') + length (alt_stack s') \<le> 1000 \<Longrightarrow>
      resume eval script (opcode # rest) s = resume eval script rest s'"
    and "eval opcode (at_rest script rest s) = (Stop b, s') \<Longrightarrow> resume eval script (opcode # rest) s = (Verdict b, s')"
proof -
  have "OP_PUSHDATA4 < OP_1" by simp
  then have o: "OP_PUSHDATA4 < opcode" using assms(2) by (rule less_le_trans)
  show "eval opcode (at_rest script rest s) = (Continue, s') \<Longrightarrow> length (ev_stack s') + length (alt_stack s') \<le> 1000 \<Longrightarrow>
      resume eval script (opcode # rest) s = resume eval script rest s'"
    by (rule resume_op(1) [OF assms(1) o assms(4)]) (simp add: step_small_op o assms(3))
  show "eval opcode (at_rest script rest s) = (Stop b, s') \<Longrightarrow> resume eval script (opcode # rest) s = (Verdict b, s')"
    by (rule resume_op(2) [OF assms(1) o assms(4)]) (simp add: step_small_op o assms(3))
qed


lemma resume_pushes:
  assumes "suffix (concat (map push_data vs) @ rest) script" and "exec_stack s = []"
    and "\<forall>v\<in>set vs. length v \<le> MAX_SCRIPT_ELEMENT_SIZE" and "length vs + length (ev_stack s) + length (alt_stack s) \<le> 1000"
  shows "\<exists>x c. resume eval script (concat (map push_data vs) @ rest) s =
    resume eval script rest (s\<lparr>ev_exec := x, ev_current := c, ev_stack := rev vs @ ev_stack s\<rparr>)"
  using assms
proof (induction vs arbitrary: s)
  case Nil
  have "s = s\<lparr>ev_exec := ev_exec s, ev_current := ev_current s, ev_stack := rev [] @ ev_stack s\<rparr>" by simp
  then show ?case by (metis append_Nil concat.simps(1) list.simps(8))
next
  case (Cons v vs)
  let ?r = "concat (map push_data vs) @ rest"
  let ?s = "(at_rest script ?r s)\<lparr>ev_stack := v # ev_stack s\<rparr>"
  have suf: "suffix (push_data v @ ?r) script" using Cons.prems(1) by simp
  then have "suffix ?r script" using suffix_appendD by blast
  then have "\<exists>x c. resume eval script ?r ?s =
      resume eval script rest (?s\<lparr>ev_exec := x, ev_current := c, ev_stack := rev vs @ ev_stack ?s\<rparr>)"
    using Cons.prems by (intro Cons.IH) simp_all
  moreover have "resume eval script (push_data v @ ?r) s = resume eval script ?r ?s"
    using Cons.prems suf by (intro resume_push) simp_all
  ultimately show ?case by (simp add: at_rest_def)
qed

text \<open>The scripts a name operation drops: values, and the number of the operation.\<close>

definition name_start :: "name_evaluator \<Rightarrow> bool" where
  "name_start s \<longleftrightarrow> exec_stack s = [] \<and> alt_stack s = [] \<and> length (ev_stack s) \<le> 3"

lemma name_eval_same:
  "exec_stack (snd (name_eval cr opcode s)) = exec_stack s" "alt_stack (snd (name_eval cr opcode s)) = alt_stack s"
  "length (ev_stack (snd (name_eval cr opcode s))) \<le> length (ev_stack s)"
  "ne_ignore_rules (snd (name_eval cr opcode s)) = ne_ignore_rules s"
  "fst (name_eval cr opcode s) \<notin> {Raise, Undefined}"
  by (auto simp: name_eval_def eval_name_new_def eval_name_firstupdate_def eval_name_update_def Let_def split: list.split)

lemma evaluate_name_script:
  assumes "\<forall>v\<in>set vs. length v \<le> MAX_SCRIPT_ELEMENT_SIZE" and "length vs \<le> 3" and "name_start s"
    and "OP_1 \<le> opcode" and "opcode \<le> OP_16"
  obtains t where "ev_stack t = rev vs @ ev_stack s" and "ne_name_script t = ne_name_script s"
    and "ne_ignore_rules t = ne_ignore_rules s"
    and "evaluate (name_eval cr) (concat (map push_data vs) @ [opcode]) s =
      (case name_eval cr opcode t of (Stop b, s') \<Rightarrow> (Verdict b, s') | (_, s') \<Rightarrow> (Verdict True, s'))"
    and "exec_stack t = []" and "alt_stack t = []"
proof -
  let ?script = "concat (map push_data vs) @ [opcode]" and ?ev = "name_eval cr"
  have "length (concat (map push_data vs)) \<le> 523 * length vs"
    using assms(1) length_push_data by (induction vs) (auto, fastforce)
  then have len: "length ?script \<le> 10000" using assms(2) by simp
  let ?s = "s\<lparr>ev_script := ?script, ev_current := 0, op_count := 0\<rparr>"
  note start = assms(3) [unfolded name_start_def]
  obtain x c where xc: "resume ?ev ?script ?script ?s =
      resume ?ev ?script [opcode] (?s\<lparr>ev_exec := x, ev_current := c, ev_stack := rev vs @ ev_stack s\<rparr>)"
    using resume_pushes [of vs "[opcode]" ?script ?s ?ev] assms(1,2) start by auto
  define u where "u = ?s\<lparr>ev_exec := x, ev_current := c, ev_stack := rev vs @ ev_stack s\<rparr>"
  define t where "t = at_rest ?script [] u"
  have suf: "suffix [opcode] ?script" by (simp add: suffix_def)
  have u: "exec_stack u = []" "alt_stack u = []" "length (ev_stack u) \<le> 6"
    using start assms(2) by (simp_all add: u_def)
  have t: "exec_stack t = []" "alt_stack t = []" "length (ev_stack t) \<le> 6" using u by (simp_all add: t_def)
  obtain r s' where rs: "?ev opcode t = (r, s')" by fastforce
  have s': "exec_stack s' = []" "length (ev_stack s') + length (alt_stack s') \<le> 1000" "r \<noteq> Raise" "r \<noteq> Undefined"
    using name_eval_same [of cr opcode t] t by (simp_all add: rs)
  have "resume ?ev ?script [opcode] u = (case r of Stop b \<Rightarrow> (Verdict b, s') | _ \<Rightarrow> (Verdict True, s'))"
  proof (cases r)
    case (Stop b)
    then show ?thesis using resume_small_op(2) [OF suf assms(4,5) u(1)] rs by (simp add: t_def)
  next
    case Continue
    then have "resume ?ev ?script [opcode] u = resume ?ev ?script [] s'"
      using resume_small_op(1) [OF suf assms(4,5) u(1)] rs s'(2) by (simp add: t_def)
    then show ?thesis using Continue s'(1) by (simp add: resume_end end_of_script_def)
  qed (use s' in simp_all)
  then have "evaluate ?ev ?script s = (case ?ev opcode t of (Stop b, s') \<Rightarrow> (Verdict b, s') | (_, s') \<Rightarrow> (Verdict True, s'))"
    unfolding resume_start [OF len] xc rs u_def by (simp split: outcome.split)
  then show thesis
    by (rule that [rotated 3]) (use u in \<open>simp_all add: t_def u_def at_rest_def\<close>)
qed


lemma name_eval_ops:
  "name_eval cr OP_1 s = eval_name_new s" "name_eval cr 0x52 s = eval_name_firstupdate cr s"
  "name_eval cr 0x53 s = eval_name_update s"
  by (simp_all add: name_eval_def name_opcodes)

lemmas name_values = plain_value_def MAX_SCRIPT_ELEMENT_SIZE_def

lemma new_name_start [simp]:
  "name_start (new_name_evaluator ign)" "ev_stack (new_name_evaluator ign) = []"
  "ne_name_script (new_name_evaluator ign) = False" "ne_ignore_rules (new_name_evaluator ign) = ign"
  by (simp_all add: name_start_def new_name_evaluator_def new_evaluator_def name_evaluator.defs evaluator.defs)

definition new_prefix :: "stack_value \<Rightarrow> script" where
  "new_prefix h = concat (map push_data [h]) @ [OP_1]"

definition firstupdate_prefix :: "stack_value \<Rightarrow> stack_value \<Rightarrow> stack_value \<Rightarrow> script" where
  "firstupdate_prefix name rnd value = concat (map push_data [value, rnd, name]) @ [0x52]"

definition update_prefix :: "stack_value \<Rightarrow> stack_value \<Rightarrow> script" where
  "update_prefix name value = concat (map push_data [value, name]) @ [0x53]"

lemmas prefix_defs = new_prefix_def firstupdate_prefix_def update_prefix_def

lemma prefix_nonempty [simp]: "new_prefix h \<noteq> []" "firstupdate_prefix name rnd value \<noteq> []" "update_prefix name value \<noteq> []"
  by (simp_all add: prefix_defs)

lemma dropped_prefixes:
  assumes "bn_documented bn"
  shows "length h = 20 \<Longrightarrow> getDropped bn cr (name_new_script h a) = new_prefix h"
    and "plain_value name \<Longrightarrow> plain_value rnd \<Longrightarrow> plain_value value \<Longrightarrow>
      getDropped bn cr (name_firstupdate_script name rnd value a) = firstupdate_prefix name rnd value"
    and "plain_value name \<Longrightarrow> plain_value value \<Longrightarrow>
      getDropped bn cr (name_update_script name value a) = update_prefix name value"
proof -
  have p: "plain_value v \<Longrightarrow> length v \<le> MAX_SCRIPT_ELEMENT_SIZE" "length v = 20 \<Longrightarrow> plain_value v" for v
    by (simp_all add: name_values)
  show "length h = 20 \<Longrightarrow> getDropped bn cr (name_new_script h a) = new_prefix h"
    by (simp add: name_new_dropped assms p(2) dropped_value_plain dropped_value_number new_prefix_def MAX_SCRIPT_ELEMENT_SIZE_def)
  show "plain_value name \<Longrightarrow> plain_value rnd \<Longrightarrow> plain_value value \<Longrightarrow>
      getDropped bn cr (name_firstupdate_script name rnd value a) = firstupdate_prefix name rnd value"
    by (simp add: firstupdate_dropped assms p dropped_value_plain dropped_value_number firstupdate_prefix_def)
  show "plain_value name \<Longrightarrow> plain_value value \<Longrightarrow>
      getDropped bn cr (name_update_script name value a) = update_prefix name value"
    by (simp add: update_dropped assms p dropped_value_plain dropped_value_number update_prefix_def)
qed

text \<open>The three scripts on an evaluator that has already run an input.\<close>

lemma run_new_prefix:
  assumes "length h = 20" and "name_start s" and "ev_stack s = []"
  obtains t where "evaluate (name_eval cr) (new_prefix h) s = (Verdict True, t)"
    and "ev_stack t = [h]" and "ne_name_script t" and "ne_ignore_rules t = ne_ignore_rules s" and "name_start t"
proof -
  obtain t where t: "ev_stack t = rev [h] @ ev_stack s" "ne_name_script t = ne_name_script s"
    "ne_ignore_rules t = ne_ignore_rules s" "exec_stack t = []" "alt_stack t = []"
    "evaluate (name_eval cr) (new_prefix h) s =
      (case name_eval cr OP_1 t of (Stop b, s') \<Rightarrow> (Verdict b, s') | (_, s') \<Rightarrow> (Verdict True, s'))"
    using evaluate_name_script [of "[h]" s OP_1 cr thesis] assms unfolding new_prefix_def by (auto simp: name_values)
  have "name_eval cr OP_1 t = (Stop True, t\<lparr>ne_name_script := True\<rparr>)"
    using t assms by (simp add: name_eval_ops eval_name_new_def)
  then show thesis by (intro that [of "t\<lparr>ne_name_script := True\<rparr>"]) (use t assms in \<open>simp_all add: name_start_def\<close>)
qed

lemma run_firstupdate_prefix:
  assumes "plain_value name" and "plain_value rnd" and "plain_value value" and "name_start s"
  obtains t where "ev_stack t = name # rnd # value # ev_stack s" and "ne_ignore_rules t = ne_ignore_rules s"
    and "exec_stack t = []" and "alt_stack t = []"
    and "evaluate (name_eval cr) (firstupdate_prefix name rnd value) s =
      (case eval_name_firstupdate cr t of (Stop b, s') \<Rightarrow> (Verdict b, s') | (_, s') \<Rightarrow> (Verdict True, s'))"
  using evaluate_name_script [of "[value, rnd, name]" s "0x52" cr thesis] assms
  unfolding firstupdate_prefix_def name_eval_ops by (auto simp: name_values)

lemma run_update_prefix:
  assumes "plain_value name" and "plain_value value" and "name_start s"
  obtains t where "ev_stack t = name # value # ev_stack s" and "ne_ignore_rules t = ne_ignore_rules s"
    and "exec_stack t = []" and "alt_stack t = []"
    and "evaluate (name_eval cr) (update_prefix name value) s =
      (case eval_name_update t of (Stop b, s') \<Rightarrow> (Verdict b, s') | (_, s') \<Rightarrow> (Verdict True, s'))"
  using evaluate_name_script [of "[value, name]" s "0x53" cr thesis] assms
  unfolding update_prefix_def name_eval_ops by (auto simp: name_values)


lemma vch_uint160_inject:
  assumes "length h = 20" and "length k = 20"
  shows "vch_uint160 h = vch_uint160 k \<longleftrightarrow> h = k"
proof
  assume "vch_uint160 h = vch_uint160 k"
  then have "le_value h mod 2 ^ 160 = le_value k mod 2 ^ 160"
    using assms by (simp add: vch_uint160_def word_of_nat_eq_iff take_bit_eq_mod)
  moreover have "le_value h < 2 ^ 160" "le_value k < 2 ^ 160"
    using le_value_less [of h] le_value_less [of k] assms by simp_all
  ultimately have "le_value h = le_value k" by simp
  then show "h = k" using le_bytes_le_value [of h] le_bytes_le_value [of k] assms by simp
qed simp

text \<open>An input with a new name, or with the name to update.\<close>

lemma input_name_new:
  assumes "bn_documented bn" and "length h = 20"
  shows "name_input bn cr \<lparr>out_value = v, out_script = name_new_script h a\<rparr> count (new_name_operation fee c ign) =
    Inr (False, (new_name_operation fee c ign)\<lparr>no_name_in := new_prefix h, no_input_count := count\<rparr>)"
proof -
  obtain t where t: "evaluate (name_eval cr) (new_prefix h) (new_name_evaluator ign) = (Verdict True, t)"
    "ev_stack t = [h]" "ne_name_script t"
    using run_new_prefix [of h "new_name_evaluator ign" cr] assms(2) by auto
  show ?thesis
    using t by (simp add: Let_def name_input_def dropped_prefixes assms new_name_operation_def was_name_new_def)
qed

text \<open>A coin that holds a name: it was made by a first update or by an update.\<close>

definition name_coin :: "stack_value \<Rightarrow> stack_value \<Rightarrow> script \<Rightarrow> script \<Rightarrow> bool" where
  "name_coin name value script dropped \<longleftrightarrow> plain_value name \<and> plain_value value \<and>
     ((\<exists>a. script = name_update_script name value a \<and> dropped = update_prefix name value) \<or>
      (\<exists>rnd a. plain_value rnd \<and> script = name_firstupdate_script name rnd value a \<and> dropped = firstupdate_prefix name rnd value))"

lemma name_coin_dropped: "bn_documented bn \<Longrightarrow> name_coin name value script dropped \<Longrightarrow> getDropped bn cr script = dropped \<and> dropped \<noteq> []"
  by (auto simp: name_coin_def dropped_prefixes)

lemma run_name_coin:
  assumes "name_coin name value script dropped"
  obtains t where "evaluate (name_eval cr) dropped (new_name_evaluator ign) = (Verdict True, t)"
    and "name_start t" and "ev_stack t = [name, value]" and "ne_ignore_rules t = ign" and "ne_name_script t"
  using assms unfolding name_coin_def
proof (elim conjE disjE exE)
  fix a assume v: "plain_value name" "plain_value value" and d: "dropped = update_prefix name value"
  obtain t where t: "ev_stack t = [name, value]" "ne_ignore_rules t = ign" "exec_stack t = []" "alt_stack t = []"
    "evaluate (name_eval cr) (update_prefix name value) (new_name_evaluator ign) =
      (case eval_name_update t of (Stop b, s') \<Rightarrow> (Verdict b, s') | (_, s') \<Rightarrow> (Verdict True, s'))"
    using run_update_prefix [of name "value" "new_name_evaluator ign" cr thesis] v by auto
  show thesis
    by (rule that [of "t\<lparr>ne_name_script := True\<rparr>"]) (use t d in \<open>simp_all add: eval_name_update_def name_start_def\<close>)
next
  fix rnd a assume v: "plain_value name" "plain_value value" "plain_value rnd" and d: "dropped = firstupdate_prefix name rnd value"
  obtain t where t: "ev_stack t = [name, rnd, value]" "ne_ignore_rules t = ign" "exec_stack t = []" "alt_stack t = []"
    "evaluate (name_eval cr) (firstupdate_prefix name rnd value) (new_name_evaluator ign) =
      (case eval_name_firstupdate cr t of (Stop b, s') \<Rightarrow> (Verdict b, s') | (_, s') \<Rightarrow> (Verdict True, s'))"
    using run_firstupdate_prefix [of name rnd "value" "new_name_evaluator ign" cr thesis] v by auto
  show thesis
    by (rule that [of "t\<lparr>ne_name_script := True, ev_stack := [name, value]\<rparr>"])
      (use t d in \<open>simp_all add: eval_name_firstupdate_def name_start_def Let_def\<close>)
qed

lemma input_name_coin:
  assumes "bn_documented bn" and "name_coin name value script dropped"
  shows "name_input bn cr \<lparr>out_value = v, out_script = script\<rparr> count (new_name_operation fee c ign) =
    Inr (True, (new_name_operation fee c ign)\<lparr>no_name_in := dropped, no_allow_overwrite := False\<rparr>)"
proof -
  obtain t where t: "evaluate (name_eval cr) dropped (new_name_evaluator ign) = (Verdict True, t)"
    "ev_stack t = [name, value]" "ne_name_script t"
    using run_name_coin [OF assms(2)] by metis
  show ?thesis
    using t name_coin_dropped [OF assms, of cr] by (simp add: Let_def name_input_def new_name_operation_def was_name_new_def)
qed

text \<open>C21: A name is bought with a commitment, where the rules of names are enforced: after an input that reserved the
  hash \<open>h\<close>, the first update of \<open>name\<close> is accepted exactly when \<open>h\<close> is the hash of its random bytes and the
  name; then the operation holds the name and the value and asks for the network fee, and otherwise the script is
  invalid. This holds for every name, random bytes and value that are plain: at most 520 bytes, and not one of
  the single bytes 1 to 15, which the code takes for numbers (\<open>small_value_needs_no_commitment\<close>).\<close>

theorem firstupdate_needs_commitment:
  assumes "bn_documented bn" and "crypto_sized cr" and "length h = 20"
    and "plain_value name" and "plain_value rnd" and "plain_value value"
  shows "(case name_input bn cr \<lparr>out_value = v, out_script = name_new_script h a\<rparr> count (new_name_operation fee c False) of
      Inl e \<Rightarrow> Inl e
    | Inr (_, op) \<Rightarrow> name_output bn cr \<lparr>out_value = v', out_script = name_firstupdate_script name rnd value a'\<rparr> op) =
    (if h = toPubKeyHash (sha256 cr) (ripemd160 cr) (rnd @ name)
     then Inr (True, \<lparr>no_allow_overwrite = True, no_name_in = new_prefix h, no_input_count = count,
       no_name_out = firstupdate_prefix name rnd value, no_network_fee = fee, no_requires_network_fee = True,
       no_ignore_rules = False, no_name = name, no_value = value\<rparr>)
     else Inl Invalid_name_script)"
proof -
  let ?out = "name_firstupdate_script name rnd value a'"
  obtain t where t: "evaluate (name_eval cr) (new_prefix h) (new_name_evaluator False) = (Verdict True, t)"
    "ev_stack t = [h]" "name_start t" "\<not> ne_ignore_rules t"
    using run_new_prefix [of h "new_name_evaluator False" cr] assms(3) by auto
  obtain u where u: "ev_stack u = [name, rnd, value, h]" "\<not> ne_ignore_rules u"
    "evaluate (name_eval cr) (firstupdate_prefix name rnd value) t =
      (case eval_name_firstupdate cr u of (Stop b, s') \<Rightarrow> (Verdict b, s') | (_, s') \<Rightarrow> (Verdict True, s'))"
    using run_firstupdate_prefix [OF assms(4-6) t(3), of cr thesis] t(2,4) by auto
  have plain: "\<not> (length ?out = 1 \<and> ?out ! 0 = OP_RETURN)" by (simp add: name_firstupdate_script_def push_data_def)
  have "length (toPubKeyHash (sha256 cr) (ripemd160 cr) (rnd @ name)) = 20"
    using assms(2) by (simp add: crypto_sized_def toPubKeyHash_def)
  note same = vch_uint160_inject [OF assms(3) this]
  define ok where "ok \<longleftrightarrow> h = toPubKeyHash (sha256 cr) (ripemd160 cr) (rnd @ name)"
  obtain w where w: "evaluate (name_eval cr) (firstupdate_prefix name rnd value) t = (Verdict ok, w)"
    "ok \<Longrightarrow> ev_stack w = [name, value, h] \<and> ne_name_script w"
    using u by (cases ok) (auto simp: eval_name_firstupdate_def same ok_def Let_def)
  show ?thesis
    unfolding input_name_new [OF assms(1,3)] ok_def [symmetric] using plain t w
    by (simp add: Let_def name_output_def dropped_prefixes assms new_name_operation_def eval_name_firstupdate_def same
        was_name_new_def was_first_update_def)
qed

text \<open>C22: An update keeps the name it spends, where the rules of names are enforced: after an input that holds
  \<open>name\<close>, made by a first update or an update, the update of \<open>name'\<close> is accepted exactly when the two are the same; the
  operation then holds the new value and asks for no network fee, and otherwise the script is invalid. Names, random bytes and
  values are plain, as for the first update (for others see \<open>small_value_refused\<close>).\<close>

theorem update_keeps_name:
  assumes "bn_documented bn" and "name_coin name value script dropped" and "plain_value name'" and "plain_value value'"
  shows "(case name_input bn cr \<lparr>out_value = v, out_script = script\<rparr> count (new_name_operation fee c False) of
      Inl e \<Rightarrow> Inl e
    | Inr (_, op) \<Rightarrow> name_output bn cr \<lparr>out_value = v', out_script = name_update_script name' value' a'\<rparr> op) =
    (if name' = name
     then Inr (True, \<lparr>no_allow_overwrite = False, no_name_in = dropped, no_input_count = c,
       no_name_out = update_prefix name' value', no_network_fee = fee, no_requires_network_fee = False,
       no_ignore_rules = False, no_name = [], no_value = value'\<rparr>)
     else Inl Invalid_name_script)"
proof -
  let ?out = "name_update_script name' value' a'"
  obtain t' where e: "evaluate (name_eval cr) dropped (new_name_evaluator False) = (Verdict True, t')"
    and t': "name_start t'" "ev_stack t' = [name, value]" "ne_ignore_rules t' = False"
    using run_name_coin [OF assms(2)] by metis
  obtain u where u: "ev_stack u = [name', value', name, value]" "\<not> ne_ignore_rules u"
    "evaluate (name_eval cr) (update_prefix name' value') t' =
      (case eval_name_update u of (Stop b, s') \<Rightarrow> (Verdict b, s') | (_, s') \<Rightarrow> (Verdict True, s'))"
    using run_update_prefix [OF assms(3,4) t'(1), of cr thesis] t'(2,3) by auto
  have plain: "\<not> (length ?out = 1 \<and> ?out ! 0 = OP_RETURN)" by (simp add: name_update_script_def push_data_def)
  define ok where "ok \<longleftrightarrow> name' = name"
  obtain w where w: "evaluate (name_eval cr) (update_prefix name' value') t' = (Verdict ok, w)"
    "ok \<Longrightarrow> ev_stack w = [name, value'] \<and> ne_name_script w"
    using u by (cases ok) (auto simp: eval_name_update_def ok_def Let_def)
  show ?thesis
    unfolding input_name_coin [OF assms(1,2)] ok_def [symmetric]
    using plain e t' w name_coin_dropped [OF assms(1,2), of cr]
    by (simp add: Let_def name_output_def dropped_prefixes assms new_name_operation_def eval_name_update_def
        was_name_new_def was_first_update_def)
qed


definition sample_coin :: "script \<Rightarrow> tx_out" where
  "sample_coin script = \<lparr>out_value = 0, out_script = script\<rparr>"

definition sample_commitment :: stack_value where
  "sample_commitment = toPubKeyHash (sha256 ref_crypto) (ripemd160 ref_crypto) ([1, 2] @ [100, 47, 97])"

theorem firstupdate_needs_commitment_witness:
  "(case name_input ref_bn ref_crypto \<lparr>out_value = 1, out_script = name_new_script sample_commitment 5\<rparr> 40
        (new_name_operation 0 0 False) of
      Inl e \<Rightarrow> Inl e
    | Inr (_, op) \<Rightarrow> name_output ref_bn ref_crypto
        \<lparr>out_value = 1, out_script = name_firstupdate_script [100, 47, 97] [1, 2] [9, 9] 6\<rparr> op) =
    Inr (True, \<lparr>no_allow_overwrite = True, no_name_in = new_prefix sample_commitment, no_input_count = 40,
       no_name_out = firstupdate_prefix [100, 47, 97] [1, 2] [9, 9], no_network_fee = 0, no_requires_network_fee = True,
       no_ignore_rules = False, no_name = [100, 47, 97], no_value = [9, 9]\<rparr>)"
proof -
  have "length sample_commitment = 20"
    using ref_crypto_sized by (simp add: sample_commitment_def toPubKeyHash_def crypto_sized_def)
  moreover have "plain_value [100, 47, 97]" "plain_value [1, 2]" "plain_value [9, 9]" by (simp_all add: name_values)
  ultimately show ?thesis
    using firstupdate_needs_commitment [OF ref_bn_documented ref_crypto_sized, of sample_commitment "[100, 47, 97]" "[1, 2]" "[9, 9]"]
    by (simp add: sample_commitment_def)
qed

theorem update_keeps_name_witness:
  "(case name_input ref_bn ref_crypto \<lparr>out_value = 1, out_script = name_firstupdate_script [100, 47, 97] [1, 2] [9, 9] 5\<rparr> 40
        (new_name_operation 0 0 False) of
      Inl e \<Rightarrow> Inl e
    | Inr (_, op) \<Rightarrow> name_output ref_bn ref_crypto
        \<lparr>out_value = 1, out_script = name_update_script [100, 47, 98] [9, 9] 6\<rparr> op) = Inl Invalid_name_script"
proof -
  have v: "plain_value [100, 47, 97]" "plain_value [100, 47, 98]" "plain_value [9, 9]" "plain_value [1, 2]" by (simp_all add: name_values)
  then have "name_coin [100, 47, 97] [9, 9] (name_firstupdate_script [100, 47, 97] [1, 2] [9, 9] 5) (firstupdate_prefix [100, 47, 97] [1, 2] [9, 9])"
    unfolding name_coin_def by blast
  from update_keeps_name [OF ref_bn_documented this v(2,3)] show ?thesis by simp
qed

section \<open>Values that are mistaken\<close>

text \<open>
  A value of one byte from 1 to 15 is written back as the opcode of the number, which the evaluator of names
  does not push: the values of the operation are one short.
\<close>

lemma number_opcode:
  assumes "4 \<le> n" and "n < (16 :: byte)"
  shows "dropped_value bn [n] = [0x50 + n]" and "name_eval cr (0x50 + n) s = (Continue, s)"
    and "OP_1 \<le> 0x50 + n" and "0x50 + n \<le> OP_16"
proof -
  have "uint n \<in> {4, 5, 6, 7, 8, 9, 10, 11, 12, 13, 14, 15}"
    using assms by (simp add: word_le_def word_less_def) arith
  then have n: "n \<in> {4, 5, 6, 7, 8, 9, 10, 11, 12, 13, 14, 15}"
    by (simp add: word_uint_eq_iff)
  then show "dropped_value bn [n] = [0x50 + n]"
    by (auto simp: dropped_value_def push_int64_def word_sle_eq)
  show "name_eval cr (0x50 + n) s = (Continue, s)" "OP_1 \<le> 0x50 + n" "0x50 + n \<le> OP_16"
    using n by (auto simp: name_eval_def name_opcodes)
qed

text \<open>The script that is left of such an operation: the number, the other values, and the operation.\<close>

lemma evaluate_name_number:
  assumes "4 \<le> n" and "n < 16" and "name_start s" and "\<forall>v\<in>set vs. length v \<le> MAX_SCRIPT_ELEMENT_SIZE" and "length vs \<le> 2"
    and "OP_1 \<le> opcode" and "opcode \<le> OP_16"
  obtains t where "ev_stack t = rev vs @ ev_stack s" and "ne_ignore_rules t = ne_ignore_rules s"
    and "evaluate (name_eval cr) ((0x50 + n) # concat (map push_data vs) @ [opcode]) s =
      (case name_eval cr opcode t of (Stop b, s') \<Rightarrow> (Verdict b, s') | (_, s') \<Rightarrow> (Verdict True, s'))"
proof -
  let ?rest = "concat (map push_data vs) @ [opcode]" and ?ev = "name_eval cr"
  let ?script = "(0x50 + n) # ?rest"
  note number = number_opcode [OF assms(1,2)]
  have "length (concat (map push_data vs)) \<le> 523 * length vs"
    using assms(4) length_push_data by (induction vs) (auto, fastforce)
  then have len: "length ?script \<le> 10000" using assms(5) by simp
  let ?s = "s\<lparr>ev_script := ?script, ev_current := 0, op_count := 0\<rparr>"
  note start = assms(3) [unfolded name_start_def]
  define s1 where "s1 = at_rest ?script ?rest ?s"
  have s1: "exec_stack s1 = []" "alt_stack s1 = []" "ev_stack s1 = ev_stack s" "ne_ignore_rules s1 = ne_ignore_rules s"
    using start by (simp_all add: s1_def at_rest_def)
  have "evaluate ?ev ?script s = resume ?ev ?script ?rest s1"
    unfolding resume_start [OF len] using start number
    by (intro resume_small_op(1)) (simp_all add: s1_def)
  moreover obtain x c where "resume ?ev ?script ?rest s1 =
      resume ?ev ?script [opcode] (s1\<lparr>ev_exec := x, ev_current := c, ev_stack := rev vs @ ev_stack s1\<rparr>)"
    using resume_pushes [of vs "[opcode]" ?script s1 ?ev] assms(4,5) start s1 by (auto simp: suffix_def)
  moreover define u where "u = s1\<lparr>ev_exec := x, ev_current := c, ev_stack := rev vs @ ev_stack s1\<rparr>"
  ultimately have run: "evaluate ?ev ?script s = resume ?ev ?script [opcode] u" by simp
  define t where "t = at_rest ?script [] u"
  have suf: "suffix [opcode] ?script" by (simp add: suffix_def)
  have u: "exec_stack u = []" "alt_stack u = []" "length (ev_stack u) \<le> 6"
    using start s1 assms(5) by (simp_all add: u_def)
  have t: "exec_stack t = []" "alt_stack t = []" "length (ev_stack t) \<le> 6" using u by (simp_all add: t_def)
  obtain r s' where rs: "?ev opcode t = (r, s')" by fastforce
  have s': "exec_stack s' = []" "length (ev_stack s') + length (alt_stack s') \<le> 1000" "r \<noteq> Raise" "r \<noteq> Undefined"
    using name_eval_same [of cr opcode t] t by (simp_all add: rs)
  have "resume ?ev ?script [opcode] u = (case r of Stop b \<Rightarrow> (Verdict b, s') | _ \<Rightarrow> (Verdict True, s'))"
  proof (cases r)
    case (Stop b)
    then show ?thesis using resume_small_op(2) [OF suf assms(6,7) u(1)] rs by (simp add: t_def)
  next
    case Continue
    then have "resume ?ev ?script [opcode] u = resume ?ev ?script [] s'"
      using resume_small_op(1) [OF suf assms(6,7) u(1)] rs s'(2) by (simp add: t_def)
    then show ?thesis using Continue s'(1) by (simp add: resume_end end_of_script_def)
  qed (use s' in simp_all)
  then have "evaluate ?ev ?script s = (case ?ev opcode t of (Stop b, s') \<Rightarrow> (Verdict b, s') | (_, s') \<Rightarrow> (Verdict True, s'))"
    unfolding run by (simp add: rs split: outcome.split)
  then show thesis
    by (rule that [rotated 2]) (use s1 in \<open>simp_all add: t_def u_def at_rest_def\<close>)
qed

text \<open>A name cannot get a value of one byte from 4 to 15: with that value a well-formed update of any name
  after its own input is refused as an invalid script, where other values are
  accepted. The class that copies what a script drops writes the value back as the operation of the number,
  and the evaluator of names pushes no numbers.\<close>

theorem small_value_refused:
  assumes "bn_documented bn" and "name_coin name value script dropped" and "4 \<le> n" and "n < 16"
  shows "(case name_input bn cr \<lparr>out_value = v, out_script = script\<rparr> count (new_name_operation fee c False) of
      Inl e \<Rightarrow> Inl e
    | Inr (_, op) \<Rightarrow> name_output bn cr \<lparr>out_value = v', out_script = name_update_script name [n] a'\<rparr> op) =
    Inl Invalid_name_script"
proof -
  let ?out = "name_update_script name [n] a'"
  have p: "plain_value name" using assms(2) by (simp add: name_coin_def)
  then have small: "length name \<le> MAX_SCRIPT_ELEMENT_SIZE" by (simp add: plain_value_def)
  obtain t where t: "evaluate (name_eval cr) dropped (new_name_evaluator False) = (Verdict True, t)"
    "name_start t" "ev_stack t = [name, value]"
    using run_name_coin [OF assms(2)] by metis
  obtain u where u: "ev_stack u = [name, name, value]"
    "evaluate (name_eval cr) ((0x50 + n) # push_data name @ [0x53]) t =
      (case name_eval cr 0x53 u of (Stop b, s') \<Rightarrow> (Verdict b, s') | (_, s') \<Rightarrow> (Verdict True, s'))"
    using evaluate_name_number [of n t "[name]" "0x53" cr thesis] assms(3,4) t(2,3) small by auto
  have dropped: "getDropped bn cr ?out = (0x50 + n) # push_data name @ [0x53]"
    using update_dropped [OF assms(1) small, of "[n]"] p number_opcode(1) [OF assms(3,4)]
    by (simp add: MAX_SCRIPT_ELEMENT_SIZE_def dropped_value_plain dropped_value_number)
  have plain: "\<not> (length ?out = 1 \<and> ?out ! 0 = OP_RETURN)" by (simp add: name_update_script_def push_data_def)
  show ?thesis
    unfolding input_name_coin [OF assms(1,2)] using plain t u name_coin_dropped [OF assms(1,2), of cr]
    by (simp add: Let_def name_output_def dropped new_name_operation_def name_eval_ops eval_name_update_def)
qed

theorem small_value_refused_witness:
  "(case name_input ref_bn ref_crypto \<lparr>out_value = 1, out_script = name_update_script [100, 47, 97] [9, 9] 5\<rparr> 40
        (new_name_operation 0 0 False) of
      Inl e \<Rightarrow> Inl e
    | Inr (_, op) \<Rightarrow> name_output ref_bn ref_crypto
        \<lparr>out_value = 1, out_script = name_update_script [100, 47, 97] [5] 6\<rparr> op) = Inl Invalid_name_script"
proof -
  have "plain_value [100, 47, 97]" "plain_value [9, 9]" by (simp_all add: name_values)
  then have "name_coin [100, 47, 97] [9, 9] (name_update_script [100, 47, 97] [9, 9] 5) (update_prefix [100, 47, 97] [9, 9])"
    unfolding name_coin_def by blast
  from small_value_refused [OF ref_bn_documented this, of 5] show ?thesis by simp
qed



end
