(* ===== verification/MerkleTrie.thy ===== *)
theory MerkleTrie
  imports Transaction
begin

text \<open>
  The authenticated set of \<^verbatim>\<open>include/coinChain/MerkleTrie.h\<close>: a binary trie with path compression
  (every branch node stores the position of the bit it splits on as its depth), whose branch nodes
  cache the hash of their children's hashes. The template parameters (the element with its key,
  the comparison of keys and the two hash functions) are a record \<open>elem_class\<close>; the laws the trie
  relies on are the locale \<open>bit_keys\<close>, which \<open>Spendables\<close> interprets on the unspent coins of the
  block chain.

  Nodes are shared by the tries of the program, and a node that is not \<open>unique\<close> is cloned before
  it is changed, so that a trie behaves as a value; it is a value here. The genitor, the branch node
  above the root, is built where it is visited: nothing reads its hash.
\<close>

section \<open>Nodes\<close>

record ('e, 'k) elem_class =
  e_key :: "'e \<Rightarrow> 'k"
  e_compare :: "'k \<Rightarrow> 'k \<Rightarrow> int"
  e_hash :: "'e \<Rightarrow> uint256"
  e_join :: "uint256 \<Rightarrow> uint256 \<Rightarrow> uint256"
  e_width :: nat
  e_null :: 'k

datatype ('e, 'k) node =
    EndNode
  | LeafNode 'e
  | BranchNode "('e, 'k) node" "('e, 'k) node" 'k nat uint256

fun is_leaf :: "('e, 'k) node \<Rightarrow> bool" where
  "is_leaf (LeafNode e) = True"
| "is_leaf _ = False"

fun is_branch :: "('e, 'k) node \<Rightarrow> bool" where
  "is_branch (BranchNode l r k d h) = True"
| "is_branch _ = False"

fun node_compare :: "('e, 'k) elem_class \<Rightarrow> ('e, 'k) node \<Rightarrow> 'k \<Rightarrow> int" where
  "node_compare c EndNode k = 100000"
| "node_compare c (LeafNode e) k = e_compare c (e_key c e) k"
| "node_compare c (BranchNode l r key d h) k = e_compare c key k"

fun node_depth :: "('e, 'k) node \<Rightarrow> nat" where
  "node_depth (BranchNode l r key d h) = d"
| "node_depth _ = 0"

fun node_key :: "('e, 'k) elem_class \<Rightarrow> ('e, 'k) node \<Rightarrow> 'k" where
  "node_key c EndNode = e_null c"
| "node_key c (LeafNode e) = e_key c e"
| "node_key c (BranchNode l r key d h) = key"

fun node_hash :: "('e, 'k) elem_class \<Rightarrow> ('e, 'k) node \<Rightarrow> uint256" where
  "node_hash c EndNode = 0"
| "node_hash c (LeafNode e) = e_hash c e"
| "node_hash c (BranchNode l r key d h) = h"

text \<open>The constructor of a branch narrows the depth to \<open>KeyWidth\<close> and leaves the hash at zero.\<close>

definition new_branch :: "('e, 'k) elem_class \<Rightarrow> ('e, 'k) node \<Rightarrow> ('e, 'k) node \<Rightarrow> int \<Rightarrow> ('e, 'k) node" where
  "new_branch c l r d = BranchNode l r (node_key c r) (nat (take_bit (e_width c) d)) 0"

fun rehash :: "('e, 'k) elem_class \<Rightarrow> ('e, 'k) node \<Rightarrow> ('e, 'k) node" where
  "rehash c (BranchNode l r k d h) = BranchNode l r k d (e_join c (node_hash c l) (node_hash c r))"
| "rehash c n = n"

definition rehash_if :: "('e, 'k) elem_class \<Rightarrow> bool \<Rightarrow> ('e, 'k) node \<Rightarrow> ('e, 'k) node" where
  "rehash_if c a n = (if a then rehash c n else n)"

fun rehash_all :: "('e, 'k) elem_class \<Rightarrow> ('e, 'k) node \<Rightarrow> ('e, 'k) node" where
  "rehash_all c (BranchNode l r k d h) = rehash c (BranchNode (rehash_all c l) (rehash_all c r) k d h)"
| "rehash_all c n = n"

section \<open>Paths and the visitor that finds a key\<close>

datatype side = Lft | Rgt

fun opposite :: "side \<Rightarrow> side" where
  "opposite Lft = Rgt"
| "opposite Rgt = Lft"

fun child :: "side \<Rightarrow> ('e, 'k) node \<Rightarrow> ('e, 'k) node" where
  "child Lft (BranchNode l r k d h) = l"
| "child Rgt (BranchNode l r k d h) = r"
| "child _ n = n"

fun set_child :: "side \<Rightarrow> ('e, 'k) node \<Rightarrow> ('e, 'k) node \<Rightarrow> ('e, 'k) node" where
  "set_child Lft x (BranchNode l r k d h) = BranchNode x r k d h"
| "set_child Rgt x (BranchNode l r k d h) = BranchNode l x k d h"
| "set_child _ x n = n"

primrec node_at :: "('e, 'k) node \<Rightarrow> side list \<Rightarrow> ('e, 'k) node" where
  "node_at n [] = n"
| "node_at n (s # p) = node_at (child s n) p"

text \<open>
  \<open>None\<close> is the iterator with an empty path, \<open>end()\<close>; a path that stops at a branch is a key that
  was not found.
\<close>

fun descend :: "('e, 'k) elem_class \<Rightarrow> ('e, 'k) node \<Rightarrow> 'k \<Rightarrow> side list option" where
  "descend c (BranchNode l r key d h) k =
     (if \<bar>node_compare c l k\<bar> \<le> int (node_depth l) then map_option ((#) Lft) (descend c l k)
      else if \<bar>node_compare c r k\<bar> \<le> int (node_depth r) then map_option ((#) Rgt) (descend c r k)
      else Some [])"
| "descend c (LeafNode e) k = (if node_compare c (LeafNode e) k = 0 then Some [] else None)"
| "descend c EndNode k = None"

text \<open>Changing the node at the end of a path, with the hashes on the way back renewed.\<close>

fun update_at ::
  "('e, 'k) elem_class \<Rightarrow> bool \<Rightarrow> (('e, 'k) node \<Rightarrow> ('e, 'k) node) \<Rightarrow> side list \<Rightarrow> ('e, 'k) node \<Rightarrow> ('e, 'k) node"
where
  "update_at c a f [] n = rehash_if c a (f n)"
| "update_at c a f (s # p) n = rehash_if c a (set_child s (update_at c a f p (child s n)) n)"

section \<open>The trie\<close>

record ('e, 'k) trie =
  tr_root :: "('e, 'k) node option"
  tr_authenticated :: bool

definition empty_trie :: "('e, 'k) trie" where
  "empty_trie = \<lparr>tr_root = None, tr_authenticated = False\<rparr>"

definition genitor :: "('e, 'k) elem_class \<Rightarrow> ('e, 'k) node \<Rightarrow> ('e, 'k) node" where
  "genitor c n = new_branch c n EndNode (- 1)"

type_synonym ('e, 'k) iterator = "(('e, 'k) node \<times> side list) option"

definition it_leaf :: "('e, 'k) iterator \<Rightarrow> bool" where
  "it_leaf it = (case it of None \<Rightarrow> False | Some (n, p) \<Rightarrow> is_leaf (node_at n p))"

definition find :: "('e, 'k) elem_class \<Rightarrow> ('e, 'k) trie \<Rightarrow> 'k \<Rightarrow> ('e, 'k) iterator" where
  "find c t k =
     (case tr_root t of None \<Rightarrow> None
      | Some n \<Rightarrow> map_option (\<lambda>p. (genitor c n, p)) (descend c (genitor c n) k))"

text \<open>
  The dereference of an iterator throws when its path does not end in a leaf.
\<close>

definition deref :: "('e, 'k) iterator \<Rightarrow> 'e option" where
  "deref it = (case it of None \<Rightarrow> None
     | Some (n, p) \<Rightarrow> (case node_at n p of LeafNode e \<Rightarrow> Some e | _ \<Rightarrow> None))"

definition place_left :: "('e, 'k) elem_class \<Rightarrow> bool \<Rightarrow> 'e \<Rightarrow> int \<Rightarrow> ('e, 'k) node \<Rightarrow> ('e, 'k) node" where
  "place_left c a e cmp n =
     (if cmp > 0 then rehash_if c a (new_branch c (LeafNode e) n \<bar>cmp\<bar>)
      else if cmp < 0 then rehash_if c a (new_branch c n (LeafNode e) \<bar>cmp\<bar>)
      else LeafNode e)"

fun insert_here :: "('e, 'k) elem_class \<Rightarrow> bool \<Rightarrow> 'e \<Rightarrow> ('e, 'k) node \<Rightarrow> ('e, 'k) node" where
  "insert_here c a e (BranchNode l r key d h) =
     (let lcmp = node_compare c l (e_key c e); rcmp = node_compare c r (e_key c e)
      in if \<bar>lcmp\<bar> < \<bar>rcmp\<bar> then BranchNode (place_left c a e lcmp l) r key d h
         else BranchNode l (place_left c a e rcmp r) key d h)"
| "insert_here c a e n = n"

definition insert :: "('e, 'k) elem_class \<Rightarrow> 'e \<Rightarrow> ('e, 'k) trie \<Rightarrow> bool \<times> ('e, 'k) trie" where
  "insert c e t =
     (case tr_root t of
        None \<Rightarrow> (True, t\<lparr>tr_root := Some (LeafNode e)\<rparr>)
      | Some n \<Rightarrow>
          let g = genitor c n
          in case descend c g (e_key c e) of
               None \<Rightarrow> (False, t)
             | Some p \<Rightarrow>
                 if is_leaf (node_at g p) then (False, t)
                 else (True, t\<lparr>tr_root :=
                   Some (child Lft (update_at c (tr_authenticated t)
                     (insert_here c (tr_authenticated t) e) p g))\<rparr>))"

text \<open>
  Removing a leaf puts its sibling in the place of their parent. The path of the code starts with
  the genitor, so that its size is one more than the number of steps.
\<close>

definition shunt_out :: "side \<Rightarrow> side \<Rightarrow> ('e, 'k) node \<Rightarrow> ('e, 'k) node" where
  "shunt_out s1 s2 n = set_child s1 (child (opposite s2) (child s1 n)) n"

definition remove_at :: "('e, 'k) elem_class \<Rightarrow> side list \<Rightarrow> ('e, 'k) trie \<Rightarrow> ('e, 'k) trie" where
  "remove_at c p t =
     (case tr_root t of None \<Rightarrow> t
      | Some n \<Rightarrow>
          if length p + 1 < 3 then t\<lparr>tr_root := None\<rparr>
          else t\<lparr>tr_root := Some (child Lft (update_at c (tr_authenticated t)
            (shunt_out (p ! (length p - 2)) (p ! (length p - 1))) (take (length p - 2) p) (genitor c n)))\<rparr>)"

definition remove :: "('e, 'k) elem_class \<Rightarrow> 'k \<Rightarrow> ('e, 'k) trie \<Rightarrow> bool \<times> ('e, 'k) trie" where
  "remove c k t =
     (let f = find c t k
      in if \<not> it_leaf f then (False, t)
         else (True, remove_at c (snd (the f)) t))"

definition trie_rehash :: "('e, 'k) elem_class \<Rightarrow> ('e, 'k) trie \<Rightarrow> ('e, 'k) trie" where
  "trie_rehash c t = t\<lparr>tr_root := map_option (rehash_all c) (tr_root t)\<rparr>"

definition set_authenticated :: "('e, 'k) elem_class \<Rightarrow> bool \<Rightarrow> ('e, 'k) trie \<Rightarrow> ('e, 'k) trie" where
  "set_authenticated c a t =
     (if tr_authenticated t = a then t
      else let t' = t\<lparr>tr_authenticated := a\<rparr> in if a then trie_rehash c t' else t')"

section \<open>Iterators and branches\<close>

fun leftmost :: "('e, 'k) node \<Rightarrow> side list" where
  "leftmost (BranchNode l r k d h) = Lft # leftmost l"
| "leftmost n = []"

fun rightmost :: "('e, 'k) node \<Rightarrow> side list" where
  "rightmost (BranchNode l r k d h) = Rgt # rightmost r"
| "rightmost n = []"

text \<open>\<open>begin()\<close> starts its path at the root, all other paths start at the genitor.\<close>

definition trie_begin :: "('e, 'k) trie \<Rightarrow> ('e, 'k) iterator" where
  "trie_begin t = map_option (\<lambda>n. (n, leftmost n)) (tr_root t)"

definition it_plus :: "('e, 'k) iterator \<Rightarrow> ('e, 'k) iterator" where
  "it_plus it =
     (case it of None \<Rightarrow> None
      | Some (n, p) \<Rightarrow>
          if is_leaf (node_at n p) then it
          else if is_branch (node_at n p) then Some (n, p @ Lft # rightmost (child Lft (node_at n p)))
          else None)"

definition it_minus :: "('e, 'k) iterator \<Rightarrow> ('e, 'k) iterator" where
  "it_minus it =
     (case it of None \<Rightarrow> None
      | Some (n, p) \<Rightarrow>
          if is_leaf (node_at n p) then it
          else if is_branch (node_at n p) then Some (n, p @ Rgt # leftmost (child Rgt (node_at n p)))
          else None)"

datatype hash_type = Root | Leaf | Left | Right

type_synonym hash_branch = "(hash_type \<times> uint256) list"

fun branch_steps :: "('e, 'k) elem_class \<Rightarrow> ('e, 'k) node \<Rightarrow> side list \<Rightarrow> hash_branch" where
  "branch_steps c n [] = []"
| "branch_steps c n (Rgt # p) = (Left, node_hash c (child Lft n)) # branch_steps c (child Rgt n) p"
| "branch_steps c n (Lft # p) = (Right, node_hash c (child Rgt n)) # branch_steps c (child Lft n) p"

text \<open>
  \<open>Iterator::branch\<close>: the hash of the second node of the path as the root, then the hash of the
  sibling for every later node, then the hash of the last node. A path of fewer than two nodes has no
  second node (\<open>None\<close>, a read out of range).
\<close>

definition it_branch :: "('e, 'k) elem_class \<Rightarrow> ('e, 'k) iterator \<Rightarrow> hash_branch option" where
  "it_branch c it =
     (case it of None \<Rightarrow> None
      | Some (n, []) \<Rightarrow> None
      | Some (n, s # p) \<Rightarrow>
          Some ((Root, node_hash c (child s n)) # branch_steps c (child s n) p
                @ [(Leaf, node_hash c (node_at n (s # p)))]))"

primrec validate_loop :: "('e, 'k) elem_class \<Rightarrow> (hash_type \<times> uint256) list \<Rightarrow> uint256 \<Rightarrow> uint256" where
  "validate_loop c [] hash = hash"
| "validate_loop c (th # ths) hash =
     (if fst th = Left then validate_loop c ths (e_join c (snd th) hash)
      else if fst th = Right then validate_loop c ths (e_join c hash (snd th))
      else hash)"

text \<open>Validation reads the branch from its end; an empty branch has no last element.\<close>

definition validate :: "('e, 'k) elem_class \<Rightarrow> hash_branch \<Rightarrow> uint256 \<Rightarrow> bool option" where
  "validate c b hash =
     (case rev b of [] \<Rightarrow> None
      | th # ths \<Rightarrow>
          if hash \<noteq> snd th then Some False
          else Some (validate_loop c ths hash = snd (hd b)))"

definition validate_elem :: "('e, 'k) elem_class \<Rightarrow> hash_branch \<Rightarrow> 'e \<Rightarrow> bool option" where
  "validate_elem c b e = validate c b (e_hash c e)"

text \<open>
  \<open>consecutive\<close>: the second loop runs to the length of the lower branch and reads the upper one
  (\<open>None\<close> where it reads past its end).
\<close>

primrec walk_down :: "hash_type \<Rightarrow> nat list \<Rightarrow> hash_branch \<Rightarrow> bool option" where
  "walk_down want [] b = Some True"
| "walk_down want (j # js) b =
     (if j \<ge> length b then None
      else if fst (b ! j) = Leaf then Some True
      else if fst (b ! j) \<noteq> want then Some False
      else walk_down want js b)"

fun first_difference :: "hash_branch \<Rightarrow> hash_branch \<Rightarrow> nat" where
  "first_difference (x # xs) (y # ys) = (if x \<noteq> y then 0 else Suc (first_difference xs ys))"
| "first_difference _ _ = 0"

definition consecutive :: "hash_branch \<Rightarrow> hash_branch \<Rightarrow> bool option" where
  "consecutive lower upper =
     (let i = first_difference lower upper
      in if i = min (length lower) (length upper) then Some False
         else if fst (lower ! i) \<noteq> Left then Some False
         else (case walk_down Right [i + 1..<length lower] lower of
                 None \<Rightarrow> None
               | Some False \<Rightarrow> Some False
               | Some True \<Rightarrow>
                   if fst (upper ! i) \<noteq> Right then Some False
                   else walk_down Left [i + 1..<length lower] upper))"

section \<open>Well-formed tries\<close>

text \<open>
  The elements of a node, left to right; a branch of depth \<open>d\<close> has on its left the keys whose bit
  \<open>d - 1\<close> is set and on its right the others, which all agree with its own key above that bit. The
  number of a key is what its comparison compares.
\<close>

fun elems :: "('e, 'k) node \<Rightarrow> 'e list" where
  "elems EndNode = []"
| "elems (LeafNode e) = [e]"
| "elems (BranchNode l r k d h) = elems l @ elems r"

fun wf_node :: "('e, 'k) elem_class \<Rightarrow> ('k \<Rightarrow> nat) \<Rightarrow> ('e, 'k) node \<Rightarrow> bool" where
  "wf_node c num EndNode = False"
| "wf_node c num (LeafNode e) = True"
| "wf_node c num (BranchNode l r k d h) \<longleftrightarrow>
     wf_node c num l \<and> wf_node c num r \<and> node_depth l < d \<and> node_depth r < d
     \<and> num (node_key c l) div 2 ^ (d - 1) = 2 * (num k div 2 ^ d) + 1
     \<and> num (node_key c r) div 2 ^ (d - 1) = 2 * (num k div 2 ^ d)"

fun hashed :: "('e, 'k) elem_class \<Rightarrow> ('e, 'k) node \<Rightarrow> bool" where
  "hashed c (BranchNode l r k d h) \<longleftrightarrow>
     h = e_join c (node_hash c l) (node_hash c r) \<and> hashed c l \<and> hashed c r"
| "hashed c n = True"

definition trie_elems :: "('e, 'k) trie \<Rightarrow> 'e list" where
  "trie_elems t = (case tr_root t of None \<Rightarrow> [] | Some n \<Rightarrow> elems n)"

definition trie_ok :: "('e, 'k) elem_class \<Rightarrow> ('k \<Rightarrow> nat) \<Rightarrow> ('e, 'k) trie \<Rightarrow> bool" where
  "trie_ok c num t =
     (case tr_root t of None \<Rightarrow> True
      | Some n \<Rightarrow> wf_node c num n \<and> (if tr_authenticated t then hashed c n else True))"

lemma node_depth_rehash [simp]:
  "node_depth (rehash c n) = node_depth n" "node_depth (rehash_if c a n) = node_depth n"
  by (cases n; simp add: rehash_if_def)+

lemma node_key_rehash [simp]:
  "node_key c (rehash c n) = node_key c n" "node_key c (rehash_if c a n) = node_key c n"
  by (cases n; simp add: rehash_if_def)+

lemma elems_rehash [simp]: "elems (rehash c n) = elems n" "elems (rehash_if c a n) = elems n"
  by (cases n; simp add: rehash_if_def)+

lemma wf_rehash [simp]:
  "wf_node c num (rehash c n) = wf_node c num n" "wf_node c num (rehash_if c a n) = wf_node c num n"
  by (cases n; simp add: rehash_if_def)+

lemma is_leaf_rehash [simp]: "is_leaf (rehash c n) = is_leaf n" "is_leaf (rehash_if c a n) = is_leaf n"
  by (cases n; simp add: rehash_if_def)+

lemma is_leaf_iff: "is_leaf n \<longleftrightarrow> (\<exists>e. n = LeafNode e)"
  by (cases n) auto

lemma is_branch_iff: "is_branch n \<longleftrightarrow> (\<exists>l r k d h. n = BranchNode l r k d h)"
  by (cases n) auto

lemma elems_nonempty: "wf_node c num n \<Longrightarrow> elems n \<noteq> []"
  by (induction n) auto

lemma hashed_rehash: "hashed c n \<Longrightarrow> hashed c (rehash c n)"
  by (cases n) auto

lemma rehash_all_keeps [simp]:
  "node_depth (rehash_all c n) = node_depth n" "node_key c (rehash_all c n) = node_key c n"
  "elems (rehash_all c n) = elems n"
  by (induction n) auto

lemma wf_rehash_all [simp]: "wf_node c num (rehash_all c n) = wf_node c num n"
  by (induction n) auto

lemma hashed_rehash_all: "hashed c (rehash_all c n)"
  by (induction n) auto

text \<open>Splitting a number at a bit.\<close>

lemma div_pred_pow:
  fixes x :: nat
  assumes "0 < d"
  shows "x div 2 ^ (d - 1) div 2 = x div 2 ^ d"
  using assms by (cases d) (simp_all add: mult.commute flip: div_mult2_eq)

lemma div_pow_mono:
  fixes x y :: nat
  assumes "x div 2 ^ m = y div 2 ^ m" "m \<le> n"
  shows "x div 2 ^ n = y div 2 ^ n"
proof -
  obtain k where n: "n = m + k"
    using assms(2) le_Suc_ex by blast
  have "z div 2 ^ n = z div 2 ^ m div 2 ^ k" for z :: nat
    by (simp add: n power_add div_mult2_eq)
  then show ?thesis using assms(1) by simp
qed

lemma split_bit:
  fixes x :: nat
  assumes "0 < d"
  shows "x div 2 ^ (d - 1) = 2 * (x div 2 ^ d) \<or> x div 2 ^ (d - 1) = 2 * (x div 2 ^ d) + 1"
proof -
  have "a = 2 * b \<or> a = 2 * b + 1" if "a div 2 = b" for a b :: nat
    using that by auto
  from this [OF div_pred_pow [OF assms, of x]] show ?thesis .
qed

lemma split_bit_less:
  fixes x y :: nat
  assumes "x div 2 ^ d = y div 2 ^ d" "x div 2 ^ (d - 1) \<noteq> y div 2 ^ (d - 1)" "x < y"
  shows "y div 2 ^ (d - 1) = 2 * (y div 2 ^ d) + 1 \<and> x div 2 ^ (d - 1) = 2 * (y div 2 ^ d)"
proof -
  have "0 < d" using assms by (cases d) auto
  moreover have "x div 2 ^ (d - 1) \<le> y div 2 ^ (d - 1)"
    using assms(3) by (simp add: div_le_mono)
  ultimately show ?thesis
    using split_bit [of d x] split_bit [of d y] assms by linarith
qed

lemma covered:
  assumes "wf_node c num n" "e \<in> set (elems n)"
  shows "num (e_key c e) div 2 ^ node_depth n = num (node_key c n) div 2 ^ node_depth n"
  using assms
proof (induction n)
  case (BranchNode l r k d h)
  have d: "0 < d" using BranchNode.prems by simp
  consider "e \<in> set (elems l)" | "e \<in> set (elems r)"
    using BranchNode.prems(2) by auto
  then show ?case
  proof cases
    case 1
    have "num (e_key c e) div 2 ^ (d - 1) = num (node_key c l) div 2 ^ (d - 1)"
      by (rule div_pow_mono [OF BranchNode.IH(1)]) (use 1 BranchNode.prems in auto)
    then show ?thesis
      using BranchNode.prems(1) div_pred_pow [OF d, of "num (e_key c e)"] by simp
  next
    case 2
    have "num (e_key c e) div 2 ^ (d - 1) = num (node_key c r) div 2 ^ (d - 1)"
      by (rule div_pow_mono [OF BranchNode.IH(2)]) (use 2 BranchNode.prems in auto)
    then show ?thesis
      using BranchNode.prems(1) div_pred_pow [OF d, of "num (e_key c e)"] by simp
  qed
qed auto

text \<open>The two sides of a branch.\<close>

lemma covered_sides:
  assumes "wf_node c num (BranchNode l r k d h)"
  shows "e \<in> set (elems l) \<Longrightarrow> num (e_key c e) div 2 ^ (d - 1) = 2 * (num k div 2 ^ d) + 1"
    and "e \<in> set (elems r) \<Longrightarrow> num (e_key c e) div 2 ^ (d - 1) = 2 * (num k div 2 ^ d)"
proof -
  have le: "node_depth l \<le> d - 1" "node_depth r \<le> d - 1" using assms by auto
  show "num (e_key c e) div 2 ^ (d - 1) = 2 * (num k div 2 ^ d) + 1" if "e \<in> set (elems l)"
    using div_pow_mono [OF covered [of c num l e] le(1)] that assms by simp
  show "num (e_key c e) div 2 ^ (d - 1) = 2 * (num k div 2 ^ d)" if "e \<in> set (elems r)"
    using div_pow_mono [OF covered [of c num r e] le(2)] that assms by simp
qed

section \<open>The laws of keys and what the operations do\<close>

text \<open>
  A comparison tells the order of two keys and, by its absolute value, the position of the first bit
  in which they differ.
\<close>

locale bit_keys =
  fixes c :: "('e, 'k) elem_class" and num :: "'k \<Rightarrow> nat"
  assumes compare_le: "\<bar>e_compare c a b\<bar> \<le> int d \<longleftrightarrow> num a div 2 ^ d = num b div 2 ^ d"
    and compare_pos: "0 < e_compare c a b \<longleftrightarrow> num a < num b"
    and compare_neg: "e_compare c a b < 0 \<longleftrightarrow> num b < num a"
    and num_inj: "num a = num b \<Longrightarrow> a = b"
    and compare_width: "\<bar>e_compare c a b\<bar> < 2 ^ e_width c"
    and compare_bound: "\<bar>e_compare c a b\<bar> < 100000"
begin

lemma compare_0: "e_compare c a b = 0 \<longleftrightarrow> a = b"
  using compare_le [of a b 0] num_inj [of a b] by auto

lemma node_compare_key: "wf_node c num n \<Longrightarrow> node_compare c n k = e_compare c (node_key c n) k"
  by (cases n) auto

lemma node_compare_le:
  "wf_node c num n \<Longrightarrow> \<bar>node_compare c n k\<bar> \<le> int (node_depth n)
     \<longleftrightarrow> num (node_key c n) div 2 ^ node_depth n = num k div 2 ^ node_depth n"
  by (simp add: node_compare_key compare_le)

text \<open>Descending finds the key exactly when one of the elements has it.\<close>

lemma descend_found:
  assumes "wf_node c num n" "\<bar>node_compare c n k\<bar> \<le> int (node_depth n)"
  shows "\<exists>p. descend c n k = Some p \<and>
    (case node_at n p of LeafNode e \<Rightarrow> e \<in> set (elems n) \<and> e_key c e = k
     | BranchNode _ _ _ _ _ \<Rightarrow> k \<notin> e_key c ` set (elems n) | EndNode \<Rightarrow> False)"
  using assms
proof (induction n)
  case (LeafNode e)
  then show ?case by (simp add: compare_0)
next
  case (BranchNode l r key d h)
  note wf = BranchNode.prems(1)
  have d: "0 < d" using wf by simp
  have le: "node_depth l \<le> d - 1" "node_depth r \<le> d - 1" using wf by auto
  have side: "num k div 2 ^ (d - 1) = 2 * (num key div 2 ^ d) \<or> num k div 2 ^ (d - 1) = 2 * (num key div 2 ^ d) + 1"
    using split_bit [OF d, of "num k"] BranchNode.prems(2) compare_le [of key k d] by simp
  have left: "num k div 2 ^ (d - 1) = 2 * (num key div 2 ^ d) + 1" if "\<bar>node_compare c l k\<bar> \<le> int (node_depth l)"
    using div_pow_mono [of "num (node_key c l)" "node_depth l" "num k" "d - 1"] that wf le
    by (simp add: node_compare_le)
  have right: "num k div 2 ^ (d - 1) = 2 * (num key div 2 ^ d)" if "\<bar>node_compare c r k\<bar> \<le> int (node_depth r)"
    using div_pow_mono [of "num (node_key c r)" "node_depth r" "num k" "d - 1"] that wf le
    by (simp add: node_compare_le)
  have nl: "k \<notin> e_key c ` set (elems l)" if "num k div 2 ^ (d - 1) = 2 * (num key div 2 ^ d)"
    using covered_sides(1) [OF wf] that by fastforce
  have nr: "k \<notin> e_key c ` set (elems r)" if "num k div 2 ^ (d - 1) = 2 * (num key div 2 ^ d) + 1"
    using covered_sides(2) [OF wf] that by fastforce
  have out: "k \<notin> e_key c ` set (elems n)" if "wf_node c num n" "\<not> \<bar>node_compare c n k\<bar> \<le> int (node_depth n)" for n
    using covered [OF that(1)] that by (auto simp: node_compare_le)
  consider (l) "\<bar>node_compare c l k\<bar> \<le> int (node_depth l)"
    | (r) "\<not> \<bar>node_compare c l k\<bar> \<le> int (node_depth l)" "\<bar>node_compare c r k\<bar> \<le> int (node_depth r)"
    | (n) "\<not> \<bar>node_compare c l k\<bar> \<le> int (node_depth l)" "\<not> \<bar>node_compare c r k\<bar> \<le> int (node_depth r)"
    by blast
  then show ?case
  proof cases
    case l
    then obtain p where p: "descend c l k = Some p"
      "case node_at l p of LeafNode e \<Rightarrow> e \<in> set (elems l) \<and> e_key c e = k
       | BranchNode _ _ _ _ _ \<Rightarrow> k \<notin> e_key c ` set (elems l) | EndNode \<Rightarrow> False"
      using BranchNode.IH(1) wf by auto
    then show ?thesis
      using l nr [OF left [OF l]] by (auto split: node.splits simp: image_Un)
  next
    case r
    then obtain p where p: "descend c r k = Some p"
      "case node_at r p of LeafNode e \<Rightarrow> e \<in> set (elems r) \<and> e_key c e = k
       | BranchNode _ _ _ _ _ \<Rightarrow> k \<notin> e_key c ` set (elems r) | EndNode \<Rightarrow> False"
      using BranchNode.IH(2) wf by auto
    then show ?thesis
      using r nl [OF right [OF r(2)]] by (auto split: node.splits simp: image_Un)
  next
    case n
    then show ?thesis using out [of l] out [of r] wf by (auto simp: image_Un)
  qed
qed simp

end

text \<open>What replaces a node when an element is put beside it or into it.\<close>

definition grown ::
  "('e, 'k) elem_class \<Rightarrow> ('k \<Rightarrow> nat) \<Rightarrow> bool \<Rightarrow> 'e \<Rightarrow> ('e, 'k) node \<Rightarrow> ('e, 'k) node \<Rightarrow> bool" where
  "grown c num a e n x \<longleftrightarrow>
     wf_node c num x \<and> set (elems x) = Set.insert e (set (elems n))
     \<and> (a \<longrightarrow> hashed c n \<longrightarrow> hashed c x)"

lemma hashed_rehash_if:
  "a \<Longrightarrow> hashed c l \<Longrightarrow> hashed c r \<Longrightarrow> hashed c (rehash_if c a (BranchNode l r k d h))"
  by (simp add: rehash_if_def)

context bit_keys
begin

lemma new_branch_depth: "nat (take_bit (e_width c) \<bar>e_compare c a b\<bar>) = nat \<bar>e_compare c a b\<bar>"
  using take_bit_int_eq_self [of "\<bar>e_compare c a b\<bar>" "e_width c"] compare_width [of a b] by simp

lemma place_grown:
  fixes a :: bool
  assumes "wf_node c num n" "\<not> \<bar>node_compare c n (e_key c e)\<bar> \<le> int (node_depth n)"
  defines "m \<equiv> nat \<bar>node_compare c n (e_key c e)\<bar>"
  defines "x \<equiv> place_left c a e (node_compare c n (e_key c e)) n"
  shows "grown c num a e n x" "node_depth x = m"
    "num (node_key c x) div 2 ^ m = num (e_key c e) div 2 ^ m"
    "num (node_key c n) div 2 ^ m = num (e_key c e) div 2 ^ m"
proof -
  let ?k = "e_key c e" and ?cmp = "e_compare c (node_key c n) (e_key c e)"
  have cmp: "node_compare c n ?k = ?cmp"
    by (rule node_compare_key [OF assms(1)])
  have m: "m = nat \<bar>?cmp\<bar>" and mint: "\<bar>?cmp\<bar> = int m"
    by (simp_all add: m_def cmp)
  have less: "node_depth n < m" using assms(2) by (simp add: m_def)
  show same: "num (node_key c n) div 2 ^ m = num ?k div 2 ^ m"
    using compare_le [of "node_key c n" ?k m] mint by simp
  have diff: "num (node_key c n) div 2 ^ (m - 1) \<noteq> num ?k div 2 ^ (m - 1)"
    using compare_le [of "node_key c n" ?k "m - 1"] mint less by simp
  have "?cmp \<noteq> 0" using less mint by auto
  then consider "0 < ?cmp" "num (node_key c n) < num ?k" | "?cmp < 0" "num ?k < num (node_key c n)"
    using compare_pos compare_neg by (metis linorder_cases)
  then have "wf_node c num x \<and> set (elems x) = Set.insert e (set (elems n)) \<and> node_depth x = m
    \<and> num (node_key c x) div 2 ^ m = num ?k div 2 ^ m \<and> (a \<longrightarrow> hashed c n \<longrightarrow> hashed c x)"
  proof cases
    case 1
    have nb: "new_branch c (LeafNode e) n \<bar>?cmp\<bar> = BranchNode (LeafNode e) n (node_key c n) m 0"
      by (simp only: new_branch_def new_branch_depth m)
    have x: "x = rehash_if c a (BranchNode (LeafNode e) n (node_key c n) m 0)"
      unfolding nb [symmetric] x_def cmp place_left_def using 1 by simp
    show ?thesis
      using split_bit_less [OF same diff 1(2)] same less assms(1)
      by (auto simp: x hashed_rehash_if)
  next
    case 2
    have nb: "new_branch c n (LeafNode e) \<bar>?cmp\<bar> = BranchNode n (LeafNode e) ?k m 0"
      by (simp only: new_branch_def new_branch_depth m node_key.simps)
    have x: "x = rehash_if c a (BranchNode n (LeafNode e) ?k m 0)"
      unfolding nb [symmetric] x_def cmp place_left_def using 2 by simp
    show ?thesis
      using split_bit_less [OF same [symmetric] diff [symmetric] 2(2)] same less assms(1)
      by (auto simp: x hashed_rehash_if)
  qed
  then show "grown c num a e n x" "node_depth x = m"
    "num (node_key c x) div 2 ^ m = num ?k div 2 ^ m"
    by (simp_all add: grown_def)
qed

lemma insert_here_grown:
  fixes a :: bool
  assumes wf: "wf_node c num (BranchNode l r key d h)"
    and k: "\<bar>e_compare c key (e_key c e)\<bar> \<le> int d"
    and nl: "\<not> \<bar>node_compare c l (e_key c e)\<bar> \<le> int (node_depth l)"
    and nr: "\<not> \<bar>node_compare c r (e_key c e)\<bar> \<le> int (node_depth r)"
  defines "x \<equiv> rehash_if c a (insert_here c a e (BranchNode l r key d h))"
  shows "grown c num a e (BranchNode l r key d h) x \<and> node_depth x = d \<and> node_key c x = key"
proof -
  let ?k = "num (e_key c e)" and ?q = "num key div 2 ^ d"
  have d: "0 < d" using wf by simp
  have q: "?k div 2 ^ d = ?q" using k compare_le [of key "e_key c e" d] by simp
  have lt: "\<bar>node_compare c n (e_key c e)\<bar> < int d \<longleftrightarrow> num (node_key c n) div 2 ^ (d - 1) = ?k div 2 ^ (d - 1)"
    if "wf_node c num n" for n
    using compare_le [of "node_key c n" "e_key c e" "d - 1"] d that by (auto simp: node_compare_key)
  note pl = place_grown(1-3) [OF _ nl, of a] and pr = place_grown(1-3) [OF _ nr, of a]
  show ?thesis
  proof (cases "?k div 2 ^ (d - 1) = 2 * ?q + 1")
    case True
    then have l: "\<bar>node_compare c l (e_key c e)\<bar> < int d" and r: "\<not> \<bar>node_compare c r (e_key c e)\<bar> < int d"
      using wf by (simp_all add: lt)
    have x: "x = rehash_if c a (BranchNode (place_left c a e (node_compare c l (e_key c e)) l) r key d h)"
      using l r by (simp add: x_def Let_def)
    have "num (node_key c (place_left c a e (node_compare c l (e_key c e)) l)) div 2 ^ (d - 1) = 2 * ?q + 1"
      using div_pow_mono [OF pl(3), of "d - 1"] l wf True by simp
    then show ?thesis
      using pl(1,2) l wf by (auto simp: x grown_def hashed_rehash_if)
  next
    case False
    then have s: "?k div 2 ^ (d - 1) = 2 * ?q" using split_bit [OF d, of ?k] q by simp
    then have r: "\<bar>node_compare c r (e_key c e)\<bar> < int d" and l: "\<not> \<bar>node_compare c l (e_key c e)\<bar> < int d"
      using wf by (simp_all add: lt)
    have x: "x = rehash_if c a (BranchNode l (place_left c a e (node_compare c r (e_key c e)) r) key d h)"
      using l r by (simp add: x_def Let_def)
    have "num (node_key c (place_left c a e (node_compare c r (e_key c e)) r)) div 2 ^ (d - 1) = 2 * ?q"
      using div_pow_mono [OF pr(3), of "d - 1"] r wf s by simp
    then show ?thesis
      using pr(1,2) r wf by (auto simp: x grown_def hashed_rehash_if)
  qed
qed

lemma update_insert_grown:
  fixes a :: bool
  assumes "wf_node c num n" "\<bar>node_compare c n (e_key c e)\<bar> \<le> int (node_depth n)"
    and "descend c n (e_key c e) = Some p" "\<not> is_leaf (node_at n p)"
  defines "x \<equiv> update_at c a (insert_here c a e) p n"
  shows "grown c num a e n x \<and> node_depth x = node_depth n \<and> node_key c x = node_key c n"
  using assms(1-4) unfolding x_def
proof (induction n arbitrary: p)
  case (LeafNode e')
  then show ?case by (auto split: if_splits)
next
  case (BranchNode l r key d h)
  let ?n = "BranchNode l r key d h"
  have wl: "wf_node c num l" and wr: "wf_node c num r" using BranchNode.prems(1) by simp_all
  consider (l) p' where "\<bar>node_compare c l (e_key c e)\<bar> \<le> int (node_depth l)" "descend c l (e_key c e) = Some p'" "p = Lft # p'"
    | (r) p' where "\<bar>node_compare c r (e_key c e)\<bar> \<le> int (node_depth r)" "descend c r (e_key c e) = Some p'" "p = Rgt # p'"
    | (n) "\<not> \<bar>node_compare c l (e_key c e)\<bar> \<le> int (node_depth l)" "\<not> \<bar>node_compare c r (e_key c e)\<bar> \<le> int (node_depth r)" "p = []"
    using BranchNode.prems(3) by (auto split: if_splits)
  then show ?case
  proof cases
    case l
    then have "grown c num a e l (update_at c a (insert_here c a e) p' l)
      \<and> node_depth (update_at c a (insert_here c a e) p' l) = node_depth l
      \<and> node_key c (update_at c a (insert_here c a e) p' l) = node_key c l"
      using BranchNode.IH(1) wl BranchNode.prems(4) by simp
    then show ?thesis
      using BranchNode.prems(1) by (auto simp: l(3) grown_def hashed_rehash_if)
  next
    case r
    then have "grown c num a e r (update_at c a (insert_here c a e) p' r)
      \<and> node_depth (update_at c a (insert_here c a e) p' r) = node_depth r
      \<and> node_key c (update_at c a (insert_here c a e) p' r) = node_key c r"
      using BranchNode.IH(2) wr BranchNode.prems(4) by simp
    then show ?thesis
      using BranchNode.prems(1) by (auto simp: r(3) grown_def hashed_rehash_if)
  next
    case n
    show ?thesis
      using insert_here_grown [OF BranchNode.prems(1) _ n(1,2)] BranchNode.prems(2)
      by (simp add: n(3))
  qed
qed simp

end

text \<open>What replaces a node when the element with a key is taken out of it.\<close>

definition shrunk ::
  "('e, 'k) elem_class \<Rightarrow> ('k \<Rightarrow> nat) \<Rightarrow> bool \<Rightarrow> 'k \<Rightarrow> ('e, 'k) node \<Rightarrow> ('e, 'k) node \<Rightarrow> bool" where
  "shrunk c num a k n x \<longleftrightarrow>
     wf_node c num x \<and> set (elems x) = {e \<in> set (elems n). e_key c e \<noteq> k}
     \<and> (a \<longrightarrow> hashed c n \<longrightarrow> hashed c x)"

definition cut :: "('e, 'k) elem_class \<Rightarrow> bool \<Rightarrow> side list \<Rightarrow> ('e, 'k) node \<Rightarrow> ('e, 'k) node" where
  "cut c a p n = update_at c a (shunt_out (p ! (length p - 2)) (p ! (length p - 1))) (take (length p - 2) p) n"

lemma cut_two [simp]: "cut c a [s1, s2] n = rehash_if c a (shunt_out s1 s2 n)"
  by (simp add: cut_def)

lemma cut_Cons: "2 \<le> length p \<Longrightarrow> cut c a (s # p) n = rehash_if c a (set_child s (cut c a p (child s n)) n)"
  by (cases p rule: rev_cases) (auto simp: cut_def take_Cons' nth_append nth_Cons' Suc_diff_le)

context bit_keys
begin

lemma key_sides:
  assumes "wf_node c num (BranchNode l r key d h)" "e \<in> set (elems l)" "e' \<in> set (elems r)"
  shows "e_key c e \<noteq> e_key c e'"
proof
  assume "e_key c e = e_key c e'"
  then have "num (e_key c e) div 2 ^ (d - 1) = num (e_key c e') div 2 ^ (d - 1)" by simp
  then show False
    using covered_sides(1) [OF assms(1,2)] covered_sides(2) [OF assms(1,3)] by (metis even_mult_iff even_plus_one_iff even_two_times_div_two dvd_triv_left)
qed

lemma cut_shrunk:
  fixes a :: bool
  assumes "wf_node c num n" "descend c n k = Some p" "is_leaf (node_at n p)" "k \<in> e_key c ` set (elems n)"
  shows "(length p = 1 \<longrightarrow> shrunk c num a k n (child (opposite (hd p)) n)
      \<and> node_depth (child (opposite (hd p)) n) < node_depth n
      \<and> num (node_key c (child (opposite (hd p)) n)) div 2 ^ node_depth n = num (node_key c n) div 2 ^ node_depth n)
    \<and> (2 \<le> length p \<longrightarrow> shrunk c num a k n (cut c a p n) \<and> node_depth (cut c a p n) = node_depth n
      \<and> node_key c (cut c a p n) = node_key c n)"
  using assms
proof (induction n arbitrary: p)
  case (LeafNode e)
  then show ?case by (auto split: if_splits)
next
  case (BranchNode l r key d h)
  let ?n = "BranchNode l r key d h"
  note wf = BranchNode.prems(1)
  have wl: "wf_node c num l" and wr: "wf_node c num r" and d: "0 < d"
    and le: "node_depth l \<le> d - 1" "node_depth r \<le> d - 1" using wf by auto
  have up: "num (node_key c x) div 2 ^ d = num key div 2 ^ d"
    if "num (node_key c x) div 2 ^ (d - 1) = 2 * (num key div 2 ^ d) \<or> num (node_key c x) div 2 ^ (d - 1) = 2 * (num key div 2 ^ d) + 1"
    for x :: "('e, 'k) node"
    using div_pred_pow [OF d, of "num (node_key c x)"] that by auto
  consider (l) p' where "\<bar>node_compare c l k\<bar> \<le> int (node_depth l)" "descend c l k = Some p'" "p = Lft # p'"
    | (r) p' where "\<bar>node_compare c r k\<bar> \<le> int (node_depth r)" "descend c r k = Some p'" "p = Rgt # p'"
    using BranchNode.prems(2,3) by (auto split: if_splits)
  then show ?case
  proof cases
    case l
    have leaf: "is_leaf (node_at l p')" using BranchNode.prems(3) l(3) by simp
    obtain e where e: "e \<in> set (elems l)" "e_key c e = k"
      using descend_found [OF wl l(1)] leaf l(2) by (auto simp: is_leaf_iff)
    have "e_key c x \<noteq> k" if "x \<in> set (elems r)" for x
      using key_sides [OF wf e(1) that] e(2) by metis
    then have r: "{e \<in> set (elems r). e_key c e \<noteq> k} = set (elems r)"
      by blast
    note IH = BranchNode.IH(1) [OF wl l(2) leaf] e
    consider "p' = []" | s where "p' = [s]" | "2 \<le> length p'"
      by (cases p' rule: remdups_adj.cases) auto
    then show ?thesis
    proof cases
      case 1
      then obtain e' where "l = LeafNode e'" using leaf by (auto simp: is_leaf_iff)
      then show ?thesis
        using 1 l(3) e r wf up [of r] by (auto simp: shrunk_def)
    next
      case 2
      have x: "shrunk c num a k l (child (opposite s) l)" "node_depth (child (opposite s) l) < node_depth l"
        "num (node_key c (child (opposite s) l)) div 2 ^ node_depth l = num (node_key c l) div 2 ^ node_depth l"
        using IH 2 by (auto simp: image_iff)
      then show ?thesis
        using 2 l(3) r wf le div_pow_mono [OF x(3) le(1)]
        by (auto simp: shrunk_def shunt_out_def hashed_rehash_if)
    next
      case 3
      then have x: "shrunk c num a k l (cut c a p' l)" "node_depth (cut c a p' l) = node_depth l"
        "node_key c (cut c a p' l) = node_key c l"
        using IH by (auto simp: image_iff)
      then show ?thesis
        using 3 l(3) r wf by (auto simp: shrunk_def cut_Cons hashed_rehash_if)
    qed
  next
    case r
    have leaf: "is_leaf (node_at r p')" using BranchNode.prems(3) r(3) by simp
    obtain e where e: "e \<in> set (elems r)" "e_key c e = k"
      using descend_found [OF wr r(1)] leaf r(2) by (auto simp: is_leaf_iff)
    have l: "{e \<in> set (elems l). e_key c e \<noteq> k} = set (elems l)"
      using key_sides [OF wf _ e(1)] e(2) by auto
    note IH = BranchNode.IH(2) [OF wr r(2) leaf] e
    consider "p' = []" | s where "p' = [s]" | "2 \<le> length p'"
      by (cases p' rule: remdups_adj.cases) auto
    then show ?thesis
    proof cases
      case 1
      then obtain e' where "r = LeafNode e'" using leaf by (auto simp: is_leaf_iff)
      then show ?thesis
        using 1 r(3) e l wf up [of l] by (auto simp: shrunk_def)
    next
      case 2
      have x: "shrunk c num a k r (child (opposite s) r)" "node_depth (child (opposite s) r) < node_depth r"
        "num (node_key c (child (opposite s) r)) div 2 ^ node_depth r = num (node_key c r) div 2 ^ node_depth r"
        using IH 2 by (auto simp: image_iff)
      then show ?thesis
        using 2 r(3) l wf le div_pow_mono [OF x(3) le(2)]
        by (auto simp: shrunk_def shunt_out_def hashed_rehash_if)
    next
      case 3
      then have x: "shrunk c num a k r (cut c a p' r)" "node_depth (cut c a p' r) = node_depth r"
        "node_key c (cut c a p' r) = node_key c r"
        using IH by (auto simp: image_iff)
      then show ?thesis
        using 3 r(3) l wf by (auto simp: shrunk_def cut_Cons hashed_rehash_if)
    qed
  qed
qed simp

end

section \<open>The interface of a set of elements with keys\<close>

locale keyed_set =
  fixes key :: "'e \<Rightarrow> 'k" and contents :: "'s \<Rightarrow> 'e set" and ok :: "'s \<Rightarrow> bool"
    and look :: "'s \<Rightarrow> 'k \<Rightarrow> 'e option"
    and ins :: "'e \<Rightarrow> 's \<Rightarrow> bool \<times> 's" and rem :: "'k \<Rightarrow> 's \<Rightarrow> bool \<times> 's"
  assumes look_Some: "ok s \<Longrightarrow> look s k = Some e \<longleftrightarrow> e \<in> contents s \<and> key e = k"
    and ins_new: "ok s \<Longrightarrow> fst (ins e s) \<longleftrightarrow> key e \<notin> key ` contents s"
    and ok_ins: "ok s \<Longrightarrow> ok (snd (ins e s))"
    and contents_ins: "ok s \<Longrightarrow> contents (snd (ins e s)) =
      (if key e \<in> key ` contents s then contents s else Set.insert e (contents s))"
    and rem_found: "ok s \<Longrightarrow> fst (rem k s) \<longleftrightarrow> k \<in> key ` contents s"
    and ok_rem: "ok s \<Longrightarrow> ok (snd (rem k s))"
    and contents_rem: "ok s \<Longrightarrow> contents (snd (rem k s)) = {e \<in> contents s. key e \<noteq> k}"
begin

lemma look_None: "ok s \<Longrightarrow> look s k = None \<longleftrightarrow> k \<notin> key ` contents s"
  using look_Some [of s k] by (metis imageE imageI not_None_eq)

lemma key_inj: "ok s \<Longrightarrow> inj_on key (contents s)"
  using look_Some [of s] by (metis inj_onI option.inject)

lemma look_eqI:
  assumes "ok s" "ok s'" "\<And>e. e \<in> contents s \<and> key e = k \<longleftrightarrow> e \<in> contents s' \<and> key e = k"
  shows "look s k = look s' k"
  using look_Some [OF assms(1)] look_Some [OF assms(2)] assms(3) by (metis option.exhaust)

lemma look_ins:
  assumes "ok s"
  shows "look (snd (ins e s)) k = (if k = key e \<and> look s k = None then Some e else look s k)"
proof (cases "k = key e \<and> look s k = None")
  case True
  then have "key e \<notin> key ` contents s" "look s (key e) = None" "k = key e"
    using look_None [OF assms, of k] by blast+
  then show ?thesis
    by (simp add: look_Some ok_ins contents_ins assms)
next
  case False
  have "look (snd (ins e s)) k = look s k"
    by (rule look_eqI) (use False assms look_None [OF assms, of k] in \<open>auto simp: ok_ins contents_ins\<close>)
  then show ?thesis using False by auto
qed

lemma look_rem:
  assumes "ok s"
  shows "look (snd (rem k s)) k' = (if k' = k then None else look s k')"
proof (cases "k' = k")
  case True
  then show ?thesis by (auto simp: look_None ok_rem contents_rem assms)
next
  case False
  have "look (snd (rem k s)) k' = look s k'"
    by (rule look_eqI) (use False assms in \<open>auto simp: ok_rem contents_rem\<close>)
  then show ?thesis using False by simp
qed

text \<open>Taking out what was just put in, and putting back what was just taken out.\<close>

lemma rem_ins: "ok s \<Longrightarrow> look s (key e) = None \<Longrightarrow> contents (snd (rem (key e) (snd (ins e s)))) = contents s"
  by (auto simp: contents_rem contents_ins ok_ins look_None image_iff)

lemma ins_rem: "ok s \<Longrightarrow> look s k = Some e \<Longrightarrow> contents (snd (ins e (snd (rem k s)))) = contents s"
  using key_inj [of s] by (auto simp: contents_rem contents_ins ok_rem look_Some inj_on_def)

end

section \<open>The trie is one\<close>

definition trie_look :: "('e, 'k) elem_class \<Rightarrow> ('e, 'k) trie \<Rightarrow> 'k \<Rightarrow> 'e option" where
  "trie_look c t k = deref (find c t k)"

lemma child_rehash_if [simp]:
  "child s (rehash_if c a (BranchNode l r k d h)) = child s (BranchNode l r k d h)"
  by (cases s) (simp_all add: rehash_if_def)

context bit_keys
begin

lemma keys_inj: "wf_node c num n \<Longrightarrow> inj_on (e_key c) (set (elems n))"
proof (induction n)
  case (BranchNode l r k d h)
  then show ?case
    using key_sides [OF BranchNode.prems] by (fastforce simp: inj_on_Un)
qed auto

lemma descend_genitor:
  "wf_node c num n \<Longrightarrow> descend c (genitor c n) k =
    (if \<bar>node_compare c n k\<bar> \<le> int (node_depth n) then map_option ((#) Lft) (descend c n k) else Some [])"
  by (auto simp: genitor_def new_branch_def)

lemma absent:
  "wf_node c num n \<Longrightarrow> \<not> \<bar>node_compare c n k\<bar> \<le> int (node_depth n) \<Longrightarrow> k \<notin> e_key c ` set (elems n)"
  using covered [of c num n] by (auto simp: node_compare_le)

lemma find_cases:
  assumes "wf_node c num n"
  shows "(\<exists>p e. descend c (genitor c n) k = Some (Lft # p) \<and> descend c n k = Some p \<and> node_at n p = LeafNode e
           \<and> e \<in> set (elems n) \<and> e_key c e = k)
    \<or> (\<exists>p. descend c (genitor c n) k = Some p \<and> \<not> is_leaf (node_at (genitor c n) p) \<and> k \<notin> e_key c ` set (elems n))"
proof (cases "\<bar>node_compare c n k\<bar> \<le> int (node_depth n)")
  case True
  obtain p where p: "descend c n k = Some p"
    "case node_at n p of LeafNode e \<Rightarrow> e \<in> set (elems n) \<and> e_key c e = k
     | BranchNode _ _ _ _ _ \<Rightarrow> k \<notin> e_key c ` set (elems n) | EndNode \<Rightarrow> False"
    using descend_found [OF assms True] by blast
  have g: "descend c (genitor c n) k = Some (Lft # p)" "node_at (genitor c n) (Lft # p) = node_at n p"
    using True p(1) by (simp_all add: descend_genitor [OF assms]) (simp add: genitor_def new_branch_def)
  show ?thesis
  proof (cases "is_leaf (node_at n p)")
    case True
    then show ?thesis using g(1) p by (auto simp: is_leaf_iff)
  next
    case False
    then have "k \<notin> e_key c ` set (elems n)" using p(2) by (cases "node_at n p") auto
    then show ?thesis using False g by auto
  qed
next
  case False
  then show ?thesis
    using absent [OF assms False] by (simp add: descend_genitor [OF assms]) (simp add: genitor_def new_branch_def)
qed

lemma trie_look_Some:
  assumes "trie_ok c num t"
  shows "trie_look c t k = Some e \<longleftrightarrow> e \<in> set (trie_elems t) \<and> e_key c e = k"
proof (cases "tr_root t")
  case None
  then show ?thesis by (simp add: trie_look_def find_def deref_def trie_elems_def)
next
  case (Some n)
  then have wf: "wf_node c num n" using assms by (simp add: trie_ok_def)
  have at: "node_at (genitor c n) (Lft # p) = node_at n p" for p
    by (simp add: genitor_def new_branch_def)
  from find_cases [OF wf, of k] show ?thesis
  proof (elim disjE exE conjE)
    fix p e'
    assume h: "descend c (genitor c n) k = Some (Lft # p)" "node_at n p = LeafNode e'" "e' \<in> set (elems n)" "e_key c e' = k"
    then have "trie_look c t k = Some e'"
      using Some at [of p] by (simp add: trie_look_def find_def deref_def del: node_at.simps)
    then show ?thesis
      using h(3,4) Some inj_onD [OF keys_inj [OF wf]] by (auto simp: trie_elems_def)
  next
    fix p
    assume h: "descend c (genitor c n) k = Some p" "\<not> is_leaf (node_at (genitor c n) p)" "k \<notin> e_key c ` set (elems n)"
    then show ?thesis
      using Some by (auto simp: trie_look_def find_def deref_def trie_elems_def split: node.splits)
  qed
qed

lemma trie_insert:
  assumes "trie_ok c num t"
  shows "fst (insert c e t) \<longleftrightarrow> e_key c e \<notin> e_key c ` set (trie_elems t)"
    and "trie_ok c num (snd (insert c e t))"
    and "set (trie_elems (snd (insert c e t))) =
      (if e_key c e \<in> e_key c ` set (trie_elems t) then set (trie_elems t) else Set.insert e (set (trie_elems t)))"
    and "tr_authenticated (snd (insert c e t)) = tr_authenticated t"
proof -
  have "fst (insert c e t) = (e_key c e \<notin> e_key c ` set (trie_elems t)) \<and> trie_ok c num (snd (insert c e t))
    \<and> set (trie_elems (snd (insert c e t))) =
      (if e_key c e \<in> e_key c ` set (trie_elems t) then set (trie_elems t) else Set.insert e (set (trie_elems t)))
    \<and> tr_authenticated (snd (insert c e t)) = tr_authenticated t"
  proof (cases "tr_root t")
    case None
    then show ?thesis by (simp add: insert_def trie_elems_def trie_ok_def)
  next
    case (Some n)
    then have wf: "wf_node c num n" and ha: "tr_authenticated t \<Longrightarrow> hashed c n"
      using assms by (simp_all add: trie_ok_def)
    let ?a = "tr_authenticated t" and ?g = "genitor c n" and ?k = "e_key c e"
    have g: "?g = BranchNode n EndNode (node_key c EndNode) (nat (take_bit (e_width c) (- 1))) 0"
      by (simp add: genitor_def new_branch_def)
    from find_cases [OF wf, of ?k] show ?thesis
    proof (elim disjE exE conjE)
      fix p e'
      assume h: "descend c ?g ?k = Some (Lft # p)" "node_at n p = LeafNode e'" "e' \<in> set (elems n)" "e_key c e' = ?k"
      then have "insert c e t = (False, t)"
        using Some by (simp add: insert_def Let_def) (simp add: g)
      then show ?thesis
        using h(3) h(4) [symmetric] Some assms by (auto simp: trie_elems_def)
    next
      fix p
      assume h: "descend c ?g ?k = Some p" "\<not> is_leaf (node_at ?g p)" "?k \<notin> e_key c ` set (elems n)"
      have "grown c num ?a e n (child Lft (update_at c ?a (insert_here c ?a e) p ?g))"
      proof (cases "\<bar>node_compare c n ?k\<bar> \<le> int (node_depth n)")
        case True
        then obtain p' where p: "descend c n ?k = Some p'" "p = Lft # p'"
          using h(1) by (auto simp: descend_genitor [OF wf])
        then show ?thesis
          using update_insert_grown [OF wf True p(1)] h(2) by (simp add: g)
      next
        case False
        then have p: "p = []" using h(1) by (simp add: descend_genitor [OF wf])
        have "\<bar>node_compare c n ?k\<bar> < 100000"
          using compare_bound by (simp add: node_compare_key [OF wf])
        then show ?thesis
          using place_grown(1) [OF wf False] by (simp add: g p Let_def)
      qed
      moreover have "insert c e t = (True, t\<lparr>tr_root := Some (child Lft (update_at c ?a (insert_here c ?a e) p ?g))\<rparr>)"
        using Some h by (simp add: insert_def Let_def)
      ultimately show ?thesis
        using h(3) Some ha by (auto simp: trie_elems_def trie_ok_def grown_def)
    qed
  qed
  then show "fst (insert c e t) \<longleftrightarrow> e_key c e \<notin> e_key c ` set (trie_elems t)"
    "trie_ok c num (snd (insert c e t))"
    "set (trie_elems (snd (insert c e t))) =
      (if e_key c e \<in> e_key c ` set (trie_elems t) then set (trie_elems t) else Set.insert e (set (trie_elems t)))"
    "tr_authenticated (snd (insert c e t)) = tr_authenticated t"
    by blast+
qed

end

text \<open>The root hash, as a function of the elements alone.\<close>

fun full_hash :: "('e, 'k) elem_class \<Rightarrow> ('e, 'k) node \<Rightarrow> uint256" where
  "full_hash c (BranchNode l r k d h) = e_join c (full_hash c l) (full_hash c r)"
| "full_hash c n = node_hash c n"

lemma hashed_full: "hashed c n \<Longrightarrow> node_hash c n = full_hash c n"
  by (induction n) auto

definition root_hash :: "('e, 'k) elem_class \<Rightarrow> ('e, 'k) trie \<Rightarrow> uint256 option" where
  "root_hash c t = map_option (node_hash c) (tr_root t)"

lemma remove_at_root:
  assumes "tr_root t = Some n"
  shows "remove_at c (Lft # p) t = t\<lparr>tr_root :=
    (if p = [] then None
     else if length p = 1 then Some (child (opposite (hd p)) n)
     else Some (cut c (tr_authenticated t) p n))\<rparr>"
proof -
  have g: "genitor c n = BranchNode n EndNode (node_key c EndNode) (nat (take_bit (e_width c) (- 1))) 0"
    by (simp add: genitor_def new_branch_def)
  consider "p = []" | s where "p = [s]" | "2 \<le> length p"
    by (cases p rule: remdups_adj.cases) auto
  then show ?thesis
  proof cases
    case 1
    then show ?thesis using assms by (simp add: remove_at_def)
  next
    case 2
    then show ?thesis using assms by (simp add: remove_at_def g shunt_out_def)
  next
    case 3
    have "remove_at c (Lft # p) t = t\<lparr>tr_root := Some (child Lft (cut c (tr_authenticated t) (Lft # p) (genitor c n)))\<rparr>"
      using assms 3 by (auto simp: remove_at_def cut_def)
    then show ?thesis using 3 by (auto simp: cut_Cons g)
  qed
qed

context bit_keys
begin

lemma it_leaf_find:
  assumes "trie_ok c num t"
  shows "it_leaf (find c t k) \<longleftrightarrow> k \<in> e_key c ` set (trie_elems t)"
proof -
  have "it_leaf (find c t k) \<longleftrightarrow> trie_look c t k \<noteq> None"
    by (auto simp: it_leaf_def trie_look_def deref_def is_leaf_iff split: option.splits node.splits)
  then show ?thesis
    using trie_look_Some [OF assms] by (auto simp: image_iff)
qed

lemma trie_remove:
  assumes "trie_ok c num t"
  shows "fst (remove c k t) \<longleftrightarrow> k \<in> e_key c ` set (trie_elems t)"
    and "trie_ok c num (snd (remove c k t))"
    and "set (trie_elems (snd (remove c k t))) = {e \<in> set (trie_elems t). e_key c e \<noteq> k}"
    and "tr_authenticated (snd (remove c k t)) = tr_authenticated t"
proof -
  show "fst (remove c k t) \<longleftrightarrow> k \<in> e_key c ` set (trie_elems t)"
    by (simp add: remove_def Let_def it_leaf_find [OF assms])
  have "trie_ok c num (snd (remove c k t))
    \<and> set (trie_elems (snd (remove c k t))) = {e \<in> set (trie_elems t). e_key c e \<noteq> k}
    \<and> tr_authenticated (snd (remove c k t)) = tr_authenticated t"
  proof (cases "k \<in> e_key c ` set (trie_elems t)")
    case False
    then have "remove c k t = (False, t)"
      by (simp add: remove_def it_leaf_find [OF assms])
    then show ?thesis using False assms by auto
  next
    case True
    have "tr_root t \<noteq> None" using True by (cases "tr_root t") (simp_all add: trie_elems_def)
    then obtain n where n: "tr_root t = Some n" by blast
    then have wf: "wf_node c num n" and ha: "tr_authenticated t \<Longrightarrow> hashed c n"
      using assms by (simp_all add: trie_ok_def)
    have k: "k \<in> e_key c ` set (elems n)" using True n by (simp add: trie_elems_def)
    then obtain p e where p: "descend c (genitor c n) k = Some (Lft # p)" "descend c n k = Some p"
      "node_at n p = LeafNode e" "e \<in> set (elems n)" "e_key c e = k"
      using find_cases [OF wf, of k] by blast
    have "it_leaf (find c t k)" using True by (simp add: it_leaf_find [OF assms])
    then have r: "snd (remove c k t) = remove_at c (Lft # p) t"
      using p(1) n by (simp add: remove_def find_def)
    have cs: "(length p = 1 \<longrightarrow> shrunk c num (tr_authenticated t) k n (child (opposite (hd p)) n))
      \<and> (2 \<le> length p \<longrightarrow> shrunk c num (tr_authenticated t) k n (cut c (tr_authenticated t) p n))"
      using cut_shrunk [OF wf p(2) _ k] p(3) by simp
    consider "p = []" | "length p = 1" | "2 \<le> length p"
      by (cases p rule: remdups_adj.cases) auto
    then show ?thesis
    proof cases
      case 1
      then have "n = LeafNode e" using p(3) by simp
      then show ?thesis
        using 1 n p(5) by (simp add: r remove_at_root [OF n] trie_ok_def trie_elems_def)
    next
      case 2
      then show ?thesis
        using cs n ha by (auto simp: r remove_at_root [OF n] trie_ok_def trie_elems_def shrunk_def)
    next
      case 3
      then show ?thesis
        using cs n ha by (auto simp: r remove_at_root [OF n] trie_ok_def trie_elems_def shrunk_def)
    qed
  qed
  then show "trie_ok c num (snd (remove c k t))"
    "set (trie_elems (snd (remove c k t))) = {e \<in> set (trie_elems t). e_key c e \<noteq> k}"
    "tr_authenticated (snd (remove c k t)) = tr_authenticated t"
    by blast+
qed

lemma trie_set_authenticated:
  "trie_ok c num t \<Longrightarrow> trie_ok c num (set_authenticated c a t)"
  "trie_elems (set_authenticated c a t) = trie_elems t"
  by (auto simp: trie_ok_def set_authenticated_def Let_def trie_rehash_def trie_elems_def hashed_rehash_all
      split: option.splits)

end

sublocale bit_keys \<subseteq> trie_set: keyed_set "e_key c" "\<lambda>t. set (trie_elems t)" "trie_ok c num"
    "trie_look c" "insert c" "remove c"
  by unfold_locales (auto simp: trie_look_Some trie_insert trie_remove)

context bit_keys
begin

text \<open>
  Two well-formed nodes with the same elements have the same shape, so the hash does not remember
  the order of the operations that led to them.
\<close>

lemma side_parity:
  assumes "wf_node c num (BranchNode l r k d h)" "set (elems l) \<union> set (elems r) = S"
  shows "set (elems l) = {e \<in> S. odd (num (e_key c e) div 2 ^ (d - 1))}"
    and "set (elems r) = {e \<in> S. even (num (e_key c e) div 2 ^ (d - 1))}"
  using covered_sides [OF assms(1)] assms(2) by auto

lemma branch_depth_le:
  assumes "wf_node c num (BranchNode l r k d h)" "wf_node c num n" "set (elems l) \<union> set (elems r) = set (elems n)"
  shows "d \<le> node_depth n"
proof (rule ccontr)
  assume "\<not> d \<le> node_depth n"
  then have le: "node_depth n \<le> d - 1" by simp
  have wf: "wf_node c num l" "wf_node c num r" using assms(1) by simp_all
  obtain x y where x: "x \<in> set (elems l)" and y: "y \<in> set (elems r)"
    using elems_nonempty [OF wf(1)] elems_nonempty [OF wf(2)] by (metis list.set_sel(1))
  have "num (e_key c x) div 2 ^ (d - 1) = num (e_key c y) div 2 ^ (d - 1)"
    using div_pow_mono [OF covered [OF assms(2), of x] le] div_pow_mono [OF covered [OF assms(2), of y] le]
      x y assms(3) by (metis UnI1 UnI2)
  then show False using covered_sides(1) [OF assms(1) x] covered_sides(2) [OF assms(1) y] by (metis even_mult_iff even_plus_one_iff even_two_times_div_two dvd_triv_left)
qed

lemma canonical:
  assumes "wf_node c num m" "wf_node c num n" "set (elems m) = set (elems n)"
  shows "full_hash c m = full_hash c n"
  using assms
proof (induction m arbitrary: n)
  case (LeafNode e)
  show ?case
  proof (cases n)
    case (BranchNode l r k d h)
    have "d \<le> node_depth (LeafNode e :: ('e, 'k) node)"
      using branch_depth_le [of l r k d h "LeafNode e"] LeafNode.prems BranchNode by simp
    then show ?thesis using LeafNode.prems(2) BranchNode by simp
  qed (use LeafNode.prems in auto)
next
  case (BranchNode l r k d h)
  have dn: "d \<le> node_depth n"
    by (rule branch_depth_le [OF BranchNode.prems(1,2)]) (use BranchNode.prems(3) in simp)
  moreover have "0 < d" using BranchNode.prems(1) by simp
  ultimately obtain l' r' k' d' h' where n: "n = BranchNode l' r' k' d' h'" by (cases n) auto
  have "d' \<le> node_depth (BranchNode l r k d h)"
    using branch_depth_le [of l' r' k' d' h' "BranchNode l r k d h"] BranchNode.prems n by simp
  then have d: "d' = d" using dn n by simp
  have u: "set (elems l) \<union> set (elems r) = set (elems n)" "set (elems l') \<union> set (elems r') = set (elems n)"
    using BranchNode.prems(3) n by simp_all
  have "set (elems l) = set (elems l')" "set (elems r) = set (elems r')"
    using side_parity [OF BranchNode.prems(1) u(1)] side_parity [OF BranchNode.prems(2) [unfolded n] u(2)] d
    by (simp_all only:)
  then show ?case
    using BranchNode.IH(1) [of l'] BranchNode.IH(2) [of r'] BranchNode.prems(1,2) n by simp
qed simp

lemma root_hash_canonical:
  assumes "trie_ok c num t" "trie_ok c num t'" "tr_authenticated t" "tr_authenticated t'"
    and "set (trie_elems t) = set (trie_elems t')"
  shows "root_hash c t = root_hash c t'"
proof (cases "tr_root t")
  case None
  then have "tr_root t' = None"
    using assms(2,5) elems_nonempty by (auto simp: trie_elems_def trie_ok_def split: option.splits)
  then show ?thesis using None by (simp add: root_hash_def)
next
  case (Some n)
  then obtain n' where n': "tr_root t' = Some n'"
    using assms(1,5) elems_nonempty by (fastforce simp: trie_elems_def trie_ok_def split: option.splits)
  then show ?thesis
    using canonical [of n n'] Some assms
    by (simp add: root_hash_def trie_ok_def trie_elems_def hashed_full)
qed

text \<open>The branch of an element that is found leads back to the root hash.\<close>

lemma validate_steps:
  assumes "hashed c n" "descend c n k = Some p"
  shows "validate_loop c (rev (branch_steps c n p) @ rest) (node_hash c (node_at n p)) = validate_loop c rest (node_hash c n)"
  using assms
proof (induction n arbitrary: p rest)
  case (BranchNode l r key d h)
  then show ?case by (auto split: if_splits)
qed (auto split: if_splits)

lemma branch_validates:
  assumes "trie_ok c num t" "tr_authenticated t" "trie_look c t k = Some e"
  shows "\<exists>b. it_branch c (find c t k) = Some b \<and> validate_elem c b e = Some True
    \<and> Some (snd (hd b)) = root_hash c t"
proof -
  obtain n where n: "tr_root t = Some n"
    using assms(3) by (auto simp: trie_look_def find_def deref_def split: option.splits)
  then have wf: "wf_node c num n" and ha: "hashed c n" using assms(1,2) by (simp_all add: trie_ok_def)
  have e: "e \<in> set (elems n)" "e_key c e = k"
    using assms(3) n by (simp_all add: trie_look_Some [OF assms(1)] trie_elems_def)
  then have "k \<in> e_key c ` set (elems n)" by auto
  then obtain p e' where p: "descend c (genitor c n) k = Some (Lft # p)" "descend c n k = Some p"
    "node_at n p = LeafNode e'" "e' \<in> set (elems n)" "e_key c e' = k"
    using find_cases [OF wf, of k] by blast
  have "e' = e" using inj_onD [OF keys_inj [OF wf]] p(4,5) e by simp
  moreover have "child Lft (genitor c n) = n" by (simp add: genitor_def new_branch_def)
  ultimately have "it_branch c (find c t k) =
      Some ((Root, node_hash c n) # branch_steps c n p @ [(Leaf, e_hash c e)])"
    using n p by (simp add: it_branch_def find_def)
  moreover have "validate_loop c (rev (branch_steps c n p) @ [(Root, node_hash c n)]) (e_hash c e) = node_hash c n"
    using validate_steps [OF ha p(2), of "[(Root, node_hash c n)]"] p(3) \<open>e' = e\<close> by simp
  ultimately show ?thesis
    by (simp add: validate_elem_def validate_def root_hash_def n)
qed

end

end
