(* ===== verification/Spendables.thy ===== *)
theory Spendables
  imports MerkleTrie
begin

text \<open>
  The unspent coins of \<^verbatim>\<open>include/coinChain/Spendables.h\<close>: the element of the trie with its comparison of
  keys, limb by limb, the proof that it compares the coins as one number of 288 bits, which makes it
  an instance of \<open>bit_keys\<close>, and what follows for any history of a trie of unspent coins.
\<close>

unbundle bit_operations_syntax

section \<open>Spendables: the unspent coins\<close>

record unspent =
  u_key :: coin
  u_output :: tx_out
  u_coin :: int
  u_count :: int
  u_cnf :: int

definition unspent_is_valid :: "unspent \<Rightarrow> bool" where
  "unspent_is_valid u \<longleftrightarrow> \<not> coin_isNull (u_key u) \<and> \<not> output_isNull (u_output u) \<and> u_cnf u \<noteq> 0"

text \<open>
  \<open>log2\<close> is the loop of the portable version; the other one is the instruction \<^verbatim>\<open>bsr\<close>, the position of
  the highest bit set, which is the same for every number but zero, for which neither is called.
\<close>

lemma unat_drop_bit: "unat (drop_bit n (w :: 'a::len word)) = unat w div 2 ^ n"
  by (simp only: unat_drop_bit_eq drop_bit_eq_div [where 'a = nat])

function log2 :: "u32 \<Rightarrow> int" where
  "log2 x = (if x = 0 then - 1 else 1 + log2 (drop_bit 1 x))"
  by pat_completeness auto
termination
proof (relation "measure unat")
  fix x :: u32
  assume "x \<noteq> 0"
  then have "unat x \<noteq> 0" by (simp add: unat_eq_0)
  then show "(drop_bit 1 x, x) \<in> measure unat"
    by (simp add: unat_drop_bit del: drop_bit_eq_div)
qed simp

declare log2.simps [simp del]

text \<open>The memory of a coin, as 32-bit words: eight of the hash and the index.\<close>

definition coin_word :: "coin \<Rightarrow> nat \<Rightarrow> u32" where
  "coin_word k n = (if n < 8 then ucast (drop_bit (32 * n) (coin_hash k)) else coin_index k)"

primrec compare_loop :: "nat \<Rightarrow> coin \<Rightarrow> coin \<Rightarrow> int" where
  "compare_loop 0 ka kb = 0"
| "compare_loop (Suc n) ka kb =
     (let a = coin_word ka n; b = coin_word kb n
      in if a > b then - log2 (a XOR b) - 1 - 32 * int n
         else if a < b then log2 (a XOR b) + 1 + 32 * int n
         else compare_loop n ka kb)"

definition unspent_compare :: "coin \<Rightarrow> coin \<Rightarrow> int" where
  "unspent_compare ka kb = compare_loop 9 ka kb"

definition put_unspent :: "unspent \<Rightarrow> byte list" where
  "put_unspent u = put_coin (u_key u) @ put_output (u_output u)"

definition unspent_class :: "digest_fn \<Rightarrow> (unspent, coin) elem_class" where
  "unspent_class sha =
     \<lparr>e_key = u_key, e_compare = unspent_compare,
      e_hash = (\<lambda>u. Hash sha (put_unspent u)),
      e_join = (\<lambda>a b. Hash2 sha (put_word a) (put_word b)),
      e_width = 16, e_null = null_coin\<rparr>"

text \<open>The number a coin is compared as: its words, the index the highest.\<close>

primrec words_num :: "nat \<Rightarrow> coin \<Rightarrow> nat" where
  "words_num 0 k = 0"
| "words_num (Suc n) k = unat (coin_word k n) * 2 ^ (32 * n) + words_num n k"

definition coin_num :: "coin \<Rightarrow> nat" where
  "coin_num k = words_num 9 k"

lemma words_num_less: "words_num n k < 2 ^ (32 * n)"
proof (induction n)
  case (Suc n)
  have "unat (coin_word k n) + 1 \<le> 2 ^ 32"
    using unsigned_less [of "coin_word k n", where 'a = nat] by simp
  then have "(unat (coin_word k n) + 1) * 2 ^ (32 * n) \<le> 2 ^ 32 * 2 ^ (32 * n)"
    by (rule mult_le_mono1)
  then have "unat (coin_word k n) * 2 ^ (32 * n) + 2 ^ (32 * n) \<le> 2 ^ (32 * Suc n)"
    by (simp add: power_add)
  then show ?case using Suc by simp
qed simp

lemma log2_le: "x \<noteq> 0 \<Longrightarrow> log2 x + 1 \<le> int d \<longleftrightarrow> unat x < 2 ^ d"
proof (induction x arbitrary: d rule: log2.induct)
  case (1 x)
  have pos: "0 < unat x" using 1(2) by (simp add: word_neq_0_conv unat_gt_0)
  have e: "log2 x = log2 (drop_bit 1 x) + 1" using 1(2) by (subst log2.simps) simp
  have half: "unat (drop_bit 1 x) = unat x div 2" by (simp only: unat_drop_bit) simp
  show ?case
  proof (cases "drop_bit 1 x = 0")
    case True
    then have l: "log2 x = 0" using e by (simp add: log2.simps [of 0])
    have "unat x = 1" using half True pos by simp
    then show ?thesis using l one_less_power [of "2 :: nat" d] by (cases d) auto
  next
    case False
    show ?thesis
    proof (cases d)
      case 0
      have "0 \<le> log2 (drop_bit 1 x) + 1"
        using 1(1) [OF 1(2) False, of 0] False by (simp add: unat_eq_0)
      then show ?thesis using 0 pos e by simp
    next
      case (Suc m)
      have "unat x div 2 < 2 ^ m \<longleftrightarrow> unat x < 2 ^ d" using Suc by auto
      have "log2 x + 1 \<le> int d \<longleftrightarrow> log2 (drop_bit 1 x) + 1 \<le> int m" unfolding e Suc by auto
      then show ?thesis using 1(1) [OF 1(2) False, of m] \<open>unat x div 2 < 2 ^ m \<longleftrightarrow> unat x < 2 ^ d\<close>
        by (simp only: half)
    qed
  qed
qed

lemma log2_range: "x \<noteq> 0 \<Longrightarrow> 0 \<le> log2 x \<and> log2 x < 32"
  using log2_le [of x 0] log2_le [of x 32] unsigned_less [of x, where 'a = nat] by (auto simp: unat_eq_0)

lemma xor_neq: "a \<noteq> b \<Longrightarrow> a XOR b \<noteq> (0 :: 'a::len word)"
  by (auto simp: bit_eq_iff bit_xor_iff)

lemma xor_less_iff:
  fixes a b :: "'a::len word"
  shows "unat (a XOR b) < 2 ^ d \<longleftrightarrow> unat a div 2 ^ d = unat b div 2 ^ d"
proof -
  have "unat (a XOR b) < 2 ^ d \<longleftrightarrow> drop_bit d (a XOR b) = 0"
    by (simp only: word_unat_eq_iff unat_drop_bit) (simp add: div_eq_0_iff)
  also have "\<dots> \<longleftrightarrow> drop_bit d a XOR drop_bit d b = 0"
    by (simp only: drop_bit_xor)
  also have "\<dots> \<longleftrightarrow> drop_bit d a = drop_bit d b"
    using xor_neq by auto
  also have "\<dots> \<longleftrightarrow> unat a div 2 ^ d = unat b div 2 ^ d"
    by (simp only: word_unat_eq_iff unat_drop_bit)
  finally show ?thesis .
qed


lemma words_num_div: "words_num (Suc n) k div 2 ^ (32 * n) = unat (coin_word k n)"
  using words_num_less [of n k] by simp

lemma compare_loop_le: "\<bar>compare_loop n a b\<bar> \<le> int d \<longleftrightarrow> words_num n a div 2 ^ d = words_num n b div 2 ^ d"
proof (induction n)
  case (Suc n)
  let ?x = "coin_word a n" and ?y = "coin_word b n" and ?M = "2 ^ (32 * n) :: nat"
  have high: "words_num (Suc n) k div 2 ^ d = unat (coin_word k n) div 2 ^ (d - 32 * n)" if "32 * n \<le> d" for k
  proof -
    have "(2::nat) ^ d = ?M * 2 ^ (d - 32 * n)" using that by (simp flip: power_add)
    then show ?thesis by (simp only: div_mult2_eq words_num_div)
  qed
  show ?case
  proof (cases "?x = ?y")
    case True
    have "words_num (Suc n) a div 2 ^ d = words_num (Suc n) b div 2 ^ d \<longleftrightarrow> words_num n a div 2 ^ d = words_num n b div 2 ^ d"
    proof (cases "32 * n \<le> d")
      case True
      have "words_num n k < 2 ^ d" for k
        by (rule order_less_le_trans [OF words_num_less power_increasing [OF True]]) simp
      then show ?thesis
        by (simp only: high [OF True] \<open>?x = ?y\<close>) simp
    next
      case False
      then have "?M = 2 ^ d * 2 ^ (32 * n - d)" by (simp flip: power_add)
      then have "unat ?x * ?M = 2 ^ d * (unat ?x * 2 ^ (32 * n - d))" by simp
      then have "(unat ?x * ?M + w) div 2 ^ d = unat ?x * 2 ^ (32 * n - d) + w div 2 ^ d" for w
        by (simp only:) (simp only: div_mult_self4 power_not_zero zero_neq_numeral not_False_eq_True)
      then show ?thesis using \<open>?x = ?y\<close> by simp
    qed
    then show ?thesis using True Suc by simp
  next
    case False
    then have x: "?x XOR ?y \<noteq> 0" by (auto simp: bit_eq_iff bit_xor_iff)
    have cmp: "\<bar>compare_loop (Suc n) a b\<bar> = log2 (?x XOR ?y) + 1 + 32 * int n"
      using False log2_range [OF x] by (auto simp: Let_def)
    show ?thesis
    proof (cases "32 * n \<le> d")
      case True
      have "log2 (?x XOR ?y) + 1 + 32 * int n \<le> int d \<longleftrightarrow> log2 (?x XOR ?y) + 1 \<le> int (d - 32 * n)"
        using True by auto
      then show ?thesis
        by (simp only: cmp high [OF True] log2_le [OF x] xor_less_iff)
    next
      case d: False
      have "words_num (Suc n) a div 2 ^ d \<noteq> words_num (Suc n) b div 2 ^ d"
      proof
        assume "words_num (Suc n) a div 2 ^ d = words_num (Suc n) b div 2 ^ d"
        then have "words_num (Suc n) a div ?M = words_num (Suc n) b div ?M"
          by (rule div_pow_mono) (use d in simp)
        then show False using False by (simp only: words_num_div word_unat_eq_iff)
      qed
      then show ?thesis using d log2_range [OF x] by (simp only: cmp) simp
    qed
  qed
qed simp

lemma compare_loop_sign:
  "(0 < compare_loop n a b \<longleftrightarrow> words_num n a < words_num n b)
   \<and> (compare_loop n a b < 0 \<longleftrightarrow> words_num n b < words_num n a)"
proof (induction n)
  case (Suc n)
  let ?x = "coin_word a n" and ?y = "coin_word b n"
  have le: "words_num (Suc n) k < words_num (Suc n) k'" if "coin_word k n < coin_word k' n" for k k'
  proof -
    have "unat (coin_word k n) + 1 \<le> unat (coin_word k' n)" using that by (simp add: word_less_nat_alt)
    then have "(unat (coin_word k n) + 1) * 2 ^ (32 * n) \<le> unat (coin_word k' n) * 2 ^ (32 * n)"
      by (rule mult_le_mono1)
    then show ?thesis using words_num_less [of n k] by simp
  qed
  consider (eq) "?x = ?y" | (gt) "?x > ?y" | (lt) "?x < ?y" by (rule linorder_cases)
  then show ?case
  proof cases
    case gt
    then have "?x XOR ?y \<noteq> 0" by (intro xor_neq) auto
    then show ?thesis using gt le [OF gt] log2_range [of "?x XOR ?y"] by (simp add: Let_def)
  next
    case lt
    then have "?x XOR ?y \<noteq> 0" by (intro xor_neq) auto
    then show ?thesis using lt le [OF lt] log2_range [of "?x XOR ?y"] by (simp add: Let_def)
  qed (use Suc in simp)
qed simp

lemma words_num_inj: "words_num n a = words_num n b \<Longrightarrow> i < n \<Longrightarrow> coin_word a i = coin_word b i"
proof (induction n)
  case (Suc n)
  have "unat (coin_word a n) = unat (coin_word b n)"
    using Suc.prems(1) words_num_div [of n a] words_num_div [of n b] by simp
  then have "coin_word a n = coin_word b n" "words_num n a = words_num n b"
    using Suc.prems(1) by (simp_all add: word_unat_eq_iff)
  then show ?case using Suc by (cases "i = n") auto
qed simp

lemma coin_num_inj: "coin_num a = coin_num b \<Longrightarrow> a = b"
proof -
  assume "coin_num a = coin_num b"
  then have w: "coin_word a i = coin_word b i" if "i < 9" for i
    using words_num_inj [of 9 a b i] that by (simp only: coin_num_def)
  have "bit (coin_hash a) i = bit (coin_hash b) i" if "i < 256" for i
  proof -
    have "bit (coin_hash k) i = bit (coin_word k (i div 32)) (i mod 32)" for k
      using that by (simp add: coin_word_def bit_simps less_mult_imp_div_less)
    then show ?thesis using w [of "i div 32"] that by simp
  qed
  then have "coin_hash a = coin_hash b" by (auto intro!: bit_word_eqI)
  moreover have "coin_index a = coin_index b" using w [of 8] by (simp add: coin_word_def)
  ultimately show "a = b" by (cases a; cases b) simp
qed

lemma unspent_compare_small: "\<bar>unspent_compare a b\<bar> \<le> 288"
  using compare_loop_le [of 9 a b 288] words_num_less [of 9 a] words_num_less [of 9 b]
  by (simp only: unspent_compare_def) (simp del: words_num.simps compare_loop.simps)

interpretation spendables: bit_keys "unspent_class sha" coin_num for sha
proof
  fix a b :: coin and d
  show "\<bar>e_compare (unspent_class sha) a b\<bar> \<le> int d \<longleftrightarrow> coin_num a div 2 ^ d = coin_num b div 2 ^ d"
    unfolding unspent_class_def unspent_compare_def coin_num_def elem_class.simps by (rule compare_loop_le)
  show "0 < e_compare (unspent_class sha) a b \<longleftrightarrow> coin_num a < coin_num b"
    "e_compare (unspent_class sha) a b < 0 \<longleftrightarrow> coin_num b < coin_num a"
    unfolding unspent_class_def unspent_compare_def coin_num_def elem_class.simps
    using compare_loop_sign [of 9 a b] by blast+
  show "coin_num a = coin_num b \<Longrightarrow> a = b" by (rule coin_num_inj)
  show "\<bar>e_compare (unspent_class sha) a b\<bar> < 2 ^ e_width (unspent_class sha)"
    "\<bar>e_compare (unspent_class sha) a b\<bar> < 100000"
    using unspent_compare_small [of a b] by (simp_all add: unspent_class_def)
qed

section \<open>Histories\<close>

datatype ('e, 'k) trie_op = Insert 'e | Remove 'k | Authenticated bool

fun trie_step :: "('e, 'k) elem_class \<Rightarrow> ('e, 'k) trie_op \<Rightarrow> ('e, 'k) trie \<Rightarrow> ('e, 'k) trie" where
  "trie_step c (Insert e) t = snd (insert c e t)"
| "trie_step c (Remove k) t = snd (remove c k t)"
| "trie_step c (Authenticated a) t = set_authenticated c a t"

definition trie_run :: "('e, 'k) elem_class \<Rightarrow> ('e, 'k) trie_op list \<Rightarrow> ('e, 'k) trie" where
  "trie_run c ops = fold (trie_step c) ops empty_trie"

text \<open>The same history on a plain set, in which an element with a key that is there is not added.\<close>

fun set_step :: "('e \<Rightarrow> 'k) \<Rightarrow> ('e, 'k) trie_op \<Rightarrow> 'e set \<Rightarrow> 'e set" where
  "set_step key (Insert e) S = (if key e \<in> key ` S then S else Set.insert e S)"
| "set_step key (Remove k) S = {e \<in> S. key e \<noteq> k}"
| "set_step key (Authenticated a) S = S"

definition set_run :: "('e \<Rightarrow> 'k) \<Rightarrow> ('e, 'k) trie_op list \<Rightarrow> 'e set" where
  "set_run key ops = fold (set_step key) ops {}"

fun auth_step :: "('e, 'k) trie_op \<Rightarrow> bool \<Rightarrow> bool" where
  "auth_step (Authenticated a) b = a"
| "auth_step _ b = b"

definition auth_run :: "('e, 'k) trie_op list \<Rightarrow> bool" where
  "auth_run ops = fold auth_step ops False"

context bit_keys
begin

lemma trie_step_ok:
  assumes "trie_ok c num t"
  shows "trie_ok c num (trie_step c op t)"
    and "set (trie_elems (trie_step c op t)) = set_step (e_key c) op (set (trie_elems t))"
    and "tr_authenticated (trie_step c op t) = auth_step op (tr_authenticated t)"
  using trie_insert [OF assms] trie_remove [OF assms] trie_set_authenticated(1) [OF assms] trie_set_authenticated(2)
  by (cases op; auto simp: set_authenticated_def Let_def trie_rehash_def)+

lemma trie_run_ok:
  "trie_ok c num (trie_run c ops) \<and> set (trie_elems (trie_run c ops)) = set_run (e_key c) ops
   \<and> tr_authenticated (trie_run c ops) = auth_run ops"
proof (induction ops rule: rev_induct)
  case Nil
  show ?case by (simp add: trie_run_def set_run_def auth_run_def empty_trie_def trie_ok_def trie_elems_def)
next
  case (snoc op ops)
  then show ?case
    using trie_step_ok [of "trie_run c ops" op] by (simp add: trie_run_def set_run_def auth_run_def)
qed

end

lemma spendables_run_look:
  "trie_look (unspent_class sha) (trie_run (unspent_class sha) ops) k = Some u
   \<longleftrightarrow> u \<in> set_run u_key ops \<and> u_key u = k"
  using spendables.trie_run_ok [of sha ops]
    spendables.trie_look_Some [of sha "trie_run (unspent_class sha) ops" k u]
  by (simp add: unspent_class_def)

text \<open>C16: a trie of unspent coins refines a set of coins: after any history of insertions, removals and
  switches of authentication it is well formed, holds exactly the coins the set holds, and a lookup
  finds a coin exactly when it is in the set.
\<close>

theorem spendables_refine_set:
  "trie_ok (unspent_class sha) coin_num (trie_run (unspent_class sha) ops)
   \<and> set (trie_elems (trie_run (unspent_class sha) ops)) = set_run u_key ops
   \<and> (trie_look (unspent_class sha) (trie_run (unspent_class sha) ops) k = Some u
      \<longleftrightarrow> u \<in> set_run u_key ops \<and> u_key u = k)"
proof -
  have key: "e_key (unspent_class sha) = u_key" by (simp add: unspent_class_def)
  show ?thesis
    using spendables.trie_run_ok [of sha ops] by (simp add: key spendables_run_look)
qed

text \<open>C17: the root hash does not depend on the history: two authenticated tries of unspent coins that hold
  the same coins have the same root hash, in whatever order the coins came and went, and whether the
  hashes were kept up to date or computed at the end.
\<close>

theorem spendables_root_hash_canonical:
  assumes "set_run u_key ops = set_run u_key ops'" and "auth_run ops" and "auth_run ops'"
  shows "root_hash (unspent_class sha) (trie_run (unspent_class sha) ops)
    = root_hash (unspent_class sha) (trie_run (unspent_class sha) ops')"
proof -
  have key: "e_key (unspent_class sha) = u_key" by (simp add: unspent_class_def)
  note run = spendables.trie_run_ok [of sha ops] spendables.trie_run_ok [of sha ops']
  show ?thesis
    by (rule spendables.root_hash_canonical) (use run assms in \<open>simp_all add: key\<close>)
qed

definition sample_unspent :: "nat \<Rightarrow> unspent" where
  "sample_unspent i =
     \<lparr>u_key = Coin 0 (of_nat i), u_output = \<lparr>out_value = 1, out_script = []\<rparr>, u_coin = int i,
      u_count = 1, u_cnf = 1\<rparr>"

theorem spendables_root_hash_canonical_witness:
  "root_hash (unspent_class id) (trie_run (unspent_class id)
     [Authenticated True, Insert (sample_unspent 1), Insert (sample_unspent 2)])
   = root_hash (unspent_class id) (trie_run (unspent_class id)
     [Insert (sample_unspent 2), Insert (sample_unspent 3), Insert (sample_unspent 1),
      Remove (u_key (sample_unspent 3)), Authenticated True])"
  by (rule spendables_root_hash_canonical)
    (auto simp: set_run_def auth_run_def sample_unspent_def)

text \<open>C18: the hash branch of a coin that is found in an authenticated trie validates that coin against the
  root hash.
\<close>

theorem spendables_branch_validates:
  assumes "auth_run ops" and "trie_look (unspent_class sha) (trie_run (unspent_class sha) ops) k = Some u"
  shows "\<exists>b. it_branch (unspent_class sha) (find (unspent_class sha) (trie_run (unspent_class sha) ops) k) = Some b
    \<and> validate_elem (unspent_class sha) b u = Some True
    \<and> Some (snd (hd b)) = root_hash (unspent_class sha) (trie_run (unspent_class sha) ops)"
  by (rule spendables.branch_validates) (use spendables.trie_run_ok [of sha ops] assms in auto)

theorem spendables_branch_validates_witness:
  "\<exists>b. it_branch (unspent_class id) (find (unspent_class id) (trie_run (unspent_class id)
       [Authenticated True, Insert (sample_unspent 1), Insert (sample_unspent 2)]) (Coin 0 2)) = Some b
    \<and> validate_elem (unspent_class id) b (sample_unspent 2) = Some True
    \<and> Some (snd (hd b)) = root_hash (unspent_class id) (trie_run (unspent_class id)
       [Authenticated True, Insert (sample_unspent 1), Insert (sample_unspent 2)])"
  by (rule spendables_branch_validates)
    (auto simp: spendables_run_look auth_run_def set_run_def sample_unspent_def)

section \<open>Neighbours\<close>

text \<open>
  The branch of a coin found in a trie, and an example in which the two functions that are meant to
  show that a coin is not in the trie go wrong. The keys differ in their index only.
\<close>

definition key_branch :: "digest_fn \<Rightarrow> (unspent, coin) trie \<Rightarrow> coin \<Rightarrow> hash_branch" where
  "key_branch sha t k = the (it_branch (unspent_class sha) (find (unspent_class sha) t k))"

definition gap_trie :: "digest_fn \<Rightarrow> (unspent, coin) trie" where
  "gap_trie sha = trie_run (unspent_class sha)
     [Authenticated True, Insert (sample_unspent 0), Insert (sample_unspent 4),
      Insert (sample_unspent 5), Insert (sample_unspent 6)]"

lemma index_compare:
  "unspent_compare (Coin 0 a) (Coin 0 b) =
    (if a > b then - log2 (a XOR b) - 257 else if a < b then log2 (a XOR b) + 257 else 0)"
  by (auto simp: unspent_compare_def coin_word_def numeral_eq_Suc Let_def)

lemma log2_small: "log2 1 = 0" "log2 2 = 1" "log2 3 = 1" "log2 4 = 2" "log2 5 = 2" "log2 6 = 2" "log2 7 = 2"
  by (code_simp+)

lemmas gap_simps =
  trie_run_def empty_trie_def insert_def remove_def set_authenticated_def trie_rehash_def
  genitor_def new_branch_def place_left_def rehash_if_def unspent_class_def sample_unspent_def
  index_compare log2_small Let_def find_def it_branch_def

lemma gap_root:
  "\<exists>h2 h4 h6. tr_root (gap_trie sha) = Some (BranchNode
     (BranchNode (LeafNode (sample_unspent 6))
        (BranchNode (LeafNode (sample_unspent 5)) (LeafNode (sample_unspent 4)) (Coin 0 4) 257 h2) (Coin 0 4) 258 h4)
     (LeafNode (sample_unspent 0)) (Coin 0 0) 259 h6) \<and> tr_authenticated (gap_trie sha)"
  by (simp add: gap_trie_def gap_simps)


text \<open>
  The element after and the element before an iterator that stopped at a branch are the neighbours of
  the split, not of the key: for the key 7, which is above all coins, the element \<open>above\<close> is 6 and the
  one \<open>below\<close> is 5.
\<close>

lemma neighbours_of_the_split:
  "deref (it_plus (find (unspent_class sha) (gap_trie sha) (Coin 0 7))) = Some (sample_unspent 6)
   \<and> deref (it_minus (find (unspent_class sha) (gap_trie sha) (Coin 0 7))) = Some (sample_unspent 5)"
  using gap_root [of sha] by (auto simp: gap_simps it_plus_def it_minus_def deref_def)

text \<open>The path of \<open>begin()\<close> lacks the genitor: its branch starts below the root.\<close>

lemma begin_branch_misses_root:
  "map_option (\<lambda>b. snd (hd b)) (it_branch (unspent_class sha) (trie_begin (gap_trie sha))) =
   map_option (\<lambda>n. node_hash (unspent_class sha) (child Lft n)) (tr_root (gap_trie sha))"
  using gap_root [of sha] by (auto simp: trie_begin_def it_branch_def)

text \<open>\<open>consecutive\<close>, which is to show that two coins are neighbours so that no coin lies between them,
  accepts the branches of the coins 0 and 5 of a trie that holds the coin 4: it follows the upper branch
  only as far down as the lower one is long.
\<close>

theorem consecutive_misses_coin:
  "consecutive (key_branch sha (gap_trie sha) (Coin 0 0)) (key_branch sha (gap_trie sha) (Coin 0 5)) = Some True
   \<and> trie_look (unspent_class sha) (gap_trie sha) (Coin 0 4) = Some (sample_unspent 4)"
proof -
  obtain h2 h4 h6 where t: "tr_root (gap_trie sha) = Some (BranchNode
     (BranchNode (LeafNode (sample_unspent 6))
        (BranchNode (LeafNode (sample_unspent 5)) (LeafNode (sample_unspent 4)) (Coin 0 4) 257 h2) (Coin 0 4) 258 h4)
     (LeafNode (sample_unspent 0)) (Coin 0 0) 259 h6)"
    using gap_root by blast
  then show ?thesis
    by (simp add: key_branch_def gap_simps consecutive_def trie_look_def deref_def upt_rec)
qed

end
