(* ===== verification/Ledger.thy ===== *)
theory Ledger
  imports Spendables ChainRules NameOperation Claims
begin

text \<open>
  The ledger of \<^verbatim>\<open>src/coinChain/BlockChain.cpp\<close>: the tables of the database as lists of rows, each query of
  the class as the function on them that its text says, the two tries beside them, and the operations that
  post a transaction, post the subsidy, attach a block, and take all of it back.
\<close>


section \<open>The tables\<close>

record block_row =
  br_count :: int
  br_hash :: uint256
  br_header :: block_header

record conf_row =
  cr_cnf :: int
  cr_version :: u32
  cr_locktime :: u32
  cr_count :: int
  cr_idx :: int

text \<open>A row of the table \<open>Unspents\<close> has the columns of an \<open>unspent\<close>: coin, hash and idx, value and script, count, ocnf.\<close>

record spending_row =
  sr_ocnf :: int
  sr_coin :: int
  sr_key :: coin
  sr_output :: tx_out
  sr_signature :: script
  sr_sequence :: u32
  sr_iidx :: int
  sr_icnf :: int

record name_row =
  nr_coin :: int
  nr_count :: int
  nr_name :: "byte list"
  nr_value :: "byte list"

text \<open>
  The database, with the next values of its two counted keys, the tries, the settings, and what the verifier
  was given since its last reset.
\<close>

record database =
  blocks :: "block_row list"
  auxpows :: "(int \<times> aux_pow) list"
  confs :: "conf_row list"
  unspents :: "unspent list"
  spendings :: "spending_row list"
  names :: "name_row list"
  next_coin :: int
  next_cnf :: int

type_synonym job = "script list \<times> transaction \<times> bool"

record ledger =
  db :: database
  spendables :: "(unspent, coin) trie"
  immature :: "(unspent, coin) trie"
  purge_depth :: int
  validation_depth :: int
  verification_depth :: int
  jobs :: "job list"

datatype ledger_error =
  Coin_not_found | Immature_coinbase | Input_out_of_range | Duplicate_coin | Duplicate_coinbase
  | Constraint | Fee_negative | Fee_below_minimum | Fees_out_of_range | Not_a_coinbase | Pays_too_much
  | Name_too_early | Name_not_expired | Name_expired | Name_version | Name_failed name_error
  | Bad_checkpoint | Not_final | Signature_failed | Undefined_subsidy | Undefined_name_fee | Unreadable_block

type_synonym 'a act = "ledger \<Rightarrow> (ledger_error + 'a) \<times> ledger"

text \<open>An exception leaves what was done so far: \<open>append\<close> takes it back.\<close>

definition give :: "'a \<Rightarrow> 'a act" where
  "give x L = (Inr x, L)"

definition raise :: "ledger_error \<Rightarrow> 'a act" where
  "raise e L = (Inl e, L)"

definition next_do :: "'a act \<Rightarrow> ('a \<Rightarrow> 'b act) \<Rightarrow> 'b act" where
  "next_do m f L = (case m L of (Inl e, L') \<Rightarrow> (Inl e, L') | (Inr x, L') \<Rightarrow> f x L')"

definition update_db :: "(database \<Rightarrow> database) \<Rightarrow> ledger \<Rightarrow> ledger" where
  "update_db f L = L\<lparr>db := f (db L)\<rparr>"

record env =
  env_chain :: chain
  env_sha :: digest_fn
  env_bn :: bn_lib
  env_crypto :: crypto
  env_key :: key_fn
  env_random :: "u32 \<Rightarrow> int \<Rightarrow> int"

record confirmation =
  cf_cnf :: int
  cf_count :: int

text \<open>What the operations read of the iterator of a block, and of the block before.\<close>

record place =
  bp_count :: int
  bp_height :: int
  bp_hash :: uint256
  bp_time :: u32
  bp_prev_hash :: uint256

definition is_coinbase_conf :: "confirmation \<Rightarrow> bool" where
  "is_coinbase_conf conf \<longleftrightarrow> cf_cnf conf < 0"

section \<open>Queries\<close>

definition unspent_at :: "coin \<Rightarrow> database \<Rightarrow> unspent option" where
  "unspent_at k d = List.find (\<lambda>u. u_key u = k) (unspents d)"

definition insert_unspent :: "unspent \<Rightarrow> database \<Rightarrow> database" where
  "insert_unspent u d = d\<lparr>unspents := unspents d @ [u], next_coin := max (next_coin d) (u_coin u + 1)\<rparr>"

definition delete_unspents :: "(unspent \<Rightarrow> bool) \<Rightarrow> database \<Rightarrow> database" where
  "delete_unspents P d = d\<lparr>unspents := filter (\<lambda>u. \<not> P u) (unspents d)\<rparr>"

definition delete_spendings :: "(spending_row \<Rightarrow> bool) \<Rightarrow> database \<Rightarrow> database" where
  "delete_spendings P d = d\<lparr>spendings := filter (\<lambda>s. \<not> P s) (spendings d)\<rparr>"

text \<open>The coin is the primary key of \<open>Spendings\<close>, the confirmation the one of \<open>Confirmations\<close>.\<close>

definition insert_spending :: "spending_row \<Rightarrow> unit act" where
  "insert_spending s L =
     (if list_ex (\<lambda>r. sr_coin r = sr_coin s) (spendings (db L)) then (Inl Constraint, L)
      else (Inr (), update_db (\<lambda>d. d\<lparr>spendings := spendings d @ [s]\<rparr>) L))"

definition insert_conf :: "conf_row \<Rightarrow> unit act" where
  "insert_conf c L =
     (if list_ex (\<lambda>r. cr_cnf r = cr_cnf c) (confs (db L)) then (Inl Constraint, L)
      else (Inr (), update_db (\<lambda>d. d\<lparr>confs := confs d @ [c], next_cnf := max (next_cnf d) (cr_cnf c + 1)\<rparr>) L))"

section \<open>Coins\<close>

definition spend_coin :: "env \<Rightarrow> tx_in \<Rightarrow> int \<Rightarrow> confirmation \<Rightarrow> unspent \<Rightarrow> unspent act" where
  "spend_coin e inp iidx iconf u L =
     (if \<not> ChainRules.range (env_chain e) (out_amount (u_output u)) then (Inl Input_out_of_range, L)
      else
        next_do
          (if cf_count iconf \<ge> purge_depth L then
             insert_spending \<lparr>sr_ocnf = u_cnf u, sr_coin = u_coin u, sr_key = prevout inp, sr_output = u_output u,
               sr_signature = signature inp, sr_sequence = input_sequence inp, sr_iidx = iidx, sr_icnf = cf_cnf iconf\<rparr>
           else give ())
          (\<lambda>_ L. (Inr u, update_db (delete_unspents (\<lambda>v. u_coin v = u_coin u)) L)) L)"

definition redeem :: "env \<Rightarrow> tx_in \<Rightarrow> int \<Rightarrow> confirmation \<Rightarrow> unspent act" where
  "redeem e inp iidx iconf L =
     (let ch = env_chain e; cls = unspent_class (env_sha e); k = prevout inp
      in if validation_depth L = 0 then
           (case unspent_at k (db L) of
              None \<Rightarrow> (Inl Coin_not_found, L)
            | Some u \<Rightarrow>
                if \<not> unspent_is_valid u then (Inl Coin_not_found, L)
                else if u_count u < 0 \<and> cf_count iconf + u_count u < maturity ch (- u_count u) then (Inl Immature_coinbase, L)
                else spend_coin e inp iidx iconf u L)
         else
           (case trie_look cls (spendables L) k of
              None \<Rightarrow> (Inl Coin_not_found, L)
            | Some u \<Rightarrow>
                spend_coin e inp iidx iconf u (L\<lparr>spendables := snd (MerkleTrie.remove cls k (spendables L))\<rparr>)))"

definition issue :: "env \<Rightarrow> tx_out \<Rightarrow> uint256 \<Rightarrow> u32 \<Rightarrow> confirmation \<Rightarrow> bool \<Rightarrow> int act" where
  "issue e out hash idx conf unique L =
     (let cls = unspent_class (env_sha e);
          u = \<lparr>u_key = Coin hash idx, u_output = out, u_coin = next_coin (db L),
               u_count = (if is_coinbase_conf conf then - cf_count conf else cf_count conf), u_cnf = cf_cnf conf\<rparr>
      in if validation_depth L = 0 then
           if unique then
             (if unspent_at (u_key u) (db L) \<noteq> None then (Inl Duplicate_coin, L)
              else (Inr (u_coin u), update_db (insert_unspent u) L))
           else (Inr (u_coin u), update_db (\<lambda>d. insert_unspent u (delete_unspents (\<lambda>v. u_key v = u_key u) d)) L)
         else
           let L = update_db (insert_unspent u) L
           in if is_coinbase_conf conf then
                if unique \<and> (trie_look cls (immature L) (u_key u) \<noteq> None \<or> trie_look cls (spendables L) (u_key u) \<noteq> None)
                then (Inl Duplicate_coinbase, L)
                else (Inr (u_coin u), L\<lparr>immature := snd (MerkleTrie.insert cls u (immature L))\<rparr>)
              else (Inr (u_coin u), L\<lparr>spendables := snd (MerkleTrie.insert cls u (spendables L))\<rparr>))"

definition maturate_coin :: "env \<Rightarrow> unspent \<Rightarrow> ledger \<Rightarrow> ledger" where
  "maturate_coin e u L =
     L\<lparr>spendables := snd (MerkleTrie.insert (unspent_class (env_sha e)) u (spendables L)),
       immature := snd (MerkleTrie.remove (unspent_class (env_sha e)) (u_key u) (immature L))\<rparr>"

definition maturate :: "env \<Rightarrow> int \<Rightarrow> ledger \<Rightarrow> ledger" where
  "maturate e count L =
     (if validation_depth L = 0 then L
      else fold (maturate_coin e) (filter (\<lambda>u. u_count u = - count) (unspents (db L))) L)"

section \<open>Names\<close>

definition latest_name_count :: "byte list \<Rightarrow> database \<Rightarrow> int" where
  "latest_name_count name d = foldr (\<lambda>r m. if nr_name r = name then max m (nr_count r) else m) (names d) 0"

definition getExpirationCount :: "chain \<Rightarrow> int \<Rightarrow> int" where
  "getExpirationCount ch count = count - expirationDepth ch count"

definition isExpired :: "chain \<Rightarrow> int \<Rightarrow> int \<Rightarrow> bool" where
  "isExpired ch count treeCount \<longleftrightarrow> count = 0 \<or> count \<le> getExpirationCount ch treeCount"

definition MIN_FIRSTUPDATE_DEPTH :: int where "MIN_FIRSTUPDATE_DEPTH = 12"
definition NAMECOIN_TX_VERSION :: u32 where "NAMECOIN_TX_VERSION = 0x7100"
definition LOCKTIME_THRESHOLD :: int where "LOCKTIME_THRESHOLD = 500000000"

definition insert_name :: "name_row \<Rightarrow> unit act" where
  "insert_name r L =
     (if list_ex (\<lambda>s. nr_coin s = nr_coin r) (names (db L)) then (Inl Constraint, L)
      else (Inr (), update_db (\<lambda>d. d\<lparr>names := names d @ [r]\<rparr>) L))"

definition updateName :: "env \<Rightarrow> name_operation \<Rightarrow> int \<Rightarrow> int \<Rightarrow> unit act" where
  "updateName e op coin count L =
     (let name = no_name op; latest = latest_name_count name (db L); expired = isExpired (env_chain e) latest count;
          row = \<lparr>nr_coin = coin, nr_count = count, nr_name = name, nr_value = no_value op\<rparr>
      in if name_reserve op then
           if count - no_input_count op < MIN_FIRSTUPDATE_DEPTH then (Inl Name_too_early, L)
           else if expired \<or> (name = map of_char ''d/postmortem'' \<and> latest = 139937) then insert_name row L
           else (Inl Name_not_expired, L)
         else if \<not> expired then insert_name row L
         else (Inl Name_expired, L))"

definition getCoinName :: "int \<Rightarrow> database \<Rightarrow> byte list" where
  "getCoinName coin d = (case List.find (\<lambda>r. nr_coin r = coin) (names d) of None \<Rightarrow> [] | Some r \<Rightarrow> nr_name r)"

section \<open>Transactions\<close>

fun redeem_inputs :: "env \<Rightarrow> confirmation \<Rightarrow> nat \<Rightarrow> tx_in list \<Rightarrow> u64 \<times> name_operation \<times> script list \<Rightarrow>
    (u64 \<times> name_operation \<times> script list) act" where
  "redeem_inputs e conf i [] acc = give acc"
| "redeem_inputs e conf i (inp # inps) (value_in, op, scrs) =
     next_do (redeem e inp (int i) conf) (\<lambda>u L.
       let value_in = value_in + out_value (u_output u); scrs = scrs @ [out_script (u_output u)]
       in if adhere_names (env_chain e) then
            (case name_input (env_bn e) (env_crypto e) (u_output u) (u_count u) op of
               Inl err \<Rightarrow> (Inl (Name_failed err), L)
             | Inr (found, op) \<Rightarrow>
                 redeem_inputs e conf (Suc i) inps
                   (value_in, if found then op\<lparr>no_name := getCoinName (u_coin u) (db L)\<rparr> else op, scrs) L)
          else redeem_inputs e conf (Suc i) inps (value_in, op, scrs) L)"

fun issue_outputs :: "env \<Rightarrow> transaction \<Rightarrow> uint256 \<Rightarrow> confirmation \<Rightarrow> nat \<Rightarrow> tx_out list \<Rightarrow> name_operation \<Rightarrow>
    name_operation act" where
  "issue_outputs e txn hash conf i [] op = give op"
| "issue_outputs e txn hash conf i (out # outs) op =
     next_do (issue e out hash (word_of_nat i) conf True) (\<lambda>coin L.
       if adhere_names (env_chain e) then
         (case name_output (env_bn e) (env_crypto e) out op of
            Inl err \<Rightarrow> (Inl (Name_failed err), L)
          | Inr (found, op) \<Rightarrow>
              if found then
                if tx_version txn \<noteq> NAMECOIN_TX_VERSION then (Inl Name_version, L)
                else next_do (updateName e op coin (cf_count conf)) (\<lambda>_. issue_outputs e txn hash conf (Suc i) outs op) L
              else issue_outputs e txn hash conf (Suc i) outs op L)
       else issue_outputs e txn hash conf (Suc i) outs op L)"

definition new_conf :: "transaction \<Rightarrow> int \<Rightarrow> int \<Rightarrow> int act" where
  "new_conf txn count idx L =
     (if count \<ge> purge_depth L then
        let cnf = next_cnf (db L)
        in next_do (insert_conf \<lparr>cr_cnf = cnf, cr_version = tx_version txn, cr_locktime = tx_lockTime txn,
             cr_count = count, cr_idx = idx\<rparr>) (\<lambda>_. give cnf) L
      else (Inr LOCKTIME_THRESHOLD, L))"

definition check_name_fees :: "env \<Rightarrow> int \<Rightarrow> name_operation \<Rightarrow> unit act" where
  "check_name_fees e count op =
     (if adhere_names (env_chain e) then
        (case network_fee (env_chain e) count of
           None \<Rightarrow> raise Undefined_name_fee
         | Some fee \<Rightarrow> (case name_check_fees (word_of_int fee) op of Inl err \<Rightarrow> raise (Name_failed err) | Inr _ \<Rightarrow> give ()))
      else give ())"

text \<open>\<open>mem\<close> is what the memory of a new \<open>NameOperation\<close> holds.\<close>

definition postTransaction :: "env \<Rightarrow> u64 \<times> int \<Rightarrow> transaction \<Rightarrow> u64 \<Rightarrow> u64 \<Rightarrow> place \<Rightarrow> int \<Rightarrow> bool \<Rightarrow> u64 act" where
  "postTransaction e mem txn fees least blk idx check =
     (let ch = env_chain e; hash = tx_getHash (env_sha e) txn; strict = sint (bp_time blk) > timeStamp ch BIP0016;
          op = new_name_operation (fst mem) (snd mem)
            (if adhere_names ch then \<not> enforce_name_rules ch (bp_count blk) else True)
      in next_do (new_conf txn (bp_count blk) idx) (\<lambda>cnf.
         let conf = \<lparr>cf_cnf = cnf, cf_count = bp_count blk\<rparr>
         in next_do (redeem_inputs e conf 0 (tx_inputs txn) (0, op, [])) (\<lambda>(value_in, op, scrs) L.
            let L = (if check then L\<lparr>jobs := jobs L @ [(scrs, txn, strict)]\<rparr> else L);
                fee = value_in - getValueOut txn
            in if fee <s 0 then (Inl Fee_negative, L)
               else if fee <s least then (Inl Fee_below_minimum, L)
               else
                 let fees = fees + fee
                 in if \<not> ChainRules.range ch (sint fees) then (Inl Fees_out_of_range, L)
                    else next_do (issue_outputs e txn hash conf 0 (tx_outputs txn) op) (\<lambda>op.
                         next_do (check_name_fees e (bp_count blk) op) (\<lambda>_. give fees)) L)))"

fun issue_subsidy :: "env \<Rightarrow> uint256 \<Rightarrow> confirmation \<Rightarrow> bool \<Rightarrow> nat \<Rightarrow> tx_out list \<Rightarrow> unit act" where
  "issue_subsidy e hash conf unique i [] = give ()"
| "issue_subsidy e hash conf unique i (out # outs) =
     next_do (issue e out hash (word_of_nat i) conf unique) (\<lambda>_. issue_subsidy e hash conf unique (Suc i) outs)"

definition postSubsidy :: "env \<Rightarrow> transaction \<Rightarrow> place \<Rightarrow> u64 \<Rightarrow> unit act" where
  "postSubsidy e txn blk fees L =
     (if \<not> isCoinBase txn then (Inl Not_a_coinbase, L)
      else
        let ch = env_chain e; hash = tx_getHash (env_sha e) txn; cnf = - bp_count blk;
            conf = \<lparr>cf_cnf = cnf, cf_count = bp_count blk\<rparr>; stored = bp_count blk \<ge> purge_depth L;
            inp = tx_inputs txn ! 0; prev = (if bp_count blk = 1 then 0 else bp_prev_hash blk);
            unique = sint (bp_time blk) > timeStamp ch BIP0030
        in next_do (if stored then insert_conf \<lparr>cr_cnf = cnf, cr_version = tx_version txn, cr_locktime = tx_lockTime txn,
               cr_count = bp_count blk, cr_idx = 0\<rparr> else give ()) (\<lambda>_ L.
             case subsidy (env_random e) ch (word_of_int (bp_height blk)) prev of
               None \<Rightarrow> (Inl Undefined_subsidy, L)
             | Some s \<Rightarrow>
                 let value_in = word_of_int s + fees
                 in if value_in <s getValueOut txn then (Inl Pays_too_much, L)
                    else next_do (if stored then insert_spending \<lparr>sr_ocnf = 0, sr_coin = cnf, sr_key = Coin 0 (- 1),
                        sr_output = \<lparr>out_value = value_in, out_script = []\<rparr>, sr_signature = signature inp,
                        sr_sequence = input_sequence inp, sr_iidx = 0, sr_icnf = cnf\<rparr> else give ()) (\<lambda>_.
                      next_do (issue_subsidy e hash conf unique 0 (tx_outputs txn)) (\<lambda>_ L.
                        (Inr (), if validation_depth L > 0 \<and> bp_count blk > maturity ch (bp_height blk)
                                 then maturate e (bp_count blk - maturity ch (bp_height blk) + 1) L else L))) L) L)"


section \<open>Taking back\<close>

definition conf_count :: "int \<Rightarrow> database \<Rightarrow> int" where
  "conf_count cnf d = (case List.find (\<lambda>r. cr_cnf r = cnf) (confs d) of None \<Rightarrow> 0 | Some r \<Rightarrow> cr_count r)"

definition spent_as :: "int \<Rightarrow> spending_row \<Rightarrow> unspent" where
  "spent_as count s =
     \<lparr>u_key = sr_key s, u_output = sr_output s, u_coin = sr_coin s, u_count = count, u_cnf = sr_ocnf s\<rparr>"

text \<open>
  The count of the coins that come back is the one of the confirmation that made the first of them, by the number of the
  coin: the subquery goes through the index on \<open>icnf\<close>, where equal keys are in the order of the primary key.
\<close>

definition first_source :: "int \<Rightarrow> database \<Rightarrow> int" where
  "first_source cnf d = (case sort_key sr_coin (filter (\<lambda>s. sr_icnf s = cnf) (spendings d)) of [] \<Rightarrow> 0 | s # _ \<Rightarrow> sr_ocnf s)"

definition rollback_tries :: "env \<Rightarrow> int \<Rightarrow> int \<Rightarrow> ledger \<Rightarrow> ledger" where
  "rollback_tries e cnf count L =
     (let cls = unspent_class (env_sha e);
          back = map (spent_as count) (filter (\<lambda>s. sr_icnf s = cnf) (spendings (db L)));
          gone = map u_key (filter (\<lambda>u. u_cnf u = cnf) (unspents (db L)))
      in if validation_depth L > 0 \<and> cnf > 0
         then L\<lparr>spendables := fold (\<lambda>k t. snd (MerkleTrie.remove cls k t)) gone
                  (fold (\<lambda>u t. snd (MerkleTrie.insert cls u t)) back (spendables L))\<rparr>
         else L)"

text \<open>
  The coins come back under their old numbers; a number that is taken, or a coin that is taken when there is
  a unique index on the coins, is an exception, and the statement then inserts nothing.
\<close>

definition insert_unspents :: "bool \<Rightarrow> unspent list \<Rightarrow> database \<Rightarrow> ledger_error + database" where
  "insert_unspents unique us d =
     (if distinct (map u_coin (unspents d @ us)) \<and> (unique \<longrightarrow> distinct (map u_key (unspents d @ us)))
      then Inr (fold insert_unspent us d) else Inl Constraint)"

definition restore_inputs :: "bool \<Rightarrow> int \<Rightarrow> int \<Rightarrow> database \<Rightarrow> ledger_error + database" where
  "restore_inputs unique cnf count d =
     (if cnf < 0 then Inr (delete_spendings (\<lambda>s. sr_coin s = - count) d)
      else
        let back = map (spent_as (conf_count (first_source cnf d) d)) (filter (\<lambda>s. sr_icnf s = cnf) (spendings d))
        in and_then (insert_unspents unique back d) (\<lambda>d. Inr (delete_spendings (\<lambda>s. sr_icnf s = cnf) d)))"

definition forget_outputs :: "chain \<Rightarrow> int \<Rightarrow> database \<Rightarrow> database" where
  "forget_outputs ch cnf d =
     (let d = (if adhere_names ch
               then d\<lparr>names := filter (\<lambda>r. \<not> list_ex (\<lambda>u. u_cnf u = cnf \<and> u_coin u = nr_coin r) (unspents d)) (names d)\<rparr>
               else d);
          d = delete_unspents (\<lambda>u. u_cnf u = cnf) d
      in d\<lparr>confs := filter (\<lambda>r. cr_cnf r \<noteq> cnf) (confs d)\<rparr>)"

definition rollbackConfirmation :: "env \<Rightarrow> int \<Rightarrow> unit act" where
  "rollbackConfirmation e cnf L =
     (let count = conf_count cnf (db L); L = rollback_tries e cnf count L
      in case restore_inputs (validation_depth L = 0) cnf count (db L) of
           Inl err \<Rightarrow> (Inl err, L)
         | Inr d \<Rightarrow> (Inr (), L\<lparr>db := forget_outputs (env_chain e) cnf d\<rparr>))"

definition confs_of :: "int \<Rightarrow> database \<Rightarrow> conf_row list" where
  "confs_of count d = sort_key cr_idx (filter (\<lambda>r. cr_count r = count) (confs d))"

primrec each_do :: "('a \<Rightarrow> unit act) \<Rightarrow> 'a list \<Rightarrow> unit act" where
  "each_do f [] = give ()"
| "each_do f (x # xs) = next_do (f x) (\<lambda>_. each_do f xs)"

definition rollbackBlock :: "env \<Rightarrow> int \<Rightarrow> unit act" where
  "rollbackBlock e count L =
     next_do (each_do (rollbackConfirmation e) (rev (map cr_cnf (confs_of count (db L))))) (\<lambda>_ L.
       (Inr (), update_db (\<lambda>d. d\<lparr>blocks := filter (\<lambda>r. br_count r \<noteq> count) (blocks d),
                      auxpows := filter (\<lambda>r. fst r \<noteq> count) (auxpows d)\<rparr>) L)) L"

section \<open>Reading blocks\<close>

definition getInputs :: "int \<Rightarrow> database \<Rightarrow> tx_in list" where
  "getInputs cnf d =
     map (\<lambda>s. \<lparr>prevout = sr_key s, signature = sr_signature s, input_sequence = sr_sequence s\<rparr>)
       (sort_key sr_iidx (filter (\<lambda>s. sr_icnf s = cnf) (spendings d)))"

definition getSpentOutputs :: "int \<Rightarrow> database \<Rightarrow> tx_out list" where
  "getSpentOutputs cnf d = map sr_output (sort_key sr_iidx (filter (\<lambda>s. sr_icnf s = cnf) (spendings d)))"

text \<open>The union of two queries drops equal rows.\<close>

definition output_rows :: "int \<Rightarrow> database \<Rightarrow> (u32 \<times> tx_out) list" where
  "output_rows cnf d =
     remdups (map (\<lambda>u. (coin_index (u_key u), u_output u)) (filter (\<lambda>u. u_cnf u = cnf) (unspents d)) @
              map (\<lambda>s. (coin_index (sr_key s), sr_output s)) (filter (\<lambda>s. sr_ocnf s = cnf) (spendings d)))"

definition getOutputs :: "int \<Rightarrow> database \<Rightarrow> tx_out list" where
  "getOutputs cnf d = map snd (sort_key (\<lambda>r. uint (fst r)) (output_rows cnf d))"

definition stored_tx :: "chain \<Rightarrow> database \<Rightarrow> conf_row \<Rightarrow> transaction" where
  "stored_tx ch d r =
     \<lparr>tx_version = cr_version r, tx_inputs = getInputs (cr_cnf r) d, tx_outputs = getOutputs (duplicateTx ch (cr_cnf r)) d,
      tx_lockTime = cr_locktime r\<rparr>"

definition getBlockHeader :: "int \<Rightarrow> database \<Rightarrow> block_header option" where
  "getBlockHeader count d = map_option br_header (List.find (\<lambda>r. br_count r = count) (blocks d))"

definition getDeepestDepth :: "database \<Rightarrow> int" where
  "getDeepestDepth d = (case confs d of [] \<Rightarrow> 0 | rs \<Rightarrow> Min (set (map cr_count rs)))"

text \<open>The transactions of a block as they are read, before the block is checked.\<close>

definition stored_txs :: "chain \<Rightarrow> int \<Rightarrow> database \<Rightarrow> transaction list" where
  "stored_txs ch count d = map (stored_tx ch d) (confs_of count d)"

section \<open>Balance\<close>

definition spent_sum :: "(spending_row \<Rightarrow> bool) \<Rightarrow> database \<Rightarrow> int" where
  "spent_sum P d = sum_list (map (\<lambda>s. out_amount (sr_output s)) (filter P (spendings d)))"

definition unspent_sum :: "(unspent \<Rightarrow> bool) \<Rightarrow> database \<Rightarrow> int" where
  "unspent_sum P d = sum_list (map (\<lambda>u. out_amount (u_output u)) (filter P (unspents d)))"

definition balance :: "script \<Rightarrow> int \<Rightarrow> database \<Rightarrow> string + int" where
  "balance sc height d =
     (let count = height + 1; mine = (\<lambda>out. out_script out = sc);
          later = (\<lambda>cnf. list_ex (\<lambda>r. cr_cnf r = cnf \<and> cr_count r > count) (confs d))
      in if count = 0 then Inr (unspent_sum (\<lambda>u. mine (u_output u)) d)
         else if count < getDeepestDepth d then Inl ''Cannot calculate balances from purged past!''
         else Inr (unspent_sum (\<lambda>u. mine (u_output u) \<and> \<bar>u_count u\<bar> \<le> count) d
           - spent_sum (\<lambda>s. mine (sr_output s) \<and> later (sr_ocnf s)) d
           + spent_sum (\<lambda>s. mine (sr_output s) \<and> later (sr_icnf s)) d))"

section \<open>Blocks\<close>

definition tx_final :: "int \<Rightarrow> int \<Rightarrow> transaction \<Rightarrow> int \<Rightarrow> int \<Rightarrow> bool" where
  "tx_final best_height now txn height time =
     (if tx_lockTime txn = 0 then True
      else
        let height = (if height = 0 then best_height else height); time = (if time = 0 then now else time);
            lock = uint (tx_lockTime txn)
        in if lock < (if lock < LOCKTIME_THRESHOLD then height else time) then True
           else list_all isFinal (tx_inputs txn))"

definition insertBlockHeader :: "env \<Rightarrow> int \<Rightarrow> uint256 \<Rightarrow> mined_block \<Rightarrow> unit act" where
  "insertBlockHeader e count hash b L =
     (if list_ex (\<lambda>r. br_count r = count) (blocks (db L)) then (Inl Constraint, L)
      else
        (Inr (), update_db (\<lambda>d. d\<lparr>
           blocks := blocks d @ [\<lparr>br_count = count, br_hash = hash, br_header = header b\<rparr>],
           auxpows := auxpows d @
             (if adhere_aux_pow (env_chain e) \<and> bh_version (header b) AND BLOCK_VERSION_AUXPOW \<noteq> 0
              then [(count, block_aux_pow b)] else [])\<rparr>) L))"

text \<open>
  The jobs of the verifier's threads. A job whose run is undefined, or throws, counts as failed.
\<close>

definition verifier_success :: "env \<Rightarrow> job list \<Rightarrow> bool" where
  "verifier_success e js =
     list_all (\<lambda>(scrs, txn, strict). verify_all (env_bn e) (env_crypto e) (env_key e) txn scrs strict = Verdict True) js"

text \<open>
  The loop of \<open>attach\<close> over the transactions after the first. A block without transactions has no
  first one: the code reads past the end of the vector. The flag \<open>check\<close> is one variable of the whole
  loop. \<open>claimed\<close> says which transactions are in the pool.
\<close>

type_synonym txn_map = "(uint256 \<times> transaction) list"

fun post_loop :: "env \<Rightarrow> (transaction \<Rightarrow> u64 \<times> int) \<Rightarrow> (uint256 \<Rightarrow> bool) \<Rightarrow> place \<Rightarrow> bool \<Rightarrow> nat \<Rightarrow> transaction list \<Rightarrow>
    u64 \<times> txn_map \<times> uint256 list \<Rightarrow> (u64 \<times> txn_map \<times> uint256 list) act" where
  "post_loop e mem claimed blk check i [] acc = give acc"
| "post_loop e mem claimed blk check i (txn # txns) (fees, unconfirmed, confirmed) =
     (let hash = tx_getHash (env_sha e) txn;
          check = (if sm_has unconfirmed hash \<or> claimed hash then False else check)
      in next_do (postTransaction e (mem txn) txn fees 0 blk (int i) check) (\<lambda>fees.
           post_loop e mem claimed blk check (Suc i) txns (fees, sm_erase hash unconfirmed, hash # confirmed)))"

definition attach :: "env \<Rightarrow> (transaction \<Rightarrow> u64 \<times> int) \<Rightarrow> (uint256 \<Rightarrow> bool) \<Rightarrow> int \<Rightarrow> int \<Rightarrow> place \<Rightarrow> mined_block \<Rightarrow>
    txn_map \<times> uint256 list \<Rightarrow> (txn_map \<times> uint256 list) act" where
  "attach e mem claimed best_height now blk b maps L =
     (let ch = env_chain e; txns = transactions b; height = bp_height blk
      in if \<not> checkPoints ch (word_of_int height) (bp_hash blk) then (Inl Bad_checkpoint, L)
         else if \<not> list_all (\<lambda>txn. tx_final best_height now txn height (sint (bp_time blk))) txns then (Inl Not_final, L)
         else
           next_do (insertBlockHeader e (bp_count blk) (header_getHash (env_sha e) (header b)) b) (\<lambda>_ L.
             let check = (verification_depth L \<noteq> 0 \<and> height > verification_depth L)
             in next_do (post_loop e mem claimed blk check 1 (tl txns) (0, maps)) (\<lambda>(fees, maps).
                  if txns = [] then raise Unreadable_block
                  else next_do (postSubsidy e (txns ! 0) blk fees) (\<lambda>_ L.
                    if verifier_success e (jobs L) then (Inr maps, L) else (Inl Signature_failed, L))) L)
           (L\<lparr>jobs := []\<rparr>))"

text \<open>\<open>None\<close> is the null block: purged, unknown, or one that does not pass the check.\<close>

definition stored_block :: "env \<Rightarrow> (mined_block \<Rightarrow> bool) \<Rightarrow> aux_pow \<Rightarrow> int \<Rightarrow> database \<Rightarrow> mined_block option" where
  "stored_block e passes no_aux count d =
     (if count < getDeepestDepth d then None
      else
        case getBlockHeader count d of
          None \<Rightarrow> None
        | Some h \<Rightarrow>
            let b = updateMerkleTree (env_sha e) \<lparr>header = h, transactions = stored_txs (env_chain e) count d, merkleTree = []\<rparr>;
                b = \<lparr>header = header b, transactions = transactions b, merkleTree = merkleTree b, ignore_aux_pow = True,
                     block_aux_pow = no_aux\<rparr>
            in if \<not> passes b then None
               else if adhere_aux_pow (env_chain e) \<and> bh_version (header b) AND BLOCK_VERSION_AUXPOW \<noteq> 0 then
                 (case List.find (\<lambda>r. fst r = count) (auxpows d) of
                    None \<Rightarrow> Some b
                  | Some r \<Rightarrow> Some (b\<lparr>block_aux_pow := snd r\<rparr>))
               else Some b)"

text \<open>For a block that cannot be read the code steps past the end of an empty vector.\<close>

definition detach :: "env \<Rightarrow> (mined_block \<Rightarrow> bool) \<Rightarrow> aux_pow \<Rightarrow> place \<Rightarrow> txn_map \<times> (uint256 \<rightharpoonup> mined_block) \<Rightarrow>
    (txn_map \<times> (uint256 \<rightharpoonup> mined_block)) act" where
  "detach e passes no_aux blk maps L =
     next_do (rollbackBlock e (bp_count blk)) (\<lambda>_.
       case stored_block e passes no_aux (bp_count blk) (db L) of
         None \<Rightarrow> raise Unreadable_block
       | Some b \<Rightarrow>
           give (fold (\<lambda>txn. sm_put (tx_getHash (env_sha e) txn) txn) (tl (transactions b)) (fst maps),
                 (snd maps)(bp_hash blk \<mapsto> b))) L"

end
