(* ===== verification/LedgerEffects.thy ===== *)
theory LedgerEffects
  imports Ledger
begin

text \<open>
  What the operations of the ledger do to its tables.
\<close>

section \<open>Sequencing\<close>

lemma next_do_Inr:
  "next_do m f L = (Inr y, L') \<longleftrightarrow> (\<exists>x L1. m L = (Inr x, L1) \<and> f x L1 = (Inr y, L'))"
  by (auto simp: next_do_def split: prod.splits sum.splits)

lemma give_Inr [simp]: "give x L = (Inr y, L') \<longleftrightarrow> y = x \<and> L' = L"
  by (auto simp: give_def)

lemma raise_Inr [simp]: "\<not> raise e L = (Inr y, L')"
  by (simp add: raise_def)

lemma update_db_simps [simp]:
  "db (update_db f L) = f (db L)" "spendables (update_db f L) = spendables L" "immature (update_db f L) = immature L"
  "purge_depth (update_db f L) = purge_depth L" "validation_depth (update_db f L) = validation_depth L"
  "verification_depth (update_db f L) = verification_depth L" "jobs (update_db f L) = jobs L"
  by (simp_all add: update_db_def)

lemma unspent_at_Some: "unspent_at k d = Some u \<Longrightarrow> u \<in> set (unspents d) \<and> u_key u = k"
  by (auto simp: unspent_at_def find_Some_iff)

lemma unspent_at_None: "unspent_at k d = None \<longleftrightarrow> k \<notin> u_key ` set (unspents d)"
  by (auto simp: unspent_at_def find_None_iff)

lemma query_simps [simp]:
  "unspents (insert_unspent u d) = unspents d @ [u]" "spendings (insert_unspent u d) = spendings d"
  "confs (insert_unspent u d) = confs d" "names (insert_unspent u d) = names d" "blocks (insert_unspent u d) = blocks d"
  "auxpows (insert_unspent u d) = auxpows d" "next_cnf (insert_unspent u d) = next_cnf d"
  "next_coin (insert_unspent u d) = max (next_coin d) (u_coin u + 1)"
  "unspents (delete_unspents P d) = filter (\<lambda>u. \<not> P u) (unspents d)" "spendings (delete_unspents P d) = spendings d"
  "confs (delete_unspents P d) = confs d" "names (delete_unspents P d) = names d" "blocks (delete_unspents P d) = blocks d"
  "auxpows (delete_unspents P d) = auxpows d" "next_cnf (delete_unspents P d) = next_cnf d"
  "next_coin (delete_unspents P d) = next_coin d"
  "unspents (delete_spendings Q d) = unspents d" "spendings (delete_spendings Q d) = filter (\<lambda>s. \<not> Q s) (spendings d)"
  "confs (delete_spendings Q d) = confs d" "names (delete_spendings Q d) = names d" "blocks (delete_spendings Q d) = blocks d"
  "auxpows (delete_spendings Q d) = auxpows d" "next_cnf (delete_spendings Q d) = next_cnf d"
  "next_coin (delete_spendings Q d) = next_coin d"
  by (simp_all add: insert_unspent_def delete_unspents_def delete_spendings_def)

text \<open>What an operation on tables alone leaves of the rest.\<close>

definition same_settings :: "ledger \<Rightarrow> ledger \<Rightarrow> bool" where
  "same_settings L L' \<longleftrightarrow> purge_depth L' = purge_depth L \<and> validation_depth L' = validation_depth L \<and>
     verification_depth L' = verification_depth L"

lemma same_settings_refl [simp]: "same_settings L L"
  by (simp add: same_settings_def)

lemma same_settings_trans: "same_settings L L1 \<Longrightarrow> same_settings L1 L2 \<Longrightarrow> same_settings L L2"
  by (simp add: same_settings_def)

lemma insert_spending_Inr:
  "insert_spending s L = (Inr x, L') \<longleftrightarrow> sr_coin s \<notin> sr_coin ` set (spendings (db L)) \<and>
     L' = update_db (\<lambda>d. d\<lparr>spendings := spendings d @ [s]\<rparr>) L"
  by (auto simp: insert_spending_def list_ex_iff intro: rev_image_eqI)

lemma insert_conf_Inr:
  "insert_conf c L = (Inr x, L') \<longleftrightarrow> cr_cnf c \<notin> cr_cnf ` set (confs (db L)) \<and>
     L' = update_db (\<lambda>d. d\<lparr>confs := confs d @ [c], next_cnf := max (next_cnf d) (cr_cnf c + 1)\<rparr>) L"
  by (auto simp: insert_conf_def list_ex_iff intro: rev_image_eqI)

section \<open>The two kinds of validation agree\<close>

text \<open>
  A coin apart from its count, which a reorganisation does not restore; and the state in which the coins
  in the tries are coins of the table.
\<close>

definition strip :: "unspent \<Rightarrow> unspent" where
  "strip u = u\<lparr>u_count := 0\<rparr>"

lemma strip_simps [simp]:
  "u_key (strip u) = u_key u" "u_output (strip u) = u_output u" "u_coin (strip u) = u_coin u" "u_cnf (strip u) = u_cnf u"
  "u_count (strip u) = 0" "strip (strip u) = strip u"
  by (simp_all add: strip_def)

lemma strip_eqD: "strip u = strip v \<Longrightarrow> u_key u = u_key v \<and> u_output u = u_output v \<and> u_coin u = u_coin v \<and> u_cnf u = u_cnf v"
  by (metis strip_simps(1-4))

lemma strip_row:
  assumes "strip ` A \<subseteq> strip ` B" and "x \<in> A"
  obtains w where "w \<in> B" and "strip w = strip x"
proof -
  have "strip x \<in> strip ` B" using assms by (blast intro: imageI)
  then show thesis using that by (auto elim!: imageE)
qed

abbreviation coins_in :: "(unspent, coin) trie \<Rightarrow> unspent set" where
  "coins_in t \<equiv> set (trie_elems t)"

definition tries_agree :: "env \<Rightarrow> ledger \<Rightarrow> bool" where
  "tries_agree e L \<longleftrightarrow>
     trie_ok (unspent_class (env_sha e)) coin_num (spendables L) \<and> trie_ok (unspent_class (env_sha e)) coin_num (immature L) \<and>
     strip ` (coins_in (spendables L) \<union> coins_in (immature L)) \<subseteq> strip ` set (unspents (db L)) \<and>
     u_coin ` coins_in (spendables L) \<inter> u_coin ` coins_in (immature L) = {}"

definition coins_ok :: "database \<Rightarrow> bool" where
  "coins_ok d \<longleftrightarrow> distinct (map u_coin (unspents d)) \<and> (\<forall>u\<in>set (unspents d). u_coin u < next_coin d)"

definition coherent :: "env \<Rightarrow> ledger \<Rightarrow> bool" where
  "coherent e L \<longleftrightarrow> coins_ok (db L) \<and>
     (if validation_depth L = 0 then distinct (map u_key (unspents (db L))) else tries_agree e L)"

lemma cls_key [simp]: "e_key (unspent_class sha) = u_key"
  by (simp add: unspent_class_def)

lemma coins_ok_inj: "coins_ok d \<Longrightarrow> u \<in> set (unspents d) \<Longrightarrow> v \<in> set (unspents d) \<Longrightarrow> u_coin u = u_coin v \<Longrightarrow> u = v"
  unfolding coins_ok_def by (metis distinct_map inj_onD)

lemma coins_ok_delete: "coins_ok d \<Longrightarrow> coins_ok (delete_unspents P d)"
  by (auto simp: coins_ok_def distinct_map intro: inj_on_subset)

lemma coins_ok_insert: "coins_ok d \<Longrightarrow> u_coin u = next_coin d \<Longrightarrow> coins_ok (insert_unspent u d)"
  by (fastforce simp: coins_ok_def)

lemma coins_ok_update [simp]: "coins_ok (d\<lparr>spendings := x\<rparr>) = coins_ok d" "coins_ok (d\<lparr>confs := y, next_cnf := n\<rparr>) = coins_ok d"
  "coins_ok (d\<lparr>names := z\<rparr>) = coins_ok d"
  by (simp_all add: coins_ok_def)

lemma coins_ok_same: "unspents d' = unspents d \<Longrightarrow> next_coin d' = next_coin d \<Longrightarrow> coins_ok d \<Longrightarrow> coins_ok d'"
  by (simp add: coins_ok_def)

text \<open>What \<open>redeem\<close> does when it returns.\<close>

lemma redeem_effect:
  assumes "redeem e inp i conf L = (Inr u, L')" and "coherent e L"
  obtains row where "row \<in> set (unspents (db L))" and "strip row = strip u" and "u_key u = prevout inp"
    and "ChainRules.range (env_chain e) (out_amount (u_output u))"
    and "db L' = delete_unspents (\<lambda>v. u_coin v = u_coin u) ((db L)\<lparr>spendings := spendings (db L) @
      (if cf_count conf \<ge> purge_depth L then
         [\<lparr>sr_ocnf = u_cnf u, sr_coin = u_coin u, sr_key = prevout inp, sr_output = u_output u, sr_signature = signature inp,
           sr_sequence = input_sequence inp, sr_iidx = i, sr_icnf = cf_cnf conf\<rparr>] else [])\<rparr>)"
    and "coherent e L'" and "same_settings L L'" and "jobs L' = jobs L"
    and "validation_depth L = 0 \<Longrightarrow> row = u \<and> (u_count u < 0 \<longrightarrow> cf_count conf + u_count u \<ge> maturity (env_chain e) (- u_count u))"
proof -
  let ?cls = "unspent_class (env_sha e)" and ?k = "prevout inp"
  let ?row = "\<lparr>sr_ocnf = u_cnf u, sr_coin = u_coin u, sr_key = ?k, sr_output = u_output u, sr_signature = signature inp,
           sr_sequence = input_sequence inp, sr_iidx = i, sr_icnf = cf_cnf conf\<rparr>"
  have ok: "coins_ok (db L)" using assms(2) by (simp add: coherent_def split: if_splits)
  show thesis
  proof (cases "validation_depth L = 0")
    case True
    then obtain u' where u': "unspent_at ?k (db L) = Some u'" "spend_coin e inp i conf u' L = (Inr u, L')"
      "u_count u' < 0 \<longrightarrow> cf_count conf + u_count u' \<ge> maturity (env_chain e) (- u_count u')"
      using assms(1) by (auto simp: redeem_def Let_def split: option.splits if_splits)
    then have e: "u' = u" by (auto simp: spend_coin_def next_do_Inr split: if_splits)
    have in_table: "u \<in> set (unspents (db L))" "u_key u = ?k" using unspent_at_Some [OF u'(1)] e by auto
    have "coherent e L'"
      using u'(2) ok True assms(2) by (auto simp: e spend_coin_def next_do_Inr insert_spending_Inr coherent_def
          intro!: coins_ok_delete distinct_map_filter split: if_splits)
    then show thesis
      using u' in_table by (intro that [of u])
        (auto simp: e spend_coin_def next_do_Inr insert_spending_Inr same_settings_def split: if_splits)
  next
    case False
    then have agree: "tries_agree e L" using assms(2) by (simp add: coherent_def)
    then have tok: "trie_ok ?cls coin_num (spendables L)" by (simp add: tries_agree_def)
    let ?L = "L\<lparr>spendables := snd (MerkleTrie.remove ?cls ?k (spendables L))\<rparr>"
    obtain u' where u': "trie_look ?cls (spendables L) ?k = Some u'" "spend_coin e inp i conf u' ?L = (Inr u, L')"
      using assms(1) False by (auto simp: redeem_def Let_def split: option.splits)
    then have e: "u' = u" by (auto simp: spend_coin_def next_do_Inr split: if_splits)
    have u: "u \<in> coins_in (spendables L)" "u_key u = ?k"
      using u'(1) spendables.trie_look_Some [OF tok, of ?k u'] e by simp_all
    then obtain row where row: "row \<in> set (unspents (db L))" "strip row = strip u"
      using agree by (auto simp: tries_agree_def)
    have L': "spendables L' = spendables ?L" "immature L' = immature L" "validation_depth L' = validation_depth L"
      "unspents (db L') = filter (\<lambda>v. u_coin v \<noteq> u_coin u) (unspents (db L))"
      "next_coin (db L') = next_coin (db L)"
      using u'(2) by (auto simp: e spend_coin_def next_do_Inr insert_spending_Inr split: if_splits)
    have stay: "strip v \<in> strip ` set (unspents (db L'))"
      if v: "v \<in> coins_in (immature L) \<or> v \<in> coins_in (spendables L) \<and> u_key v \<noteq> ?k" for v
    proof -
      obtain w where w: "w \<in> set (unspents (db L))" "strip w = strip v" using agree v by (auto simp: tries_agree_def)
      have "u_coin w \<noteq> u_coin u"
      proof
        assume c: "u_coin w = u_coin u"
        then have "w = row" using coins_ok_inj [OF ok w(1) row(1)] strip_eqD [OF row(2)] by simp
        then have "u_key v = ?k" "u_coin v = u_coin u" using strip_eqD [OF w(2)] strip_eqD [OF row(2)] u(2) by simp_all
        then show False using v u(1) agree by (auto simp: tries_agree_def)
      qed
      then show ?thesis using w by (auto simp: L'(4) image_iff)
    qed
    have "tries_agree e L'"
      using agree stay spendables.trie_remove(2,3) [OF tok, of ?k]
      by (auto simp: tries_agree_def L' image_subset_iff)
    moreover have "coins_ok (db L')" using ok by (auto simp: coins_ok_def L' distinct_map intro: inj_on_subset)
    ultimately have "coherent e L'" using False L'(3) by (simp add: coherent_def)
    then show thesis
      using u' u row False by (intro that [of row])
        (auto simp: e spend_coin_def next_do_Inr insert_spending_Inr same_settings_def split: if_splits)
  qed
qed


definition new_unspent :: "tx_out \<Rightarrow> uint256 \<Rightarrow> u32 \<Rightarrow> confirmation \<Rightarrow> int \<Rightarrow> unspent" where
  "new_unspent out hash idx conf coin =
     \<lparr>u_key = Coin hash idx, u_output = out, u_coin = coin,
      u_count = (if is_coinbase_conf conf then - cf_count conf else cf_count conf), u_cnf = cf_cnf conf\<rparr>"

lemma new_unspent_simps [simp]:
  "u_key (new_unspent out hash idx conf coin) = Coin hash idx" "u_output (new_unspent out hash idx conf coin) = out"
  "u_coin (new_unspent out hash idx conf coin) = coin" "u_cnf (new_unspent out hash idx conf coin) = cf_cnf conf"
  by (simp_all add: new_unspent_def)

lemma tries_agree_coins:
  assumes "tries_agree e L" and "coins_ok (db L)" and "v \<in> coins_in (spendables L) \<union> coins_in (immature L)"
  shows "u_coin v < next_coin (db L)"
proof -
  obtain w where "w \<in> set (unspents (db L))" "strip w = strip v" using assms(1,3) by (auto simp: tries_agree_def)
  then show ?thesis using assms(2) strip_eqD [of w v] by (auto simp: coins_ok_def)
qed

lemma issue_effect:
  assumes "issue e out hash idx conf True L = (Inr c, L')" and "coherent e L"
  shows "c = next_coin (db L)" and "db L' = insert_unspent (new_unspent out hash idx conf (next_coin (db L))) (db L)"
    and "coherent e L'" and "same_settings L L'" and "jobs L' = jobs L"
    and "validation_depth L = 0 \<Longrightarrow> Coin hash idx \<notin> u_key ` set (unspents (db L))"
proof -
  let ?u = "new_unspent out hash idx conf (next_coin (db L))" and ?cls = "unspent_class (env_sha e)"
  note issue = assms(1) [unfolded issue_def Let_def, folded new_unspent_def]
  show c: "c = next_coin (db L)" and d: "db L' = insert_unspent ?u (db L)" and "same_settings L L'" and "jobs L' = jobs L"
    and "validation_depth L = 0 \<Longrightarrow> Coin hash idx \<notin> u_key ` set (unspents (db L))"
    using issue by (auto simp: same_settings_def unspent_at_None [symmetric] split: if_splits)
  have ok: "coins_ok (db L)" "coins_ok (db L')" using assms(2) d by (simp_all add: coherent_def coins_ok_insert)
  have "tries_agree e L'" if v: "validation_depth L \<noteq> 0"
  proof -
    have agree: "tries_agree e L" using assms(2) v by (simp add: coherent_def)
    have tok: "trie_ok ?cls coin_num (spendables L)" "trie_ok ?cls coin_num (immature L)"
      using agree by (simp_all add: tries_agree_def)
    have new: "?u \<in> set (unspents (db L'))" "set (unspents (db L)) \<subseteq> set (unspents (db L'))" using d by auto
    have fresh: "next_coin (db L) \<notin> u_coin ` coins_in (spendables L)" "next_coin (db L) \<notin> u_coin ` coins_in (immature L)"
      using tries_agree_coins [OF agree ok(1)] by fastforce+
    have two: "immature L' = immature L \<and> (spendables L' = snd (MerkleTrie.insert ?cls ?u (spendables L))) \<or>
        spendables L' = spendables L \<and> (immature L' = snd (MerkleTrie.insert ?cls ?u (immature L)))"
      using issue v by (auto split: if_splits)
    note ins = spendables.trie_insert(2,3) [OF tok(1), of ?u] spendables.trie_insert(2,3) [OF tok(2), of ?u]
    have sub: "strip ` (coins_in (spendables L) \<union> coins_in (immature L)) \<subseteq> strip ` set (unspents (db L'))"
      using agree image_mono [OF new(2), of strip] unfolding tries_agree_def by blast
    from two show ?thesis
    proof
      assume "immature L' = immature L \<and> spendables L' = snd (MerkleTrie.insert ?cls ?u (spendables L))"
      then show ?thesis using agree ins(1,2) sub new(1) fresh
        unfolding tries_agree_def by (auto split: if_splits)
    next
      assume "spendables L' = spendables L \<and> immature L' = snd (MerkleTrie.insert ?cls ?u (immature L))"
      then show ?thesis using agree ins(3,4) sub new(1) fresh
        unfolding tries_agree_def by (auto split: if_splits)
    qed
  qed
  moreover have "distinct (map u_key (unspents (db L')))" if "validation_depth L = 0"
    using that issue assms(2) d by (auto simp: coherent_def unspent_at_None split: if_splits)
  moreover have "validation_depth L' = validation_depth L" using issue by (auto split: if_splits)
  ultimately show "coherent e L'" using ok(2) by (simp add: coherent_def)
qed

section \<open>Transactions on the tables\<close>

fun spend_rows :: "confirmation \<Rightarrow> nat \<Rightarrow> tx_in list \<Rightarrow> unspent list \<Rightarrow> spending_row list" where
  "spend_rows conf i (inp # inps) (u # us) =
     \<lparr>sr_ocnf = u_cnf u, sr_coin = u_coin u, sr_key = prevout inp, sr_output = u_output u, sr_signature = signature inp,
      sr_sequence = input_sequence inp, sr_iidx = int i, sr_icnf = cf_cnf conf\<rparr> # spend_rows conf (Suc i) inps us"
| "spend_rows conf i _ _ = []"

text \<open>What the inputs of a transaction do: the coins \<open>us\<close> go from one table to the other.\<close>

definition inputs_effect :: "env \<Rightarrow> confirmation \<Rightarrow> nat \<Rightarrow> tx_in list \<Rightarrow> unspent list \<Rightarrow> ledger \<Rightarrow> ledger \<Rightarrow> bool" where
  "inputs_effect e conf i inps us L L' \<longleftrightarrow>
     map u_key us = map prevout inps \<and> distinct (map u_coin us) \<and> strip ` set us \<subseteq> strip ` set (unspents (db L)) \<and>
     list_all (\<lambda>u. ChainRules.range (env_chain e) (out_amount (u_output u))) us \<and>
     db L' = delete_unspents (\<lambda>v. u_coin v \<in> u_coin ` set us) ((db L)\<lparr>spendings := spendings (db L) @
       (if cf_count conf \<ge> purge_depth L then spend_rows conf i inps us else [])\<rparr>) \<and>
     coherent e L' \<and> same_settings L L' \<and> jobs L' = jobs L"

lemma redeem_inputs_effect:
  assumes "redeem_inputs e conf i inps (v, op, scrs) L = (Inr (v', op', scrs'), L')" and "coherent e L"
  shows "\<exists>us. inputs_effect e conf i inps us L L' \<and> v' = v + sum_list (map (out_value \<circ> u_output) us) \<and>
    scrs' = scrs @ map (out_script \<circ> u_output) us"
  using assms
proof (induction inps arbitrary: i v op scrs L)
  case Nil
  have "delete_unspents (\<lambda>v. False) (db L) = db L" by (simp add: delete_unspents_def)
  then show ?case using Nil by (intro exI [of _ "[]"]) (auto simp: inputs_effect_def)
next
  case (Cons inp inps)
  obtain u L1 where u: "redeem e inp (int i) conf L = (Inr u, L1)"
    using Cons.prems(1) by (auto simp: next_do_Inr)
  obtain row where row: "row \<in> set (unspents (db L))" "strip row = strip u" "u_key u = prevout inp"
    "ChainRules.range (env_chain e) (out_amount (u_output u))"
    "db L1 = delete_unspents (\<lambda>v. u_coin v = u_coin u) ((db L)\<lparr>spendings := spendings (db L) @
      (if cf_count conf \<ge> purge_depth L then
         [\<lparr>sr_ocnf = u_cnf u, sr_coin = u_coin u, sr_key = prevout inp, sr_output = u_output u, sr_signature = signature inp,
           sr_sequence = input_sequence inp, sr_iidx = int i, sr_icnf = cf_cnf conf\<rparr>] else [])\<rparr>)"
    "coherent e L1" "same_settings L L1" "jobs L1 = jobs L"
    by (rule redeem_effect [OF u Cons.prems(2)])
  obtain op1 where "redeem_inputs e conf (Suc i) inps
      (v + out_value (u_output u), op1, scrs @ [out_script (u_output u)]) L1 = (Inr (v', op', scrs'), L')"
    using Cons.prems(1) u by (auto simp: next_do_def Let_def split: if_splits sum.splits prod.splits)
  from Cons.IH [OF this row(6)] obtain us where us: "inputs_effect e conf (Suc i) inps us L1 L'"
    "v' = v + out_value (u_output u) + sum_list (map (out_value \<circ> u_output) us)"
    "scrs' = (scrs @ [out_script (u_output u)]) @ map (out_script \<circ> u_output) us" by blast
  note eff = us(1) [unfolded inputs_effect_def]
  have sub: "strip ` set us \<subseteq> strip ` set (unspents (db L1))" using eff by simp
  have new: "u_coin u \<notin> u_coin ` set us"
  proof
    assume "u_coin u \<in> u_coin ` set us"
    then obtain x where x: "x \<in> set us" "u_coin x = u_coin u" by auto
    obtain w where "w \<in> set (unspents (db L1))" "strip w = strip x" by (rule strip_row [OF sub x(1)])
    then show False using x(2) strip_eqD [of w x] by (simp add: row(5))
  qed
  have "strip u \<in> strip ` set (unspents (db L))" using row(1,2) by (metis imageI)
  then have "strip ` set (u # us) \<subseteq> strip ` set (unspents (db L))"
    using sub by (auto simp: row(5))
  moreover have "db L' = delete_unspents (\<lambda>v. u_coin v \<in> u_coin ` set (u # us)) ((db L)\<lparr>spendings := spendings (db L) @
       (if cf_count conf \<ge> purge_depth L then spend_rows conf i (inp # inps) (u # us) else [])\<rparr>)"
    using eff row(7) by (auto simp: row(5) delete_unspents_def same_settings_def intro!: filter_cong)
  ultimately have "inputs_effect e conf i (inp # inps) (u # us) L L'"
    using eff row(3,4,7,8) new by (auto simp: inputs_effect_def intro: same_settings_trans)
  then show ?case using us(2,3) by (intro exI [of _ "u # us"]) (simp add: ac_simps o_def)
qed


fun new_unspents :: "confirmation \<Rightarrow> uint256 \<Rightarrow> nat \<Rightarrow> int \<Rightarrow> tx_out list \<Rightarrow> unspent list" where
  "new_unspents conf hash i c [] = []"
| "new_unspents conf hash i c (out # outs) =
     new_unspent out hash (word_of_nat i) conf c # new_unspents conf hash (Suc i) (c + 1) outs"

lemma length_new_unspents [simp]: "length (new_unspents conf hash i c outs) = length outs"
  by (induction outs arbitrary: i c) simp_all

lemma new_unspents_cnf: "u \<in> set (new_unspents conf hash i c outs) \<Longrightarrow> u_cnf u = cf_cnf conf"
  by (induction outs arbitrary: i c) auto

lemma new_unspents_coins: "map u_coin (new_unspents conf hash i c outs) = map (\<lambda>n. c + int n) [0..<length outs]"
proof (induction outs arbitrary: i c)
  case (Cons out outs)
  have "[0..<Suc (length outs)] = 0 # map Suc [0..<length outs]" by (simp add: map_Suc_upt upt_conv_Cons del: upt_Suc)
  then show ?case by (simp add: Cons o_def ac_simps del: upt_Suc)
qed simp

definition outputs_effect :: "env \<Rightarrow> confirmation \<Rightarrow> uint256 \<Rightarrow> nat \<Rightarrow> tx_out list \<Rightarrow> name_row list \<Rightarrow> ledger \<Rightarrow> ledger \<Rightarrow> bool" where
  "outputs_effect e conf hash i outs N L L' \<longleftrightarrow>
     db L' = (db L)\<lparr>unspents := unspents (db L) @ new_unspents conf hash i (next_coin (db L)) outs,
       next_coin := next_coin (db L) + int (length outs), names := names (db L) @ N\<rparr> \<and>
     nr_coin ` set N \<subseteq> {next_coin (db L) ..< next_coin (db L) + int (length outs)} \<and>
     (\<not> adhere_names (env_chain e) \<longrightarrow> N = []) \<and> coherent e L' \<and> same_settings L L' \<and> jobs L' = jobs L"

lemma outputs_effect_Nil: "coherent e L \<Longrightarrow> outputs_effect e conf hash i [] [] L L"
  by (simp add: outputs_effect_def)

lemma outputs_effect_Cons:
  assumes "issue e out hash (word_of_nat i) conf True L = (Inr c, L1)" and "coherent e L"
    and "db L2 = (db L1)\<lparr>names := names (db L1) @ R\<rparr>" and "nr_coin ` set R \<subseteq> {c}"
    and "\<not> adhere_names (env_chain e) \<longrightarrow> R = []"
    and "coherent e L2 \<Longrightarrow> outputs_effect e conf hash (Suc i) outs N L2 L'" 
    and "spendables L2 = spendables L1" "immature L2 = immature L1" "same_settings L1 L2" "jobs L2 = jobs L1"
  shows "outputs_effect e conf hash i (out # outs) (R @ N) L L'"
proof -
  note iss = issue_effect [OF assms(1,2)]
  have "coherent e L2"
    using iss(3) assms(3,7,8,9) unfolding coherent_def tries_agree_def same_settings_def by simp
  note eff = assms(6) [OF this, unfolded outputs_effect_def]
  have m: "max (next_coin (db L)) (next_coin (db L) + 1) = next_coin (db L) + 1" by simp
  have "db L' = (db L)\<lparr>unspents := unspents (db L) @ new_unspents conf hash i (next_coin (db L)) (out # outs),
       next_coin := next_coin (db L) + int (length (out # outs)), names := names (db L) @ R @ N\<rparr>"
    using eff assms(3) iss(2) by (simp add: m insert_unspent_def)
  moreover have "nr_coin ` set N \<subseteq> {next_coin (db L) + 1 ..< next_coin (db L) + 1 + int (length outs)}"
    using eff assms(3) iss(2) by (simp add: m insert_unspent_def)
  then have "nr_coin ` set (R @ N) \<subseteq> {next_coin (db L) ..< next_coin (db L) + int (length (out # outs))}"
    using assms(4) iss(1) by fastforce
  ultimately show ?thesis
    using eff assms(5,9,10) iss(4,5) unfolding outputs_effect_def same_settings_def by simp
qed

lemma insert_name_Inr:
  "insert_name r L = (Inr x, L') \<Longrightarrow> L' = update_db (\<lambda>d. d\<lparr>names := names d @ [r]\<rparr>) L"
  by (auto simp: insert_name_def split: if_splits)

lemma updateName_Inr:
  "updateName e op coin count L = (Inr x, L') \<Longrightarrow>
     \<exists>r. nr_coin r = coin \<and> L' = update_db (\<lambda>d. d\<lparr>names := names d @ [r]\<rparr>) L"
  by (force simp: updateName_def Let_def dest!: insert_name_Inr split: if_splits)

lemma issue_outputs_effect:
  assumes "issue_outputs e txn hash conf i outs op L = (Inr op', L')" and "coherent e L"
  shows "\<exists>N. outputs_effect e conf hash i outs N L L'"
  using assms
proof (induction outs arbitrary: i op L)
  case Nil
  then show ?case by (auto intro!: exI [of _ "[]"] outputs_effect_Nil)
next
  case (Cons out outs)
  obtain c L1 where c: "issue e out hash (word_of_nat i) conf True L = (Inr c, L1)"
    using Cons.prems(1) by (auto simp: next_do_Inr)
  show ?case
  proof (cases "issue_outputs e txn hash conf (Suc i) outs op L1 = (Inr op', L') \<or>
      (\<exists>op. issue_outputs e txn hash conf (Suc i) outs op L1 = (Inr op', L'))")
    case True
    then obtain op1 where "issue_outputs e txn hash conf (Suc i) outs op1 L1 = (Inr op', L')" by blast
    from Cons.IH [OF this] obtain N where "outputs_effect e conf hash (Suc i) outs N L1 L'"
      using issue_effect(3) [OF c Cons.prems(2)] by blast
    then show ?thesis
      using outputs_effect_Cons [OF c Cons.prems(2), of L1 "[]" outs N L'] by auto
  next
    case False
    then obtain op1 L2 r where op1: "adhere_names (env_chain e)" "nr_coin r = c"
      "L2 = update_db (\<lambda>d. d\<lparr>names := names d @ [r]\<rparr>) L1"
      "issue_outputs e txn hash conf (Suc i) outs op1 L2 = (Inr op', L')"
      using Cons.prems(1) c by (auto simp: next_do_Inr split: if_splits sum.splits prod.splits dest!: updateName_Inr)
    then have "\<exists>N. coherent e L2 \<longrightarrow> outputs_effect e conf hash (Suc i) outs N L2 L'"
      using Cons.IH by blast
    then obtain N where "coherent e L2 \<Longrightarrow> outputs_effect e conf hash (Suc i) outs N L2 L'" by blast
    then have "outputs_effect e conf hash i (out # outs) ([r] @ N) L L'"
      using op1 by (intro outputs_effect_Cons [OF c Cons.prems(2), of L2]) (auto simp: same_settings_def)
    then show ?thesis by blast
  qed
qed

lemma issue_subsidy_effect:
  assumes "issue_subsidy e hash conf True i outs L = (Inr x, L')" and "coherent e L"
  shows "outputs_effect e conf hash i outs [] L L'"
  using assms
proof (induction outs arbitrary: i L)
  case Nil
  then show ?case using outputs_effect_Nil by auto
next
  case (Cons out outs)
  obtain c L1 where c: "issue e out hash (word_of_nat i) conf True L = (Inr c, L1)"
    "issue_subsidy e hash conf True (Suc i) outs L1 = (Inr x, L')"
    using Cons.prems(1) by (auto simp: next_do_Inr)
  have "outputs_effect e conf hash (Suc i) outs [] L1 L'"
    using Cons.IH [OF c(2)] issue_effect(3) [OF c(1) Cons.prems(2)] .
  then show ?case
    using outputs_effect_Cons [OF c(1) Cons.prems(2), of L1 "[]" outs "[]" L'] by auto
qed


text \<open>A transaction: the confirmation, the coins \<open>us\<close> that it redeems, the names \<open>N\<close> that it writes.\<close>

definition conf_row_of :: "transaction \<Rightarrow> int \<Rightarrow> int \<Rightarrow> int \<Rightarrow> conf_row" where
  "conf_row_of txn cnf count idx =
     \<lparr>cr_cnf = cnf, cr_version = tx_version txn, cr_locktime = tx_lockTime txn, cr_count = count, cr_idx = idx\<rparr>"

definition tx_effect :: "env \<Rightarrow> transaction \<Rightarrow> int \<Rightarrow> int \<Rightarrow> int \<Rightarrow> unspent list \<Rightarrow> name_row list \<Rightarrow> ledger \<Rightarrow> ledger \<Rightarrow> bool" where
  "tx_effect e txn count idx cnf us N L L' \<longleftrightarrow>
     (let conf = \<lparr>cf_cnf = cnf, cf_count = count\<rparr>; d = db L; stored = count \<ge> purge_depth L in
      cnf = (if stored then next_cnf d else LOCKTIME_THRESHOLD) \<and>
      map u_key us = map prevout (tx_inputs txn) \<and> distinct (map u_coin us) \<and>
      strip ` set us \<subseteq> strip ` set (unspents d) \<and>
      list_all (\<lambda>u. ChainRules.range (env_chain e) (out_amount (u_output u))) us \<and>
      db L' = d\<lparr>
        confs := confs d @ (if stored then [conf_row_of txn cnf count idx] else []),
        next_cnf := (if stored then next_cnf d + 1 else next_cnf d),
        spendings := spendings d @ (if stored then spend_rows conf 0 (tx_inputs txn) us else []),
        unspents := filter (\<lambda>v. u_coin v \<notin> u_coin ` set us) (unspents d) @
          new_unspents conf (tx_getHash (env_sha e) txn) 0 (next_coin d) (tx_outputs txn),
        next_coin := next_coin d + int (length (tx_outputs txn)),
        names := names d @ N\<rparr> \<and>
      nr_coin ` set N \<subseteq> {next_coin d ..< next_coin d + int (length (tx_outputs txn))} \<and>
      (\<not> adhere_names (env_chain e) \<longrightarrow> N = []) \<and> coherent e L' \<and> same_settings L L' \<and>
      (stored \<longrightarrow> cnf \<notin> cr_cnf ` set (confs d)))"

lemma coherent_jobs [simp]: "coherent e (L\<lparr>jobs := js\<rparr>) = coherent e L"
  by (simp add: coherent_def tries_agree_def)

lemma coherent_confs [simp]: "coherent e (update_db (\<lambda>d. d\<lparr>confs := f d, next_cnf := g d\<rparr>) L) = coherent e L"
  by (simp add: coherent_def tries_agree_def coins_ok_def)

lemma new_conf_effect:
  assumes "new_conf txn count idx L = (Inr cnf, L')"
  shows "cnf = (if count \<ge> purge_depth L then next_cnf (db L) else LOCKTIME_THRESHOLD) \<and>
    L' = (if count \<ge> purge_depth L
          then update_db (\<lambda>d. d\<lparr>confs := confs d @ [conf_row_of txn cnf count idx], next_cnf := next_cnf d + 1\<rparr>) L else L) \<and>
    (count \<ge> purge_depth L \<longrightarrow> cnf \<notin> cr_cnf ` set (confs (db L)))"
  using assms by (auto simp: new_conf_def Let_def next_do_Inr insert_conf_Inr conf_row_of_def update_db_def max_def split: if_splits)

lemma check_name_fees_Inr: "check_name_fees e count op L = (Inr x, L') \<Longrightarrow> L' = L"
  by (auto simp: check_name_fees_def split: if_splits option.splits sum.splits)

lemma post_effect:
  assumes "postTransaction e mem txn fees least blk idx check L = (Inr fees', L')" and "coherent e L"
  shows "\<exists>cnf us N. tx_effect e txn (bp_count blk) idx cnf us N L L' \<and>
    fees' = fees + (sum_list (map (out_value \<circ> u_output) us) - getValueOut txn) \<and>
    \<not> sum_list (map (out_value \<circ> u_output) us) - getValueOut txn <s 0 \<and>
    ChainRules.range (env_chain e) (sint fees') \<and>
    jobs L' = jobs L @ (if check
      then [(map (out_script \<circ> u_output) us, txn, sint (bp_time blk) > timeStamp (env_chain e) BIP0016)] else [])"
proof -
  let ?count = "bp_count blk" and ?hash = "tx_getHash (env_sha e) txn"
  let ?op = "new_name_operation (fst mem) (snd mem)
      (if adhere_names (env_chain e) then \<not> enforce_name_rules (env_chain e) ?count else True)"
  obtain cnf L1 where 1: "new_conf txn ?count idx L = (Inr cnf, L1)"
    using assms(1) by (auto simp: postTransaction_def Let_def next_do_Inr)
  note conf = new_conf_effect [OF 1]
  let ?conf = "\<lparr>cf_cnf = cnf, cf_count = ?count\<rparr>"
  obtain value_in op1 scrs L2 where 2: "redeem_inputs e ?conf 0 (tx_inputs txn) (0, ?op, []) L1 = (Inr (value_in, op1, scrs), L2)"
    using assms(1) 1 by (auto simp: postTransaction_def Let_def next_do_Inr)
  let ?L2 = "if check then L2\<lparr>jobs := jobs L2 @ [(scrs, txn, sint (bp_time blk) > timeStamp (env_chain e) BIP0016)]\<rparr> else L2"
  have rest: "\<not> value_in - getValueOut txn <s 0" "fees' = fees + (value_in - getValueOut txn)"
    "ChainRules.range (env_chain e) (sint fees')"
    "\<exists>op. issue_outputs e txn ?hash ?conf 0 (tx_outputs txn) op1 ?L2 = (Inr op, L')"
    using assms(1) 1 2 by (auto simp: postTransaction_def Let_def next_do_Inr dest!: check_name_fees_Inr split: if_splits)
  have "coherent e L1" using conf assms(2) by auto
  from redeem_inputs_effect [OF 2 this] obtain us where us: "inputs_effect e ?conf 0 (tx_inputs txn) us L1 L2"
    "value_in = sum_list (map (out_value \<circ> u_output) us)" "scrs = map (out_script \<circ> u_output) us" by auto
  note ine = us(1) [unfolded inputs_effect_def]
  obtain op2 where 3: "issue_outputs e txn ?hash ?conf 0 (tx_outputs txn) op1 ?L2 = (Inr op2, L')" using rest(4) by blast
  have "coherent e ?L2" using ine by simp
  from issue_outputs_effect [OF 3 this] obtain N where N: "outputs_effect e ?conf ?hash 0 (tx_outputs txn) N ?L2 L'" by blast
  note oute = N [unfolded outputs_effect_def]
  have d1: "unspents (db L1) = unspents (db L)" "next_coin (db L1) = next_coin (db L)" "purge_depth L1 = purge_depth L"
    "same_settings L L1" "jobs L1 = jobs L"
    using conf by (auto simp: same_settings_def)
  have d2: "db ?L2 = db L2" "same_settings L2 ?L2" by (simp_all add: same_settings_def)
  have "db L' = (db L)\<lparr>
        confs := confs (db L) @ (if ?count \<ge> purge_depth L then [conf_row_of txn cnf ?count idx] else []),
        next_cnf := (if ?count \<ge> purge_depth L then next_cnf (db L) + 1 else next_cnf (db L)),
        spendings := spendings (db L) @ (if ?count \<ge> purge_depth L then spend_rows ?conf 0 (tx_inputs txn) us else []),
        unspents := filter (\<lambda>v. u_coin v \<notin> u_coin ` set us) (unspents (db L)) @
          new_unspents ?conf ?hash 0 (next_coin (db L)) (tx_outputs txn),
        next_coin := next_coin (db L) + int (length (tx_outputs txn)),
        names := names (db L) @ N\<rparr>"
    using oute ine conf unfolding d2(1) d1(3) delete_unspents_def by (auto simp: d1)
  then have "tx_effect e txn ?count idx cnf us N L L'"
    using ine oute conf d1 d2 unfolding tx_effect_def Let_def by (auto intro: same_settings_trans)
  moreover have "jobs L' = jobs L @ (if check
      then [(scrs, txn, sint (bp_time blk) > timeStamp (env_chain e) BIP0016)] else [])"
    using oute ine d1 by simp
  ultimately show ?thesis using rest us(2,3) by (intro exI [of _ cnf] exI [of _ us] exI [of _ N]) auto
qed

section \<open>The subsidy\<close>

lemma tries_agree_row:
  assumes "tries_agree e L" and "v \<in> coins_in (spendables L) \<union> coins_in (immature L)"
  obtains w where "w \<in> set (unspents (db L))" and "strip w = strip v"
proof -
  have "strip v \<in> strip ` set (unspents (db L))" using assms unfolding tries_agree_def by blast
  then show thesis using that by (metis imageE)
qed

lemma maturate_coin_agrees:
  assumes "tries_agree e L" and "coins_ok (db L)" and "u \<in> set (unspents (db L))"
  shows "tries_agree e (maturate_coin e u L)"
proof -
  let ?cls = "unspent_class (env_sha e)"
  have tok: "trie_ok ?cls coin_num (spendables L)" "trie_ok ?cls coin_num (immature L)"
    using assms(1) by (simp_all add: tries_agree_def)
  note ins = spendables.trie_insert(2,3) [OF tok(1), of u] and rem = spendables.trie_remove(2,3) [OF tok(2), of "u_key u"]
  have key: "u_key v = u_key u" if v: "v \<in> coins_in (immature L)" "u_coin v = u_coin u" for v
  proof -
    obtain w where w: "w \<in> set (unspents (db L))" "strip w = strip v" using tries_agree_row [OF assms(1), of v] v(1) by blast
    then have "w = u" using coins_ok_inj [OF assms(2) w(1) assms(3)] strip_eqD [OF w(2)] v(2) by simp
    then show ?thesis using strip_eqD [OF w(2)] by simp
  qed
  have "u_coin u \<notin> u_coin ` {v \<in> coins_in (immature L). u_key v \<noteq> u_key u}" using key by auto
  then have "u_coin ` coins_in (snd (MerkleTrie.insert ?cls u (spendables L))) \<inter>
      u_coin ` coins_in (snd (MerkleTrie.remove ?cls (u_key u) (immature L))) = {}"
    using assms(1) unfolding ins(2) rem(2) tries_agree_def by (auto split: if_splits)
  moreover have "strip ` coins_in (snd (MerkleTrie.insert ?cls u (spendables L))) \<subseteq> strip ` set (unspents (db L))"
    using assms(1,3) unfolding ins(2) tries_agree_def by auto
  moreover have "strip ` coins_in (snd (MerkleTrie.remove ?cls (u_key u) (immature L))) \<subseteq> strip ` set (unspents (db L))"
    using assms(1) unfolding rem(2) tries_agree_def by auto
  ultimately show ?thesis
    using ins(1) rem(1) by (simp add: tries_agree_def maturate_coin_def image_Un)
qed

lemma maturate_coin_simps [simp]:
  "db (maturate_coin e u L) = db L" "same_settings L (maturate_coin e u L)" "jobs (maturate_coin e u L) = jobs L"
  by (simp_all add: maturate_coin_def same_settings_def)

lemma maturate_coins:
  assumes "tries_agree e L" and "coins_ok (db L)" and "set us \<subseteq> set (unspents (db L))"
  shows "tries_agree e (fold (maturate_coin e) us L) \<and> db (fold (maturate_coin e) us L) = db L \<and>
    same_settings L (fold (maturate_coin e) us L) \<and> jobs (fold (maturate_coin e) us L) = jobs L"
  using assms
proof (induction us arbitrary: L)
  case (Cons u us)
  have "tries_agree e (maturate_coin e u L)" using maturate_coin_agrees [OF Cons.prems(1,2)] Cons.prems(3) by simp
  from Cons.IH [OF this] show ?case
    using Cons.prems by (auto intro: same_settings_trans [OF maturate_coin_simps(2)])
qed simp

lemma maturate_effect:
  assumes "coherent e L"
  shows "coherent e (maturate e c L)" and "db (maturate e c L) = db L" and "same_settings L (maturate e c L)"
    and "jobs (maturate e c L) = jobs L"
proof -
  let ?us = "filter (\<lambda>u. u_count u = - c) (unspents (db L))"
  have "coherent e (maturate e c L) \<and> db (maturate e c L) = db L \<and> same_settings L (maturate e c L) \<and>
    jobs (maturate e c L) = jobs L"
  proof (cases "validation_depth L = 0")
    case False
    then have "tries_agree e L" "coins_ok (db L)" using assms by (simp_all add: coherent_def)
    from maturate_coins [OF this, of ?us] False show ?thesis
      by (auto simp: maturate_def coherent_def same_settings_def \<open>coins_ok (db L)\<close>)
  qed (use assms in \<open>simp add: maturate_def\<close>)
  then show "coherent e (maturate e c L)" and "db (maturate e c L) = db L" and "same_settings L (maturate e c L)"
    and "jobs (maturate e c L) = jobs L" by simp_all
qed

definition subsidy_row :: "transaction \<Rightarrow> int \<Rightarrow> u64 \<Rightarrow> spending_row" where
  "subsidy_row txn count v =
     \<lparr>sr_ocnf = 0, sr_coin = - count, sr_key = Coin 0 (- 1), sr_output = \<lparr>out_value = v, out_script = []\<rparr>,
      sr_signature = signature (tx_inputs txn ! 0), sr_sequence = input_sequence (tx_inputs txn ! 0), sr_iidx = 0,
      sr_icnf = - count\<rparr>"

definition subsidy_effect :: "env \<Rightarrow> transaction \<Rightarrow> int \<Rightarrow> u64 \<Rightarrow> ledger \<Rightarrow> ledger \<Rightarrow> bool" where
  "subsidy_effect e txn count v L L' \<longleftrightarrow>
     (let conf = \<lparr>cf_cnf = - count, cf_count = count\<rparr>; d = db L; stored = count \<ge> purge_depth L in
      isCoinBase txn \<and>
      db L' = d\<lparr>
        confs := confs d @ (if stored then [conf_row_of txn (- count) count 0] else []),
        next_cnf := (if stored then max (next_cnf d) (1 - count) else next_cnf d),
        spendings := spendings d @ (if stored then [subsidy_row txn count v] else []),
        unspents := unspents d @ new_unspents conf (tx_getHash (env_sha e) txn) 0 (next_coin d) (tx_outputs txn),
        next_coin := next_coin d + int (length (tx_outputs txn))\<rparr> \<and>
      (stored \<longrightarrow> - count \<notin> cr_cnf ` set (confs d) \<and> - count \<notin> sr_coin ` set (spendings d)) \<and>
      coherent e L' \<and> same_settings L L' \<and> jobs L' = jobs L)"

lemma coherent_spendings [simp]: "coherent e (update_db (\<lambda>d. d\<lparr>spendings := f d\<rparr>) L) = coherent e L"
  by (simp add: coherent_def tries_agree_def coins_ok_def)

lemma postSubsidy_effect:
  assumes "postSubsidy e txn blk fees L = (Inr x, L')" and "coherent e L"
    and "sint (bp_time blk) > timeStamp (env_chain e) BIP0030"
  shows "\<exists>s v. subsidy (env_random e) (env_chain e) (word_of_int (bp_height blk)) 
      (if bp_count blk = 1 then 0 else bp_prev_hash blk) = Some s \<and> v = word_of_int s + fees \<and>
    \<not> v <s getValueOut txn \<and> subsidy_effect e txn (bp_count blk) v L L'"
proof -
  let ?count = "bp_count blk" and ?hash = "tx_getHash (env_sha e) txn"
  let ?conf = "\<lparr>cf_cnf = - ?count, cf_count = ?count\<rparr>"
  let ?L1 = "if ?count \<ge> purge_depth L then update_db (\<lambda>d. d\<lparr>confs := confs d @ [conf_row_of txn (- ?count) ?count 0],
      next_cnf := max (next_cnf d) (- ?count + 1)\<rparr>) L else L"
  let ?row = "conf_row_of txn (- ?count) ?count 0" and ?prev = "if ?count = 1 then 0 else bp_prev_hash blk"
  have cb: "isCoinBase txn" using assms(1) by (auto simp: postSubsidy_def split: if_splits)
  then have cb': "\<not> \<not> isCoinBase txn" by simp
  have unique: "(sint (bp_time blk) > timeStamp (env_chain e) BIP0030) = True" using assms(3) by simp
  obtain L1 where L1: "(if ?count \<ge> purge_depth L then insert_conf ?row else give ()) L = (Inr (), L1)"
    and post1: "(case subsidy (env_random e) (env_chain e) (word_of_int (bp_height blk)) ?prev of
               None \<Rightarrow> (Inl Undefined_subsidy, L1)
             | Some s \<Rightarrow>
                 if word_of_int s + fees <s getValueOut txn then (Inl Pays_too_much, L1)
                 else next_do (if ?count \<ge> purge_depth L then insert_spending (subsidy_row txn ?count (word_of_int s + fees)) else give ())
                   (\<lambda>_. next_do (issue_subsidy e ?hash ?conf True 0 (tx_outputs txn)) (\<lambda>_ L.
                        (Inr (), if validation_depth L > 0 \<and> ?count > maturity (env_chain e) (bp_height blk)
                                 then maturate e (?count - maturity (env_chain e) (bp_height blk) + 1) L else L))) L1) =
           (Inr x, L')"
    using assms(1) unfolding postSubsidy_def Let_def unique if_not_P [OF cb'] next_do_Inr subsidy_row_def conf_row_of_def
    by auto
  obtain s where s: "subsidy (env_random e) (env_chain e) (word_of_int (bp_height blk)) ?prev = Some s"
    "\<not> word_of_int s + fees <s getValueOut txn"
    using post1 by (auto split: option.splits if_splits)
  let ?v = "word_of_int s + fees"
  obtain L2 L3 where L2: "(if ?count \<ge> purge_depth L then insert_spending (subsidy_row txn ?count ?v) else give ()) L1 = (Inr (), L2)"
    and L3: "issue_subsidy e ?hash ?conf True 0 (tx_outputs txn) L2 = (Inr (), L3)"
    "L' = (if validation_depth L3 > 0 \<and> ?count > maturity (env_chain e) (bp_height blk)
           then maturate e (?count - maturity (env_chain e) (bp_height blk) + 1) L3 else L3)"
    using post1 unfolding s(1) option.case if_not_P [OF s(2)] next_do_Inr by auto
  have d1: "L1 = (if ?count \<ge> purge_depth L then update_db (\<lambda>d. d\<lparr>confs := confs d @ [?row], next_cnf := max (next_cnf d) (1 - ?count)\<rparr>) L else L)"
    "?count \<ge> purge_depth L \<longrightarrow> - ?count \<notin> cr_cnf ` set (confs (db L))"
    using L1 by (auto simp: insert_conf_Inr conf_row_of_def)
  have d2: "L2 = (if ?count \<ge> purge_depth L then update_db (\<lambda>d. d\<lparr>spendings := spendings d @ [subsidy_row txn ?count ?v]\<rparr>) L1 else L1)"
    "?count \<ge> purge_depth L \<longrightarrow> - ?count \<notin> sr_coin ` set (spendings (db L))"
    using L2 d1 by (auto simp: insert_spending_Inr subsidy_row_def)
  have c2: "coherent e L2" using assms(2) by (simp add: d1 d2)
  note eff = issue_subsidy_effect [OF L3(1) c2, unfolded outputs_effect_def]
  have c3: "coherent e L3" using eff by simp
  have L': "db L' = db L3" "coherent e L'" "same_settings L3 L'" "jobs L' = jobs L3"
    using maturate_effect [OF c3] c3 by (auto simp: L3(2))
  have "subsidy_effect e txn ?count ?v L L'"
    using eff L' cb d1 d2 unfolding subsidy_effect_def Let_def same_settings_def by auto
  then show ?thesis using s by blast
qed

end
