(* ===== verification/LedgerRollback.thy ===== *)
theory LedgerRollback
  imports LedgerEffects "HOL-Library.Multiset"
begin

text \<open>
  Taking a block back: the references between the tables, the tables as sets, and what rolling back a
  confirmation does to them.
\<close>

section \<open>References between the tables\<close>

definition block_counts :: "database \<Rightarrow> int set" where
  "block_counts d = br_count ` set (blocks d)"

text \<open>
  A confirmation number is counted, or minus the count of a block for its coinbase; \<open>0\<close> stands for no
  confirmation, and the threshold for one from before the purge.
\<close>

definition cnf_known :: "database \<Rightarrow> int \<Rightarrow> bool" where
  "cnf_known d c \<longleftrightarrow> c = 0 \<or> c = LOCKTIME_THRESHOLD \<or> - c \<in> block_counts d \<and> c < 0 \<or> 0 < c \<and> c < next_cnf d"

definition refs_ok :: "database \<Rightarrow> bool" where
  "refs_ok d \<longleftrightarrow> 0 < next_cnf d \<and> 0 \<le> next_coin d \<and>
     (\<forall>u\<in>set (unspents d). cnf_known d (u_cnf u) \<and> 0 \<le> u_coin u) \<and>
     distinct (map sr_coin (spendings d)) \<and> sr_coin ` set (spendings d) \<inter> u_coin ` set (unspents d) = {} \<and>
     (\<forall>s\<in>set (spendings d). cnf_known d (sr_ocnf s) \<and> cnf_known d (sr_icnf s) \<and> sr_coin s < next_coin d \<and>
        (sr_coin s < 0 \<longrightarrow> - sr_coin s \<in> block_counts d)) \<and>
     (\<forall>r\<in>set (confs d). cnf_known d (cr_cnf r) \<and> cr_count r \<in> block_counts d) \<and>
     (\<forall>r\<in>set (auxpows d). fst r \<in> block_counts d) \<and> (\<forall>r\<in>set (names d). nr_coin r < next_coin d)"

definition cnf_fresh :: "database \<Rightarrow> int \<Rightarrow> bool" where
  "cnf_fresh d c \<longleftrightarrow> (\<forall>u\<in>set (unspents d). u_cnf u \<noteq> c) \<and> (\<forall>s\<in>set (spendings d). sr_icnf s \<noteq> c \<and> sr_ocnf s \<noteq> c) \<and>
     (\<forall>r\<in>set (confs d). cr_cnf r \<noteq> c)"

lemma next_cnf_fresh: "refs_ok d \<Longrightarrow> next_cnf d < LOCKTIME_THRESHOLD \<Longrightarrow> cnf_fresh d (next_cnf d)"
  by (fastforce simp: refs_ok_def cnf_fresh_def cnf_known_def)

section \<open>The tables as sets\<close>

type_synonym view = "unspent set \<times> spending_row set \<times> conf_row set \<times> name_row set"

definition view_of :: "database \<Rightarrow> view" where
  "view_of d = (strip ` set (unspents d), set (spendings d), set (confs d), set (names d))"

fun add_view :: "view \<Rightarrow> unspent set \<times> spending_row set \<times> conf_row set \<Rightarrow> view" where
  "add_view (U, S, C, N) (U', S', C') = (U \<union> U', S \<union> S', C \<union> C', N)"

lemma spent_as_strip [simp]: "strip (spent_as c s) = spent_as 0 s"
  by (simp add: spent_as_def strip_def)

lemma spent_as_simps [simp]:
  "u_key (spent_as c s) = sr_key s" "u_coin (spent_as c s) = sr_coin s" "u_cnf (spent_as c s) = sr_ocnf s"
  "u_output (spent_as c s) = sr_output s"
  by (simp_all add: spent_as_def)

lemma spend_rows_icnf: "s \<in> set (spend_rows conf i inps us) \<Longrightarrow> sr_icnf s = cf_cnf conf"
  by (induction conf i inps us rule: spend_rows.induct) auto

lemma spend_rows_back:
  "map u_key us = map prevout inps \<Longrightarrow> map (spent_as 0) (spend_rows conf i inps us) = map strip us"
  by (induction conf i inps us rule: spend_rows.induct) (auto simp: spent_as_def strip_def)

lemma spend_rows_keys: "map u_key us = map prevout inps \<Longrightarrow> map sr_key (spend_rows conf i inps us) = map u_key us"
  by (induction conf i inps us rule: spend_rows.induct) auto

lemma spend_rows_coins: "length us = length inps \<Longrightarrow> map sr_coin (spend_rows conf i inps us) = map u_coin us"
  by (induction conf i inps us rule: spend_rows.induct) auto

lemma fold_insert_unspent [simp]:
  "unspents (fold insert_unspent us d) = unspents d @ us" "spendings (fold insert_unspent us d) = spendings d"
  "confs (fold insert_unspent us d) = confs d" "names (fold insert_unspent us d) = names d"
  "blocks (fold insert_unspent us d) = blocks d" "auxpows (fold insert_unspent us d) = auxpows d"
  by (induction us arbitrary: d) simp_all

text \<open>What a rolled back confirmation is, on the sets; \<open>B\<close> are the coins that come back.\<close>

lemma rollback_positive:
  assumes "0 < c" and "B = filter (\<lambda>s. sr_icnf s = c) (spendings (db M))"
    and "distinct (map u_coin (unspents (db M)) @ map sr_coin B)"
    and "validation_depth M = 0 \<Longrightarrow> distinct (map u_key (unspents (db M)) @ map sr_key B)"
  shows "\<exists>M' d. rollbackConfirmation e c M = (Inr (), M') \<and> db M' = forget_outputs (env_chain e) c d \<and>
    unspents d = unspents (db M) @ map (spent_as (conf_count (first_source c (db M)) (db M))) B \<and>
    spendings d = filter (\<lambda>s. sr_icnf s \<noteq> c) (spendings (db M)) \<and> confs d = confs (db M) \<and> names d = names (db M) \<and>
    blocks d = blocks (db M) \<and> auxpows d = auxpows (db M) \<and> same_settings M M'"
proof -
  let ?returned = "map (spent_as (conf_count (first_source c (db M)) (db M))) B"
  let ?M = "rollback_tries e c (conf_count c (db M)) M"
  have M: "db ?M = db M" "same_settings M ?M" by (simp_all add: rollback_tries_def Let_def same_settings_def)
  let ?d = "delete_spendings (\<lambda>s. sr_icnf s = c) (fold insert_unspent ?returned (db M))"
  have "insert_unspents (validation_depth ?M = 0) ?returned (db M) = Inr (fold insert_unspent ?returned (db M))"
    using assms(3,4) M(2) by (simp add: insert_unspents_def o_def same_settings_def)
  then have "restore_inputs (validation_depth ?M = 0) c (conf_count c (db M)) (db ?M) = Inr ?d"
    using assms(1,2) by (simp add: restore_inputs_def M(1))
  then have "rollbackConfirmation e c M = (Inr (), ?M\<lparr>db := forget_outputs (env_chain e) c ?d\<rparr>)"
    by (simp add: rollbackConfirmation_def Let_def)
  then show ?thesis
    using M(2) by (intro exI [of _ "?M\<lparr>db := forget_outputs (env_chain e) c ?d\<rparr>"] exI [of _ ?d]) (simp add: same_settings_def)
qed

lemma forget_outputs_simps [simp]:
  "unspents (forget_outputs ch c d) = filter (\<lambda>u. u_cnf u \<noteq> c) (unspents d)" "spendings (forget_outputs ch c d) = spendings d"
  "confs (forget_outputs ch c d) = filter (\<lambda>r. cr_cnf r \<noteq> c) (confs d)" "blocks (forget_outputs ch c d) = blocks d"
  "auxpows (forget_outputs ch c d) = auxpows d"
  "names (forget_outputs ch c d) = (if adhere_names ch
     then filter (\<lambda>r. \<not> (\<exists>u\<in>set (unspents d). u_cnf u = c \<and> u_coin u = nr_coin r)) (names d) else names d)"
  by (simp_all add: forget_outputs_def Let_def list_ex_iff)

definition rollable :: "ledger \<Rightarrow> bool" where
  "rollable M \<longleftrightarrow> distinct (map u_coin (unspents (db M))) \<and>
     (validation_depth M = 0 \<longrightarrow> distinct (map u_key (unspents (db M))))"


lemma strip_set_coins: "u_coin ` set us = u_coin ` strip ` set us" "u_key ` set us = u_key ` strip ` set us"
  by (auto simp: image_image)

lemma strip_filter: "strip ` {u \<in> A. P (strip u)} = {u \<in> strip ` A. P u}"
  by auto

lemma view_eqD:
  assumes "view_of (db M) = add_view (view_of (db L)) (XU, XS, XC)"
  shows "strip ` set (unspents (db M)) = strip ` set (unspents (db L)) \<union> XU"
    and "set (spendings (db M)) = set (spendings (db L)) \<union> XS" and "set (confs (db M)) = set (confs (db L)) \<union> XC"
    and "set (names (db M)) = set (names (db L))"
  using assms by (simp_all add: view_of_def)

lemma rows_of_coins:
  assumes "coins_ok (db L)" and "strip ` set us \<subseteq> strip ` set (unspents (db L))"
  shows "strip ` {u \<in> set (unspents (db L)). u_coin u \<in> u_coin ` set us} = strip ` set us"
proof (intro equalityI subsetI)
  fix x assume "x \<in> strip ` {u \<in> set (unspents (db L)). u_coin u \<in> u_coin ` set us}"
  then obtain u v where u: "x = strip u" "u \<in> set (unspents (db L))" "v \<in> set us" "u_coin u = u_coin v" by auto
  obtain w where w: "w \<in> set (unspents (db L))" "strip w = strip v" by (rule strip_row [OF assms(2) u(3)])
  then have "w = u" using coins_ok_inj [OF assms(1) w(1) u(2)] u(4) strip_eqD [OF w(2)] by simp
  then show "x \<in> strip ` set us" using u(1,3) w(2) by (metis imageI)
next
  fix x assume "x \<in> strip ` set us"
  then obtain v where v: "x = strip v" "v \<in> set us" by auto
  obtain w where w: "w \<in> set (unspents (db L))" "strip w = strip v" by (rule strip_row [OF assms(2) v(2)])
  then have "u_coin w \<in> u_coin ` set us" using v(2) strip_eqD [OF w(2)] by auto
  then show "x \<in> strip ` {u \<in> set (unspents (db L)). u_coin u \<in> u_coin ` set us}" using v w by (auto intro: rev_image_eqI)
qed

lemma new_unspents_hash: "u \<in> set (new_unspents conf hash i n outs) \<Longrightarrow> coin_hash (u_key u) = hash"
  by (induction outs arbitrary: i n) auto

text \<open>
  One transaction is taken back: from a state that shows the tables after it, and rows \<open>X\<close> of no concern to
  it, to one that shows the tables before it, and the same rows.
\<close>

lemma rollback_tx:
  assumes eff: "tx_effect e txn bc idx c us N L L1" and stored: "bc \<ge> purge_depth L"
    and ok: "coherent e L" "refs_ok (db L)" "next_cnf (db L) < LOCKTIME_THRESHOLD"
    and view: "view_of (db M) = add_view (view_of (db L1)) (XU, XS, XC)"
    and X: "strip ` XU = XU" "\<forall>u\<in>XU. u_cnf u \<noteq> c \<and> u_coin u \<ge> next_coin (db L1)" "\<forall>s\<in>XS. sr_icnf s \<noteq> c" "\<forall>r\<in>XC. cr_cnf r \<noteq> c"
    and M: "rollable M" "validation_depth M = validation_depth L" "distinct (spendings (db M))"
    and keys: "validation_depth L = 0 \<Longrightarrow> \<forall>u\<in>set us. coin_hash (u_key u) \<noteq> tx_getHash (env_sha e) txn \<and> u_key u \<notin> u_key ` XU"
  shows "\<exists>M'. rollbackConfirmation e c M = (Inr (), M') \<and> view_of (db M') = add_view (view_of (db L)) (XU, XS, XC) \<and>
    rollable M' \<and> same_settings M M' \<and> distinct (spendings (db M')) \<and> blocks (db M') = blocks (db M) \<and>
    auxpows (db M') = auxpows (db M)"
proof -
  let ?conf = "\<lparr>cf_cnf = c, cf_count = bc\<rparr>" and ?n = "next_coin (db L)"
  let ?S = "spend_rows ?conf 0 (tx_inputs txn) us" and ?new = "new_unspents ?conf (tx_getHash (env_sha e) txn) 0 ?n (tx_outputs txn)"
  note e = eff [unfolded tx_effect_def Let_def]
  have keyeq: "map u_key us = map prevout (tx_inputs txn)" and dc: "distinct (map u_coin us)"
    and sub: "strip ` set us \<subseteq> strip ` set (unspents (db L))"
    and Nsub: "nr_coin ` set N \<subseteq> {next_coin (db L) ..< next_coin (db L) + int (length (tx_outputs txn))}"
    using e by simp_all
  have c: "c = next_cnf (db L)" "0 < c" using e stored ok(2) by (simp_all add: refs_ok_def)
  have fresh: "cnf_fresh (db L) c" using next_cnf_fresh ok c by simp
  have len: "length us = length (tx_inputs txn)" using keyeq by (metis length_map)
  have coins: "coins_ok (db L)" using ok(1) by (simp add: coherent_def)
  have U1: "unspents (db L1) = filter (\<lambda>v. u_coin v \<notin> u_coin ` set us) (unspents (db L)) @ ?new"
    and S1: "spendings (db L1) = spendings (db L) @ ?S" and C1: "confs (db L1) = confs (db L) @ [conf_row_of txn c bc idx]"
    and N1: "names (db L1) = names (db L) @ N" and n1: "next_coin (db L1) = ?n + int (length (tx_outputs txn))"
    using e stored by simp_all
  note v = view_eqD [OF view]
  define B where "B = filter (\<lambda>s. sr_icnf s = c) (spendings (db M))"
  have Bset: "set B = set ?S"
    using fresh X(3) by (auto simp: B_def v(2) S1 cnf_fresh_def dest: spend_rows_icnf)
  have Bcoins: "sr_coin ` set B = u_coin ` set us"
    unfolding Bset using spend_rows_coins [OF len, of ?conf 0] by (metis list.set_map)
  have Bback: "spent_as 0 ` set B = strip ` set us"
    unfolding Bset using spend_rows_back [of us "tx_inputs txn" ?conf 0] keyeq by (metis list.set_map)
  have "distinct ?S" using spend_rows_coins [OF len, of ?conf 0] dc by (metis distinct_map)
  moreover have "distinct B" using M(3) by (simp add: B_def)
  ultimately have Bmset: "mset B = mset ?S" using Bset set_eq_iff_mset_eq_distinct [of B ?S] by simp
  have Bdist: "distinct (map sr_coin B)"
  proof -
    have "mset (map sr_coin B) = mset (map u_coin us)" using Bmset spend_rows_coins [OF len, of ?conf 0] by (metis mset_map)
    then show ?thesis using dc by (metis mset_eq_imp_distinct_iff)
  qed
  have newc: "u_coin ` set ?new = (\<lambda>k. ?n + int k) ` {0..<length (tx_outputs txn)}"
    using new_unspents_coins [of ?conf "tx_getHash (env_sha e) txn" 0 ?n "tx_outputs txn"] by (metis list.set_map set_upt)
  have small: "u_coin u < ?n" if "u \<in> set us" for u
  proof -
    obtain w where "w \<in> set (unspents (db L))" "strip w = strip u" by (rule strip_row [OF sub \<open>u \<in> set us\<close>])
    then show ?thesis using coins strip_eqD [of w u] by (auto simp: coins_ok_def)
  qed
  have Mcoins: "u_coin ` set (unspents (db M)) = u_coin ` {u \<in> set (unspents (db L)). u_coin u \<notin> u_coin ` set us} \<union>
      u_coin ` set ?new \<union> u_coin ` XU"
    unfolding strip_set_coins(1) [of "unspents (db M)"] v(1) U1 by (simp add: image_Un image_image)
  have disj: "u_coin ` set (unspents (db M)) \<inter> sr_coin ` set B = {}"
  proof -
    have "k \<notin> u_coin ` set us" if "?n \<le> k" for k using small that by fastforce
    moreover have "?n \<le> k" if "k \<in> u_coin ` set ?new" for k using that unfolding newc by auto
    moreover have "?n \<le> k" if "k \<in> u_coin ` XU" for k using that X(2) n1 by fastforce
    ultimately show ?thesis unfolding Bcoins Mcoins by blast
  qed
  have row: "\<exists>w\<in>set (unspents (db L)). strip w = strip u" if "u \<in> set us" for u
    by (rule strip_row [OF sub that]) blast
  have keysM: "distinct (map u_key (unspents (db M)) @ map sr_key B)" if mode: "validation_depth M = 0"
  proof -
    have dk: "inj_on u_key (set (unspents (db L)))"
      using ok(1) mode M(2) by (simp add: coherent_def distinct_map)
    have "inj_on u_key (set us)"
    proof (rule inj_onI)
      fix u u' assume u: "u \<in> set us" "u' \<in> set us" "u_key u = u_key u'"
      obtain w w' where "w \<in> set (unspents (db L))" "strip w = strip u" "w' \<in> set (unspents (db L))" "strip w' = strip u'"
        using row u by blast
      then have "u_coin u = u_coin u'" using dk u(3) by (metis inj_onD strip_eqD)
      then show "u = u'" using dc u by (metis distinct_map inj_onD)
    qed
    then have "distinct (map u_key us)" using dc by (simp add: distinct_map)
    moreover have "mset (map sr_key B) = mset (map u_key us)"
      using Bmset spend_rows_keys [of us "tx_inputs txn" ?conf 0] keyeq by (metis mset_map)
    ultimately have 1: "distinct (map sr_key B)" by (metis mset_eq_imp_distinct_iff)
    have Bk: "sr_key ` set B = u_key ` set us"
      unfolding Bset using spend_rows_keys [of us "tx_inputs txn" ?conf 0] keyeq by (metis list.set_map)
    have new_hash: "coin_hash (u_key u) = tx_getHash (env_sha e) txn" if "u \<in> set ?new" for u
      using that by (rule new_unspents_hash)
    have old: "u_key u \<notin> u_key ` set us" if u: "u \<in> set (unspents (db L))" "u_coin u \<notin> u_coin ` set us" for u
    proof
      assume "u_key u \<in> u_key ` set us"
      then obtain v where v: "v \<in> set us" "u_key v = u_key u" by auto
      obtain w where "w \<in> set (unspents (db L))" "strip w = strip v" using row v(1) by blast
      then have "u = w" "u_coin w = u_coin v" using dk u(1) v(2) strip_eqD [of w v] by (auto dest: inj_onD)
      then show False using u(2) v(1) by auto
    qed
    have "u_key ` set (unspents (db M)) = u_key ` {u \<in> set (unspents (db L)). u_coin u \<notin> u_coin ` set us} \<union>
        u_key ` set ?new \<union> u_key ` XU"
      unfolding strip_set_coins(2) [of "unspents (db M)"] v(1) U1 by (simp add: image_Un image_image)
    moreover have "k \<notin> u_key ` set us" if "k \<in> u_key ` {u \<in> set (unspents (db L)). u_coin u \<notin> u_coin ` set us}" for k
      using that old by (metis (mono_tags, lifting) imageE mem_Collect_eq)
    moreover have "k \<notin> u_key ` set us" if "k \<in> u_key ` set ?new" for k
      using that new_hash keys mode M(2) by force
    moreover have "k \<notin> u_key ` set us" if "k \<in> u_key ` XU" for k
    proof
      assume "k \<in> u_key ` set us"
      then obtain u where "u \<in> set us" "u_key u = k" by auto
      then show False using keys mode M(2) that by (metis (no_types))
    qed
    ultimately have "u_key ` set (unspents (db M)) \<inter> sr_key ` set B = {}" unfolding Bk by blast
    then show ?thesis using 1 M(1) mode by (simp add: rollable_def)
  qed
  have "distinct (map u_coin (unspents (db M)) @ map sr_coin B)" using M(1) Bdist disj by (simp add: rollable_def)
  note coinsM = this
  from rollback_positive [OF c(2) B_def this keysM, of e] obtain M' d where
    M': "rollbackConfirmation e c M = (Inr (), M')" "db M' = forget_outputs (env_chain e) c d" "same_settings M M'"
    and d: "unspents d = unspents (db M) @ map (spent_as (conf_count (first_source c (db M)) (db M))) B"
      "spendings d = filter (\<lambda>s. sr_icnf s \<noteq> c) (spendings (db M))" "confs d = confs (db M)" "names d = names (db M)"
      "blocks d = blocks (db M)" "auxpows d = auxpows (db M)" by blast
  have rollable: "rollable M'"
  proof -
    have "map u_coin (unspents d) = map u_coin (unspents (db M)) @ map sr_coin B"
      "map u_key (unspents d) = map u_key (unspents (db M)) @ map sr_key B" by (simp_all add: d o_def)
    then have "distinct (map u_coin (unspents d))" "validation_depth M = 0 \<Longrightarrow> distinct (map u_key (unspents d))"
      using coinsM keysM by metis+
    then show ?thesis using M'(3) unfolding rollable_def M'(2) same_settings_def by (simp add: distinct_map_filter)
  qed
  have "strip ` set (unspents d) = strip ` set (unspents (db M)) \<union> strip ` set us"
    using Bback by (simp add: d image_Un image_image)
  also have "\<dots> = strip ` set (unspents (db L)) \<union> strip ` set ?new \<union> XU"
    using rows_of_coins [OF coins sub] unfolding v(1) U1 by auto
  finally have Ud: "strip ` set (unspents d) = strip ` set (unspents (db L)) \<union> strip ` set ?new \<union> XU" .
  have fresh': "u_cnf u \<noteq> c" if "u \<in> strip ` set (unspents (db L))" for u using fresh that by (auto simp: cnf_fresh_def)
  have new': "u_cnf u = c" if "u \<in> strip ` set ?new" for u using that by (auto dest: new_unspents_cnf)
  have "strip ` set (unspents (db M')) = {u \<in> strip ` set (unspents d). u_cnf u \<noteq> c}"
    unfolding M'(2) using strip_filter [of "set (unspents d)" "\<lambda>u. u_cnf u \<noteq> c"] by simp
  also have "\<dots> = strip ` set (unspents (db L)) \<union> XU"
    unfolding Ud using fresh' new' X(2) by blast
  finally have vU: "strip ` set (unspents (db M')) = strip ` set (unspents (db L)) \<union> XU" .
  have icnf: "sr_icnf s = c" if "s \<in> set ?S" for s using spend_rows_icnf [OF that] by simp
  have vS: "set (spendings (db M')) = set (spendings (db L)) \<union> XS"
    using fresh X(3) icnf unfolding M'(2) cnf_fresh_def by (auto simp: d v(2) S1)
  have vC: "set (confs (db M')) = set (confs (db L)) \<union> XC"
    using fresh X(4) unfolding M'(2) cnf_fresh_def by (auto simp: d v(3) C1 conf_row_of_def)
  have gone: "(\<exists>u\<in>set (unspents d). u_cnf u = c \<and> u_coin u = k) \<longleftrightarrow> k \<in> u_coin ` set ?new" for k
  proof -
    have "(\<exists>u\<in>set (unspents d). u_cnf u = c \<and> u_coin u = k) \<longleftrightarrow> (\<exists>u\<in>strip ` set (unspents d). u_cnf u = c \<and> u_coin u = k)"
      by simp
    also have "\<dots> \<longleftrightarrow> (\<exists>u\<in>strip ` set ?new. u_coin u = k)" unfolding Ud using fresh' new' X(2) by blast
    finally show ?thesis by auto
  qed
  have vN: "set (names (db M')) = set (names (db L))"
  proof (cases "adhere_names (env_chain e)")
    case True
    have "nr_coin r \<notin> u_coin ` set ?new" if "r \<in> set (names (db L))" for r
      using that ok(2) unfolding newc refs_ok_def by fastforce
    moreover have "nr_coin r \<in> u_coin ` set ?new" if "r \<in> set N" for r
    proof -
      have r: "?n \<le> nr_coin r" "nr_coin r < ?n + int (length (tx_outputs txn))" using Nsub that by auto
      then have "nr_coin r = ?n + int (nat (nr_coin r - ?n))" "nat (nr_coin r - ?n) < length (tx_outputs txn)" by linarith+
      then show ?thesis unfolding newc by (metis atLeastLessThan_iff imageI zero_le)
    qed
    ultimately show ?thesis unfolding M'(2) using True gone by (auto simp: d v(4) N1)
  next
    case False
    then show ?thesis using e unfolding M'(2) by (simp add: d v(4) N1)
  qed
  have "view_of (db M') = add_view (view_of (db L)) (XU, XS, XC)" by (simp add: view_of_def vU vS vC vN)
  moreover have "distinct (spendings (db M'))" using M(3) by (simp add: M'(2) d)
  ultimately show ?thesis using M'(1,3) rollable by (intro exI [of _ M']) (simp add: M'(2) d)
qed

end
