(* ===== verification/LedgerBlocks.thy ===== *)
theory LedgerBlocks
  imports LedgerRollback
begin

text \<open>
  Blocks on the ledger: what attaching a block does to the tables, that it keeps the ledger well formed, and
  that taking the block back restores it.
\<close>

section \<open>Blocks on the tables\<close>

inductive posts :: "env \<Rightarrow> int \<Rightarrow> nat \<Rightarrow> transaction list \<Rightarrow> int list \<Rightarrow> u64 \<Rightarrow> u64 \<Rightarrow> ledger \<Rightarrow> ledger \<Rightarrow> bool" for e bc where
  posts_Nil: "posts e bc i [] [] f f L L"
| posts_Cons: "tx_effect e t bc (int i) c us N L L1 \<Longrightarrow>
     f1 = f + (sum_list (map (out_value \<circ> u_output) us) - getValueOut t) \<Longrightarrow>
     \<not> sum_list (map (out_value \<circ> u_output) us) - getValueOut t <s 0 \<Longrightarrow>
     ChainRules.range (env_chain e) (sint f1) \<Longrightarrow> posts e bc (Suc i) ts cs f1 f' L1 L2 \<Longrightarrow>
     posts e bc i (t # ts) (c # cs) f f' L L2"

lemma tx_effect_coherent: "tx_effect e t bc i c us N L L1 \<Longrightarrow> coherent e L1"
  by (simp add: tx_effect_def Let_def)

lemma post_loop_posts:
  assumes "post_loop e mem claimed blk check i txns (f, m) L = (Inr (f', m'), L')" and "coherent e L"
  shows "\<exists>cs. posts e (bp_count blk) i txns cs f f' L L'"
  using assms
proof (induction txns arbitrary: check i f m L)
  case Nil
  then show ?case by (cases m) (auto intro!: exI [of _ "[]"] posts_Nil)
next
  case (Cons t ts)
  obtain un co where m: "m = (un, co)" by (cases m)
  obtain f1 L1 check1 where 1: "postTransaction e (mem t) t f 0 blk (int i) check1 L = (Inr f1, L1)"
    "post_loop e mem claimed blk check1 (Suc i) ts (f1, sm_erase (tx_getHash (env_sha e) t) un, tx_getHash (env_sha e) t # co) L1 =
      (Inr (f', m'), L')"
    using Cons.prems(1) by (auto simp: m Let_def next_do_Inr)
  obtain c us N where c: "tx_effect e t (bp_count blk) (int i) c us N L L1"
    "f1 = f + (sum_list (map (out_value \<circ> u_output) us) - getValueOut t)"
    "\<not> sum_list (map (out_value \<circ> u_output) us) - getValueOut t <s 0" "ChainRules.range (env_chain e) (sint f1)"
    using post_effect [OF 1(1) Cons.prems(2)] by blast
  obtain cs where "posts e (bp_count blk) (Suc i) ts cs f1 f' L1 L'"
    using Cons.IH [OF 1(2) tx_effect_coherent [OF c(1)]] by blast
  then show ?case using posts_Cons [OF c] by blast
qed

definition header_effect :: "env \<Rightarrow> int \<Rightarrow> mined_block \<Rightarrow> ledger \<Rightarrow> ledger \<Rightarrow> bool" where
  "header_effect e bc b L L1 \<longleftrightarrow> bc \<notin> block_counts (db L) \<and>
     L1 = update_db (\<lambda>d. d\<lparr>
           blocks := blocks d @ [\<lparr>br_count = bc, br_hash = header_getHash (env_sha e) (header b), br_header = header b\<rparr>],
           auxpows := auxpows d @
             (if adhere_aux_pow (env_chain e) \<and> bh_version (header b) AND BLOCK_VERSION_AUXPOW \<noteq> 0
              then [(bc, block_aux_pow b)] else [])\<rparr>) (L\<lparr>jobs := []\<rparr>)"

lemma coherent_header: "header_effect e bc b L L1 \<Longrightarrow> coherent e L1 = coherent e L"
  by (simp add: header_effect_def coherent_def tries_agree_def coins_ok_def)

lemma attach_effect:
  assumes "attach e mem claimed best_height now blk b maps L = (Inr maps', L')" and "coherent e L"
    and "sint (bp_time blk) > timeStamp (env_chain e) BIP0030"
  shows "\<exists>L1 L2 cs fees s v. header_effect e (bp_count blk) b L L1 \<and> posts e (bp_count blk) 1 (tl (transactions b)) cs 0 fees L1 L2 \<and>
    subsidy (env_random e) (env_chain e) (word_of_int (bp_height blk))
      (if bp_count blk = 1 then 0 else bp_prev_hash blk) = Some s \<and> v = word_of_int s + fees \<and>
    \<not> v <s getValueOut (transactions b ! 0) \<and> subsidy_effect e (transactions b ! 0) (bp_count blk) v L2 L' \<and>
    verifier_success e (jobs L')"
proof -
  let ?h = "header_getHash (env_sha e) (header b)" and ?txns = "transactions b"
  obtain L1 where L1: "insertBlockHeader e (bp_count blk) ?h b (L\<lparr>jobs := []\<rparr>) = (Inr (), L1)"
    and r1: "next_do (post_loop e mem claimed blk (verification_depth L1 \<noteq> 0 \<and> bp_height blk > verification_depth L1) 1 (tl ?txns) (0, maps))
        (\<lambda>(fees, maps). if ?txns = [] then raise Unreadable_block else next_do (postSubsidy e (?txns ! 0) blk fees) (\<lambda>_ L.
                    if verifier_success e (jobs L) then (Inr maps, L) else (Inl Signature_failed, L))) L1 = (Inr maps', L')"
    using assms(1) by (auto simp: attach_def Let_def next_do_Inr split: if_splits)
  have he: "header_effect e (bp_count blk) b L L1"
    using L1 by (auto simp: insertBlockHeader_def header_effect_def block_counts_def list_ex_iff update_db_def
        intro: rev_image_eqI split: if_splits)
  obtain fees m L2 where L2: "post_loop e mem claimed blk (verification_depth L1 \<noteq> 0 \<and> bp_height blk > verification_depth L1)
      1 (tl ?txns) (0, maps) L1 = (Inr (fees, m), L2)"
    and L': "postSubsidy e (?txns ! 0) blk fees L2 = (Inr (), L')" "verifier_success e (jobs L')"
    using r1 by (auto simp: next_do_Inr split: if_splits)
  have c1: "coherent e L1" using coherent_header [OF he] assms(2) by simp
  obtain cs where cs: "posts e (bp_count blk) 1 (tl ?txns) cs 0 fees L1 L2" using post_loop_posts [OF L2 c1] by blast
  have "coherent e L2"
    using cs c1 by (induction rule: posts.induct) (auto dest: tx_effect_coherent)
  from postSubsidy_effect [OF L'(1) this assms(3)] show ?thesis using he cs L'(2) by blast
qed

lemma posts_coherent: "posts e bc i ts cs f f' L L2 \<Longrightarrow> coherent e L \<Longrightarrow> coherent e L2"
  by (induction rule: posts.induct) (auto dest: tx_effect_coherent)

lemma tx_effect_frame:
  assumes "tx_effect e t bc i c us N L L1"
  shows "same_settings L L1" "blocks (db L1) = blocks (db L)" "auxpows (db L1) = auxpows (db L)"
    "next_coin (db L1) = next_coin (db L) + int (length (tx_outputs t))" "next_cnf (db L) \<le> next_cnf (db L1)"
    "bc \<ge> purge_depth L \<Longrightarrow> c = next_cnf (db L) \<and> next_cnf (db L1) = next_cnf (db L) + 1"
  using assms by (simp_all add: tx_effect_def Let_def split: if_splits)

lemma posts_same:
  "posts e bc i ts cs f f' L L2 \<Longrightarrow> same_settings L L2 \<and> blocks (db L2) = blocks (db L) \<and> auxpows (db L2) = auxpows (db L) \<and>
     next_coin (db L) \<le> next_coin (db L2) \<and> next_cnf (db L) \<le> next_cnf (db L2) \<and> length cs = length ts"
proof (induction rule: posts.induct)
  case (posts_Cons t i c us N L L1 f1 f ts cs f' L2)
  then show ?case using tx_effect_frame [OF posts_Cons.hyps(1)] by (auto intro: same_settings_trans)
qed simp

lemma cnf_known_mono:
  "cnf_known d c \<Longrightarrow> block_counts d \<subseteq> block_counts d' \<Longrightarrow> next_cnf d \<le> next_cnf d' \<Longrightarrow> cnf_known d' c"
  by (auto simp: cnf_known_def)

lemma spend_rows_from:
  "s \<in> set (spend_rows conf i inps us) \<Longrightarrow> \<exists>u\<in>set us. sr_coin s = u_coin u \<and> sr_ocnf s = u_cnf u"
  by (induction conf i inps us rule: spend_rows.induct) auto

lemma new_unspents_ge: "u \<in> set (new_unspents conf hash i n outs) \<Longrightarrow> n \<le> u_coin u"
  by (induction outs arbitrary: i n) (auto, force)

text \<open>The references stay in order.\<close>

lemma tx_effect_refs:
  assumes eff: "tx_effect e t bc i c us N L L1" and ok: "refs_ok (db L)" "coherent e L" and bc: "bc \<in> block_counts (db L)"
  shows "refs_ok (db L1)"
proof -
  let ?conf = "\<lparr>cf_cnf = c, cf_count = bc\<rparr>" and ?n = "next_coin (db L)"
  let ?new = "new_unspents ?conf (tx_getHash (env_sha e) t) 0 ?n (tx_outputs t)"
  have sub: "strip ` set us \<subseteq> strip ` set (unspents (db L))" and dc: "distinct (map u_coin us)"
    and keys: "map u_key us = map prevout (tx_inputs t)" and c: "c = (if bc \<ge> purge_depth L then next_cnf (db L) else LOCKTIME_THRESHOLD)"
    and N: "nr_coin ` set N \<subseteq> {?n ..< ?n + int (length (tx_outputs t))}"
    and d: "db L1 = (db L)\<lparr>
        confs := confs (db L) @ (if bc \<ge> purge_depth L then [conf_row_of t c bc i] else []),
        next_cnf := (if bc \<ge> purge_depth L then next_cnf (db L) + 1 else next_cnf (db L)),
        spendings := spendings (db L) @ (if bc \<ge> purge_depth L then spend_rows ?conf 0 (tx_inputs t) us else []),
        unspents := filter (\<lambda>v. u_coin v \<notin> u_coin ` set us) (unspents (db L)) @ ?new,
        next_coin := ?n + int (length (tx_outputs t)), names := names (db L) @ N\<rparr>"
    using eff by (simp_all add: tx_effect_def Let_def)
  have coins: "coins_ok (db L)" using ok(2) by (simp add: coherent_def)
  have counts: "block_counts (db L1) = block_counts (db L)" by (simp add: d block_counts_def)
  have nc: "next_cnf (db L) \<le> next_cnf (db L1)" by (simp add: d)
  have mono: "cnf_known (db L) k \<Longrightarrow> cnf_known (db L1) k" for k
    using cnf_known_mono [of "db L" k "db L1"] counts nc by simp
  have kc: "cnf_known (db L1) c" using ok(1) by (auto simp: cnf_known_def d c refs_ok_def)
  have row: "cnf_known (db L) (u_cnf u) \<and> 0 \<le> u_coin u \<and> u_coin u < ?n \<and> u_coin u \<in> u_coin ` set (unspents (db L))"
    if u: "u \<in> set us" for u
  proof -
    obtain w where w: "w \<in> set (unspents (db L))" "strip w = strip u" by (rule strip_row [OF sub u])
    have "u_coin u = u_coin w" "u_cnf u = u_cnf w" using strip_eqD [OF w(2)] by simp_all
    then show ?thesis using w(1) ok(1) coins by (auto simp: refs_ok_def coins_ok_def)
  qed
  have new: "u_cnf u = c \<and> ?n \<le> u_coin u" if "u \<in> set ?new" for u
    using that new_unspents_cnf [OF that] new_unspents_ge [OF that] by simp
  let ?S = "if bc \<ge> purge_depth L then spend_rows ?conf 0 (tx_inputs t) us else []"
  have S: "sr_icnf s = c \<and> (\<exists>u\<in>set us. sr_coin s = u_coin u \<and> sr_ocnf s = u_cnf u)" if "s \<in> set ?S" for s
    using that spend_rows_icnf [of s ?conf] spend_rows_from [of s ?conf] by (auto split: if_splits)
  have len: "length us = length (tx_inputs t)" using keys by (metis length_map)
  have Sd: "distinct (map sr_coin ?S)" using spend_rows_coins [OF len, of ?conf 0] dc by simp
  have Sc: "sr_coin ` set ?S \<subseteq> u_coin ` set us" using S by fastforce
  have U: "\<forall>u\<in>set (unspents (db L1)). cnf_known (db L1) (u_cnf u) \<and> 0 \<le> u_coin u"
  proof
    fix u assume "u \<in> set (unspents (db L1))"
    then consider "u \<in> set (unspents (db L))" | "u \<in> set ?new" by (auto simp: d)
    then show "cnf_known (db L1) (u_cnf u) \<and> 0 \<le> u_coin u"
    proof cases
      case 1
      then show ?thesis using ok(1) mono by (auto simp: refs_ok_def)
    next
      case 2
      have "0 \<le> ?n" using ok(1) by (simp add: refs_ok_def)
      then show ?thesis using new [OF 2] kc by simp
    qed
  qed
  have Sp: "set (spendings (db L1)) = set (spendings (db L)) \<union> set ?S" by (simp add: d)
  have old: "cnf_known (db L) (sr_ocnf s) \<and> cnf_known (db L) (sr_icnf s) \<and> sr_coin s < ?n \<and>
      (sr_coin s < 0 \<longrightarrow> - sr_coin s \<in> block_counts (db L))" if "s \<in> set (spendings (db L))" for s
    using ok(1) that by (simp add: refs_ok_def)
  have S1: "\<forall>s\<in>set (spendings (db L1)). cnf_known (db L1) (sr_ocnf s) \<and> cnf_known (db L1) (sr_icnf s) \<and>
      sr_coin s < next_coin (db L1) \<and> (sr_coin s < 0 \<longrightarrow> - sr_coin s \<in> block_counts (db L1))"
  proof
    fix s assume "s \<in> set (spendings (db L1))"
    then consider "s \<in> set (spendings (db L))" | "s \<in> set ?S" unfolding Sp by blast
    then show "cnf_known (db L1) (sr_ocnf s) \<and> cnf_known (db L1) (sr_icnf s) \<and>
      sr_coin s < next_coin (db L1) \<and> (sr_coin s < 0 \<longrightarrow> - sr_coin s \<in> block_counts (db L1))"
    proof cases
      case 1
      have "?n \<le> next_coin (db L1)" by (simp add: d)
      then show ?thesis using old [OF 1] mono by (auto simp: counts)
    next
      case 2
      then obtain u where u: "u \<in> set us" "sr_coin s = u_coin u" "sr_ocnf s = u_cnf u" "sr_icnf s = c" using S by blast
      have "?n \<le> next_coin (db L1)" by (simp add: d)
      then show ?thesis using row [OF u(1)] mono [of "u_cnf u"] kc unfolding u(2-4) by simp
    qed
  qed
  have dist: "distinct (map sr_coin (spendings (db L1)))"
  proof -
    have sub: "u_coin ` set us \<subseteq> u_coin ` set (unspents (db L))" using row by (simp add: image_subset_iff)
    have sm: "A \<inter> B = {} \<Longrightarrow> C \<subseteq> D \<Longrightarrow> D \<subseteq> B \<Longrightarrow> A \<inter> C = {}" for A B C D :: "int set" by blast
    have "sr_coin ` set (spendings (db L)) \<inter> sr_coin ` set ?S = {}"
      by (rule sm [OF _ Sc sub]) (use ok(1) in \<open>simp add: refs_ok_def\<close>)
    then show ?thesis using ok(1) Sd by (simp add: d refs_ok_def)
  qed
  have disj: "sr_coin ` set (spendings (db L1)) \<inter> u_coin ` set (unspents (db L1)) = {}"
  proof (rule equals0I)
    fix k assume k: "k \<in> sr_coin ` set (spendings (db L1)) \<inter> u_coin ` set (unspents (db L1))"
    have "k \<in> sr_coin ` set (spendings (db L)) \<or> k \<in> sr_coin ` set ?S" using k unfolding Sp image_Un by blast
    then have sp: "k \<in> sr_coin ` set (spendings (db L)) \<or> k \<in> u_coin ` set us" using subsetD [OF Sc] by metis
    obtain u where u: "u \<in> set (unspents (db L1))" "k = u_coin u" using k by blast
    then have "u \<in> set (unspents (db L)) \<and> u_coin u \<notin> u_coin ` set us \<or> u \<in> set ?new" by (simp add: d)
    then have un: "k \<in> u_coin ` set (unspents (db L)) \<and> k \<notin> u_coin ` set us \<or> ?n \<le> k"
      unfolding u(2) using new [of u] imageI [of u "set (unspents (db L))" u_coin] by metis
    have "sr_coin ` set (spendings (db L)) \<inter> u_coin ` set (unspents (db L)) = {}" using ok(1) by (simp add: refs_ok_def)
    moreover have "k < ?n" if "k \<in> sr_coin ` set (spendings (db L))" using that old by auto
    moreover have "k < ?n" if "k \<in> u_coin ` set us" using that row by auto
    ultimately show False using sp un by (auto simp: not_le)
  qed
  have C: "\<forall>r\<in>set (confs (db L1)). cnf_known (db L1) (cr_cnf r) \<and> cr_count r \<in> block_counts (db L1)"
    using ok(1) mono kc bc unfolding counts by (auto simp: d refs_ok_def conf_row_of_def)
  have A: "\<forall>r\<in>set (auxpows (db L1)). fst r \<in> block_counts (db L1)" using ok(1) unfolding counts by (auto simp: d refs_ok_def)
  have "\<forall>r\<in>set (names (db L1)). nr_coin r < next_coin (db L1)" using ok(1) N by (fastforce simp: d refs_ok_def)
  moreover have "0 < next_cnf (db L1)" "0 \<le> next_coin (db L1)" using ok(1) by (auto simp: d refs_ok_def)
  ultimately show ?thesis unfolding refs_ok_def using U S1 dist disj C A by blast
qed


section \<open>Taking a block back\<close>

lemma each_do_append: "each_do f (xs @ ys) L = next_do (each_do f xs) (\<lambda>_. each_do f ys) L"
  by (induction xs arbitrary: L) (auto simp: next_do_def give_def split: prod.splits sum.splits)

lemma posts_counts: "posts e bc i ts cs f f' L L2 \<Longrightarrow> block_counts (db L2) = block_counts (db L)"
  using posts_same [of e bc i ts cs f f' L L2] by (simp add: block_counts_def)

lemma tx_effect_hashes:
  assumes "tx_effect e t bc i c us N L L1" and "u \<in> set (unspents (db L1))"
  shows "u \<in> set (unspents (db L)) \<or> coin_hash (u_key u) = tx_getHash (env_sha e) t"
proof -
  have "u \<in> set (unspents (db L)) \<or> u \<in> set (new_unspents \<lparr>cf_cnf = c, cf_count = bc\<rparr> (tx_getHash (env_sha e) t) 0
      (next_coin (db L)) (tx_outputs t))"
    using assms by (auto simp: tx_effect_def Let_def)
  then show ?thesis by (auto dest: new_unspents_hash)
qed

lemma rollback_posts:
  assumes "posts e bc i ts cs f f' L L2" and "bc \<ge> purge_depth L" and "coherent e L" and "refs_ok (db L)"
    and "bc \<in> block_counts (db L)" and "next_cnf (db L) + int (length ts) \<le> LOCKTIME_THRESHOLD"
    and "view_of (db M) = add_view (view_of (db L2)) (XU, XS, XC)"
    and X: "strip ` XU = XU" "\<forall>u\<in>XU. u_cnf u < 0 \<and> u_coin u \<ge> next_coin (db L2) \<and> coin_hash (u_key u) = h"
      "\<forall>s\<in>XS. sr_icnf s < 0" "\<forall>r\<in>XC. cr_cnf r < 0"
    and "rollable M" and "validation_depth M = validation_depth L" and "distinct (spendings (db M))"
    and "validation_depth L = 0 \<Longrightarrow> distinct (h # map (tx_getHash (env_sha e)) ts)"
    and "validation_depth L = 0 \<Longrightarrow> \<forall>u\<in>set (unspents (db L)). coin_hash (u_key u) \<notin> set (h # map (tx_getHash (env_sha e)) ts)"
  shows "\<exists>M'. each_do (rollbackConfirmation e) (rev cs) M = (Inr (), M') \<and>
    view_of (db M') = add_view (view_of (db L)) (XU, XS, XC) \<and> rollable M' \<and> same_settings M M' \<and>
    distinct (spendings (db M')) \<and> blocks (db M') = blocks (db M) \<and> auxpows (db M') = auxpows (db M)"
  using assms
proof (induction arbitrary: M rule: posts.induct)
  case (posts_Nil i f L)
  then show ?case by (intro exI [of _ M]) (simp add: give_def)
next
  case (posts_Cons t i c us N L L1 f1 f ts cs f' L2)
  note eff = posts_Cons.hyps(1) and frame = tx_effect_frame [OF posts_Cons.hyps(1)]
  note same = posts_same [OF posts_Cons.hyps(5)]
  have c: "c = next_cnf (db L)" "next_cnf (db L1) = next_cnf (db L) + 1" using frame(6) posts_Cons.prems(1) by simp_all
  have v1: "validation_depth L1 = validation_depth L" "purge_depth L1 = purge_depth L" using frame(1) by (simp_all add: same_settings_def)
  have "\<exists>M1. each_do (rollbackConfirmation e) (rev cs) M = (Inr (), M1) \<and>
    view_of (db M1) = add_view (view_of (db L1)) (XU, XS, XC) \<and> rollable M1 \<and> same_settings M M1 \<and>
    distinct (spendings (db M1)) \<and> blocks (db M1) = blocks (db M) \<and> auxpows (db M1) = auxpows (db M)"
  proof (rule posts_Cons.IH)
    show "bc \<ge> purge_depth L1" "validation_depth M = validation_depth L1" using posts_Cons.prems(1,12) v1 by simp_all
    show "coherent e L1" by (rule tx_effect_coherent [OF eff])
    show "refs_ok (db L1)" using tx_effect_refs [OF eff] posts_Cons.prems(2-4) by simp
    show "bc \<in> block_counts (db L1)" using posts_Cons.prems(4) frame(2) by (simp add: block_counts_def)
    show "next_cnf (db L1) + int (length ts) \<le> LOCKTIME_THRESHOLD" using posts_Cons.prems(5) c by simp
    assume "validation_depth L1 = 0"
    then have v0: "validation_depth L = 0" using v1 by simp
    show "distinct (h # map (tx_getHash (env_sha e)) ts)" using posts_Cons.prems(14) [OF v0] by simp
    show "\<forall>u\<in>set (unspents (db L1)). coin_hash (u_key u) \<notin> set (h # map (tx_getHash (env_sha e)) ts)"
      using posts_Cons.prems(14,15) [OF v0] tx_effect_hashes [OF eff] by fastforce
  qed (use posts_Cons.prems in simp_all)
  then obtain M1 where M1: "each_do (rollbackConfirmation e) (rev cs) M = (Inr (), M1)"
    "view_of (db M1) = add_view (view_of (db L1)) (XU, XS, XC)" "rollable M1" "same_settings M M1"
    "distinct (spendings (db M1))" "blocks (db M1) = blocks (db M)" "auxpows (db M1) = auxpows (db M)" by blast
  have cpos: "0 < c" using posts_Cons.prems(3) c by (simp add: refs_ok_def)
  have sub: "strip ` set us \<subseteq> strip ` set (unspents (db L))" using eff by (simp add: tx_effect_def Let_def)
  have "\<exists>M'. rollbackConfirmation e c M1 = (Inr (), M') \<and> view_of (db M') = add_view (view_of (db L)) (XU, XS, XC) \<and>
    rollable M' \<and> same_settings M1 M' \<and> distinct (spendings (db M')) \<and> blocks (db M') = blocks (db M1) \<and>
    auxpows (db M') = auxpows (db M1)"
  proof (rule rollback_tx [OF eff posts_Cons.prems(1-3) _ M1(2) X(1) _ _ _ M1(3) _ M1(5)])
    show "next_cnf (db L) < LOCKTIME_THRESHOLD" using posts_Cons.prems(5) by simp
    show "\<forall>u\<in>XU. u_cnf u \<noteq> c \<and> next_coin (db L1) \<le> u_coin u" using X(2) cpos same posts_Cons.prems(8) by fastforce
    show "\<forall>s\<in>XS. sr_icnf s \<noteq> c" using X(3) cpos by fastforce
    show "\<forall>r\<in>XC. cr_cnf r \<noteq> c" using X(4) cpos by fastforce
    show "validation_depth M1 = validation_depth L" using M1(4) posts_Cons.prems(12) by (simp add: same_settings_def)
    assume v0: "validation_depth L = 0"
    show "\<forall>u\<in>set us. coin_hash (u_key u) \<noteq> tx_getHash (env_sha e) t \<and> u_key u \<notin> u_key ` XU"
    proof
      fix u assume u: "u \<in> set us"
      obtain w where w: "w \<in> set (unspents (db L))" "strip w = strip u" by (rule strip_row [OF sub u])
      have "coin_hash (u_key u) \<notin> set (h # map (tx_getHash (env_sha e)) (t # ts))"
        using posts_Cons.prems(15) [OF v0] w(1) strip_eqD [OF w(2)] by metis
      then show "coin_hash (u_key u) \<noteq> tx_getHash (env_sha e) t \<and> u_key u \<notin> u_key ` XU"
        using posts_Cons.prems(8) by auto
    qed
  qed
  then obtain M' where M': "rollbackConfirmation e c M1 = (Inr (), M')" "view_of (db M') = add_view (view_of (db L)) (XU, XS, XC)"
    "rollable M'" "same_settings M1 M'" "distinct (spendings (db M'))" "blocks (db M') = blocks (db M1)"
    "auxpows (db M') = auxpows (db M1)" by blast
  have "each_do (rollbackConfirmation e) (rev (c # cs)) M = (Inr (), M')"
    using M1(1) M'(1) by (simp add: each_do_append next_do_def give_def)
  then show ?case using M' M1(4,6,7) by (intro exI [of _ M']) (auto intro: same_settings_trans)
qed


text \<open>The confirmations of a block, in the order of its transactions.\<close>

fun post_confs :: "int \<Rightarrow> nat \<Rightarrow> transaction list \<Rightarrow> int list \<Rightarrow> conf_row list" where
  "post_confs bc i (t # ts) (c # cs) = conf_row_of t c bc (int i) # post_confs bc (Suc i) ts cs"
| "post_confs bc i _ _ = []"

lemma posts_confs:
  "posts e bc i ts cs f f' L L2 \<Longrightarrow> bc \<ge> purge_depth L \<Longrightarrow> confs (db L2) = confs (db L) @ post_confs bc i ts cs"
proof (induction rule: posts.induct)
  case (posts_Cons t i c us N L L1 f1 f ts cs f' L2)
  have "confs (db L1) = confs (db L) @ [conf_row_of t c bc (int i)]"
    using posts_Cons.hyps(1) posts_Cons.prems by (simp add: tx_effect_def Let_def)
  moreover have "purge_depth L1 = purge_depth L" using tx_effect_frame(1) [OF posts_Cons.hyps(1)] by (simp add: same_settings_def)
  ultimately show ?case using posts_Cons.IH posts_Cons.prems by simp
qed simp

lemma post_confs_idx: "r \<in> set (post_confs bc i ts cs) \<Longrightarrow> cr_count r = bc \<and> int i \<le> cr_idx r"
  by (induction bc i ts cs rule: post_confs.induct) (auto simp: conf_row_of_def)

lemma post_confs_cnfs: "length cs = length ts \<Longrightarrow> map cr_cnf (post_confs bc i ts cs) = cs"
  by (induction bc i ts cs rule: post_confs.induct) (auto simp: conf_row_of_def)

lemma post_confs_sorted: "sorted (map cr_idx (post_confs bc i ts cs))"
proof (induction bc i ts cs rule: post_confs.induct)
  case (1 bc i t ts c cs)
  have "int i \<le> cr_idx r" if "r \<in> set (post_confs bc (Suc i) ts cs)" for r using post_confs_idx [OF that] by simp
  then show ?case using 1 by (simp add: conf_row_of_def)
qed simp_all

lemma foldr_insort_last:
  "sorted (map f xs) \<Longrightarrow> \<forall>x\<in>set xs. f y < f x \<Longrightarrow> foldr (insort_key f) xs [y] = y # xs"
proof (induction xs)
  case (Cons x xs)
  have "insort_key f x xs = x # xs" using Cons.prems(1) by (intro insort_is_Cons) auto
  then show ?case using Cons by (auto simp: not_le)
qed simp

lemma sort_key_last_first:
  "sorted (map f xs) \<Longrightarrow> \<forall>x\<in>set xs. f y < f x \<Longrightarrow> sort_key f (xs @ [y]) = y # xs"
  by (simp add: sort_key_def foldr_insort_last)

text \<open>The coinbase is taken back last.\<close>

lemma rollback_coinbase:
  assumes view: "view_of (db M) = add_view (view_of (db L)) (strip ` set new, {subsidy_row txn bc v}, {conf_row_of txn (- bc) bc 0})"
    and ok: "refs_ok (db L)" and fresh: "\<forall>u\<in>set (unspents (db L)). u_cnf u \<noteq> - bc" "\<forall>s\<in>set (spendings (db L)). sr_coin s \<noteq> - bc"
      "\<forall>r\<in>set (confs (db L)). cr_cnf r \<noteq> - bc"
    and bc: "0 < bc" and new: "\<forall>u\<in>set new. u_cnf u = - bc \<and> next_coin (db L) \<le> u_coin u"
  shows "\<exists>M'. rollbackConfirmation e (- bc) M = (Inr (), M') \<and> view_of (db M') = view_of (db L) \<and>
    blocks (db M') = blocks (db M) \<and> auxpows (db M') = auxpows (db M)"
proof -
  note v = view [unfolded view_of_def add_view.simps prod.inject]
  have count: "conf_count (- bc) (db M) = bc"
  proof -
    obtain r where r: "List.find (\<lambda>r. cr_cnf r = - bc) (confs (db M)) = Some r"
      using v bc by (cases "List.find (\<lambda>r. cr_cnf r = - bc) (confs (db M))") (auto simp: find_None_iff conf_row_of_def)
    then have "r \<in> set (confs (db M))" "cr_cnf r = - bc" by (auto simp: find_Some_iff)
    then have "r = conf_row_of txn (- bc) bc 0" using v fresh(3) by auto
    then show ?thesis using r by (simp add: conf_count_def conf_row_of_def)
  qed
  let ?M = "rollback_tries e (- bc) bc M"
  have M: "db ?M = db M" by (simp add: rollback_tries_def Let_def)
  let ?d = "delete_spendings (\<lambda>s. sr_coin s = - bc) (db M)"
  let ?M' = "?M\<lparr>db := forget_outputs (env_chain e) (- bc) ?d\<rparr>"
  have "rollbackConfirmation e (- bc) M = (Inr (), ?M')"
    using bc by (simp add: rollbackConfirmation_def Let_def count restore_inputs_def M)
  moreover have "view_of (db ?M') = view_of (db L)"
  proof -
    have U: "strip ` set (unspents (db ?M')) = strip ` set (unspents (db L))"
    proof -
      have "strip ` set (unspents (db ?M')) = {u \<in> strip ` set (unspents (db M)). u_cnf u \<noteq> - bc}"
        using strip_filter [of "set (unspents (db M))" "\<lambda>u. u_cnf u \<noteq> - bc"] by simp
      also have "\<dots> = strip ` set (unspents (db L))" using v new fresh(1) by auto
      finally show ?thesis .
    qed
    have S: "set (spendings (db ?M')) = set (spendings (db L))" using v fresh(2) by (auto simp: subsidy_row_def)
    have C: "set (confs (db ?M')) = set (confs (db L))" using v fresh(3) by (auto simp: conf_row_of_def)
    have gone: "(\<exists>u\<in>set (unspents (db M)). u_cnf u = - bc \<and> u_coin u = k) \<longrightarrow> next_coin (db L) \<le> k" for k
    proof -
      have "(\<exists>u\<in>set (unspents (db M)). u_cnf u = - bc \<and> u_coin u = k) \<longleftrightarrow>
          (\<exists>u\<in>strip ` set (unspents (db M)). u_cnf u = - bc \<and> u_coin u = k)" by simp
      then show ?thesis using v new fresh(1) by auto
    qed
    have "set (names (db ?M')) = set (names (db L))"
      using v gone ok by (auto simp: refs_ok_def) (metis not_le)
    then show ?thesis by (simp only: view_of_def U S C)
  qed
  ultimately show ?thesis by (intro exI [of _ ?M']) (simp add: M)
qed

text \<open>The state between blocks.\<close>

definition ledger_ok :: "env \<Rightarrow> ledger \<Rightarrow> bool" where
  "ledger_ok e L \<longleftrightarrow> coherent e L \<and> refs_ok (db L) \<and> distinct (map cr_cnf (confs (db L)))"

text \<open>
  That the row of a confirmation is there: every number but those that stand for no confirmation and for one from
  before the purge. The coinbase of a block below the purge depth has a number without a row. Purging takes rows away
  and leaves the numbers.
\<close>

definition cnf_stored :: "database \<Rightarrow> int \<Rightarrow> bool" where
  "cnf_stored d c \<longleftrightarrow> c = 0 \<or> c = LOCKTIME_THRESHOLD \<or> c \<in> cr_cnf ` set (confs d) \<or> c < 0 \<and> - c \<in> block_counts d"

definition rows_there :: "database \<Rightarrow> bool" where
  "rows_there d \<longleftrightarrow> (\<forall>u\<in>set (unspents d). cnf_stored d (u_cnf u)) \<and>
     (\<forall>s\<in>set (spendings d). cnf_stored d (sr_ocnf s) \<and> cnf_stored d (sr_icnf s))"

lemma cnf_stored_mono:
  "cnf_stored d c \<Longrightarrow> set (confs d) \<subseteq> set (confs d') \<Longrightarrow> block_counts d \<subseteq> block_counts d' \<Longrightarrow> cnf_stored d' c"
  unfolding cnf_stored_def by blast

lemma tx_effect_rows:
  assumes eff: "tx_effect e t bc i c us N L L1" and rows: "rows_there (db L)"
  shows "rows_there (db L1)"
proof -
  let ?conf = "\<lparr>cf_cnf = c, cf_count = bc\<rparr>" and ?n = "next_coin (db L)"
  let ?new = "new_unspents ?conf (tx_getHash (env_sha e) t) 0 ?n (tx_outputs t)"
  have sub: "strip ` set us \<subseteq> strip ` set (unspents (db L))"
    and c: "c = (if bc \<ge> purge_depth L then next_cnf (db L) else LOCKTIME_THRESHOLD)"
    and d: "confs (db L1) = confs (db L) @ (if bc \<ge> purge_depth L then [conf_row_of t c bc i] else [])"
      "spendings (db L1) = spendings (db L) @ (if bc \<ge> purge_depth L then spend_rows ?conf 0 (tx_inputs t) us else [])"
      "unspents (db L1) = filter (\<lambda>v. u_coin v \<notin> u_coin ` set us) (unspents (db L)) @ ?new" "blocks (db L1) = blocks (db L)"
    using eff by (simp_all add: tx_effect_def Let_def)
  have mono: "cnf_stored (db L) k \<Longrightarrow> cnf_stored (db L1) k" for k
    by (rule cnf_stored_mono) (auto simp: d block_counts_def)
  have kc: "cnf_stored (db L1) c" by (auto simp: cnf_stored_def d(1) c conf_row_of_def)
  have old: "cnf_stored (db L1) (u_cnf u)" if "u \<in> set us" for u
  proof -
    obtain w where "w \<in> set (unspents (db L))" "strip w = strip u" by (rule strip_row [OF sub \<open>u \<in> set us\<close>])
    then show ?thesis using rows mono strip_eqD [of w u] by (auto simp: rows_there_def)
  qed
  have "cnf_stored (db L1) (sr_ocnf s) \<and> cnf_stored (db L1) (sr_icnf s)" if s: "s \<in> set (spend_rows ?conf 0 (tx_inputs t) us)" for s
    using spend_rows_icnf [OF s] spend_rows_from [OF s] old kc by fastforce
  moreover have "cnf_stored (db L1) (u_cnf u)" if u: "u \<in> set ?new" for u
    using new_unspents_cnf [OF u] kc by simp
  ultimately show ?thesis using rows mono by (auto simp: rows_there_def d split: if_splits)
qed

lemma posts_rows: "posts e bc i ts cs f f' L L2 \<Longrightarrow> rows_there (db L) \<Longrightarrow> rows_there (db L2)"
  by (induction rule: posts.induct) (auto dest: tx_effect_rows)

lemma posts_cnfs:
  "posts e bc i ts cs f f' L L2 \<Longrightarrow> distinct (map cr_cnf (confs (db L))) \<Longrightarrow> distinct (map cr_cnf (confs (db L2)))"
proof (induction rule: posts.induct)
  case (posts_Cons t i c us N L L1 f1 f ts cs f' L2)
  have "distinct (map cr_cnf (confs (db L1)))"
    using posts_Cons.hyps(1) posts_Cons.prems by (auto simp: tx_effect_def Let_def conf_row_of_def)
  then show ?case by (rule posts_Cons.IH)
qed simp

lemma subsidy_rows:
  assumes eff: "subsidy_effect e txn bc v L L'" and rows: "rows_there (db L)" and bc: "bc \<in> block_counts (db L)" "0 < bc"
  shows "rows_there (db L')"
proof -
  let ?new = "new_unspents \<lparr>cf_cnf = - bc, cf_count = bc\<rparr> (tx_getHash (env_sha e) txn) 0 (next_coin (db L)) (tx_outputs txn)"
  have d: "set (confs (db L)) \<subseteq> set (confs (db L'))" "unspents (db L') = unspents (db L) @ ?new" "blocks (db L') = blocks (db L)"
    "set (spendings (db L')) \<subseteq> Set.insert (subsidy_row txn bc v) (set (spendings (db L)))"
    using eff by (auto simp: subsidy_effect_def Let_def)
  have mono: "cnf_stored (db L) k \<Longrightarrow> cnf_stored (db L') k" for k
    by (rule cnf_stored_mono) (use d(1,3) in \<open>auto simp: block_counts_def\<close>)
  have k: "cnf_stored (db L') (- bc)" "cnf_stored (db L') 0" using bc d(3) by (simp_all add: cnf_stored_def block_counts_def)
  have "cnf_stored (db L') (u_cnf u)" if "u \<in> set ?new" for u using new_unspents_cnf [OF that] k by simp
  moreover have "cnf_stored (db L') (sr_ocnf (subsidy_row txn bc v)) \<and> cnf_stored (db L') (sr_icnf (subsidy_row txn bc v))"
    using k by (simp add: subsidy_row_def)
  ultimately show ?thesis using rows mono d(2,4) unfolding rows_there_def by (auto dest!: subsetD [OF d(4)])
qed

lemma header_refs:
  assumes "header_effect e bc b L L1" and "refs_ok (db L)"
  shows "refs_ok (db L1)" and "bc \<in> block_counts (db L1)" and "view_of (db L1) = view_of (db L)"
    and "next_cnf (db L1) = next_cnf (db L)" and "next_coin (db L1) = next_coin (db L)" and "same_settings L L1"
    and "confs (db L1) = confs (db L)" and "unspents (db L1) = unspents (db L)" and "spendings (db L1) = spendings (db L)"
proof -
  have bc: "block_counts (db L1) = Set.insert bc (block_counts (db L))"
    using assms(1) by (auto simp: header_effect_def block_counts_def)
  then show "bc \<in> block_counts (db L1)" by simp
  show same: "view_of (db L1) = view_of (db L)" "next_cnf (db L1) = next_cnf (db L)" "next_coin (db L1) = next_coin (db L)"
    "same_settings L L1" "confs (db L1) = confs (db L)" "unspents (db L1) = unspents (db L)" "spendings (db L1) = spendings (db L)"
    using assms(1) by (simp_all add: header_effect_def view_of_def same_settings_def)
  have mono: "cnf_known (db L) k \<Longrightarrow> cnf_known (db L1) k" for k
    by (rule cnf_known_mono) (auto simp: bc same)
  have n: "names (db L1) = names (db L)" using assms(1) by (simp add: header_effect_def)
  have a: "\<forall>r\<in>set (auxpows (db L1)). fst r \<in> block_counts (db L1)"
    using assms unfolding bc by (auto simp: header_effect_def refs_ok_def)
  show "refs_ok (db L1)"
    using assms(2) mono a unfolding refs_ok_def same n bc by blast
qed


lemma posts_refs:
  "posts e bc i ts cs f f' L L2 \<Longrightarrow> refs_ok (db L) \<Longrightarrow> coherent e L \<Longrightarrow> bc \<in> block_counts (db L) \<Longrightarrow> refs_ok (db L2)"
proof (induction rule: posts.induct)
  case (posts_Cons t i c us N L L1 f1 f ts cs f' L2)
  have "bc \<in> block_counts (db L1)"
    using posts_Cons.prems(3) tx_effect_frame(2) [OF posts_Cons.hyps(1)] by (simp add: block_counts_def)
  then show ?case
    using posts_Cons.IH tx_effect_refs [OF posts_Cons.hyps(1) posts_Cons.prems] tx_effect_coherent [OF posts_Cons.hyps(1)] by simp
qed simp

lemma subsidy_refs:
  assumes eff: "subsidy_effect e txn bc v L L'" and ok: "refs_ok (db L)" and bc: "bc \<in> block_counts (db L)" "0 < bc"
  shows "refs_ok (db L')"
proof -
  let ?new = "new_unspents \<lparr>cf_cnf = - bc, cf_count = bc\<rparr> (tx_getHash (env_sha e) txn) 0 (next_coin (db L)) (tx_outputs txn)"
  let ?stored = "bc \<ge> purge_depth L"
  have d: "db L' = (db L)\<lparr>
        confs := confs (db L) @ (if ?stored then [conf_row_of txn (- bc) bc 0] else []),
        next_cnf := (if ?stored then max (next_cnf (db L)) (1 - bc) else next_cnf (db L)),
        spendings := spendings (db L) @ (if ?stored then [subsidy_row txn bc v] else []),
        unspents := unspents (db L) @ ?new, next_coin := next_coin (db L) + int (length (tx_outputs txn))\<rparr>"
    and fresh: "?stored \<Longrightarrow> - bc \<notin> sr_coin ` set (spendings (db L))"
    using eff by (simp_all add: subsidy_effect_def Let_def)
  have counts: "block_counts (db L') = block_counts (db L)" by (simp add: d block_counts_def)
  have nc: "next_cnf (db L') = next_cnf (db L)" using ok bc(2) by (simp add: d refs_ok_def)
  have mono: "cnf_known (db L') k = cnf_known (db L) k" for k by (simp add: cnf_known_def counts nc)
  have kc: "cnf_known (db L) (- bc)" "cnf_known (db L) 0" using bc by (simp_all add: cnf_known_def)
  have new: "u_cnf u = - bc \<and> next_coin (db L) \<le> u_coin u" if "u \<in> set ?new" for u
    using new_unspents_cnf [OF that] new_unspents_ge [OF that] by simp
  have U: "\<forall>u\<in>set (unspents (db L')). cnf_known (db L') (u_cnf u) \<and> 0 \<le> u_coin u"
  proof
    fix u assume "u \<in> set (unspents (db L'))"
    then consider "u \<in> set (unspents (db L))" | "u \<in> set ?new" by (auto simp: d)
    then show "cnf_known (db L') (u_cnf u) \<and> 0 \<le> u_coin u"
    proof cases
      case 2
      have "0 \<le> next_coin (db L)" using ok by (simp add: refs_ok_def)
      then show ?thesis using new [OF 2] kc by (simp add: mono)
    qed (use ok in \<open>simp add: mono refs_ok_def\<close>)
  qed
  have Sp: "set (spendings (db L')) \<subseteq> Set.insert (subsidy_row txn bc v) (set (spendings (db L)))" by (auto simp: d)
  have old: "\<forall>s\<in>set (spendings (db L)). cnf_known (db L) (sr_ocnf s) \<and> cnf_known (db L) (sr_icnf s) \<and> sr_coin s < next_coin (db L) \<and>
      (sr_coin s < 0 \<longrightarrow> - sr_coin s \<in> block_counts (db L))" and n0: "0 \<le> next_coin (db L)"
    using ok by (simp_all add: refs_ok_def)
  have S1: "\<forall>s\<in>set (spendings (db L')). cnf_known (db L') (sr_ocnf s) \<and> cnf_known (db L') (sr_icnf s) \<and>
      sr_coin s < next_coin (db L') \<and> (sr_coin s < 0 \<longrightarrow> - sr_coin s \<in> block_counts (db L'))"
  proof
    fix s assume "s \<in> set (spendings (db L'))"
    then consider "s \<in> set (spendings (db L))" | "s = subsidy_row txn bc v" using Sp by blast
    then show "cnf_known (db L') (sr_ocnf s) \<and> cnf_known (db L') (sr_icnf s) \<and>
      sr_coin s < next_coin (db L') \<and> (sr_coin s < 0 \<longrightarrow> - sr_coin s \<in> block_counts (db L'))"
    proof cases
      case 1
      have "next_coin (db L) \<le> next_coin (db L')" by (simp add: d)
      then show ?thesis using bspec [OF old 1] by (simp add: mono counts)
    next
      case 2
      have "0 \<le> next_coin (db L')" using n0 by (simp add: d)
      then show ?thesis using kc bc unfolding 2 mono counts by (simp add: subsidy_row_def)
    qed
  qed
  have dist: "distinct (map sr_coin (spendings (db L')))" using ok fresh by (auto simp: d refs_ok_def subsidy_row_def)
  have disj: "sr_coin ` set (spendings (db L')) \<inter> u_coin ` set (unspents (db L')) = {}"
  proof (rule equals0I)
    fix k assume k: "k \<in> sr_coin ` set (spendings (db L')) \<inter> u_coin ` set (unspents (db L'))"
    then obtain u where u: "u \<in> set (unspents (db L'))" "k = u_coin u" by blast
    then have "0 \<le> k" using U by blast
    moreover obtain s where "s \<in> set (spendings (db L'))" "k = sr_coin s" using k by blast
    ultimately have s: "s \<in> set (spendings (db L))" "k = sr_coin s" using Sp bc(2) by (auto simp: subsidy_row_def)
    then have "k < next_coin (db L)" using old by blast
    then have "u \<in> set (unspents (db L))" using u new by (fastforce simp: d)
    then show False using s u(2) ok unfolding refs_ok_def by blast
  qed
  have C: "\<forall>r\<in>set (confs (db L')). cnf_known (db L') (cr_cnf r) \<and> cr_count r \<in> block_counts (db L')"
    using ok kc bc unfolding counts mono by (auto simp: d refs_ok_def conf_row_of_def)
  have A: "\<forall>r\<in>set (auxpows (db L')). fst r \<in> block_counts (db L')" using ok unfolding counts by (simp add: d refs_ok_def)
  have "\<forall>r\<in>set (names (db L')). nr_coin r < next_coin (db L')" using ok by (fastforce simp: d refs_ok_def)
  moreover have "0 < next_cnf (db L')" "0 \<le> next_coin (db L')" using ok n0 nc by (auto simp: d refs_ok_def)
  ultimately show ?thesis unfolding refs_ok_def using U S1 dist disj C A by blast
qed

lemma attach_ledger_ok:
  assumes "attach e mem claimed best_height now blk b maps L = (Inr maps', L')" and "ledger_ok e L"
    and "sint (bp_time blk) > timeStamp (env_chain e) BIP0030" and "0 < bp_count blk"
  shows "ledger_ok e L'" and "rows_there (db L) \<Longrightarrow> rows_there (db L')"
proof -
  have ok: "coherent e L" "refs_ok (db L)" "distinct (map cr_cnf (confs (db L)))" using assms(2) by (simp_all add: ledger_ok_def)
  obtain L1 L2 cs fees v where h: "header_effect e (bp_count blk) b L L1"
    and p: "posts e (bp_count blk) 1 (tl (transactions b)) cs 0 fees L1 L2"
    and s: "subsidy_effect e (transactions b ! 0) (bp_count blk) v L2 L'"
    using attach_effect [OF assms(1) ok(1) assms(3)] by blast
  note hr = header_refs [OF h ok(2)]
  have c1: "coherent e L1" using coherent_header [OF h] ok(1) by simp
  have "refs_ok (db L2)" by (rule posts_refs [OF p hr(1) c1 hr(2)])
  then have "refs_ok (db L')" using subsidy_refs [OF s] hr(2) posts_counts [OF p] assms(4) by simp
  moreover have "coherent e L'" using s by (simp add: subsidy_effect_def Let_def)
  moreover have "distinct (map cr_cnf (confs (db L')))"
    using posts_cnfs [OF p] ok(3) s by (auto simp: hr(7) subsidy_effect_def Let_def conf_row_of_def)
  ultimately show "ledger_ok e L'" by (simp add: ledger_ok_def)
  assume rows: "rows_there (db L)"
  have "rows_there (db L1)"
  proof -
    have "cnf_stored (db L) k \<Longrightarrow> cnf_stored (db L1) k" for k
      by (rule cnf_stored_mono) (use h in \<open>auto simp: header_effect_def block_counts_def\<close>)
    then show ?thesis using rows by (simp add: rows_there_def hr(8,9))
  qed
  then have "rows_there (db L2)" by (rule posts_rows [OF p])
  then show "rows_there (db L')" using subsidy_rows [OF s] hr(2) posts_counts [OF p] assms(4) by simp
qed

text \<open>C5: Attaching a block, later than the rule that transactions are unique, keeps the ledger well formed. The numbers of
  coins, of spendings and of confirmations are unique. Numbers of coins are below the next one; a number of a confirmation
  is a counted one below the next, or minus the count of a block that is there, or stands for no confirmation or a purged
  one, and where all counted confirmations that the tables refer to have their rows, that stays so. Proofs of work and
  confirmations belong to blocks that are there, names to numbers of coins that were given. No coin is both unspent and
  spent. With the unique index no coin is there twice; without it both tries stay well formed, hold coins of the table
  only (but for the count), and no coin is in both.\<close>

theorem attach_keeps_ledger_ok:
  assumes "attach e mem claimed best_height now blk b maps L = (Inr maps', L')" and "ledger_ok e L"
    and "sint (bp_time blk) > timeStamp (env_chain e) BIP0030" and "0 < bp_count blk"
  shows "ledger_ok e L' \<and> (rows_there (db L) \<longrightarrow> rows_there (db L'))"
  using attach_ledger_ok [OF assms] by blast

text \<open>The confirmations of a block just attached: the coinbase, which was stored last, comes first.\<close>

lemma attached_confs:
  assumes "refs_ok (db L)" and "bc \<notin> block_counts (db L)" and "length cs = length ts"
    and "confs (db L') = confs (db L) @ post_confs bc 1 ts cs @ [conf_row_of cb c bc 0]"
  shows "map cr_cnf (confs_of bc (db L')) = c # cs"
proof -
  have "filter (\<lambda>r. cr_count r = bc) (confs (db L)) = []" using assms(1,2) by (auto simp: filter_empty_conv refs_ok_def)
  moreover have "filter (\<lambda>r. cr_count r = bc) (post_confs bc 1 ts cs) = post_confs bc 1 ts cs"
    by (rule filter_True) (use post_confs_idx in blast)
  ultimately have "filter (\<lambda>r. cr_count r = bc) (confs (db L')) = post_confs bc 1 ts cs @ [conf_row_of cb c bc 0]"
    by (simp add: assms(4) conf_row_of_def)
  moreover have "\<forall>r\<in>set (post_confs bc 1 ts cs). 0 < cr_idx r" using post_confs_idx by force
  ultimately have "confs_of bc (db L') = conf_row_of cb c bc 0 # post_confs bc 1 ts cs"
    unfolding confs_of_def by (simp add: sort_key_last_first post_confs_sorted conf_row_of_def)
  then show ?thesis using post_confs_cnfs [of cs ts] assms(3) by (simp add: conf_row_of_def)
qed

text \<open>What is left to take back when the confirmations are gone: the block and its proof of work.\<close>

lemma rollbackBlock_rows:
  assumes "each_do (rollbackConfirmation e) (rev (map cr_cnf (confs_of bc (db L')))) L' = (Inr (), M')"
    and "header_effect e bc b L L1" and "refs_ok (db L)"
    and "blocks (db M') = blocks (db L1)" and "auxpows (db M') = auxpows (db L1)" and "view_of (db M') = view_of (db L)"
  shows "\<exists>M. rollbackBlock e bc L' = (Inr (), M) \<and> view_of (db M) = view_of (db L) \<and>
    unspents (db M) = unspents (db M') \<and> blocks (db M) = blocks (db L) \<and> auxpows (db M) = auxpows (db L)"
proof -
  have r: "rollbackBlock e bc L' = (Inr (), update_db (\<lambda>d. d\<lparr>blocks := filter (\<lambda>r. br_count r \<noteq> bc) (blocks d),
      auxpows := filter (\<lambda>r. fst r \<noteq> bc) (auxpows d)\<rparr>) M')"
    using assms(1) by (simp add: rollbackBlock_def next_do_def)
  have nb: "bc \<notin> block_counts (db L)" using assms(2) by (simp add: header_effect_def)
  have "filter (\<lambda>r. br_count r \<noteq> bc) (blocks (db L)) = blocks (db L)" "filter (\<lambda>r. fst r \<noteq> bc) (auxpows (db L)) = auxpows (db L)"
    using nb assms(3) unfolding filter_id_conv refs_ok_def block_counts_def by (metis imageI)+
  then have "filter (\<lambda>r. br_count r \<noteq> bc) (blocks (db M')) = blocks (db L)"
    "filter (\<lambda>r. fst r \<noteq> bc) (auxpows (db M')) = auxpows (db L)"
    using assms(2,4,5) by (simp_all add: header_effect_def)
  then show ?thesis using assms(6) unfolding r by (simp add: view_of_def)
qed

text \<open>Coins that a rollback does not concern stay as they are, count included.\<close>

lemma rollback_keeps_coin:
  assumes "rollbackConfirmation e c M = (Inr (), M')" and "u \<in> set (unspents (db M))" and "u_cnf u \<noteq> c"
  shows "u \<in> set (unspents (db M'))"
proof -
  let ?T = "rollback_tries e c (conf_count c (db M)) M"
  have T: "db ?T = db M" by (simp add: rollback_tries_def Let_def)
  obtain d where d: "restore_inputs (validation_depth ?T = 0) c (conf_count c (db M)) (db M) = Inr d" "db M' = forget_outputs (env_chain e) c d"
    using assms(1) T by (auto simp: rollbackConfirmation_def Let_def split: sum.splits)
  have "u \<in> set (unspents d)"
    using d(1) assms(2) by (auto simp: restore_inputs_def Let_def insert_unspents_def split: if_splits)
  then show ?thesis using assms(3) by (simp add: d(2))
qed

lemma each_rollback_keeps_coin:
  "each_do (rollbackConfirmation e) cs M = (Inr (), M') \<Longrightarrow> u \<in> set (unspents (db M)) \<Longrightarrow> u_cnf u \<notin> set cs \<Longrightarrow>
     u \<in> set (unspents (db M'))"
  by (induction cs arbitrary: M) (auto simp: next_do_Inr dest: rollback_keeps_coin)

lemma coinbase_unspents:
  "rollbackConfirmation e (- bc) M = (Inr (), M') \<Longrightarrow> 0 < bc \<Longrightarrow> set (unspents (db M')) \<subseteq> set (unspents (db M))"
  by (auto simp: rollbackConfirmation_def Let_def restore_inputs_def rollback_tries_def split: if_splits)

lemma posts_numbers:
  "posts e bc i ts cs f f' L L2 \<Longrightarrow> bc \<ge> purge_depth L \<Longrightarrow> set cs \<subseteq> {next_cnf (db L) ..< next_cnf (db L) + int (length ts)}"
proof (induction rule: posts.induct)
  case (posts_Cons t i c us N L L1 f1 f ts cs f' L2)
  note frame = tx_effect_frame [OF posts_Cons.hyps(1)]
  have "purge_depth L1 = purge_depth L" using frame(1) by (simp add: same_settings_def)
  then have "set cs \<subseteq> {next_cnf (db L1) ..< next_cnf (db L1) + int (length ts)}" using posts_Cons.IH posts_Cons.prems by simp
  then show ?case using frame(6) posts_Cons.prems by fastforce
qed simp

text \<open>Sets of rows that agree apart from the count, where the rows outside \<open>C\<close> are those that may differ.\<close>

lemma counts_apart:
  assumes "strip ` A = strip ` B" and "inj_on u_coin A" and "B \<inter> C \<subseteq> A"
  shows "\<exists>f. A = (\<lambda>u. if u \<in> C then u else u\<lparr>u_count := f u\<rparr>) ` B"
proof -
  have uniq: "w = w'" if "w \<in> A" "w' \<in> A" "strip w = strip w'" for w w'
    using inj_onD [OF assms(2) _ that(1,2)] strip_eqD [OF that(3)] by simp
  have eq: "w = u\<lparr>u_count := u_count w\<rparr>" if "strip w = strip u" for w u
    using strip_eqD [OF that] by simp
  define f where "f u = u_count (SOME w. w \<in> A \<and> strip w = strip u)" for u
  let ?h = "\<lambda>u. if u \<in> C then u else u\<lparr>u_count := f u\<rparr>"
  have h: "?h u \<in> A \<and> strip (?h u) = strip u" if u: "u \<in> B" for u
  proof (cases "u \<in> C")
    case True
    then show ?thesis using u assms(3) by auto
  next
    case False
    have "\<exists>w. w \<in> A \<and> strip w = strip u" using u assms(1) by (metis imageE imageI)
    from someI_ex [OF this] have "(SOME w. w \<in> A \<and> strip w = strip u) \<in> A \<and> strip (SOME w. w \<in> A \<and> strip w = strip u) = strip u" .
    moreover from this have "u\<lparr>u_count := f u\<rparr> = (SOME w. w \<in> A \<and> strip w = strip u)" unfolding f_def using eq by metis
    ultimately show ?thesis using False by simp
  qed
  have "A = ?h ` B"
  proof (intro equalityI subsetI)
    fix w assume w: "w \<in> A"
    then obtain u where u: "u \<in> B" "strip w = strip u" using assms(1) by (metis imageE imageI)
    have "w = ?h u" by (rule uniq [OF w conjunct1 [OF h [OF u(1)]]]) (simp only: u(2) h [OF u(1)])
    then show "w \<in> ?h ` B" using u(1) by blast
  next
    fix w assume "w \<in> ?h ` B"
    then obtain u where "u \<in> B" "w = ?h u" by (rule imageE)
    then show "w \<in> A" using h [of u] by simp
  qed
  then show ?thesis by blast
qed

text \<open>C4: Taking back the block that was just attached restores the tables, up to one column. \<open>rollbackBlock\<close> returns, and
  spendings, confirmations, names, blocks and proofs of work are what they were; so are the unspent coins that the block
  did not spend, and every coin it spent is there again with its outpoint, output, number and confirmation, but with some other
  count \<open>f u\<close>: that column the code does not restore. Whatever the transactions of the block spent of each other, nothing of
  them stays. It is assumed that the block is later than the rule that transactions are unique, that it is not below the purge
  depth, so that its confirmations were stored, that their numbers stay below the one that stands for a purged one, and with the
  unique index that its transactions have different hashes, of which no unspent coin has one.\<close>

theorem rollback_undoes_attach:
  assumes "attach e mem claimed best_height now blk b maps L = (Inr maps', L')" and "ledger_ok e L"
    and "sint (bp_time blk) > timeStamp (env_chain e) BIP0030" and "0 < bp_count blk" and "purge_depth L \<le> bp_count blk"
    and "next_cnf (db L) + int (length (transactions b)) \<le> LOCKTIME_THRESHOLD" and "transactions b \<noteq> []"
    and "validation_depth L = 0 \<Longrightarrow> distinct (map (tx_getHash (env_sha e)) (transactions b)) \<and>
      (\<forall>u\<in>set (unspents (db L)). coin_hash (u_key u) \<notin> set (map (tx_getHash (env_sha e)) (transactions b)))"
  shows "\<exists>M f. rollbackBlock e (bp_count blk) L' = (Inr (), M) \<and>
    set (unspents (db M)) = (\<lambda>u. if u \<in> set (unspents (db L')) then u else u\<lparr>u_count := f u\<rparr>) ` set (unspents (db L)) \<and>
    set (spendings (db M)) = set (spendings (db L)) \<and> set (confs (db M)) = set (confs (db L)) \<and>
    set (names (db M)) = set (names (db L)) \<and> blocks (db M) = blocks (db L) \<and> auxpows (db M) = auxpows (db L)"
proof -
  let ?bc = "bp_count blk" and ?cb = "transactions b ! 0" and ?ts = "tl (transactions b)"
  have ok: "coherent e L" "refs_ok (db L)" using assms(2) by (simp_all add: ledger_ok_def)
  have txns: "transactions b = ?cb # ?ts" using assms(7) by (cases "transactions b") simp_all
  obtain L1 L2 cs fees v where h: "header_effect e ?bc b L L1" and p: "posts e ?bc 1 ?ts cs 0 fees L1 L2"
    and s: "subsidy_effect e ?cb ?bc v L2 L'"
    using attach_effect [OF assms(1) ok(1) assms(3)] by blast
  note hr = header_refs [OF h ok(2)] and same = posts_same [OF p]
  have c1: "coherent e L1" using coherent_header [OF h] ok(1) by simp
  have r2: "refs_ok (db L2)" by (rule posts_refs [OF p hr(1) c1 hr(2)])
  have st: "purge_depth L1 = purge_depth L" "validation_depth L1 = validation_depth L" "purge_depth L2 = purge_depth L"
    "validation_depth L2 = validation_depth L"
    using hr(6) same by (simp_all add: same_settings_def)
  let ?new = "new_unspents \<lparr>cf_cnf = - ?bc, cf_count = ?bc\<rparr> (tx_getHash (env_sha e) ?cb) 0 (next_coin (db L2)) (tx_outputs ?cb)"
  note d = s [unfolded subsidy_effect_def Let_def st(3)]
  have conf: "confs (db L') = confs (db L2) @ [conf_row_of ?cb (- ?bc) ?bc 0]"
    and spend: "spendings (db L') = spendings (db L2) @ [subsidy_row ?cb ?bc v]"
    and unsp: "unspents (db L') = unspents (db L2) @ ?new" and nam: "names (db L') = names (db L2)"
    and blks: "blocks (db L') = blocks (db L2)" "auxpows (db L') = auxpows (db L2)"
    and coh: "coherent e L'" and set': "validation_depth L' = validation_depth L"
    and fr: "- ?bc \<notin> sr_coin ` set (spendings (db L2))"
    using d assms(5) st(4) by (simp_all add: same_settings_def)
  have new: "u_cnf u = - ?bc \<and> next_coin (db L2) \<le> u_coin u \<and> coin_hash (u_key u) = tx_getHash (env_sha e) ?cb"
    if "u \<in> set ?new" for u
    using new_unspents_cnf [OF that] new_unspents_ge [OF that] new_unspents_hash [OF that] by simp
  define XU where "XU = strip ` set ?new"
  have view: "view_of (db L') = add_view (view_of (db L2)) (XU, {subsidy_row ?cb ?bc v}, {conf_row_of ?cb (- ?bc) ?bc 0})"
    by (auto simp: view_of_def conf spend unsp nam XU_def)
  have roll: "rollable L'" using coh set' by (simp add: rollable_def coherent_def coins_ok_def split: if_splits)
  have dist: "distinct (spendings (db L'))"
    using r2 fr by (auto simp: spend refs_ok_def distinct_map subsidy_row_def image_iff)
  have "\<exists>M. each_do (rollbackConfirmation e) (rev cs) L' = (Inr (), M) \<and>
    view_of (db M) = add_view (view_of (db L1)) (XU, {subsidy_row ?cb ?bc v}, {conf_row_of ?cb (- ?bc) ?bc 0}) \<and> rollable M \<and>
    same_settings L' M \<and> distinct (spendings (db M)) \<and> blocks (db M) = blocks (db L') \<and> auxpows (db M) = auxpows (db L')"
  proof (rule rollback_posts [OF p _ c1 hr(1,2) _ view _ _ _ _ roll _ dist])
    show "?bc \<ge> purge_depth L1" using assms(5) st by simp
    show "next_cnf (db L1) + int (length ?ts) \<le> LOCKTIME_THRESHOLD" using assms(6) hr(4) by simp
    show "strip ` XU = XU" by (auto simp: XU_def image_image)
    show "\<forall>u\<in>XU. u_cnf u < 0 \<and> next_coin (db L2) \<le> u_coin u \<and> coin_hash (u_key u) = tx_getHash (env_sha e) ?cb"
      using new assms(4) by (auto simp: XU_def)
    show "\<forall>s\<in>{subsidy_row ?cb ?bc v}. sr_icnf s < 0" "\<forall>r\<in>{conf_row_of ?cb (- ?bc) ?bc 0}. cr_cnf r < 0"
      using assms(4) by (simp_all add: subsidy_row_def conf_row_of_def)
    show "validation_depth L' = validation_depth L1" using set' st by simp
    assume "validation_depth L1 = 0"
    then have "validation_depth L = 0" using st by simp
    from assms(8) [OF this] show "distinct (tx_getHash (env_sha e) ?cb # map (tx_getHash (env_sha e)) ?ts)"
      and "\<forall>u\<in>set (unspents (db L1)). coin_hash (u_key u) \<notin> set (tx_getHash (env_sha e) ?cb # map (tx_getHash (env_sha e)) ?ts)"
      unfolding hr(8) by (metis list.simps(9) txns)+
  qed
  then obtain M where M: "each_do (rollbackConfirmation e) (rev cs) L' = (Inr (), M)"
    "view_of (db M) = add_view (view_of (db L1)) (XU, {subsidy_row ?cb ?bc v}, {conf_row_of ?cb (- ?bc) ?bc 0})" "rollable M"
    "blocks (db M) = blocks (db L')" "auxpows (db M) = auxpows (db L')" by blast
  have nb: "?bc \<notin> block_counts (db L)" using h by (simp add: header_effect_def)
  have fresh: "\<not> cnf_known (db L) (- ?bc)" using nb assms(4) ok(2) by (auto simp: cnf_known_def refs_ok_def LOCKTIME_THRESHOLD_def)
  have "\<exists>M'. rollbackConfirmation e (- ?bc) M = (Inr (), M') \<and> view_of (db M') = view_of (db L1) \<and>
    blocks (db M') = blocks (db M) \<and> auxpows (db M') = auxpows (db M)"
  proof (rule rollback_coinbase [OF M(2) [unfolded XU_def] hr(1) _ _ _ assms(4)])
    show "\<forall>u\<in>set (unspents (db L1)). u_cnf u \<noteq> - ?bc" "\<forall>r\<in>set (confs (db L1)). cr_cnf r \<noteq> - ?bc"
      using ok(2) fresh unfolding hr(7,8) refs_ok_def by metis+
    show "\<forall>s\<in>set (spendings (db L1)). sr_coin s \<noteq> - ?bc"
      using ok(2) nb assms(4) unfolding hr(9) refs_ok_def by fastforce
    show "\<forall>u\<in>set ?new. u_cnf u = - ?bc \<and> next_coin (db L1) \<le> u_coin u" using new same by fastforce
  qed
  then obtain M' where M': "rollbackConfirmation e (- ?bc) M = (Inr (), M')" "view_of (db M') = view_of (db L1)"
    "blocks (db M') = blocks (db M)" "auxpows (db M') = auxpows (db M)" by blast
  have cf: "confs (db L') = confs (db L) @ post_confs ?bc 1 ?ts cs @ [conf_row_of ?cb (- ?bc) ?bc 0]"
    using posts_confs [OF p] assms(5) st hr(7) by (simp add: conf)
  have len: "length cs = length ?ts" using same by simp
  have each: "each_do (rollbackConfirmation e) (rev (map cr_cnf (confs_of ?bc (db L')))) L' = (Inr (), M')"
    using M(1) M'(1) by (simp add: attached_confs [OF ok(2) nb len cf] each_do_append next_do_def give_def)
  have undone: "blocks (db M') = blocks (db L1)" "auxpows (db M') = auxpows (db L1)" "view_of (db M') = view_of (db L)"
    using M' M(4,5) blks same hr(3) by simp_all
  obtain R where R: "rollbackBlock e ?bc L' = (Inr (), R)" "view_of (db R) = view_of (db L)" "unspents (db R) = unspents (db M')"
    "blocks (db R) = blocks (db L)" "auxpows (db R) = auxpows (db L)"
    using rollbackBlock_rows [OF each h ok(2) undone] by blast
  have inj: "inj_on u_coin (set (unspents (db R)))"
    using M(3) coinbase_unspents [OF M'(1) assms(4)] unfolding rollable_def distinct_map R(3) by (metis inj_on_subset)
  have kept: "set (unspents (db L)) \<inter> set (unspents (db L')) \<subseteq> set (unspents (db R))"
  proof
    fix u assume u: "u \<in> set (unspents (db L)) \<inter> set (unspents (db L'))"
    have "cnf_known (db L) (u_cnf u)" using u ok(2) by (simp add: refs_ok_def)
    moreover have "set cs \<subseteq> {next_cnf (db L) ..< LOCKTIME_THRESHOLD}"
      using posts_numbers [OF p] assms(5,6) st hr(4) by fastforce
    moreover have "0 < next_cnf (db L)" using ok(2) by (simp add: refs_ok_def)
    ultimately have "u_cnf u \<notin> set cs" "u_cnf u \<noteq> - ?bc" using fresh by (auto simp: cnf_known_def)
    then have "u_cnf u \<notin> set (rev (map cr_cnf (confs_of ?bc (db L'))))" by (simp add: attached_confs [OF ok(2) nb len cf])
    then show "u \<in> set (unspents (db R))" using each_rollback_keeps_coin [OF each] u by (simp add: R(3))
  qed
  have same_coins: "strip ` set (unspents (db R)) = strip ` set (unspents (db L))" and tables: "set (spendings (db R)) = set (spendings (db L))"
    "set (confs (db R)) = set (confs (db L))" "set (names (db R)) = set (names (db L))"
    using R(2) by (simp_all add: view_of_def)
  obtain f where
    "set (unspents (db R)) = (\<lambda>u. if u \<in> set (unspents (db L')) then u else u\<lparr>u_count := f u\<rparr>) ` set (unspents (db L))"
    using counts_apart [OF same_coins inj kept] by blast
  then show ?thesis using R(1,4,5) tables by (intro exI conjI)
qed

section \<open>A block on a small ledger\<close>

definition sample_env :: env where
  "sample_env = \<lparr>env_chain = Testnet3, env_sha = (\<lambda>bs. if length bs \<le> 1 then bs else [word_of_nat (length bs)]), env_bn = ref_bn, env_crypto = ref_crypto,
     env_key = (\<lambda>_ _ _. True), env_random = (\<lambda>_ _. 0)\<rparr>"

definition sample_place :: "int \<Rightarrow> place" where
  "sample_place n = \<lparr>bp_count = n + 1, bp_height = n, bp_hash = 80, bp_time = 1400000000, bp_prev_hash = 0\<rparr>"

definition sample_coinbase :: transaction where
  "sample_coinbase = \<lparr>tx_version = 1, tx_inputs = [\<lparr>prevout = Coin 0 (- 1), signature = [1, 2], input_sequence = - 1\<rparr>],
     tx_outputs = [\<lparr>out_value = 7, out_script = [OP_RETURN]\<rparr>], tx_lockTime = 0\<rparr>"

definition spend_first :: "uint256 \<Rightarrow> script \<Rightarrow> transaction" where
  "spend_first h s = \<lparr>tx_version = 1, tx_inputs = [\<lparr>prevout = Coin h 0, signature = s, input_sequence = - 1\<rparr>],
     tx_outputs = [\<lparr>out_value = 3, out_script = []\<rparr>], tx_lockTime = 0\<rparr>"

definition sample_mined :: "transaction list \<Rightarrow> mined_block" where
  "sample_mined txns = \<lparr>header = \<lparr>bh_version = 1, bh_prevBlock = 0, bh_merkleRoot = 0, bh_time = 1400000000, bh_bits = 0x1d00ffff, bh_nonce = 0\<rparr>,
     transactions = txns, merkleTree = [], ignore_aux_pow = True, block_aux_pow = sample_aux\<rparr>"

definition sample_ledger :: ledger where
  "sample_ledger = \<lparr>db = \<lparr>blocks = [\<lparr>br_count = 1, br_hash = 0, br_header = (header (sample_mined []))\<lparr>bh_time := 1390000000\<rparr>\<rparr>], auxpows = [],
      confs = [\<lparr>cr_cnf = 1, cr_version = 1, cr_locktime = 0, cr_count = 1, cr_idx = 1\<rparr>],
      unspents = [\<lparr>u_key = Coin 7 0, u_output = \<lparr>out_value = 5, out_script = []\<rparr>, u_coin = 1, u_count = 1, u_cnf = 1\<rparr>],
      spendings = [], names = [], next_coin = 2, next_cnf = 2\<rparr>, spendables = empty_trie, immature = empty_trie,
      purge_depth = 0, validation_depth = 0, verification_depth = 0, jobs = []\<rparr>"

lemma sample_hash:
  "tx_getHash (env_sha sample_env) sample_coinbase = 63"
  "tx_getHash (env_sha sample_env) (spend_first h []) = 60"
  "tx_getHash (env_sha sample_env) (spend_first h [1]) = 61"
  by (simp_all add: tx_getHash_def Hash_def sample_env_def sample_coinbase_def spend_first_def bytes_to_uint256_def
      put_transaction_def put_vector_def put_varint_def put_input_def put_output_def put_coin_def put_script_def)

abbreviation sample_block :: mined_block where
  "sample_block \<equiv> sample_mined [sample_coinbase, spend_first 7 [], spend_first 60 [1]]"

abbreviation sample_attach :: "(ledger_error + txn_map \<times> uint256 list) \<times> ledger" where
  "sample_attach \<equiv> attach sample_env (\<lambda>_. (0, 0)) (\<lambda>_. False) 1 0 (sample_place 1) sample_block ([], []) sample_ledger"

lemma sample_hashes: "distinct (map (tx_getHash (env_sha sample_env)) (transactions sample_block))"
  "7 \<notin> set (map (tx_getHash (env_sha sample_env)) (transactions sample_block))"
  by (simp_all add: sample_mined_def sample_hash)

lemma sample_ledger_ok: "ledger_ok sample_env sample_ledger"
  by (simp add: ledger_ok_def coherent_def coins_ok_def refs_ok_def cnf_known_def sample_ledger_def block_counts_def)

lemma sample_rows_there: "rows_there (db sample_ledger)"
  by (simp add: rows_there_def cnf_stored_def sample_ledger_def)

lemma sample_attach_returns: "\<exists>maps L. sample_attach = (Inr maps, L)"
proof -
  have t: "tx_inputs (spend_first h s) = [\<lparr>prevout = Coin h 0, signature = s, input_sequence = - 1\<rparr>]"
    "tx_outputs (spend_first h s) = [\<lparr>out_value = 3, out_script = []\<rparr>]" "tx_lockTime (spend_first h s) = 0" for h s
    by (simp_all add: spend_first_def)
  have e: "env_chain sample_env = Testnet3" by (simp add: sample_env_def)
  have c: "tx_inputs sample_coinbase = [\<lparr>prevout = Coin 0 (- 1), signature = [1, 2], input_sequence = - 1\<rparr>]"
    "tx_outputs sample_coinbase = [\<lparr>out_value = 7, out_script = [OP_RETURN]\<rparr>]" "tx_lockTime sample_coinbase = 0"
    by (simp_all add: sample_coinbase_def)
  show ?thesis
    by (simp add: Let_def tx_COIN_def word_sless_alt isSubsidy_def coin_isNull_def output_isNull_def out_amount_def testnet_subsidy_def halving_def adhere_names_def adhere_aux_pow_def checkPoints_def testnet3_checkpoints_def attach_def sample_mined_def sample_place_def sample_ledger_def sample_hash t e next_do_def insertBlockHeader_def
        update_db_def post_loop.simps postTransaction_def new_conf_def insert_conf_def give_def redeem_def unspent_at_def
        unspent_is_valid_def spend_coin_def insert_spending_def delete_unspents_def issue_def insert_unspent_def new_name_operation_def
        check_name_fees_def postSubsidy_def isCoinBase_def is_coinbase_conf_def getValueOut_def c
        checkPoints_def testnet3_checkpoints_def tx_final_def ChainRules.range_def verifier_success_def)
qed

theorem attach_keeps_ledger_ok_witness:
  "\<exists>maps L. sample_attach = (Inr maps, L) \<and> ledger_ok sample_env L \<and> rows_there (db L)"
proof -
  obtain maps L where a: "sample_attach = (Inr maps, L)" using sample_attach_returns by blast
  have "ledger_ok sample_env L \<and> (rows_there (db sample_ledger) \<longrightarrow> rows_there (db L))"
    by (rule attach_keeps_ledger_ok [OF a sample_ledger_ok]) (simp_all add: sample_place_def sample_env_def)
  with a sample_rows_there show ?thesis by blast
qed

theorem rollback_undoes_attach_witness:
  "\<exists>maps L M f. sample_attach = (Inr maps, L) \<and> rollbackBlock sample_env 2 L = (Inr (), M) \<and>
    set (unspents (db M)) = (\<lambda>u. if u \<in> set (unspents (db L)) then u else u\<lparr>u_count := f u\<rparr>) ` set (unspents (db sample_ledger))"
proof -
  obtain maps L where a: "sample_attach = (Inr maps, L)" using sample_attach_returns by blast
  have p: "bp_count (sample_place 1) = 2" by (simp add: sample_place_def)
  have "\<exists>M f. rollbackBlock sample_env (bp_count (sample_place 1)) L = (Inr (), M) \<and>
    set (unspents (db M)) = (\<lambda>u. if u \<in> set (unspents (db L)) then u else u\<lparr>u_count := f u\<rparr>) ` set (unspents (db sample_ledger)) \<and>
    set (spendings (db M)) = set (spendings (db sample_ledger)) \<and> set (confs (db M)) = set (confs (db sample_ledger)) \<and>
    set (names (db M)) = set (names (db sample_ledger)) \<and> blocks (db M) = blocks (db sample_ledger) \<and> auxpows (db M) = auxpows (db sample_ledger)"
  proof (rule rollback_undoes_attach [OF a sample_ledger_ok])
    show "distinct (map (tx_getHash (env_sha sample_env)) (transactions sample_block)) \<and>
      (\<forall>u\<in>set (unspents (db sample_ledger)). coin_hash (u_key u) \<notin> set (map (tx_getHash (env_sha sample_env)) (transactions sample_block)))"
      using sample_hashes by (simp add: sample_ledger_def)
  qed (simp_all add: sample_place_def sample_env_def sample_ledger_def sample_mined_def LOCKTIME_THRESHOLD_def)
  then obtain M f where "rollbackBlock sample_env 2 L = (Inr (), M)"
    "set (unspents (db M)) = (\<lambda>u. if u \<in> set (unspents (db L)) then u else u\<lparr>u_count := f u\<rparr>) ` set (unspents (db sample_ledger))"
    unfolding p by blast
  with a show ?thesis by (intro exI conjI)
qed

end
