(* ===== verification/LedgerSafety.thy ===== *)
theory LedgerSafety
  imports LedgerBlocks
begin

text \<open>
  What the ledger guarantees, and where it does not: no coin is spent twice, no block creates more than the
  subsidy, but a transaction seen before ends the verification of signatures of its block, and blocks that
  are taken back oldest first leave coins behind.
\<close>

section \<open>Spending twice\<close>

text \<open>C7: A coin that was redeemed cannot be redeemed again: on a coherent ledger the second attempt, by whatever
  input with the same coin, finds nothing, with the index of the database and with the trie alike, and it leaves
  the ledger as it is.\<close>

theorem double_spend_refused:
  assumes "redeem e inp i conf L = (Inr u, L')" and "coherent e L" and "prevout inp' = prevout inp"
  shows "redeem e inp' i' conf' L' = (Inl Coin_not_found, L')"
proof -
  let ?cls = "unspent_class (env_sha e)" and ?k = "prevout inp"
  show ?thesis
  proof (cases "validation_depth L = 0")
    case True
    obtain row where r: "row \<in> set (unspents (db L))" "strip row = strip u" "u_key u = ?k"
      "unspents (db L') = filter (\<lambda>v. u_coin v \<noteq> u_coin u) (unspents (db L))" "same_settings L L'"
      by (rule redeem_effect [OF assms(1,2)]) (simp add: delete_unspents_def)
    have inj: "inj_on u_key (set (unspents (db L)))" using assms(2) True by (simp add: coherent_def distinct_map)
    have "?k \<notin> u_key ` set (unspents (db L'))"
    proof
      assume "?k \<in> u_key ` set (unspents (db L'))"
      then obtain v where v: "v \<in> set (unspents (db L))" "u_coin v \<noteq> u_coin u" "u_key v = ?k" by (auto simp: r(4))
      then have "u_key v = u_key row" using strip_eqD [OF r(2)] r(3) by simp
      then have "v = row" using inj_onD [OF inj _ v(1) r(1)] by simp
      then show False using v(2) strip_eqD [OF r(2)] by simp
    qed
    then have "unspent_at ?k (db L') = None" by (simp add: unspent_at_None)
    then show ?thesis using True r(5) assms(3) by (simp add: redeem_def same_settings_def)
  next
    case False
    then have tok: "trie_ok ?cls coin_num (spendables L)" using assms(2) by (simp add: coherent_def tries_agree_def)
    have L': "spendables L' = snd (MerkleTrie.remove ?cls ?k (spendables L))" "validation_depth L' = validation_depth L"
      using assms(1) False
      by (auto simp: redeem_def Let_def spend_coin_def next_do_Inr insert_spending_Inr split: option.splits if_splits)
    have "trie_look ?cls (spendables L') ?k = None"
      using spendables.trie_remove(1,2,3) [OF tok, of ?k] spendables.trie_look_Some [of "env_sha e" "spendables L'" ?k]
      unfolding L'(1) by (metis (mono_tags, lifting) cls_key mem_Collect_eq not_None_eq)
    then show ?thesis using False L'(2) assms(3) by (simp add: redeem_def)
  qed
qed

section \<open>What a block creates\<close>

lemma check_tx_outputs:
  "check_tx c txn = Inr () \<Longrightarrow> list_all (\<lambda>out. 0 \<le> out_amount out) (tx_outputs txn) \<and>
     sum_list (map out_amount (tx_outputs txn)) \<le> max_money c"
  using check_outputs_iff [of 0 c "tx_outputs txn"] max_money_bounds [of c]
  by (auto simp: check_tx_def and_then_Inr_iff Let_def list_all_iff split: if_splits)

definition amount :: "unspent \<Rightarrow> int" where
  "amount u = out_amount (u_output u)"

lemma amount_strip [simp]: "amount (strip u) = amount u"
  by (simp add: amount_def)

definition coin_supply :: "database \<Rightarrow> int" where
  "coin_supply d = sum_list (map amount (unspents d))"

text \<open>No coin has a negative amount, and all together are worth \<open>n\<close> at most.\<close>

definition supply_within :: "int \<Rightarrow> database \<Rightarrow> bool" where
  "supply_within n d \<longleftrightarrow> list_all (\<lambda>u. 0 \<le> amount u) (unspents d) \<and> coin_supply d \<le> n"

text \<open>The rows a transaction takes out of the table are worth the coins it redeemed.\<close>

lemma spent_value:
  assumes "coins_ok (db L)" and "strip ` set us \<subseteq> strip ` set (unspents (db L))" and "distinct (map u_coin us)"
  shows "sum_list (map amount (filter (\<lambda>v. u_coin v \<in> u_coin ` set us) (unspents (db L)))) = sum_list (map amount us)"
proof -
  let ?rows = "filter (\<lambda>v. u_coin v \<in> u_coin ` set us) (unspents (db L))"
  have inj: "inj_on strip (set xs)" if "inj_on u_coin (set xs)" for xs
    using that by (auto simp: inj_on_def dest: strip_eqD)
  have r: "inj_on u_coin (set ?rows)" "distinct ?rows"
    using assms(1) by (auto simp: coins_ok_def distinct_map intro: inj_on_subset)
  have u: "inj_on u_coin (set us)" "distinct us" using assms(3) by (simp_all add: distinct_map)
  have "sum_list (map amount ?rows) = sum amount (set ?rows)" using r(2) by (rule sum_list_distinct_conv_sum_set)
  also have "\<dots> = sum amount (strip ` set ?rows)" by (subst sum.reindex [OF inj [OF r(1)]]) simp
  also have "strip ` set ?rows = strip ` set us" using rows_of_coins [OF assms(1,2)] by simp
  also have "sum amount (strip ` set us) = sum amount (set us)" by (subst sum.reindex [OF inj [OF u(1)]]) simp
  also have "\<dots> = sum_list (map amount us)" using sum_list_distinct_conv_sum_set [OF u(2)] by metis
  finally show ?thesis .
qed

lemma sum_list_split:
  "sum_list (map f xs) = sum_list (map f (filter P xs)) + (sum_list (map f (filter (\<lambda>x. \<not> P x) xs)) :: 'b::comm_monoid_add)"
  by (induction xs) (simp_all add: ac_simps)

lemma new_unspents_value:
  "sum_list (map amount (new_unspents conf hash i c outs)) = sum_list (map out_amount outs)"
  by (induction outs arbitrary: i c) (simp_all add: new_unspent_def amount_def)

lemma new_unspents_amounts:
  "list_all (\<lambda>u. 0 \<le> amount u) (new_unspents conf hash i c outs) \<longleftrightarrow> list_all (\<lambda>out. 0 \<le> out_amount out) outs"
  by (induction outs arbitrary: i c) (simp_all add: new_unspent_def amount_def)

text \<open>A sum of words that are not negative is the sum of their values, while that fits.\<close>

lemma sum_no_wrap:
  assumes "list_all (\<lambda>x. 0 \<le> sint (f x)) xs" and "sum_list (map (\<lambda>x. sint (f x)) xs) < 2 ^ 63"
  shows "sint (sum_list (map f xs) :: u64) = sum_list (map (\<lambda>x. sint (f x)) xs)"
  using assms
proof (induction xs)
  case (Cons x xs)
  have pos: "0 \<le> sum_list (map (\<lambda>x. sint (f x)) xs)"
    using Cons.prems(1) by (intro sum_list_nonneg) (auto simp: list_all_iff)
  have "sint (sum_list (map f xs) :: u64) = sum_list (map (\<lambda>x. sint (f x)) xs)"
    by (rule Cons.IH) (use Cons.prems in simp_all)
  then show ?case
    using Cons.prems pos by (simp add: sint_word_ariths signed_take_bit_int_eq_self_iff)
qed simp

lemma sint_plus: "- (2 ^ 63) \<le> sint a + sint b \<Longrightarrow> sint a + sint b < 2 ^ 63 \<Longrightarrow> sint (a + b :: u64) = sint a + sint b"
  by (simp add: sint_word_ariths signed_take_bit_int_eq_self_iff)

lemma sint_minus: "- (2 ^ 63) \<le> sint a - sint b \<Longrightarrow> sint a - sint b < 2 ^ 63 \<Longrightarrow> sint (a - b :: u64) = sint a - sint b"
  by (simp add: sint_word_ariths signed_take_bit_int_eq_self_iff)

text \<open>What \<open>check\<close> grants of the outputs of a transaction.\<close>

definition outputs_in_range :: "chain \<Rightarrow> transaction \<Rightarrow> bool" where
  "outputs_in_range ch t \<longleftrightarrow> list_all (\<lambda>out. 0 \<le> out_amount out) (tx_outputs t) \<and> sum_list (map out_amount (tx_outputs t)) \<le> max_money ch"

lemma checked_in_range: "check_tx ch t = Inr () \<Longrightarrow> outputs_in_range ch t"
  unfolding outputs_in_range_def by (rule check_tx_outputs)

lemma checked_outputs:
  assumes "outputs_in_range ch t"
  shows "sint (getValueOut t) = sum_list (map out_amount (tx_outputs t))" and "0 \<le> sum_list (map out_amount (tx_outputs t))"
proof -
  have "sum_list (map out_amount (tx_outputs t)) < 2 ^ 63" using assms max_money_bounds [of ch] by (simp add: outputs_in_range_def)
  then show "sint (getValueOut t) = sum_list (map out_amount (tx_outputs t))"
    using assms sum_no_wrap [of out_value "tx_outputs t"] by (simp add: outputs_in_range_def getValueOut_sum out_amount_def [abs_def])
  show "0 \<le> sum_list (map out_amount (tx_outputs t))"
    using assms by (intro sum_list_nonneg) (auto simp: outputs_in_range_def list_all_iff)
qed

text \<open>A transaction takes its fee out of the supply; the fees so far do not wrap.\<close>

lemma tx_supply:
  assumes eff: "tx_effect e t bc i c us N L L1" and ok: "coherent e L" "list_all (\<lambda>u. 0 \<le> amount u) (unspents (db L))"
    and f: "f1 = f + (sum_list (map (out_value \<circ> u_output) us) - getValueOut t)"
      "\<not> sum_list (map (out_value \<circ> u_output) us) - getValueOut t <s 0"
    and range: "outputs_in_range ch t" "0 \<le> sint f" "coin_supply (db L) + sint f < 2 ^ 63"
  shows "list_all (\<lambda>u. 0 \<le> amount u) (unspents (db L1)) \<and> 0 \<le> sint f1 \<and> coin_supply (db L1) + sint f1 = coin_supply (db L) + sint f"
proof -
  let ?new = "new_unspents \<lparr>cf_cnf = c, cf_count = bc\<rparr> (tx_getHash (env_sha e) t) 0 (next_coin (db L)) (tx_outputs t)"
  have u: "strip ` set us \<subseteq> strip ` set (unspents (db L))" "distinct (map u_coin us)"
    and d: "unspents (db L1) = filter (\<lambda>v. u_coin v \<notin> u_coin ` set us) (unspents (db L)) @ ?new"
    using eff by (simp_all add: tx_effect_def Let_def)
  let ?I = "sum_list (map amount us)" and ?O = "sum_list (map out_amount (tx_outputs t))"
  have coins: "coins_ok (db L)" using ok(1) by (simp add: coherent_def)
  have split: "coin_supply (db L) = ?I + sum_list (map amount (filter (\<lambda>v. u_coin v \<notin> u_coin ` set us) (unspents (db L))))"
    using sum_list_split [of amount "unspents (db L)" "\<lambda>v. u_coin v \<in> u_coin ` set us"] spent_value [OF coins u]
    by (simp add: coin_supply_def)
  have rest: "0 \<le> sum_list (map amount (filter (\<lambda>v. u_coin v \<notin> u_coin ` set us) (unspents (db L))))"
    using ok(2) by (intro sum_list_nonneg) (auto simp: list_all_iff)
  have us: "list_all (\<lambda>u. 0 \<le> amount u) us"
    unfolding list_all_iff
  proof
    fix x assume "x \<in> set us"
    then obtain w where "w \<in> set (unspents (db L))" "strip w = strip x" using strip_row [OF u(1)] by metis
    then show "0 \<le> amount x" using ok(2) by (metis amount_strip list_all_iff)
  qed
  have I: "0 \<le> ?I" using us by (intro sum_list_nonneg) (auto simp: list_all_iff)
  have I63: "?I < 2 ^ 63" using split rest range(2,3) by simp
  have a: "amount = (\<lambda>u. sint ((out_value \<circ> u_output) u))" by (simp add: fun_eq_iff amount_def out_amount_def)
  have "sint (sum_list (map (out_value \<circ> u_output) us) :: u64) = ?I"
    using sum_no_wrap [of "out_value \<circ> u_output" us] us I63 unfolding a by blast
  moreover have "sint (getValueOut t) = ?O" "0 \<le> ?O" by (rule checked_outputs [OF range(1)])+
  moreover have "?O \<le> max_money ch" using range(1) by (simp add: outputs_in_range_def)
  ultimately have fee: "sint (sum_list (map (out_value \<circ> u_output) us) - getValueOut t) = ?I - ?O"
    using I I63 max_money_bounds [of ch] by (subst sint_minus) auto
  then have pos: "0 \<le> ?I - ?O" using f(2) by (simp add: word_sless_alt)
  have "sint f1 = sint f + (?I - ?O)"
    unfolding f(1) fee [symmetric] by (rule sint_plus) (use fee pos range(2,3) split rest \<open>0 \<le> ?O\<close> in linarith)+
  moreover have "coin_supply (db L1) = coin_supply (db L) - ?I + ?O"
    using split by (simp add: coin_supply_def d new_unspents_value)
  moreover have "list_all (\<lambda>u. 0 \<le> amount u) (unspents (db L1))"
  proof -
    have "list_all (\<lambda>u. 0 \<le> amount u) (filter (\<lambda>v. u_coin v \<notin> u_coin ` set us) (unspents (db L)))"
      using ok(2) by (simp add: list_all_iff)
    then show ?thesis using range(1) by (simp add: d new_unspents_amounts outputs_in_range_def)
  qed
  ultimately show ?thesis using pos range(2) by simp
qed

lemma posts_supply:
  "posts e bc i ts cs f f' L L2 \<Longrightarrow> coherent e L \<Longrightarrow> list_all (\<lambda>u. 0 \<le> amount u) (unspents (db L)) \<Longrightarrow>
     list_all (outputs_in_range ch) ts \<Longrightarrow> 0 \<le> sint f \<Longrightarrow> coin_supply (db L) + sint f < 2 ^ 63 \<Longrightarrow>
     list_all (\<lambda>u. 0 \<le> amount u) (unspents (db L2)) \<and> 0 \<le> sint f' \<and> coin_supply (db L2) + sint f' = coin_supply (db L) + sint f"
proof (induction rule: posts.induct)
  case (posts_Cons t i c us N L L1 f1 f ts cs f' L2)
  have "outputs_in_range ch t" using posts_Cons.prems(3) by simp
  note 1 = tx_supply [OF posts_Cons.hyps(1) posts_Cons.prems(1,2) posts_Cons.hyps(2,3) this posts_Cons.prems(4,5)]
  show ?case
    using posts_Cons.IH 1 tx_effect_coherent [OF posts_Cons.hyps(1)] posts_Cons.prems(3,5) by simp
qed simp

text \<open>C6: A block creates no more than its subsidy \<open>s\<close>: when the unspent coins are worth at most \<open>n\<close>, none of them
  less than nothing, then they are worth at most \<open>n + s\<close> after the block, and none of them less than nothing. Amounts
  are true integers here: the sums of inputs, outputs and fees that the code computes in 64 bits do not wrap, as long as
  \<open>n + s\<close> is below \<open>2 ^ 63\<close> and the transactions of the block pass \<open>check\<close>, as \<open>append\<close> demands of every block that
  it is given. (The block is later than the rule that transactions are unique.)\<close>

theorem block_creates_subsidy:
  assumes "attach e mem claimed best_height now blk b maps L = (Inr maps', L')" and "ledger_ok e L"
    and "sint (bp_time blk) > timeStamp (env_chain e) BIP0030"
    and "list_all (\<lambda>t. check_tx (env_chain e) t = Inr ()) (transactions b)"
    and "subsidy (env_random e) (env_chain e) (word_of_int (bp_height blk))
      (if bp_count blk = 1 then 0 else bp_prev_hash blk) = Some s"
    and "supply_within n (db L)" and "0 \<le> s" and "n + s < 2 ^ 63"
  shows "supply_within (n + s) (db L')"
proof -
  have ok: "coherent e L" using assms(2) by (simp add: ledger_ok_def)
  obtain L1 L2 cs fees v where h: "header_effect e (bp_count blk) b L L1"
    and p: "posts e (bp_count blk) 1 (tl (transactions b)) cs 0 fees L1 L2"
    and v: "v = word_of_int s + fees" "\<not> v <s getValueOut (transactions b ! 0)"
    and sub: "subsidy_effect e (transactions b ! 0) (bp_count blk) v L2 L'"
    using attach_effect [OF assms(1) ok assms(3)] assms(5) by auto
  have ne: "transactions b \<noteq> []" using assms(1) by (auto simp: attach_def Let_def next_do_Inr split: if_splits)
  have out: "list_all (outputs_in_range (env_chain e)) (transactions b)"
    using assms(4) by (rule list.pred_mono_strong) (rule checked_in_range)
  then have outs: "list_all (outputs_in_range (env_chain e)) (tl (transactions b))" "outputs_in_range (env_chain e) (transactions b ! 0)"
    using ne by (cases "transactions b"; simp)+
  have u1: "unspents (db L1) = unspents (db L)" using h by (simp add: header_effect_def)
  have c1: "coherent e L1" using coherent_header [OF h] ok by simp
  have pos: "list_all (\<lambda>u. 0 \<le> amount u) (unspents (db L))" "coin_supply (db L) \<le> n" using assms(6) by (simp_all add: supply_within_def)
  have 2: "list_all (\<lambda>u. 0 \<le> amount u) (unspents (db L2))" "0 \<le> sint fees" "coin_supply (db L2) + sint fees = coin_supply (db L)"
    using posts_supply [OF p c1 _ outs(1)] pos assms(7,8) by (simp_all add: u1 coin_supply_def)
  let ?O = "sum_list (map out_amount (tx_outputs (transactions b ! 0)))"
  note O = checked_outputs [OF outs(2)]
  have n2: "0 \<le> coin_supply (db L2)" using 2(1) unfolding coin_supply_def by (intro sum_list_nonneg) (auto simp: list_all_iff)
  have s: "sint (word_of_int s :: u64) = s"
    using 2(2,3) n2 pos(2) assms(7,8) by (simp add: sint_sbintrunc' signed_take_bit_int_eq_self_iff)
  have "sint (word_of_int s + fees :: u64) = sint (word_of_int s :: u64) + sint fees"
    by (rule sint_plus) (use s 2(2,3) n2 pos(2) assms(7,8) in linarith)+
  then have "sint v = s + sint fees" by (simp only: v(1) s)
  then have "?O \<le> s + sint fees" using v(2) O(1) by (simp add: word_sless_alt)
  moreover have U: "unspents (db L') = unspents (db L2) @
      new_unspents \<lparr>cf_cnf = - bp_count blk, cf_count = bp_count blk\<rparr> (tx_getHash (env_sha e) (transactions b ! 0)) 0
        (next_coin (db L2)) (tx_outputs (transactions b ! 0))"
    using sub by (simp add: subsidy_effect_def Let_def)
  then have "coin_supply (db L') = coin_supply (db L2) + ?O" by (simp add: coin_supply_def new_unspents_value)
  moreover have "list_all (\<lambda>u. 0 \<le> amount u) (unspents (db L'))"
    using 2(1) outs(2) by (simp add: U new_unspents_amounts outputs_in_range_def)
  ultimately show ?thesis using 2(3) pos(2) by (simp add: supply_within_def)
qed

section \<open>Signatures\<close>

definition keeps_jobs :: "'a act \<Rightarrow> bool" where
  "keeps_jobs m \<longleftrightarrow> (\<forall>L. jobs (snd (m L)) = jobs L)"

lemma keeps_jobsI: "(\<And>L. jobs (snd (m L)) = jobs L) \<Longrightarrow> keeps_jobs m"
  by (simp add: keeps_jobs_def)

lemma keeps_next_do [intro!]:
  assumes "keeps_jobs m" and "\<And>x. keeps_jobs (f x)"
  shows "keeps_jobs (next_do m f)"
proof (rule keeps_jobsI)
  fix L
  obtain r L1 where m: "m L = (r, L1)" by (cases "m L")
  then have "jobs L1 = jobs L" using assms(1) by (metis keeps_jobs_def snd_conv)
  then show "jobs (snd (next_do m f L)) = jobs L"
    using assms(2) m by (cases r) (simp_all add: next_do_def keeps_jobs_def)
qed

lemma keeps_next_do_at: "keeps_jobs m \<Longrightarrow> (\<And>x. keeps_jobs (f x)) \<Longrightarrow> jobs (snd (next_do m f L)) = jobs L"
  using keeps_next_do [of m f] by (simp add: keeps_jobs_def)

lemma keeps_jobs_cases [intro!]:
  "keeps_jobs (give x)" "keeps_jobs (raise err)" "keeps_jobs (Pair r)"
  "keeps_jobs m \<Longrightarrow> keeps_jobs m' \<Longrightarrow> keeps_jobs (if c then m else m')"
  by (simp_all add: keeps_jobs_def give_def raise_def)

lemma keeps_jobs_rows [intro!]: "keeps_jobs (insert_spending r)" "keeps_jobs (insert_conf c)" "keeps_jobs (insert_name n)"
  by (auto simp: keeps_jobs_def insert_spending_def insert_conf_def insert_name_def)

lemma keeps_jobs_redeem [intro!]: "keeps_jobs (redeem e inp i conf)"
proof (rule keeps_jobsI)
  fix L
  have s: "jobs (snd (spend_coin e inp i conf u M)) = jobs M" for u M
    by (simp add: spend_coin_def next_do_def insert_spending_def give_def)
  show "jobs (snd (redeem e inp i conf L)) = jobs L"
    by (simp add: redeem_def Let_def s split: option.splits)
qed

lemma keeps_jobs_issue [intro!]: "keeps_jobs (issue e out h i conf unique)"
  by (rule keeps_jobsI) (simp add: issue_def Let_def)

lemma keeps_jobs_updateName [intro!]: "keeps_jobs (updateName e op coin n)"
  by (rule keeps_jobsI) (simp add: updateName_def Let_def insert_name_def)

lemma keeps_jobs_inputs [intro!]: "keeps_jobs (redeem_inputs e conf i inps acc)"
proof (induction e conf i inps acc rule: redeem_inputs.induct)
  case (2 e conf i inp inps value_in op scrs)
  then show ?case
    unfolding redeem_inputs.simps Let_def
    apply (intro keeps_next_do keeps_jobs_redeem)
    apply (rule keeps_jobsI)
    apply (auto simp: keeps_jobs_def split: sum.splits prod.splits)
    done
qed auto

lemma keeps_jobs_outputs [intro!]: "keeps_jobs (issue_outputs e txn h conf i outs op)"
proof (induction e txn h conf i outs op rule: issue_outputs.induct)
  case (2 e txn h conf i out outs op)
  show ?case
    unfolding issue_outputs.simps
  proof (rule keeps_next_do, rule keeps_jobs_issue, rule keeps_jobsI)
    fix c L
    have k: "jobs (snd (next_do (updateName e op' c m) (\<lambda>_. issue_outputs e txn h conf (Suc i) outs op') L)) = jobs L"
      if "name_output (env_bn e) (env_crypto e) out op = Inr (True, op')" "adhere_names (env_chain e)"
        "tx_version txn = NAMECOIN_TX_VERSION" for op' m
      using keeps_next_do [OF keeps_jobs_updateName, of "\<lambda>_. issue_outputs e txn h conf (Suc i) outs op'" e op' c m]
        2(1) that by (simp add: keeps_jobs_def)
    show "jobs (snd ((if adhere_names (env_chain e) then
         (case name_output (env_bn e) (env_crypto e) out op of
            Inl err \<Rightarrow> (Inl (Name_failed err), L)
          | Inr (found, op) \<Rightarrow>
              if found then
                if tx_version txn \<noteq> NAMECOIN_TX_VERSION then (Inl Name_version, L)
                else next_do (updateName e op c (cf_count conf)) (\<lambda>_. issue_outputs e txn h conf (Suc i) outs op) L
              else issue_outputs e txn h conf (Suc i) outs op L)
       else issue_outputs e txn h conf (Suc i) outs op L))) = jobs L"
      using 2 k by (auto simp: keeps_jobs_def split: sum.splits prod.splits)
  qed
qed auto

lemma keeps_jobs_post: "keeps_jobs (postTransaction e mem txn fees least blk idx False)"
  unfolding postTransaction_def Let_def
proof (intro keeps_next_do)
  show "keeps_jobs (new_conf txn (bp_count blk) idx)"
    by (rule keeps_jobsI) (simp add: new_conf_def Let_def insert_conf_def next_do_def give_def)
  fix cnf
  have 1: "keeps_jobs (check_name_fees e n op)" for n op
    by (auto simp: check_name_fees_def split: option.splits sum.splits)
  have 2: "jobs (snd (next_do (issue_outputs e txn h conf i outs op) (\<lambda>op. next_do (check_name_fees e n op) (\<lambda>_. give x)) L)) = jobs L"
    for h conf i outs op n x L
    by (intro keeps_next_do_at keeps_jobs_outputs keeps_next_do 1 keeps_jobs_cases(1))
  show "keeps_jobs (case x of (value_in, op, scrs) \<Rightarrow> \<lambda>L. 
         if value_in - getValueOut txn <s 0 then (Inl Fee_negative, if False then L\<lparr>jobs := jobs L @ [(scrs, txn, b)]\<rparr> else L)
         else if value_in - getValueOut txn <s least then (Inl Fee_below_minimum, if False then L\<lparr>jobs := jobs L @ [(scrs, txn, b)]\<rparr> else L)
         else if \<not> ChainRules.range (env_chain e) (sint (fees + (value_in - getValueOut txn))) then (Inl Fees_out_of_range, if False then L\<lparr>jobs := jobs L @ [(scrs, txn, b)]\<rparr> else L)
         else next_do (issue_outputs e txn (tx_getHash (env_sha e) txn) \<lparr>cf_cnf = cnf, cf_count = bp_count blk\<rparr> 0 (tx_outputs txn) op)
                (\<lambda>op. next_do (check_name_fees e (bp_count blk) op) (\<lambda>_. give (fees + (value_in - getValueOut txn))))
                (if False then L\<lparr>jobs := jobs L @ [(scrs, txn, b)]\<rparr> else L))" for x b
    by (rule keeps_jobsI) (simp add: 2 split: prod.splits)
qed auto

lemma keeps_jobs_subsidy_outputs [intro!]: "keeps_jobs (issue_subsidy e h conf unique i outs)"
  by (induction e h conf unique i outs rule: issue_subsidy.induct) auto

lemma jobs_maturate [simp]: "jobs (maturate e n L) = jobs L"
proof -
  have "jobs (fold (maturate_coin e) us M) = jobs M" for us M
    by (induction us arbitrary: M) (simp_all add: maturate_coin_def)
  then show ?thesis by (simp add: maturate_def)
qed

lemma keeps_jobs_postSubsidy: "keeps_jobs (postSubsidy e txn blk fees)"
proof (rule keeps_jobsI)
  fix L
  have m: "keeps_jobs (\<lambda>L. (Inr (), if validation_depth L > 0 \<and> P then maturate e n L else L))" for P n
    by (rule keeps_jobsI) simp
  show "jobs (snd (postSubsidy e txn blk fees L)) = jobs L"
  proof (cases "isCoinBase txn")
    case True
    then show ?thesis
      unfolding postSubsidy_def Let_def if_not_P [OF not_not [THEN iffD2, OF True]]
      by (intro keeps_next_do_at keeps_jobs_cases keeps_jobs_rows keeps_jobsI)
        (auto intro!: keeps_next_do_at m split: option.splits)
  qed (simp add: postSubsidy_def)
qed

lemma keeps_jobs_post_loop:
  "keeps_jobs (post_loop e mem claimed blk False i txns acc)"
proof (induction e mem claimed blk "False" i txns acc rule: post_loop.induct)
  case (2 e mem claimed blk i txn txns fees unconfirmed confirmed)
  then show ?case by (auto simp: Let_def intro!: keeps_jobs_post)
qed auto

section \<open>Verification without the key\<close>

lemma key_free [simp]:
  "redeem (e\<lparr>env_key := k\<rparr>) = redeem e" "issue (e\<lparr>env_key := k\<rparr>) = issue e"
  "updateName (e\<lparr>env_key := k\<rparr>) = updateName e" "check_name_fees (e\<lparr>env_key := k\<rparr>) = check_name_fees e"
  "maturate (e\<lparr>env_key := k\<rparr>) = maturate e"
proof -
  have s: "spend_coin (e\<lparr>env_key := k\<rparr>) = spend_coin e" by (intro ext) (simp add: spend_coin_def)
  show "redeem (e\<lparr>env_key := k\<rparr>) = redeem e" by (intro ext) (simp add: redeem_def Let_def s cong: option.case_cong if_cong)
  show "issue (e\<lparr>env_key := k\<rparr>) = issue e" by (intro ext) (simp add: issue_def)
  show "updateName (e\<lparr>env_key := k\<rparr>) = updateName e" by (intro ext) (simp add: updateName_def Let_def)
  show "check_name_fees (e\<lparr>env_key := k\<rparr>) = check_name_fees e" by (intro ext) (simp add: check_name_fees_def cong: option.case_cong)
  have "maturate_coin (e\<lparr>env_key := k\<rparr>) = maturate_coin e" by (intro ext) (simp add: maturate_coin_def)
  then show "maturate (e\<lparr>env_key := k\<rparr>) = maturate e" by (intro ext) (simp add: maturate_def)
qed

lemma key_free_inputs [simp]: "redeem_inputs (e\<lparr>env_key := k\<rparr>) conf i inps acc = redeem_inputs e conf i inps acc"
proof (induction inps arbitrary: i acc)
  case (Cons inp inps)
  then show ?case by (cases acc) (simp add: Let_def cong: sum.case_cong prod.case_cong if_cong)
qed simp

lemma key_free_outputs [simp]: "issue_outputs (e\<lparr>env_key := k\<rparr>) txn h conf i outs op = issue_outputs e txn h conf i outs op"
  by (induction outs arbitrary: i op) (simp_all cong: sum.case_cong prod.case_cong if_cong)

lemma key_free_subsidy_outputs [simp]: "issue_subsidy (e\<lparr>env_key := k\<rparr>) h conf unique i outs = issue_subsidy e h conf unique i outs"
  by (induction e h conf unique i outs rule: issue_subsidy.induct) simp_all

lemma key_free_post [simp]:
  "postTransaction (e\<lparr>env_key := k\<rparr>) = postTransaction e" "postSubsidy (e\<lparr>env_key := k\<rparr>) = postSubsidy e"
  "insertBlockHeader (e\<lparr>env_key := k\<rparr>) = insertBlockHeader e"
  by (intro ext, simp add: postTransaction_def postSubsidy_def insertBlockHeader_def Let_def cong: if_cong option.case_cong)+

lemma key_free_post_loop [simp]:
  "post_loop (e\<lparr>env_key := k\<rparr>) mem claimed blk check i txns acc = post_loop e mem claimed blk check i txns acc"
proof (induction txns arbitrary: check i acc)
  case (Cons t ts)
  then show ?case by (cases acc) (simp add: Let_def)
qed simp

lemma keeps_jobsD: "keeps_jobs m \<Longrightarrow> m L = (r, L') \<Longrightarrow> jobs L' = jobs L"
  by (metis keeps_jobs_def snd_conv)

text \<open>When the first transaction after the coinbase was seen before, attaching does not depend on the verification of keys at all.\<close>

lemma seen_first_skips_keys:
  assumes "transactions b = cb # txn # txns"
    and "sm_has unconfirmed (tx_getHash (env_sha e) txn) \<or> claimed (tx_getHash (env_sha e) txn)"
  shows "attach (e\<lparr>env_key := key\<rparr>) mem claimed best_height now blk b (unconfirmed, confirmed) L =
    attach e mem claimed best_height now blk b (unconfirmed, confirmed) L"
proof -
  let ?post = "\<lambda>c. post_loop e mem claimed blk c (Suc 0) (txn # txns) (0, unconfirmed, confirmed)"
  have post: "?post c = ?post False" for c using assms(2) by (auto simp: Let_def)
  have j: "jobs L2 = jobs M" if "?post c M = (r, L1)" "postSubsidy e cb blk fees L1 = (r', L2)" for c M r L1 r' L2 fees
    using keeps_jobsD [OF keeps_jobs_post_loop that(1) [unfolded post [of c]]] keeps_jobsD [OF keeps_jobs_postSubsidy that(2)] by simp
  have v: "verifier_success f []" for f by (simp add: verifier_success_def)
  show ?thesis
  proof (cases "insertBlockHeader e (bp_count blk) (header_getHash (env_sha e) (header b)) b (L\<lparr>jobs := []\<rparr>)")
    case (Pair r L1)
    then have "jobs L1 = []" by (auto simp: insertBlockHeader_def update_db_def split: if_splits)
    with Pair show ?thesis
      unfolding attach_def Let_def next_do_def assms(1) list.sel(3) key_free_post key_free_post_loop
      by (auto simp: next_do_def v simp del: post_loop.simps split: sum.splits prod.splits dest!: j)
  qed
qed

text \<open>Which transactions of a block have their signatures verified: those before the first that was seen.\<close>

definition seen_before :: "env \<Rightarrow> (uint256 \<Rightarrow> bool) \<Rightarrow> txn_map \<Rightarrow> transaction \<Rightarrow> bool" where
  "seen_before e claimed unconfirmed t \<longleftrightarrow> sm_has unconfirmed (tx_getHash (env_sha e) t) \<or> claimed (tx_getHash (env_sha e) t)"

definition verified :: "ledger \<Rightarrow> transaction list" where
  "verified L = map (\<lambda>(scrs, t, strict). t) (jobs L)"

lemma seen_after_erase:
  "\<not> sm_has U h \<Longrightarrow> seen_before e claimed (sm_erase h U) = seen_before e claimed U"
  by (intro ext) (auto simp: seen_before_def sm_has_def)

lemma post_jobs:
  assumes "postTransaction e m txn fees least blk idx check L = (Inr fees', L')"
  shows "verified L' = verified L @ (if check then [txn] else [])"
proof -
  let ?conf = "\<lambda>c. \<lparr>cf_cnf = c, cf_count = bp_count blk\<rparr>"
  obtain c L1 v op scrs L2 op' L3 b where
    1: "new_conf txn (bp_count blk) idx L = (Inr c, L1)" and
    2: "redeem_inputs e (?conf c) 0 (tx_inputs txn) (0, new_name_operation (fst m) (snd m)
          (if adhere_names (env_chain e) then \<not> enforce_name_rules (env_chain e) (bp_count blk) else True), []) L1 =
        (Inr (v, op, scrs), L2)" and
    3: "issue_outputs e txn (tx_getHash (env_sha e) txn) (?conf c) 0 (tx_outputs txn) op
          (if check then L2\<lparr>jobs := jobs L2 @ [(scrs, txn, b)]\<rparr> else L2) = (Inr op', L3)" and
    4: "check_name_fees e (bp_count blk) op' L3 = (Inr (), L')"
    using assms by (auto simp: postTransaction_def Let_def next_do_Inr give_def split: if_splits)
  have "jobs L1 = jobs L" using 1 by (auto simp: new_conf_def Let_def insert_conf_def next_do_def give_def split: if_splits)
  moreover have "jobs L2 = jobs L1" by (rule keeps_jobsD [OF keeps_jobs_inputs 2])
  moreover have "jobs L3 = jobs (if check then L2\<lparr>jobs := jobs L2 @ [(scrs, txn, b)]\<rparr> else L2)"
    by (rule keeps_jobsD [OF keeps_jobs_outputs 3])
  moreover have "jobs L' = jobs L3"
    using 4 by (auto simp: check_name_fees_def split: option.splits sum.splits if_splits)
  ultimately show ?thesis by (simp add: verified_def)
qed

lemma post_loop_jobs:
  assumes "post_loop e mem claimed blk check i txns (fees, U, C) L = (Inr acc, L')"
  shows "verified L' = verified L @ (if check then takeWhile (\<lambda>t. \<not> seen_before e claimed U t) txns else [])"
  using assms
proof (induction txns arbitrary: check i fees U C L)
  case (Cons t ts)
  let ?h = "tx_getHash (env_sha e) t" and ?seen = "seen_before e claimed U t"
  let ?check = "if ?seen then False else check"
  obtain fees1 L1 where 1: "postTransaction e (mem t) t fees 0 blk (int i) ?check L = (Inr fees1, L1)"
    "post_loop e mem claimed blk ?check (Suc i) ts (fees1, sm_erase ?h U, ?h # C) L1 = (Inr acc, L')"
    using Cons.prems by (auto simp: Let_def next_do_Inr seen_before_def)
  show ?case
    using post_jobs [OF 1(1)] Cons.IH [OF 1(2)] seen_after_erase [of U ?h e claimed] by (auto simp: seen_before_def)
qed simp

text \<open>C15: The first transaction of a block, after the coinbase, that was seen before - it is in the pool, or
  in a detached block - ends the verification of signatures for the rest of the block: when a block is attached, then
  the transactions that were verified are those before the first seen one, and none at all at or below the height where
  verification starts. A transaction after it is not verified, even when nobody saw it before.\<close>

theorem seen_transaction_ends_verification:
  assumes "attach e mem claimed best_height now blk b (unconfirmed, confirmed) L = (Inr maps, L')"
  shows "map (\<lambda>(scrs, t, strict). t) (jobs L') =
    (if verification_depth L \<noteq> 0 \<and> bp_height blk > verification_depth L
     then takeWhile (\<lambda>t. \<not> (sm_has unconfirmed (tx_getHash (env_sha e) t) \<or> claimed (tx_getHash (env_sha e) t))) (tl (transactions b))
     else []) \<and> verifier_success e (jobs L')"
proof -
  obtain L1 fees m L2 where
    1: "insertBlockHeader e (bp_count blk) (header_getHash (env_sha e) (header b)) b (L\<lparr>jobs := []\<rparr>) = (Inr (), L1)" and
    2: "post_loop e mem claimed blk (verification_depth L1 \<noteq> 0 \<and> bp_height blk > verification_depth L1) 1 (tl (transactions b))
         (0, unconfirmed, confirmed) L1 = (Inr (fees, m), L2)" and
    3: "postSubsidy e (transactions b ! 0) blk fees L2 = (Inr (), L')" "verifier_success e (jobs L')"
    using assms by (auto simp: attach_def Let_def next_do_Inr split: if_splits)
  have "jobs L1 = []" "verification_depth L1 = verification_depth L"
    using 1 by (auto simp: insertBlockHeader_def update_db_def split: if_splits)
  then show ?thesis
    using post_loop_jobs [OF 2] keeps_jobsD [OF keeps_jobs_postSubsidy 3(1)] 3(2)
    by (simp add: verified_def seen_before_def [abs_def] cong: if_cong)
qed

section \<open>Taking back oldest first\<close>

text \<open>
  What rolling back one confirmation leaves: the spendings of other confirmations, the coins of other
  confirmations, and for a coin it spent, the coin, unless it was its own.
\<close>

lemma rollback_leaves:
  assumes "rollbackConfirmation e c M = (Inr (), M')" and "\<forall>r\<in>set (confs (db M)). 0 \<le> cr_count r"
  shows "set (confs (db M')) = {r \<in> set (confs (db M)). cr_cnf r \<noteq> c}"
    and "s \<in> set (spendings (db M)) \<Longrightarrow> sr_icnf s \<noteq> c \<Longrightarrow> 0 < sr_coin s \<Longrightarrow> s \<in> set (spendings (db M'))"
    and "u \<in> set (unspents (db M)) \<Longrightarrow> u_cnf u \<noteq> c \<Longrightarrow> u \<in> set (unspents (db M'))"
    and "s \<in> set (spendings (db M)) \<Longrightarrow> sr_icnf s = c \<Longrightarrow> 0 < c \<Longrightarrow> sr_ocnf s \<noteq> c \<Longrightarrow>
      \<exists>n. spent_as n s \<in> set (unspents (db M'))"
proof -
  let ?n = "conf_count c (db M)"
  let ?T = "rollback_tries e c ?n M"
  have T: "db ?T = db M" by (simp add: rollback_tries_def Let_def)
  obtain d where d: "restore_inputs (validation_depth ?T = 0) c ?n (db M) = Inr d" "db M' = forget_outputs (env_chain e) c d"
    using assms(1) T by (auto simp: rollbackConfirmation_def Let_def split: sum.splits)
  have n: "0 \<le> ?n" using assms(2) by (auto simp: conf_count_def find_Some_iff split: option.splits)
  let ?restored = "map (spent_as (conf_count (first_source c (db M)) (db M))) (filter (\<lambda>s. sr_icnf s = c) (spendings (db M)))"
  have r: "c < 0 \<and> d = delete_spendings (\<lambda>s. sr_coin s = - ?n) (db M) \<or>
    \<not> c < 0 \<and> unspents d = unspents (db M) @ ?restored \<and>
      spendings d = filter (\<lambda>s. sr_icnf s \<noteq> c) (spendings (db M)) \<and> confs d = confs (db M)"
    using d(1) by (auto simp: restore_inputs_def Let_def insert_unspents_def delete_spendings_def split: if_splits)
  show "set (confs (db M')) = {r \<in> set (confs (db M)). cr_cnf r \<noteq> c}"
    using r by (auto simp: d(2) delete_spendings_def)
  show "s \<in> set (spendings (db M'))" if "s \<in> set (spendings (db M))" "sr_icnf s \<noteq> c" "0 < sr_coin s"
    using r that n by (auto simp: d(2) delete_spendings_def)
  show "u \<in> set (unspents (db M'))" if "u \<in> set (unspents (db M))" "u_cnf u \<noteq> c"
    using r that by (auto simp: d(2) delete_spendings_def)
  show "\<exists>n. spent_as n s \<in> set (unspents (db M'))"
    if "s \<in> set (spendings (db M))" "sr_icnf s = c" "0 < c" "sr_ocnf s \<noteq> c"
    using r that by (auto simp: d(2) delete_spendings_def)
qed

definition coin_back :: "spending_row \<Rightarrow> ledger \<Rightarrow> bool" where
  "coin_back s M \<longleftrightarrow> (\<exists>n. spent_as n s \<in> set (unspents (db M)))"

lemma rollback_each_leaves:
  assumes "each_do (rollbackConfirmation e) cs M = (Inr (), M')" and "\<forall>r\<in>set (confs (db M)). 0 \<le> cr_count r"
    and "0 < sr_coin s"
  shows "set (confs (db M')) = {r \<in> set (confs (db M)). cr_cnf r \<notin> set cs} \<and>
    (s \<in> set (spendings (db M)) \<and> sr_icnf s \<notin> set cs \<longrightarrow> s \<in> set (spendings (db M'))) \<and>
    (sr_ocnf s \<notin> set cs \<and> 0 < sr_icnf s \<and> (coin_back s M \<or> s \<in> set (spendings (db M)) \<and> sr_icnf s \<in> set cs) \<longrightarrow>
       coin_back s M')"
  using assms(1,2)
proof (induction cs arbitrary: M)
  case (Cons c cs)
  obtain M1 where M1: "rollbackConfirmation e c M = (Inr (), M1)" "each_do (rollbackConfirmation e) cs M1 = (Inr (), M')"
    using Cons.prems(1) by (auto simp: next_do_Inr)
  note r = rollback_leaves [OF M1(1) Cons.prems(2)]
  have "\<forall>r\<in>set (confs (db M1)). 0 \<le> cr_count r" using Cons.prems(2) r(1) by simp
  note ih = Cons.IH [OF M1(2) this]
  have b: "coin_back s M1" if "coin_back s M" "sr_ocnf s \<noteq> c"
    using that r(3) unfolding coin_back_def by (metis spent_as_simps(3))
  have n: "coin_back s M1" if "s \<in> set (spendings (db M))" "sr_icnf s = c" "0 < sr_icnf s" "sr_ocnf s \<noteq> c"
    using r(4) that unfolding coin_back_def by metis
  show ?case using ih b n r(1) r(2) [OF _ _ assms(3)] by auto
qed auto

text \<open>C14: Blocks that are taken back oldest first, which is the order of the hashes that leave the trunk, leave a
  coin behind: when a transaction of block \<open>m\<close> spent an output of block \<open>n\<close>, then after the rollback of
  \<open>n\<close> and of \<open>m\<close> that output is an unspent coin, though the confirmation that made it is gone.\<close>

theorem rollback_oldest_first_leaves_coin:
  assumes "each_do (rollbackBlock e) [n, m] L = (Inr (), L')" and "\<forall>r\<in>set (confs (db L)). 0 \<le> cr_count r"
    and "s \<in> set (spendings (db L))" and "0 < sr_coin s" and "0 < sr_icnf s"
    and "sr_ocnf s \<in> set (map cr_cnf (confs_of n (db L)))" and "sr_icnf s \<in> set (map cr_cnf (confs_of m (db L)))"
    and "sr_icnf s \<notin> set (map cr_cnf (confs_of n (db L)))" and "sr_ocnf s \<notin> set (map cr_cnf (confs_of m (db L)))"
  shows "(\<exists>u\<in>set (unspents (db L')). u_key u = sr_key s \<and> u_output u = sr_output s \<and> u_cnf u = sr_ocnf s) \<and>
    sr_ocnf s \<notin> cr_cnf ` set (confs (db L'))"
proof -
  obtain L1 L2 where L: "rollbackBlock e n L = (Inr (), L1)" "rollbackBlock e m L1 = (Inr (), L')"
    using assms(1) by (auto simp: next_do_Inr)
  obtain M1 M2 where M: "each_do (rollbackConfirmation e) (rev (map cr_cnf (confs_of n (db L)))) L = (Inr (), M1)"
    "confs (db L1) = confs (db M1)" "spendings (db L1) = spendings (db M1)"
    "each_do (rollbackConfirmation e) (rev (map cr_cnf (confs_of m (db L1)))) L1 = (Inr (), M2)"
    "confs (db L') = confs (db M2)" "unspents (db L') = unspents (db M2)"
    using L by (auto simp: rollbackBlock_def next_do_Inr)
  note 1 = rollback_each_leaves [OF M(1) assms(2,4)]
  have c1: "\<forall>r\<in>set (confs (db L1)). 0 \<le> cr_count r" using 1 assms(2) by (simp add: M(2))
  note 2 = rollback_each_leaves [OF M(4) c1 assms(4)]
  have sub: "set (map cr_cnf (confs_of m (db L1))) \<subseteq> set (map cr_cnf (confs_of m (db L)))"
    using 1 by (auto simp: confs_of_def M(2))
  have in_m: "sr_icnf s \<in> set (map cr_cnf (confs_of m (db L1)))"
    using 1 assms(7,8) by (auto simp: confs_of_def M(2))
  have "s \<in> set (spendings (db L1))" using 1 assms(3,8) by (simp add: M(3))
  then have "coin_back s M2" using 2 in_m sub assms(5,9) by auto
  moreover have "sr_ocnf s \<notin> cr_cnf ` set (confs (db L'))" using 1 2 assms(6) by (auto simp: M)
  ultimately show ?thesis unfolding coin_back_def M(6) by (metis spent_as_simps(1,3,4))
qed

section \<open>On the small ledger\<close>

theorem double_spend_refused_witness:
  "\<exists>u L. redeem sample_env \<lparr>prevout = Coin 7 0, signature = [], input_sequence = 0\<rparr> 0 \<lparr>cf_cnf = 2, cf_count = 2\<rparr> sample_ledger = (Inr u, L) \<and>
    redeem sample_env \<lparr>prevout = Coin 7 0, signature = [1], input_sequence = 1\<rparr> 5 \<lparr>cf_cnf = 3, cf_count = 2\<rparr> L = (Inl Coin_not_found, L)"
proof -
  have "\<exists>u L. redeem sample_env \<lparr>prevout = Coin 7 0, signature = [], input_sequence = 0\<rparr> 0 \<lparr>cf_cnf = 2, cf_count = 2\<rparr> sample_ledger = (Inr u, L)"
    by (simp add: Let_def redeem_def sample_ledger_def unspent_at_def unspent_is_valid_def coin_isNull_def output_isNull_def
        spend_coin_def sample_env_def ChainRules.range_def out_amount_def insert_spending_def next_do_def)
  then obtain u L where r: "redeem sample_env \<lparr>prevout = Coin 7 0, signature = [], input_sequence = 0\<rparr> 0 \<lparr>cf_cnf = 2, cf_count = 2\<rparr> sample_ledger = (Inr u, L)"
    by blast
  have "coherent sample_env sample_ledger" using sample_ledger_ok by (simp add: ledger_ok_def)
  from double_spend_refused [OF r this] show ?thesis using r by (intro exI [of _ u] exI [of _ L]) simp
qed

theorem block_creates_subsidy_witness:
  "\<exists>maps L. sample_attach = (Inr maps, L) \<and> supply_within (5 + 50 * tx_COIN) (db L)"
proof -
  obtain maps L where a: "sample_attach = (Inr maps, L)" using sample_attach_returns by blast
  have "supply_within (5 + 50 * tx_COIN) (db L)"
  proof (rule block_creates_subsidy [OF a sample_ledger_ok])
    show "list_all (\<lambda>t. check_tx (env_chain sample_env) t = Inr ()) (transactions sample_block)"
      by (simp add: sample_mined_def check_tx_def sample_coinbase_def spend_first_def sample_env_def max_block_size_def isCoinBase_def isSubsidy_def
          out_amount_def word_sless_alt ChainRules.range_def coin_isNull_def
          put_transaction_def put_vector_def put_varint_def put_input_def put_output_def put_coin_def put_script_def)
  qed (simp_all add: sample_place_def sample_env_def tx_COIN_def testnet_subsidy_def halving_def Let_def
      supply_within_def coin_supply_def amount_def sample_ledger_def out_amount_def)
  with a show ?thesis by blast
qed

text \<open>Two payments, of which the second was seen: only the first is verified.\<close>

abbreviation seen_block :: mined_block where
  "seen_block \<equiv> sample_mined [sample_coinbase, spend_first 7 [OP_1], spend_first 61 [OP_1, OP_1], spend_first 62 []]"

abbreviation seen_attach :: "(ledger_error + txn_map \<times> uint256 list) \<times> ledger" where
  "seen_attach \<equiv> attach sample_env (\<lambda>_. (0, 0)) (\<lambda>h. h = 62) 1 0 (sample_place 2) seen_block ([], [])
     (sample_ledger\<lparr>verification_depth := 1\<rparr>)"

lemma seen_hash:
  "tx_getHash (env_sha sample_env) (spend_first h [OP_1]) = 61"
  "tx_getHash (env_sha sample_env) (spend_first h [OP_1, OP_1]) = 62"
  by (simp_all add: tx_getHash_def Hash_def sample_env_def sample_coinbase_def spend_first_def bytes_to_uint256_def
      put_transaction_def put_vector_def put_varint_def put_input_def put_output_def put_coin_def put_script_def)

lemma pays_itself: "verify_all ref_bn ref_crypto (\<lambda>_ _ _. True) (spend_first 7 [OP_1]) [[]] True = Verdict True"
  by code_simp

lemma seen_attach_returns: "\<exists>maps L. seen_attach = (Inr maps, L)"
proof -
  have t: "tx_inputs (spend_first h s) = [\<lparr>prevout = Coin h 0, signature = s, input_sequence = - 1\<rparr>]"
    "tx_outputs (spend_first h s) = [\<lparr>out_value = 3, out_script = []\<rparr>]" "tx_lockTime (spend_first h s) = 0" for h s
    by (simp_all add: spend_first_def)
  have e: "env_chain sample_env = Testnet3" "env_bn sample_env = ref_bn" "env_crypto sample_env = ref_crypto"
    "env_key sample_env = (\<lambda>_ _ _. True)" by (simp_all add: sample_env_def)
  have c: "tx_inputs sample_coinbase = [\<lparr>prevout = Coin 0 (- 1), signature = [1, 2], input_sequence = - 1\<rparr>]"
    "tx_outputs sample_coinbase = [\<lparr>out_value = 7, out_script = [OP_RETURN]\<rparr>]" "tx_lockTime sample_coinbase = 0"
    by (simp_all add: sample_coinbase_def)
  show ?thesis
    by (simp add: pays_itself seen_hash Let_def tx_COIN_def word_sless_alt isSubsidy_def coin_isNull_def output_isNull_def out_amount_def
        testnet_subsidy_def halving_def adhere_names_def adhere_aux_pow_def checkPoints_def testnet3_checkpoints_def attach_def sample_mined_def
        sample_place_def sample_ledger_def sample_hash t e next_do_def insertBlockHeader_def
        update_db_def post_loop.simps postTransaction_def new_conf_def insert_conf_def give_def redeem_def unspent_at_def
        unspent_is_valid_def spend_coin_def insert_spending_def delete_unspents_def issue_def insert_unspent_def new_name_operation_def
        check_name_fees_def postSubsidy_def isCoinBase_def is_coinbase_conf_def getValueOut_def c
        tx_final_def ChainRules.range_def verifier_success_def)
qed

theorem seen_transaction_ends_verification_witness:
  "\<exists>maps L. seen_attach = (Inr maps, L) \<and> map (\<lambda>(scrs, t, strict). t) (jobs L) = [spend_first 7 [OP_1]]"
proof -
  obtain maps L where a: "seen_attach = (Inr maps, L)" using seen_attach_returns by blast
  have "map (\<lambda>(scrs, t, strict). t) (jobs L) = [spend_first 7 [OP_1]]"
    using seen_transaction_ends_verification [OF a]
    by (simp add: sample_ledger_def sample_place_def sample_mined_def seen_hash sm_has_def sm_get_def)
  with a show ?thesis by (intro exI conjI)
qed

definition two_blocks :: ledger where
  "two_blocks = update_db (\<lambda>d. d\<lparr>unspents := [],
     confs := [\<lparr>cr_cnf = 1, cr_version = 1, cr_locktime = 0, cr_count = 2, cr_idx = 1\<rparr>,
               \<lparr>cr_cnf = 2, cr_version = 1, cr_locktime = 0, cr_count = 3, cr_idx = 1\<rparr>],
     spendings := [\<lparr>sr_ocnf = 1, sr_coin = 4, sr_key = Coin 60 0, sr_output = \<lparr>out_value = 3, out_script = []\<rparr>,
       sr_signature = [], sr_sequence = 0, sr_iidx = 0, sr_icnf = 2\<rparr>]\<rparr>) sample_ledger"

theorem rollback_oldest_first_leaves_coin_witness:
  "\<exists>L'. each_do (rollbackBlock sample_env) [2, 3] two_blocks = (Inr (), L') \<and>
    (\<exists>u\<in>set (unspents (db L')). u_key u = Coin 60 0 \<and> u_cnf u = 1) \<and> 1 \<notin> cr_cnf ` set (confs (db L'))"
proof -
  have "\<exists>L'. each_do (rollbackBlock sample_env) [2, 3] two_blocks = (Inr (), L')"
    by (simp add: two_blocks_def sample_ledger_def rollbackBlock_def confs_of_def rollbackConfirmation_def rollback_tries_def
        restore_inputs_def insert_unspents_def conf_count_def Let_def next_do_def give_def update_db_def delete_spendings_def)
  then obtain L' where L': "each_do (rollbackBlock sample_env) [2, 3] two_blocks = (Inr (), L')" by blast
  let ?s = "\<lparr>sr_ocnf = 1, sr_coin = 4, sr_key = Coin 60 0, sr_output = \<lparr>out_value = 3, out_script = []\<rparr>,
       sr_signature = [], sr_sequence = 0, sr_iidx = 0, sr_icnf = 2\<rparr>"
  from rollback_oldest_first_leaves_coin [OF L', of ?s] L' show ?thesis
    by (auto simp: two_blocks_def confs_of_def)
qed
end
