(* ===== verification/BlockChain.thy ===== *)
theory BlockChain
  imports LedgerSafety
begin

text \<open>
  The class \<^verbatim>\<open>BlockChain\<close> of \<^verbatim>\<open>src/coinChain/BlockChain.cpp\<close> around its ledger: the block tree, the pool and the blocks
  of side branches; what a new block has to pass, claims of unconfirmed transactions, \<open>append\<close> with its
  transaction of the database, the locator, purging, and the block template.
\<close>

section \<open>The state\<close>

record store =
  st_ledger :: ledger
  st_tree :: tree
  st_invalid :: tree
  st_branches :: "uint256 \<rightharpoonup> mined_block"
  st_claims :: claims
  st_locator :: "uint256 list"
  st_lazy :: bool
  st_notified :: "(transaction \<times> int) list"

text \<open>
  The clock, the Scrypt hash of a header, what the memory of a new \<open>NameOperation\<close> holds, and an auxiliary proof
  of work without content.
\<close>

record world = env +
  w_scrypt :: "block_header \<Rightarrow> uint256"
  w_memory :: "transaction \<Rightarrow> u64 \<times> int"
  w_now :: int
  w_adjusted :: int
  w_no_aux :: aux_pow

definition env_of :: "world \<Rightarrow> env" where
  "env_of W = env.truncate W"

definition plain_block :: "mined_block \<Rightarrow> block" where
  "plain_block b = block.truncate b"

definition null_mined :: "world \<Rightarrow> mined_block" where
  "null_mined W =
     \<lparr>header = \<lparr>bh_version = 1, bh_prevBlock = 0, bh_merkleRoot = 0, bh_time = 0, bh_bits = 0, bh_nonce = 0\<rparr>,
      transactions = [], merkleTree = [], ignore_aux_pow = True, block_aux_pow = w_no_aux W\<rparr>"

section \<open>Time and versions\<close>

text \<open>The iterator stays at the first block when it is decremented there.\<close>

primrec median_samples :: "nat \<Rightarrow> tree \<Rightarrow> blockref option \<Rightarrow> u32 list \<Rightarrow> tree_error + u32 list" where
  "median_samples 0 t it acc = Inr acc"
| "median_samples (Suc n) t it acc =
     (case it of None \<Rightarrow> Inr acc
      | Some blk \<Rightarrow> and_then (advance t (Some blk) (- 1)) (\<lambda>it. median_samples n t it (acc @ [ref_time blk])))"

definition getMedianTimePast :: "tree \<Rightarrow> blockref option \<Rightarrow> tree_error + u32" where
  "getMedianTimePast t it =
     and_then (median_samples 11 t it []) (\<lambda>samples.
       if samples = [] then Inl Out_of_range else Inr (sort samples ! (length samples div 2)))"

text \<open>The loop over the bins from the highest version down, after the first.\<close>

fun scan_bins :: "nat \<Rightarrow> nat \<Rightarrow> (int \<times> nat) list \<Rightarrow> int option" where
  "scan_bins majority n [] = None"
| "scan_bins majority n ((v, m) # bs) =
     (let n = n + m in if n > majority then Some v else scan_bins majority n bs)"

fun version_loop :: "nat \<Rightarrow> tree \<Rightarrow> nat \<times> nat \<Rightarrow> blockref \<Rightarrow> (int \<times> nat) list \<Rightarrow> nat \<Rightarrow> tree_error + int" where
  "version_loop 0 t votes bi bins n = Inl Diverges"
| "version_loop (Suc fuel) t (quorum, majority) bi bins n =
     (let v = sint (ref_version bi); m = sm_at 0 bins v + 1; bins = sm_put v m bins; n = n + 1
      in if m > majority then Inr v
         else
           case (if n > quorum then scan_bins majority (snd (last bins)) (tl (rev bins)) else None) of
             Some w \<Rightarrow> Inr w
           | None \<Rightarrow>
               and_then (advance t (Some bi) (- 1)) (\<lambda>it.
                 case it of None \<Rightarrow> Inr 1 | Some bi \<Rightarrow> version_loop fuel t (quorum, majority) bi bins n))"

definition min_version :: "nat \<times> nat \<Rightarrow> tree \<Rightarrow> tree_error + int" where
  "min_version votes t =
     (if fst votes < snd votes then Inr 1
      else and_then (best t) (\<lambda>bi. version_loop (Suc (fst votes)) t votes bi [] 0))"

definition getMinAcceptedBlockVersion :: "chain \<Rightarrow> tree \<Rightarrow> tree_error + int" where
  "getMinAcceptedBlockVersion ch t = min_version (accept_votes ch) t"

definition getMinEnforcedBlockVersion :: "chain \<Rightarrow> tree \<Rightarrow> tree_error + int" where
  "getMinEnforcedBlockVersion ch t = min_version (enforce_votes ch) t"

section \<open>The locator\<close>

text \<open>The step is doubled when the list has more than ten heights: it is \<open>2 ^ k\<close>.\<close>

function locator_loop :: "int \<Rightarrow> nat \<Rightarrow> nat \<Rightarrow> int list" where
  "locator_loop h k sz =
     (if h - 2 ^ k \<le> 0 then []
      else (h - 2 ^ k) # locator_loop (h - 2 ^ k) (if sz + 1 > 10 then k + 1 else k) (sz + 1))"
  by pat_completeness auto
termination
proof (relation "measure (\<lambda>(h, k, sz). nat h)", goal_cases)
  case (2 h k sz)
  have "(0 :: int) < 2 ^ k" by simp
  with 2 have "h - 2 ^ k < h \<and> 0 < h" by linarith
  then show ?case by simp
qed simp

declare locator_loop.simps [simp del]

definition locator_heights :: "int \<Rightarrow> int list" where
  "locator_heights h = h # locator_loop h 0 1"

text \<open>\<^verbatim>\<open>_tree.begin() + height\<close>, and the read of its hash.\<close>

definition hash_at :: "tree \<Rightarrow> int \<Rightarrow> tree_error + uint256" where
  "hash_at t h =
     and_then (advance t (case trunk t of [] \<Rightarrow> None | r # _ \<Rightarrow> Some r) h) (\<lambda>it.
       case it of None \<Rightarrow> Inl Out_of_range | Some r \<Rightarrow> Inr (ref_hash r))"

fun hashes_at :: "tree \<Rightarrow> int list \<Rightarrow> tree_error + uint256 list" where
  "hashes_at t [] = Inr []"
| "hashes_at t (h # hs) = and_then (hash_at t h) (\<lambda>x. and_then (hashes_at t hs) (\<lambda>xs. Inr (x # xs)))"

definition genesisHash :: "world \<Rightarrow> uint256" where
  "genesisHash W = header_getHash (env_sha W) (header (genesisBlock (env_bn W) (env_sha W) (env_chain W)))"

definition bestLocator :: "uint256 \<Rightarrow> tree \<Rightarrow> tree_error + uint256 list" where
  "bestLocator genesis t = and_then (hashes_at t (locator_heights (tree_height t))) (\<lambda>xs. Inr (xs @ [genesis]))"

fun getDistanceBack :: "tree \<Rightarrow> uint256 list \<Rightarrow> int \<Rightarrow> int \<Rightarrow> tree_error + int" where
  "getDistanceBack t [] distance s = Inr distance"
| "getDistanceBack t (h # hs) distance s =
     and_then (find_ref t h) (\<lambda>it.
       let further = (let distance = distance + s in getDistanceBack t hs distance (if distance > 10 then s * 2 else s))
       in case it of None \<Rightarrow> further
          | Some blk \<Rightarrow> and_then (height_of t (ref_hash blk)) (\<lambda>n. if n \<ge> 0 then Inr distance else further))"

fun locate :: "tree \<Rightarrow> uint256 list \<Rightarrow> tree_error + blockref option" where
  "locate t [] = Inr (case trunk t of [] \<Rightarrow> None | r # _ \<Rightarrow> Some r)"
| "locate t (h # hs) =
     and_then (find_ref t h) (\<lambda>it.
       case it of None \<Rightarrow> locate t hs
       | Some blk \<Rightarrow> and_then (height_of t (ref_hash blk)) (\<lambda>n. if n \<ge> 0 then Inr (Some blk) else locate t hs))"

definition isInMainChain :: "tree \<Rightarrow> uint256 \<Rightarrow> tree_error + bool" where
  "isInMainChain t h =
     and_then (find_ref t h) (\<lambda>it.
       case it of None \<Rightarrow> Inl Out_of_range | Some blk \<Rightarrow> and_then (height_of t (ref_hash blk)) (\<lambda>n. Inr (n \<ge> 0)))"

definition block_height :: "tree \<Rightarrow> uint256 \<Rightarrow> tree_error + int" where
  "block_height t h =
     and_then (find_ref t h) (\<lambda>it.
       case it of None \<Rightarrow> Inr (- 1) | Some blk \<Rightarrow> and_then (height_of t (ref_hash blk)) (\<lambda>n. Inr \<bar>n\<bar>))"

section \<open>Settings\<close>

definition purge_confs :: "int \<Rightarrow> database \<Rightarrow> database" where
  "purge_confs lim d =
     (let gone = map cr_cnf (filter (\<lambda>r. cr_count r \<le> lim) (confs d))
      in d\<lparr>spendings := filter (\<lambda>s. sr_icnf s \<notin> set gone) (spendings d),
           confs := filter (\<lambda>r. \<not> cr_count r \<le> lim) (confs d)\<rparr>)"

text \<open>The pieces are \<open>n + 1\<close> blocks long.\<close>

function purge_loop :: "int \<Rightarrow> nat \<Rightarrow> int \<Rightarrow> database \<Rightarrow> database" where
  "purge_loop depth n lim d =
     (if lim > depth then d
      else
        let lim = (if lim + int (n + 1) > depth then depth else lim)
        in purge_loop depth n (lim + int (n + 1)) (purge_confs lim d))"
  by pat_completeness auto
termination by (relation "measure (\<lambda>(depth, n, lim, d). nat (depth + 1 - lim))") auto

declare purge_loop.simps [simp del]

definition set_purge_depth :: "int \<Rightarrow> ledger \<Rightarrow> ledger" where
  "set_purge_depth depth L =
     (let current = getDeepestDepth (db L);
          n = (if depth - current > 10 then nat ((depth - current) div 10) else 0)
      in L\<lparr>purge_depth := depth, db := purge_loop depth n (current + int (n + 1)) (db L)\<rparr>)"

text \<open>
  To make the unique index fails if a coin is there twice. The tries are not filled when the index is given up.
\<close>

definition set_validation_depth :: "digest_fn \<Rightarrow> tree \<Rightarrow> int \<Rightarrow> unit act" where
  "set_validation_depth sha t v L =
     (if v = validation_depth L then (Inr (), L)
      else
        let L = L\<lparr>validation_depth := v\<rparr>
        in if v = 0 then (if distinct (map u_key (unspents (db L))) then Inr () else Inl Constraint, L)
           else (Inr (), L\<lparr>spendables := set_authenticated (unspent_class sha) (\<not> tree_count t < v) (spendables L)\<rparr>))"

section \<open>Claims\<close>

datatype claim_error =
  Already_claimed | Claims_coinbase | Already_spent | No_such_coin | Not_mature | Claim_names name_error | Coin_out_of_range
  | Bad_signature | Negative_fee | Small_fee | Not_namecoin | Name_taken | No_such_name | No_network_fee

definition getNameAge :: "byte list \<Rightarrow> database \<Rightarrow> int" where
  "getNameAge name d = (if name = [] then 0 else latest_name_count name d)"

definition claim_coin :: "world \<Rightarrow> store \<Rightarrow> coin \<Rightarrow> claim_error + unspent" where
  "claim_coin W st k =
     (let out = claims_prev (st_claims st) k; L = st_ledger st; t = st_tree st
      in if \<not> output_isNull out
         then Inr \<lparr>u_key = k, u_output = out, u_coin = 0, u_count = 0, u_cnf = 0\<rparr>
         else if validation_depth L = 0 then
           (case unspent_at k (db L) of None \<Rightarrow> Inl No_such_coin
            | Some u \<Rightarrow>
                if \<not> unspent_is_valid u then Inl No_such_coin
                else if u_count u < 0 \<and> tree_count t + u_count u + 1 < maturity (env_chain W) (tree_height t) then Inl Not_mature
                else Inr u)
         else (case trie_look (unspent_class (env_sha W)) (spendables L) k of None \<Rightarrow> Inl No_such_coin | Some u \<Rightarrow> Inr u))"

fun claim_inputs :: "world \<Rightarrow> store \<Rightarrow> bool \<Rightarrow> transaction \<Rightarrow> nat \<Rightarrow> tx_in list \<Rightarrow> coin set \<times> name_operation \<times> u64 \<Rightarrow>
    claim_error + coin set \<times> name_operation \<times> u64" where
  "claim_inputs W st check txn i [] acc = Inr acc"
| "claim_inputs W st check txn i (inp # inps) (sp, op, value_in) =
     (if claims_spent (st_claims st) (prevout inp) \<or> prevout inp \<in> sp then Inl Already_spent
      else
        and_then (claim_coin W st (prevout inp)) (\<lambda>u.
        and_then
          (if adhere_names (env_chain W) then
             (case name_input (env_bn W) (env_crypto W) (u_output u) (u_count u) op of
                Inl err \<Rightarrow> Inl (Claim_names err)
              | Inr (found, op) \<Rightarrow> Inr (if found then op\<lparr>no_name := getCoinName (u_coin u) (db (st_ledger st))\<rparr> else op))
           else Inr op) (\<lambda>op.
        if \<not> ChainRules.range (env_chain W) (out_amount (u_output u)) then Inl Coin_out_of_range
        else if check \<and> verify (env_bn W) (env_crypto W) (env_key W) txn i (out_script (u_output u)) 0
            (w_now W > timeStamp (env_chain W) BIP0016) \<noteq> Verdict True then Inl Bad_signature
        else claim_inputs W st check txn (Suc i) inps
               (Set.insert (prevout inp) sp, op, value_in + out_value (u_output u)))))"

fun claim_outputs :: "world \<Rightarrow> store \<Rightarrow> transaction \<Rightarrow> tx_out list \<Rightarrow> name_operation \<Rightarrow> claim_error + name_operation" where
  "claim_outputs W st txn [] op = Inr op"
| "claim_outputs W st txn (out # outs) op =
     (case name_output (env_bn W) (env_crypto W) out op of
        Inl err \<Rightarrow> Inl (Claim_names err)
      | Inr (found, op) \<Rightarrow>
          if \<not> found then claim_outputs W st txn outs op
          else if tx_version txn \<noteq> NAMECOIN_TX_VERSION then Inl Not_namecoin
          else
            let age = getNameAge (no_name op) (db (st_ledger st)); expired = isExpired (env_chain W) age (tree_count (st_tree st))
            in if name_reserve op then (if \<not> expired then Inl Name_taken else claim_outputs W st txn outs op)
               else if expired then Inl No_such_name
               else claim_outputs W st txn outs op)"

definition try_claim :: "world \<Rightarrow> store \<Rightarrow> transaction \<Rightarrow> bool \<Rightarrow> claim_error + coin set \<times> u64" where
  "try_claim W st txn check =
     (let ch = env_chain W;
          op = new_name_operation (fst (w_memory W txn)) (snd (w_memory W txn))
            (if adhere_names ch then \<not> enforce_name_rules ch (w_now W) else True)
      in if claims_have (st_claims st) (tx_getHash (env_sha W) txn) then Inl Already_claimed
         else if isCoinBase txn then Inl Claims_coinbase
         else
           and_then (claim_inputs W st check txn 0 (tx_inputs txn) ({}, op, 0)) (\<lambda>(sp, op, value_in).
             let fee = value_in - getValueOut txn
             in if fee <s 0 then Inl Negative_fee
                else if fee <s 0 then Inl Small_fee
                else if \<not> adhere_names ch then Inr (sp, fee)
                else
                  and_then (claim_outputs W st txn (tx_outputs txn) op) (\<lambda>op.
                    case network_fee ch (tree_count (st_tree st)) of
                      None \<Rightarrow> Inl No_network_fee
                    | Some least \<Rightarrow>
                        (case name_check_fees (word_of_int least) op of Inl err \<Rightarrow> Inl (Claim_names err) | Inr _ \<Rightarrow> Inr (sp, fee)))))"

definition claim_txn :: "world \<Rightarrow> transaction \<Rightarrow> bool \<Rightarrow> store \<Rightarrow> claim_error + store" where
  "claim_txn W txn check st =
     and_then (try_claim W st txn check) (\<lambda>(sp, fee).
       Inr (st\<lparr>st_claims := claims_insert (env_sha W) (word_of_int (w_now W)) txn sp fee 0 (st_claims st),
               st_notified := st_notified st @ [(txn, w_now W)]\<rparr>))"


section \<open>Appending a block\<close>

text \<open>
  \<open>Undefined\<close>: the code reads outside a vector, shifts too far, or overflows. \<open>Tree_failed\<close> and
  \<open>Append_failed\<close> wrap what the tree and the ledger throw, some of which is undefined too.
\<close>

datatype append_error =
  No_work_nor_share | Already_accepted | Already_invalid | Version_too_old | Orphan_block | Wrong_work | Wrong_limit
  | Too_early | Branching_disallowed | Append_failed ledger_error | Wrong_height | Tree_failed tree_error
  | Work_failed work_error | Undefined

definition from_tree :: "tree_error + 'a \<Rightarrow> append_error + 'a" where
  "from_tree r = (case r of Inl e \<Rightarrow> Inl (Tree_failed e) | Inr x \<Rightarrow> Inr x)"

definition from_work :: "work_error + 'a \<Rightarrow> append_error + 'a" where
  "from_work r = (case r of Inl e \<Rightarrow> Inl (Work_failed e) | Inr x \<Rightarrow> Inr x)"

definition defined_or :: "'a option \<Rightarrow> append_error + 'a" where
  "defined_or x = (case x of None \<Rightarrow> Inl Undefined | Some y \<Rightarrow> Inr y)"

definition block_hash :: "world \<Rightarrow> mined_block \<Rightarrow> uint256" where
  "block_hash W b = header_getHash (env_sha W) (header b)"

text \<open>No operation inserts into the tree of shares, so the share before is never found.\<close>

definition checkShare :: "world \<Rightarrow> mined_block \<Rightarrow> append_error + bool" where
  "checkShare W b =
     (if sint (bh_version (header b)) < 3 then Inr False
      else
        and_then (defined_or (getShareTarget (env_bn W) (plain_block b))) (\<lambda>target.
        and_then (defined_or target) (\<lambda>target.
          if block_hash W b > target then Inr False
          else and_then (defined_or (getPrevShare (plain_block b))) (\<lambda>_. Inr False))))"

definition new_ref :: "world \<Rightarrow> mined_block \<Rightarrow> uint256 \<Rightarrow> blockref" where
  "new_ref W b prev =
     (let h = header b
      in \<lparr>ref_version = bh_version h, ref_hash = block_hash W b, ref_prev = prev, ref_time = bh_time h, ref_bits = bh_bits h\<rparr>)"

definition note_invalid :: "world \<Rightarrow> mined_block \<Rightarrow> tree \<Rightarrow> append_error + tree" where
  "note_invalid W b t =
     from_tree (and_then (find_ref t (bh_prevBlock (header b))) (\<lambda>it.
       case it of None \<Rightarrow> Inr t
       | Some _ \<Rightarrow> and_then (insert_ref (env_bn W) t (new_ref W b (bh_prevBlock (header b)))) (\<lambda>(_, t). Inr t)))"

text \<open>The work a block has to state: that of its place, or the limit when it came late.\<close>

definition required_work :: "world \<Rightarrow> mined_block \<Rightarrow> tree \<Rightarrow> blockref \<Rightarrow> append_error + unit" where
  "required_work W b t prev =
     (let ch = env_chain W; h = header b
      in and_then (from_work (nextWorkRequired (env_bn W) ch t prev)) (\<lambda>bits.
         if bh_bits h = bits then Inr ()
         else
           and_then (from_work (int_minus (bh_time h) (ref_time prev))) (\<lambda>gap.
             if gap < maxInterBlockTime ch then Inl Wrong_work
             else if bh_bits h \<noteq> GetCompact (env_bn W) (proofOfWorkLimit (env_bn W) ch) then Inl Wrong_limit
             else Inr ())))"

text \<open>The checks before the block enters the tree; the result is the block it follows.\<close>

definition fits_tree :: "world \<Rightarrow> mined_block \<Rightarrow> tree \<Rightarrow> append_error + blockref" where
  "fits_tree W b t =
     and_then (from_tree (find_ref t (bh_prevBlock (header b)))) (\<lambda>it.
     and_then (from_tree (getMinAcceptedBlockVersion (env_chain W) t)) (\<lambda>least.
       if sint (bh_version (header b)) < least then Inl Version_too_old
       else
         case it of None \<Rightarrow> Inl Orphan_block
         | Some prev \<Rightarrow>
             and_then (required_work W b t prev) (\<lambda>_.
             and_then (from_tree (getMedianTimePast t (Some prev))) (\<lambda>past.
               if uint (bh_time (header b)) \<le> uint past then Inl Too_early else Inr prev))))"

definition place_of :: "tree \<Rightarrow> uint256 \<Rightarrow> tree_error + place" where
  "place_of t h =
     and_then (ref_at t h) (\<lambda>r.
     and_then (height_of t h) (\<lambda>height.
     and_then (count_of t h) (\<lambda>n.
     and_then (step_back t r) (\<lambda>prev.
       Inr \<lparr>bp_count = n, bp_height = height, bp_hash = h, bp_time = ref_time r, bp_prev_hash = ref_hash prev\<rparr>))))"

definition block_passes :: "world \<Rightarrow> mined_block \<Rightarrow> bool" where
  "block_passes W b \<longleftrightarrow> check_block (env_sha W) (env_chain W) (w_adjusted W) b = Inr ()"

text \<open>A step of \<open>append\<close> changes the store; an exception leaves what was done so far.\<close>

type_synonym 'a chain_act = "store \<Rightarrow> (append_error + 'a) \<times> store"

definition then_do :: "'a chain_act \<Rightarrow> ('a \<Rightarrow> 'b chain_act) \<Rightarrow> 'b chain_act" where
  "then_do m f st = (case m st of (Inl e, st') \<Rightarrow> (Inl e, st') | (Inr x, st') \<Rightarrow> f x st')"

definition pure :: "append_error + 'a \<Rightarrow> 'a chain_act" where
  "pure r st = (r, st)"

definition on_ledger :: "'a act \<Rightarrow> 'a chain_act" where
  "on_ledger m st =
     (case m (st_ledger st) of
        (Inl e, L) \<Rightarrow> (Inl (Append_failed e), st\<lparr>st_ledger := L\<rparr>)
      | (Inr x, L) \<Rightarrow> (Inr x, st\<lparr>st_ledger := L\<rparr>))"

fun detach_all :: "world \<Rightarrow> uint256 list \<Rightarrow> txn_map \<Rightarrow> txn_map chain_act" where
  "detach_all W [] unconfirmed st = (Inr unconfirmed, st)"
| "detach_all W (h # hs) unconfirmed st =
     then_do (pure (from_tree (place_of (st_tree st) h))) (\<lambda>blk.
     then_do (on_ledger (detach (env_of W) (block_passes W) (w_no_aux W) blk (unconfirmed, st_branches st))) (\<lambda>(unconfirmed, br) st.
       detach_all W hs unconfirmed (st\<lparr>st_branches := br\<rparr>))) st"

text \<open>A block that is not among the branches is made there, without content, by the read.\<close>

fun attach_all :: "world \<Rightarrow> uint256 list \<Rightarrow> place option \<Rightarrow> txn_map \<times> uint256 list \<Rightarrow> ((txn_map \<times> uint256 list) \<times> place option) chain_act" where
  "attach_all W [] last_blk maps st = (Inr (maps, last_blk), st)"
| "attach_all W (h # hs) last_blk maps st =
     then_do (pure (from_tree (place_of (st_tree st) h))) (\<lambda>blk st.
       let b = (case st_branches st h of None \<Rightarrow> null_mined W | Some b \<Rightarrow> b);
           st = st\<lparr>st_branches := (st_branches st)(h \<mapsto> b)\<rparr>
       in then_do (on_ledger (attach (env_of W) (w_memory W) (claims_have (st_claims st)) (tree_height (st_tree st))
              (w_adjusted W) blk b maps)) (\<lambda>maps. attach_all W hs (Some blk) maps) st) st"

definition purge_step :: "world \<Rightarrow> int \<Rightarrow> place \<Rightarrow> unit chain_act" where
  "purge_step W prev_height blk st =
     (let L = st_ledger st
      in if purge_depth L \<noteq> 0 \<and> \<not> st_lazy st \<and> bp_count blk \<ge> purge_depth L then
           (Inr (), st\<lparr>st_ledger := L\<lparr>db := purge_confs (purge_depth L) (db L),
              purge_depth := purge_depth L +
                (if purge_depth L = prev_height - maturity (env_chain W) prev_height then 1 else 0)\<rparr>\<rparr>)
         else (Inr (), st))"

definition check_version :: "world \<Rightarrow> mined_block \<Rightarrow> int \<Rightarrow> tree \<Rightarrow> append_error + unit" where
  "check_version W b prev_height t =
     and_then (from_tree (getMinEnforcedBlockVersion (env_chain W) t)) (\<lambda>least.
       if least \<ge> 2 \<and> sint (bh_version (header b)) \<ge> 2 then
         and_then (defined_or (getHeight (env_bn W) (plain_block b))) (\<lambda>h.
           if h \<noteq> prev_height + 1 then Inl Wrong_height else Inr ())
       else Inr ())"

text \<open>The body of the transaction of the database, between \<open>BEGIN\<close> and \<open>COMMIT\<close>.\<close>

definition change_chain :: "world \<Rightarrow> mined_block \<Rightarrow> int \<Rightarrow> changes \<Rightarrow> (txn_map \<times> uint256 list) chain_act" where
  "change_chain W b prev_height ch =
     then_do (detach_all W (deleted ch) []) (\<lambda>unconfirmed.
     then_do (attach_all W (rev (inserted ch)) None (unconfirmed, [])) (\<lambda>(maps, last_blk).
     then_do (case last_blk of None \<Rightarrow> pure (Inl Undefined) | Some blk \<Rightarrow> purge_step W prev_height blk) (\<lambda>_ st.
     then_do (pure (check_version W b prev_height (st_tree st))) (\<lambda>_. pure (Inr maps)) st)))"

text \<open>What an exception takes back: the database, one block of the tree, and the trie of the spendables.\<close>

definition take_back :: "world \<Rightarrow> ledger \<Rightarrow> store \<Rightarrow> store" where
  "take_back W L st =
     st\<lparr>st_ledger := (st_ledger st)\<lparr>db := db L, spendables := spendables L\<rparr>,
        st_tree := (case pop_back (env_bn W) (st_tree st) of Inl _ \<Rightarrow> st_tree st | Inr t \<Rightarrow> t)\<rparr>"

definition forget_branches :: "uint256 list \<Rightarrow> store \<Rightarrow> store" where
  "forget_branches hs st = st\<lparr>st_branches := fold (\<lambda>h br. br(h := None)) hs (st_branches st)\<rparr>"

definition updateBestLocator :: "world \<Rightarrow> store \<Rightarrow> tree_error + store" where
  "updateBestLocator W st = and_then (bestLocator (genesisHash W) (st_tree st)) (\<lambda>xs. Inr (st\<lparr>st_locator := xs\<rparr>))"

text \<open>The loop over the inserted blocks reads the block of the same hash each time, which \<open>append\<close> has just erased.\<close>

definition notify :: "world \<Rightarrow> uint256 \<Rightarrow> uint256 list \<Rightarrow> store \<Rightarrow> store" where
  "notify W hash hs st =
     fold (\<lambda>_ st.
       let b = (case st_branches st hash of None \<Rightarrow> null_mined W | Some b \<Rightarrow> b);
           height = (case height_of (st_tree st) hash of Inl _ \<Rightarrow> 0 | Inr n \<Rightarrow> n)
       in st\<lparr>st_branches := (st_branches st)(hash \<mapsto> b),
             st_notified := st_notified st @ map (\<lambda>txn. (txn, height)) (transactions b)\<rparr>) hs st"

definition reclaim :: "world \<Rightarrow> txn_map \<Rightarrow> store \<Rightarrow> store" where
  "reclaim W unconfirmed st =
     fold (\<lambda>(_, txn) st. case claim_txn W txn False st of Inl _ \<Rightarrow> st | Inr st \<Rightarrow> st) unconfirmed st"

definition settle :: "world \<Rightarrow> uint256 \<Rightarrow> changes \<Rightarrow> txn_map \<times> uint256 list \<Rightarrow> store \<Rightarrow> store" where
  "settle W hash ch maps st =
     (let st = notify W hash (inserted ch) st;
          L = st_ledger st;
          st = (if validation_depth L > 0
                then st\<lparr>st_ledger := L\<lparr>spendables := set_authenticated (unspent_class (env_sha W))
                          (tree_count (st_tree st) \<ge> validation_depth L) (spendables L)\<rparr>\<rparr>
                else st);
          st = st\<lparr>st_claims := fold claims_erase (sorted_list_of_set (set (snd maps))) (st_claims st)\<rparr>;
          st = st\<lparr>st_claims := claims_purge (word_of_int (w_now W - 24 * 60 * 60)) (st_claims st)\<rparr>
      in reclaim W (fst maps) st)"

text \<open>
  A tree in which the locator cannot be found is an error that nothing takes back; the \<open>catch\<close> of the code would pop the
  block. On a consistent tree the locator is always found (\<open>bestLocator_tree\<close>).
\<close>

definition append :: "world \<Rightarrow> mined_block \<Rightarrow> unit chain_act" where
  "append W b =
     (let hash = block_hash W b in
      then_do (pure (checkShare W b)) (\<lambda>valid_share.
      then_do (pure (defined_or (checkProofOfWork (env_bn W) (env_sha W) (w_scrypt W) (env_chain W) b))) (\<lambda>valid_block.
      if \<not> valid_block \<and> \<not> valid_share then pure (Inl No_work_nor_share)
      else (\<lambda>st.
        if have_ref (st_tree st) hash then (Inl Already_accepted, st)
        else if have_ref (st_invalid st) hash then (Inl Already_invalid, st)
        else
          case note_invalid W b (st_invalid st) of Inl e \<Rightarrow> (Inl e, st)
          | Inr invalid \<Rightarrow>
          let st = st\<lparr>st_invalid := invalid\<rparr> in
          case fits_tree W b (st_tree st) of Inl e \<Rightarrow> (Inl e, st)
          | Inr prev \<Rightarrow>
          case height_of (st_tree st) (ref_hash prev) of Inl e \<Rightarrow> (Inl (Tree_failed e), st)
          | Inr h \<Rightarrow>
          let prev_height = \<bar>h\<bar> in
          case insert_ref (env_bn W) (st_tree st) (new_ref W b (ref_hash prev)) of Inl e \<Rightarrow> (Inl (Tree_failed e), st)
          | Inr (ch, t) \<Rightarrow>
          let snapshot = st_ledger st; st = st\<lparr>st_tree := t\<rparr> in
          if prev_height < totalBlocksEstimate (env_chain W) \<and> inserted ch = [] then (Inl Branching_disallowed, st)
          else
            let st = st\<lparr>st_branches := (st_branches st)(hash \<mapsto> b)\<rparr> in
            if inserted ch = [] then (Inr (), st)
            else
              case change_chain W b prev_height ch st of
                (Inl e, st) \<Rightarrow> (Inl e, take_back W snapshot st)
              | (Inr maps, st) \<Rightarrow>
                  if \<not> valid_block then (Inr (), forget_branches (deleted ch) (take_back W snapshot st))
                  else
                    case updateBestLocator W (forget_branches (inserted ch) st) of
                      Inl e \<Rightarrow> (Inl (Tree_failed e), st)
                    | Inr st \<Rightarrow> (Inr (), settle W hash ch maps st)))))"

end
