(* ===== verification/ChainAppend.thy ===== *)
theory ChainAppend
  imports BlockChain
begin

text \<open>
  What \<open>append\<close> guarantees: what it accepts, what it leaves behind when it refuses a block, whom it tells.
\<close>

section \<open>The locator\<close>

lemma hash_at_trunk:
  assumes "tree_inv bn A t" and "0 \<le> h" and "nat h < length (trunk t)"
  shows "hash_at t h = Inr (ref_hash (trunk t ! nat h))"
proof -
  obtain r rs where T: "trunk t = r # rs" using inv_maps(3) [OF assms(1)] by (cases "trunk t") auto
  have "sm_get (heights t) (ref_hash r) = Some 0" using inv_maps(7) [OF assms(1), of 0] T by simp
  then show ?thesis using assms(2,3) T by (auto simp: hash_at_def advance_def height_of_def trunk_at_def)
qed

lemma locator_loop_range: "x \<in> set (locator_loop h k n) \<Longrightarrow> 0 < x \<and> x < h"
proof (induction h k n rule: locator_loop.induct)
  case (1 h k n)
  have "(0 :: int) < 2 ^ k" by simp
  then have "0 < x \<and> (x = h - 2 ^ k \<or> x < h - 2 ^ k)" if "\<not> h - 2 ^ k \<le> 0"
    using 1 that by (subst (asm) (2) locator_loop.simps) auto
  moreover have "\<not> h - 2 ^ k \<le> 0" using 1(2) by (subst (asm) locator_loop.simps) (auto split: if_splits)
  ultimately have "0 < x \<and> x \<le> h - 2 ^ k" by fastforce
  then show ?case using \<open>(0 :: int) < 2 ^ k\<close> by linarith
qed

lemma hashes_at_trunk:
  assumes "tree_inv bn A t" and "\<forall>h\<in>set hs. 0 \<le> h \<and> nat h < length (trunk t)"
  shows "hashes_at t hs = Inr (map (\<lambda>h. ref_hash (trunk t ! nat h)) hs)"
  using assms(2) by (induction hs) (simp_all add: hash_at_trunk [OF assms(1)])

lemma bestLocator_tree:
  assumes "tree_inv bn A t"
  shows "bestLocator g t = Inr (map (\<lambda>h. ref_hash (trunk t ! nat h)) (locator_heights (tree_height t)) @ [g])"
proof -
  have "trunk t \<noteq> []" by (rule inv_maps(3) [OF assms])
  then have "\<forall>h\<in>set (locator_heights (tree_height t)). 0 \<le> h \<and> nat h < length (trunk t)"
    using locator_loop_range [of _ "tree_height t" 0 1]
    by (fastforce simp: locator_heights_def tree_height_def nat_less_iff Suc_le_eq)
  then show ?thesis using hashes_at_trunk [OF assms] by (simp add: bestLocator_def)
qed

section \<open>The vote on versions\<close>

text \<open>The versions of the last \<open>n\<close> blocks, the tip first; below the first block it counts on.\<close>

definition nth_back :: "tree \<Rightarrow> nat \<Rightarrow> blockref" where
  "nth_back t n = trunk t ! (length (trunk t) - 1 - n)"

definition ballots :: "tree \<Rightarrow> nat \<Rightarrow> int list" where
  "ballots t n = map (\<lambda>i. sint (ref_version (nth_back t i))) [0..<n]"

definition votes_for :: "int list \<Rightarrow> int \<Rightarrow> nat" where
  "votes_for vs v = length (filter (\<lambda>u. v \<le> u) vs)"

definition tally :: "int list \<Rightarrow> (int \<times> nat) list" where
  "tally vs = fold (\<lambda>v bins. sm_put v (sm_at 0 bins v + 1) bins) vs []"

definition votes_from :: "(int \<times> nat) list \<Rightarrow> int \<Rightarrow> nat" where
  "votes_from bins v = sum_list (map snd (filter (\<lambda>b. v \<le> fst b) bins))"

lemma votes_from_simps [simp]:
  "votes_from [] v = 0" "votes_from (b # bins) v = (if v \<le> fst b then snd b else 0) + votes_from bins v"
  "votes_from (bins @ bins') v = votes_from bins v + votes_from bins' v"
  by (simp_all add: votes_from_def)

lemma votes_from_put:
  "sm_ok bins \<Longrightarrow> votes_from (sm_put u (Suc (sm_at 0 bins u)) bins) v = votes_from bins v + (if v \<le> u then 1 else 0)"
proof (induction bins)
  case (Cons b bins)
  obtain k x where b: "b = (k, x)" by (cases b)
  have ok: "sm_ok bins" "\<forall>u'\<in>set (map fst bins). k < u'" using Cons.prems b by (auto simp: sm_ok_def)
  consider "u < k" | "u = k" | "k < u" by linarith
  then show ?case
  proof cases
    case 1
    then have "u \<notin> set (map fst bins)" using ok(2) by force
    then have "sm_get bins u = None" by (simp add: sm_get_def map_of_eq_None_iff)
    then show ?thesis using 1 b by (simp add: sm_at_def sm_get_def)
  next
    case 3
    then have "sm_at 0 (b # bins) u = sm_at 0 bins u" using b by (simp add: sm_at_def sm_get_def)
    then show ?thesis using 3 b Cons.IH [OF ok(1)] by simp
  qed (simp add: b sm_at_def sm_get_def)
qed (simp add: sm_at_def)

lemma tally_snoc: "tally (vs @ [v]) = sm_put v (Suc (sm_at 0 (tally vs) v)) (tally vs)"
  by (simp add: tally_def)

lemma tally_ok: "sm_ok (tally vs)"
  by (induction vs rule: rev_induct) (simp_all add: tally_snoc, simp add: tally_def)

lemma tally_counts: "sm_at 0 (tally vs) v = count_list vs v"
  by (induction vs rule: rev_induct) (auto simp: tally_snoc sm_at_def tally_def count_list_append)

lemma tally_votes: "votes_from (tally vs) v = votes_for vs v"
  by (induction vs rule: rev_induct) (auto simp: tally_snoc votes_from_put [OF tally_ok] votes_for_def, simp add: tally_def)

lemma tally_Nil: "tally vs = [] \<longleftrightarrow> vs = []"
proof
  assume "tally vs = []"
  then have "\<forall>v. count_list vs v = 0" using tally_counts [of vs] by (simp add: sm_at_def)
  then show "vs = []" by (metis count_list_0_iff ex_in_conv set_empty)
qed (simp add: tally_def)

text \<open>The scan from the highest version down.\<close>

lemma scan_bins_result:
  assumes "c \<le> m"
  shows "case scan_bins m c bs of
      None \<Rightarrow> c + sum_list (map snd bs) \<le> m
    | Some w \<Rightarrow> \<exists>pre x post. bs = pre @ (w, x) # post \<and> c + sum_list (map snd pre) \<le> m \<and> m < c + sum_list (map snd pre) + x"
  using assms
proof (induction m c bs rule: scan_bins.induct)
  case (2 m c v x bs)
  show ?case
  proof (cases "m < c + x")
    case True
    then show ?thesis using 2(2) by (auto intro!: exI [of _ "[]"])
  next
    case False
    then have IH: "case scan_bins m (c + x) bs of
      None \<Rightarrow> c + x + sum_list (map snd bs) \<le> m
    | Some w \<Rightarrow> \<exists>pre x' post. bs = pre @ (w, x') # post \<and> c + x + sum_list (map snd pre) \<le> m \<and> m < c + x + sum_list (map snd pre) + x'"
      using 2(1) [OF refl] by simp
    show ?thesis
    proof (cases "scan_bins m (c + x) bs")
      case None
      then show ?thesis using False IH by (simp add: Let_def add.assoc)
    next
      case (Some w)
      then obtain pre x' post where "bs = pre @ (w, x') # post" "c + x + sum_list (map snd pre) \<le> m"
        "m < c + x + sum_list (map snd pre) + x'" using IH by auto
      then have "(v, x) # bs = ((v, x) # pre) @ (w, x') # post" "c + sum_list (map snd ((v, x) # pre)) \<le> m"
        "m < c + sum_list (map snd ((v, x) # pre)) + x'" by simp_all
      moreover have eq: "scan_bins m c ((v, x) # bs) = Some w" using False Some by simp
      ultimately show ?thesis unfolding eq option.case by blast
    qed
  qed
qed simp

definition elected :: "nat \<Rightarrow> int list \<Rightarrow> int \<Rightarrow> bool" where
  "elected m vs v \<longleftrightarrow> m < votes_for vs v \<and> (\<forall>w>v. votes_for vs w \<le> m)"

lemma votes_from_sum: "\<forall>b\<in>set bins. v \<le> fst b \<Longrightarrow> votes_from bins v = sum_list (map snd bins)"
  by (simp add: votes_from_def filter_id_conv)

lemma votes_from_none: "\<forall>b\<in>set bins. fst b < v \<Longrightarrow> votes_from bins v = 0"
  by (induction bins) auto

lemma votes_from_rev [simp]: "votes_from (rev bins) v = votes_from bins v"
  by (induction bins) auto

lemma votes_from_le: "votes_from bins v \<le> sum_list (map snd bins)"
  by (induction bins) auto

lemma scan_elected:
  assumes "\<forall>u. count_list vs u \<le> m" and "m < length vs"
  shows "\<exists>w. scan_bins m (snd (last (tally vs))) (tl (rev (tally vs))) = Some w \<and> elected m vs w"
proof -
  have ne: "tally vs \<noteq> []" using assms(2) by (auto simp: tally_Nil)
  obtain u c where l: "last (tally vs) = (u, c)" by (cases "last (tally vs)")
  have r: "rev (tally vs) = (u, c) # tl (rev (tally vs))" using ne l by (metis hd_rev list.collapse rev_is_Nil_conv)
  have "(u, c) \<in> set (tally vs)" using ne l by (metis last_in_set)
  then have c: "c \<le> m" using assms(1) tally_counts [of vs u] sm_get_iff [OF tally_ok] by (metis sm_at_def option.simps(5))
  have total: "c + sum_list (map snd (tl (rev (tally vs)))) = length vs"
  proof -
    let ?S = "fst ` set (tally vs) \<union> set vs"
    have "\<forall>b\<in>set (tally vs). Min ?S \<le> fst b" "\<forall>x\<in>set vs. Min ?S \<le> x" by simp_all
    then have "sum_list (map snd (tally vs)) = length vs"
      using votes_from_sum tally_votes [of vs "Min ?S"] by (simp add: votes_for_def)
    moreover have "sum_list (map snd (tally vs)) = sum_list (map snd (rev (tally vs)))" by (simp add: rev_map [symmetric] sum_list.rev)
    ultimately show ?thesis using r by (metis list.simps(9) snd_conv sum_list.Cons)
  qed
  obtain w pre x post where w: "scan_bins m c (tl (rev (tally vs))) = Some w" "tl (rev (tally vs)) = pre @ (w, x) # post"
    "c + sum_list (map snd pre) \<le> m" "m < c + sum_list (map snd pre) + x"
    using scan_bins_result [OF c, of "tl (rev (tally vs))"] total assms(2) by (fastforce split: option.splits)
  have "rev (tally vs) = (u, c) # pre @ (w, x) # post" using r w(2) by simp
  then have t: "tally vs = rev post @ (w, x) # rev pre @ [(u, c)]" by (metis append_Cons append_Nil append_assoc rev.simps(2) rev_append rev_rev_ident)
  have s: "sorted_wrt (<) (map fst (tally vs))" using tally_ok by (simp add: sm_ok_def)
  have "\<forall>b\<in>set (rev pre @ [(u, c)]). w < fst b" "\<forall>b\<in>set (rev post). fst b < w"
    using s unfolding t by (auto simp: sorted_wrt_append)
  then have "votes_from pre w = sum_list (map snd pre)" "votes_from post w = 0" "w \<le> u"
    and post: "\<forall>w'>w. votes_from post w' = 0"
    by (auto intro!: votes_from_sum votes_from_none)
  then have "votes_from (tally vs) w = x + (sum_list (map snd pre) + c)"
    and "\<forall>w'>w. votes_from (tally vs) w' \<le> sum_list (map snd pre) + c"
    unfolding t using votes_from_le [of pre] by (auto intro: trans_le_add1 add_le_mono)
  then show ?thesis using w(1,3,4) l by (auto simp: elected_def tally_votes)
qed


lemma ballots_Suc: "ballots t (Suc n) = ballots t n @ [sint (ref_version (nth_back t n))]"
  by (simp add: ballots_def)

lemma length_ballots [simp]: "length (ballots t n) = n"
  by (simp add: ballots_def)

lemma ballots_prefix: "n \<le> k \<Longrightarrow> \<exists>us. ballots t k = ballots t n @ us \<and> length us = k - n"
proof (induction k)
  case (Suc k)
  show ?case
  proof (cases "n = Suc k")
    case False
    then have "n \<le> k" using Suc.prems by simp
    from Suc.IH [OF this] obtain us where "ballots t k = ballots t n @ us" "length us = k - n" by blast
    then show ?thesis using \<open>n \<le> k\<close> by (intro exI [of _ "us @ [_]"]) (auto simp: ballots_Suc Suc_diff_le)
  qed (intro exI [of _ "[]"], simp)
qed simp

lemma count_votes: "count_list vs v \<le> votes_for vs v"
  by (induction vs) (auto simp: votes_for_def)

lemma count_others: "v < w \<Longrightarrow> votes_for vs w + count_list vs v \<le> length vs"
  by (induction vs) (auto simp: votes_for_def)

text \<open>A version that alone has the majority is elected.\<close>

lemma majority_elected:
  assumes "m < count_list (ballots t n) v" and "n \<le> Suc q" and "q \<le> 2 * m"
  shows "elected m (ballots t (Suc q)) v"
proof -
  obtain us where us: "ballots t (Suc q) = ballots t n @ us" using ballots_prefix [OF assms(2)] by blast
  have "m < count_list (ballots t (Suc q)) v" using assms(1) by (simp add: us)
  moreover have "votes_for (ballots t (Suc q)) w + count_list (ballots t (Suc q)) v \<le> Suc q" if "v < w" for w
    using count_others [OF that, of "ballots t (Suc q)"] by simp
  ultimately show ?thesis
    using count_votes [of "ballots t (Suc q)" v] assms(3) by (fastforce simp: elected_def)
qed

lemma step_back_trunk:
  assumes "tree_inv bn A t" and "p < length (trunk t)"
  shows "advance t (Some (trunk t ! p)) (- 1) = Inr (Some (trunk t ! (p - 1)))"
proof -
  have "sm_get (heights t) (ref_hash (trunk t ! p)) = Some (int p)" by (rule inv_maps(7) [OF assms])
  then show ?thesis using assms(2) by (cases p) (auto simp: advance_def height_of_def trunk_at_def nat_diff_distrib)
qed

lemma version_loop_result:
  assumes "tree_inv bn A t" and "m \<le> q" and "q \<le> 2 * m"
  shows "n \<le> q \<Longrightarrow> \<forall>u. count_list (ballots t n) u \<le> m \<Longrightarrow> q < fuel + n \<Longrightarrow>
    \<exists>v. version_loop fuel t (q, m) (nth_back t n) (tally (ballots t n)) n = Inr v \<and>
      elected m (ballots t (Suc q)) v"
proof (induction fuel arbitrary: n)
  case (Suc fuel)
  let ?r = "nth_back t n" and ?vs = "ballots t n" and ?vs' = "ballots t (Suc n)"
  let ?v = "sint (ref_version ?r)"
  have T: "trunk t \<noteq> []" by (rule inv_maps(3) [OF assms(1)])
  have vs': "?vs' = ?vs @ [?v]" by (rule ballots_Suc)
  have tal: "sm_put ?v (count_list ?vs' ?v) (tally ?vs) = tally ?vs'" by (simp add: vs' tally_snoc tally_counts)
  have cnt: "Suc (sm_at 0 (tally ?vs) ?v) = count_list ?vs' ?v" by (simp add: vs' tally_counts)
  show ?case
  proof (cases "m < count_list ?vs' ?v")
    case True
    then have "version_loop (Suc fuel) t (q, m) ?r (tally ?vs) n = Inr ?v" by (simp add: Let_def cnt)
    then show ?thesis using majority_elected [OF True _ assms(3)] Suc.prems(1) by auto
  next
    case False
    then have each: "\<forall>u. count_list ?vs' u \<le> m" using Suc.prems(2) by (simp add: vs')
    show ?thesis
    proof (cases "q < Suc n")
      case True
      then have n: "n = q" using Suc.prems(1) by simp
      obtain w where "scan_bins m (snd (last (tally ?vs'))) (tl (rev (tally ?vs'))) = Some w" "elected m ?vs' w"
        using scan_elected [OF each] assms(2) n by auto
      then show ?thesis using False True by (simp add: Let_def cnt tal n [symmetric])
    next
      case more: False
      have adv: "advance t (Some ?r) (- 1) = Inr (Some (nth_back t (Suc n)))"
        using step_back_trunk [OF assms(1), of "length (trunk t) - 1 - n"] T by (simp add: nth_back_def)
      show ?thesis
        using Suc.IH [of "Suc n"] each more False Suc.prems(3) by (simp add: Let_def cnt tal adv and_then_def)
    qed
  qed
qed simp

lemma min_version_returns:
  assumes "tree_inv bn A t" and "m \<le> q" and "q \<le> 2 * m"
  shows "\<exists>v. min_version (q, m) t = Inr v \<and> elected m (ballots t (Suc q)) v"
proof -
  have T: "trunk t \<noteq> []" by (rule inv_maps(3) [OF assms(1)])
  then have "best t = Inr (nth_back t 0)" by (simp add: best_def last_conv_nth nth_back_def)
  then show ?thesis
    using version_loop_result [OF assms, of 0 "Suc q"] assms(2)
    by (simp add: min_version_def ballots_def tally_def and_then_def)
qed

definition voted_version :: "nat \<times> nat \<Rightarrow> tree \<Rightarrow> int \<Rightarrow> bool" where
  "voted_version votes t v \<longleftrightarrow>
     (if fst votes < snd votes then v = 1 else elected (snd votes) (ballots t (Suc (fst votes))) v)"

lemma votes_return:
  assumes "tree_inv bn A t" and "fst votes \<le> 2 * snd votes"
  shows "\<exists>v. min_version votes t = Inr v \<and> voted_version votes t v"
proof (cases "fst votes < snd votes")
  case True
  then show ?thesis by (simp add: min_version_def voted_version_def)
next
  case False
  then show ?thesis
    using min_version_returns [OF assms(1), of "snd votes" "fst votes"] assms(2) by (simp add: voted_version_def)
qed

lemma chain_votes:
  assumes "tree_inv bn A t"
  shows "\<exists>v. getMinAcceptedBlockVersion ch t = Inr v \<and> voted_version (accept_votes ch) t v"
    and "\<exists>v. getMinEnforcedBlockVersion ch t = Inr v \<and> voted_version (enforce_votes ch) t v"
  unfolding getMinAcceptedBlockVersion_def getMinEnforcedBlockVersion_def
  by (rule votes_return [OF assms], cases ch, simp_all)+

text \<open>C12: The minimum versions are the results of votes: on every chain both searches end, and where the chain votes
  they yield the highest version that more than the majority of the last quorum plus one blocks have or exceed.\<close>

theorem min_versions_elected:
  assumes "tree_inv bn A t"
  shows "\<exists>accepted enforced.
    getMinAcceptedBlockVersion ch t = Inr accepted \<and> voted_version (accept_votes ch) t accepted \<and>
    getMinEnforcedBlockVersion ch t = Inr enforced \<and> voted_version (enforce_votes ch) t enforced"
  using chain_votes [OF assms, of ch] by blast

section \<open>What the steps leave alone\<close>

definition chain_part :: "store \<Rightarrow> store \<Rightarrow> bool" where
  "chain_part st st' \<longleftrightarrow> st_tree st' = st_tree st \<and> st_claims st' = st_claims st \<and> st_locator st' = st_locator st \<and>
     st_notified st' = st_notified st \<and> st_invalid st' = st_invalid st \<and> st_lazy st' = st_lazy st"

lemma chain_part_simps [simp]:
  "chain_part st st" "chain_part st (st\<lparr>st_ledger := L\<rparr>)" "chain_part st (st\<lparr>st_branches := br\<rparr>)"
  by (simp_all add: chain_part_def)

lemma chain_part_trans: "chain_part st st' \<Longrightarrow> chain_part st' st'' \<Longrightarrow> chain_part st st''"
  by (simp add: chain_part_def)

lemma then_do_part:
  assumes "then_do m f st = (r, st')" and "\<And>r1 st1. m st = (r1, st1) \<Longrightarrow> chain_part st st1"
    and "\<And>x st1. m st = (Inr x, st1) \<Longrightarrow> f x st1 = (r, st') \<Longrightarrow> chain_part st1 st'"
  shows "chain_part st st'"
proof (cases "m st")
  case (Pair r1 st1)
  then show ?thesis using assms chain_part_trans by (cases r1) (auto simp: then_do_def)
qed

lemma pure_part: "pure x st = (r, st') \<Longrightarrow> chain_part st st'" by (auto simp: pure_def)

lemma on_ledger_part: "on_ledger m st = (r, st') \<Longrightarrow> chain_part st st'"
  by (auto simp: on_ledger_def split: prod.splits sum.splits)

lemma detach_all_part: "detach_all W hs un st = (r, st') \<Longrightarrow> chain_part st st'"
proof (induction W hs un st rule: detach_all.induct)
  case (2 W h hs un st)
  show ?case
    using 2(2) unfolding detach_all.simps
    by (rule then_do_part) (auto elim!: pure_part then_do_part on_ledger_part
        dest!: 2(1) intro: chain_part_trans [rotated] split: prod.splits)
qed auto


lemma attach_all_part: "attach_all W hs last_blk maps st = (r, st') \<Longrightarrow> chain_part st st'"
proof (induction W hs last_blk maps st arbitrary: r st' rule: attach_all.induct)
  case (2 W h hs last_blk maps st)
  let ?st = "\<lambda>b. st\<lparr>st_branches := (st_branches st)(h \<mapsto> b)\<rparr>"
  show ?case
    using 2(2) unfolding attach_all.simps
  proof (rule then_do_part)
    fix blk st1
    assume p: "pure (from_tree (place_of (st_tree st) h)) st = (Inr blk, st1)"
    let ?b = "case st_branches st1 h of None \<Rightarrow> null_mined W | Some b \<Rightarrow> b"
    let ?st1 = "st1\<lparr>st_branches := (st_branches st1)(h \<mapsto> ?b)\<rparr>"
    assume "(let b = ?b; st = st1\<lparr>st_branches := (st_branches st1)(h \<mapsto> b)\<rparr>
       in then_do (on_ledger (attach (env_of W) (w_memory W) (claims_have (st_claims st)) (tree_height (st_tree st))
              (w_adjusted W) blk b maps)) (\<lambda>maps. attach_all W hs (Some blk) maps) st) = (r, st')"
    then have "chain_part ?st1 st'"
      unfolding Let_def by (rule then_do_part) (auto elim: on_ledger_part intro: 2(1) [OF refl refl])
    then show "chain_part st1 st'" using chain_part_trans chain_part_simps(3) by blast
  qed (auto elim: pure_part)
qed auto

lemma purge_step_part: "purge_step W n blk st = (r, st') \<Longrightarrow> chain_part st st'"
  by (auto simp: purge_step_def Let_def split: if_splits)

lemma change_chain_part: "change_chain W b n ch st = (r, st') \<Longrightarrow> chain_part st st'"
  unfolding change_chain_def
  by (erule then_do_part, erule detach_all_part, erule then_do_part, erule attach_all_part)
    (auto elim!: then_do_part pure_part purge_step_part split: option.splits prod.splits)


lemma chain_part_fields:
  "chain_part st st' \<Longrightarrow> st_tree st' = st_tree st" "chain_part st st' \<Longrightarrow> st_claims st' = st_claims st"
  "chain_part st st' \<Longrightarrow> st_locator st' = st_locator st" "chain_part st st' \<Longrightarrow> st_notified st' = st_notified st"
  by (simp_all add: chain_part_def)

section \<open>A refused block\<close>

lemma checkShare_False: "checkShare W b = Inr share \<Longrightarrow> \<not> share"
  by (auto simp: checkShare_def defined_or_def split: if_splits option.splits)

lemma take_back_fields [simp]:
  "db (st_ledger (take_back W L st)) = db L" "spendables (st_ledger (take_back W L st)) = spendables L"
  "st_claims (take_back W L st) = st_claims st" "st_locator (take_back W L st) = st_locator st"
  "st_notified (take_back W L st) = st_notified st"
  "st_tree (take_back W L st) = (case pop_back (env_bn W) (st_tree st) of Inl _ \<Rightarrow> st_tree st | Inr t \<Rightarrow> t)"
  by (simp_all add: take_back_def)

lemma new_ref_sel [simp]:
  "ref_hash (new_ref W b p) = block_hash W b" "ref_prev (new_ref W b p) = p" "ref_bits (new_ref W b p) = bh_bits (header b)"
  "ref_time (new_ref W b p) = bh_time (header b)" "ref_version (new_ref W b p) = bh_version (header b)"
  by (simp_all add: new_ref_def Let_def)

lemma accepted_work_positive:
  assumes "bn_documented bn" and "checkProofOfWork bn sha scrypt c b = Some True" and "ref_bits r = bh_bits (header b)"
  shows "\<not> bit (bh_bits (header b)) 31" "0 < work_of bn r"
proof -
  obtain t where t: "SetCompact bn (bh_bits (header b)) = Some t" "0 < t" "t \<le> proofOfWorkLimit bn c"
    using accepted_target [OF assms(1,2)] by blast
  show "\<not> bit (bh_bits (header b)) 31" using t(1) by (auto simp: SetCompact_def split: if_splits)
  have "t + 1 \<le> 2 ^ 256" using t(3) limit_doc [OF assms(1), of c] by (simp split: if_splits)
  then have "0 < 2 ^ 256 div (t + 1)" using t(2) by (simp add: pos_imp_zdiv_pos_iff)
  then show "0 < work_of bn r"
    using t assms(3) by (simp add: work_of_def blockref_work_def bn_doc_arith [OF assms(1)] bn_quot_def sgn_if)
qed

text \<open>How \<open>append\<close> runs: the facts at the point where the block enters the tree.\<close>

lemma append_enters:
  assumes "append W b st = (r, st')"
  obtains
    (early) e invalid where "r = Inl e" "st' = st\<lparr>st_invalid := invalid\<rparr>"
  | (enters) invalid prev h ch t where
      "checkProofOfWork (env_bn W) (env_sha W) (w_scrypt W) (env_chain W) b = Some True"
      "\<not> have_ref (st_tree st) (block_hash W b)" "\<not> have_ref (st_invalid st) (block_hash W b)"
      "note_invalid W b (st_invalid st) = Inr invalid" "fits_tree W b (st_tree st) = Inr prev"
      "height_of (st_tree st) (ref_hash prev) = Inr h"
      "insert_ref (env_bn W) (st_tree st) (new_ref W b (ref_hash prev)) = Inr (ch, t)"
      "(let st = st\<lparr>st_invalid := invalid, st_tree := t\<rparr> in
        if \<bar>h\<bar> < totalBlocksEstimate (env_chain W) \<and> inserted ch = [] then (Inl Branching_disallowed, st)
          else
            let st = st\<lparr>st_branches := (st_branches st)(block_hash W b \<mapsto> b)\<rparr> in
            if inserted ch = [] then (Inr (), st)
            else
              case change_chain W b \<bar>h\<bar> ch st of
                (Inl e, st1) \<Rightarrow> (Inl e, take_back W (st_ledger st) st1)
              | (Inr maps, st1) \<Rightarrow>
                  case updateBestLocator W (forget_branches (inserted ch) st1) of
                    Inl e \<Rightarrow> (Inl (Tree_failed e), st1)
                  | Inr st1 \<Rightarrow> (Inr (), settle W (block_hash W b) ch maps st1)) = (r, st')"
proof -
  have early': thesis if "r = Inl e" "st' = st" for e using early [of e "st_invalid st"] that by simp
  consider (share) e where "checkShare W b = Inl e"
    | (ok) "checkShare W b = Inr False"
    by (cases "checkShare W b") (use checkShare_False in auto)
  then show ?thesis
  proof cases
    case share
    then show ?thesis using assms early' by (auto simp: append_def then_do_def pure_def Let_def)
  next
    case ok
    let ?work = "checkProofOfWork (env_bn W) (env_sha W) (w_scrypt W) (env_chain W) b"
    show ?thesis
    proof (cases "?work = Some True")
      case False
      then show ?thesis
        using assms early' ok
        by (cases ?work) (auto simp: append_def then_do_def pure_def defined_or_def Let_def)
    next
      case work: True
      have run: "(if have_ref (st_tree st) (block_hash W b) then (Inl Already_accepted, st)
        else if have_ref (st_invalid st) (block_hash W b) then (Inl Already_invalid, st)
        else
          case note_invalid W b (st_invalid st) of Inl e \<Rightarrow> (Inl e, st)
          | Inr invalid \<Rightarrow>
          case fits_tree W b (st_tree st) of Inl e \<Rightarrow> (Inl e, st\<lparr>st_invalid := invalid\<rparr>)
          | Inr prev \<Rightarrow>
          case height_of (st_tree st) (ref_hash prev) of Inl e \<Rightarrow> (Inl (Tree_failed e), st\<lparr>st_invalid := invalid\<rparr>)
          | Inr h \<Rightarrow>
          case insert_ref (env_bn W) (st_tree st) (new_ref W b (ref_hash prev)) of
            Inl e \<Rightarrow> (Inl (Tree_failed e), st\<lparr>st_invalid := invalid\<rparr>)
          | Inr (ch, t) \<Rightarrow>
             (let st = st\<lparr>st_invalid := invalid, st_tree := t\<rparr> in
        if \<bar>h\<bar> < totalBlocksEstimate (env_chain W) \<and> inserted ch = [] then (Inl Branching_disallowed, st)
          else
            let st = st\<lparr>st_branches := (st_branches st)(block_hash W b \<mapsto> b)\<rparr> in
            if inserted ch = [] then (Inr (), st)
            else
              case change_chain W b \<bar>h\<bar> ch st of
                (Inl e, st1) \<Rightarrow> (Inl e, take_back W (st_ledger st) st1)
              | (Inr maps, st1) \<Rightarrow>
                  case updateBestLocator W (forget_branches (inserted ch) st1) of
                    Inl e \<Rightarrow> (Inl (Tree_failed e), st1)
                  | Inr st1 \<Rightarrow> (Inr (), settle W (block_hash W b) ch maps st1))) = (r, st')"
        using assms ok work unfolding append_def Let_def then_do_def pure_def defined_or_def
        by (simp cong: if_cong sum.case_cong prod.case_cong option.case_cong)
      show ?thesis
      proof (cases "have_ref (st_tree st) (block_hash W b) \<or> have_ref (st_invalid st) (block_hash W b)")
        case True
        then show ?thesis using run early' by (auto split: if_splits)
      next
        case new: False
        show ?thesis
        proof (cases "note_invalid W b (st_invalid st)")
          case (Inl e)
          then show ?thesis using run early' new by auto
        next
          case invalid: (Inr invalid)
          show ?thesis
          proof (cases "fits_tree W b (st_tree st)")
            case (Inl e)
            then show ?thesis using run early new invalid by auto
          next
            case prev: (Inr prev)
            show ?thesis
            proof (cases "height_of (st_tree st) (ref_hash prev)")
              case (Inl e)
              then show ?thesis using run early new invalid prev by auto
            next
              case h: (Inr h)
              show ?thesis
              proof (cases "insert_ref (env_bn W) (st_tree st) (new_ref W b (ref_hash prev))")
                case (Inl e)
                then show ?thesis using run early new invalid prev h by auto
              next
                case (Inr x)
                then show ?thesis using run enters [OF work _ _ invalid prev h] new invalid prev h by (cases x) auto
              qed
            qed
          qed
        qed
      qed
    qed
  qed
qed


text \<open>C8: A block on the tip that is refused, by whatever check or failure, leaves the chain as it was: the tree, the
  database, the trie of the spendable coins, the memory pool, the locator, and what the listeners were told.\<close>

theorem refused_block_restores:
  assumes "bn_documented (env_bn W)" and "tree_inv (env_bn W) A (st_tree st)"
    and "bh_prevBlock (header b) = ref_hash (last (trunk (st_tree st)))"
    and "append W b st = (Inl e, st')"
  shows "st_tree st' = st_tree st \<and> db (st_ledger st') = db (st_ledger st) \<and>
    spendables (st_ledger st') = spendables (st_ledger st) \<and> st_claims st' = st_claims st \<and>
    st_locator st' = st_locator st \<and> st_notified st' = st_notified st"
  using assms(4)
proof (cases rule: append_enters)
  case early
  then show ?thesis by simp
next
  case (enters invalid prev h ch t)
  let ?bn = "env_bn W" and ?t = "st_tree st" and ?r = "new_ref W b (ref_hash prev)"
  let ?st = "st\<lparr>st_invalid := invalid, st_tree := t, st_branches := (st_branches st)(block_hash W b \<mapsto> b)\<rparr>"
  have T: "last (trunk ?t) \<in> set (trunk ?t)" using inv_maps(3) [OF assms(2)] by simp
  have "prev = last (trunk ?t)"
    using enters(5) known_trunk [OF assms(2) T] unfolding fits_tree_def assms(3)
    by (auto simp: from_tree_def find_ref_known [OF assms(2)] and_then_def split: sum.splits if_splits)
  then have prev: "ref_prev ?r = ref_hash (last (trunk ?t))" by simp
  have fresh: "known ?t (ref_hash ?r) = None"
    using enters(2) by (simp add: known_def have_ref_def sm_has_def)
  note work = accepted_work_positive [OF assms(1) enters(1), of ?r, simplified]
  have bits: "\<not> bit (ref_bits ?r) 31" using work(1) by simp
  obtain t' where t': "insert_ref ?bn ?t ?r = Inr (\<lparr>deleted = [], inserted = [ref_hash ?r]\<rparr>, t')" "pop_back ?bn t' = Inr ?t"
    using pop_back_insert [OF assms(1,2) prev fresh bits work(2)] by blast
  have ch: "ch = \<lparr>deleted = [], inserted = [ref_hash ?r]\<rparr>" "t = t'" using enters(7) t'(1) by auto
  have "known ?t (ref_prev ?r) \<noteq> None" using known_trunk [OF assms(2) T] prev by simp
  then obtain A' where inv: "tree_inv ?bn A' t"
    using insert_ref_total [OF assms(1,2) _ fresh bits] enters(7) by force
  obtain r1 st1 where c: "change_chain W b \<bar>h\<bar> ch ?st = (r1, st1)" by (cases "change_chain W b \<bar>h\<bar> ch ?st")
  note part = chain_part_fields [OF change_chain_part [OF c]]
  show ?thesis
  proof (cases r1)
    case (Inl e1)
    then have "st' = take_back W (st_ledger st) st1"
      using enters(8) c by (simp add: ch(1) Let_def)
    then show ?thesis using part t'(2) ch(2) by simp
  next
    case (Inr maps)
    have "st_tree (forget_branches hs st1) = t" for hs using part by (simp add: forget_branches_def)
    then show ?thesis
      using enters(8) c Inr bestLocator_tree [OF inv] by (simp add: ch(1) Let_def updateBestLocator_def and_then_def)
  qed
qed


section \<open>After the commit\<close>

lemma claim_txn_Inr:
  "claim_txn W txn check st = Inr st' \<Longrightarrow>
     \<exists>c. st' = st\<lparr>st_claims := c, st_notified := st_notified st @ [(txn, w_now W)]\<rparr>"
  by (auto simp: claim_txn_def and_then_def split: sum.splits prod.splits)

lemma reclaim_effect:
  "\<exists>c ts. reclaim W un st = st\<lparr>st_claims := c, st_notified := st_notified st @ map (\<lambda>t. (t, w_now W)) ts\<rparr> \<and>
     set ts \<subseteq> snd ` set un"
proof (induction un arbitrary: st)
  case Nil
  show ?case by (intro exI [of _ "st_claims st"] exI [of _ "[]"]) (simp add: reclaim_def)
next
  case (Cons x un)
  obtain h txn where x: "x = (h, txn)" by (cases x)
  let ?st = "case claim_txn W txn False st of Inl _ \<Rightarrow> st | Inr st \<Rightarrow> st"
  obtain c1 ts1 where 1: "?st = st\<lparr>st_claims := c1, st_notified := st_notified st @ map (\<lambda>t. (t, w_now W)) ts1\<rparr>" "set ts1 \<subseteq> {txn}"
  proof (cases "claim_txn W txn False st")
    case (Inl e)
    then show ?thesis using that [of "[]" "st_claims st"] by simp
  next
    case (Inr st1)
    then show ?thesis using claim_txn_Inr [OF Inr] that [of "[txn]"] by auto
  qed
  obtain c ts where "reclaim W un ?st = ?st\<lparr>st_claims := c, st_notified := st_notified ?st @ map (\<lambda>t. (t, w_now W)) ts\<rparr>"
    "set ts \<subseteq> snd ` set un"
    using Cons.IH by blast
  then show ?case
    using 1 by (intro exI [of _ c] exI [of _ "ts1 @ ts"]) (auto simp: reclaim_def x)
qed

lemma notify_effect:
  assumes "st_branches st hash = None \<or> st_branches st hash = Some (null_mined W)"
  shows "\<exists>br. notify W hash hs st = st\<lparr>st_branches := br\<rparr>"
  using assms
proof (induction hs arbitrary: st)
  case Nil
  then show ?case by (intro exI [of _ "st_branches st"]) (simp add: notify_def)
next
  case (Cons h hs)
  let ?st = "st\<lparr>st_branches := (st_branches st)(hash \<mapsto> null_mined W)\<rparr>"
  have "notify W hash (h # hs) st = notify W hash hs ?st"
    using Cons.prems by (auto simp: notify_def null_mined_def)
  then show ?case using Cons.IH [of ?st] by auto
qed

lemma fold_forget: "fold (\<lambda>h br. br(h := None)) hs br h = (if h \<in> set hs then None else br h)"
  by (induction hs arbitrary: br) auto

lemma settle_effect:
  assumes "st_branches st hash = None"
  shows "\<exists>br c ts L. settle W hash ch maps st = st\<lparr>st_branches := br, st_ledger := L, st_claims := c,
       st_notified := st_notified st @ map (\<lambda>t. (t, w_now W)) ts\<rparr> \<and> set ts \<subseteq> snd ` set (fst maps) \<and>
     (L = st_ledger st \<or> (\<exists>a. L = (st_ledger st)\<lparr>spendables :=
        set_authenticated (unspent_class (env_sha W)) a (spendables (st_ledger st))\<rparr>))"
proof -
  obtain br where n: "notify W hash (inserted ch) st = st\<lparr>st_branches := br\<rparr>" using notify_effect assms by blast
  obtain L c where L: "settle W hash ch maps st =
      reclaim W (fst maps) (st\<lparr>st_branches := br, st_ledger := L, st_claims := c\<rparr>)" and
    l: "L = st_ledger st \<or> (\<exists>a. L = (st_ledger st)\<lparr>spendables :=
        set_authenticated (unspent_class (env_sha W)) a (spendables (st_ledger st))\<rparr>)"
  proof (cases "validation_depth (st_ledger st) > 0")
    case True
    then show ?thesis using that n by (simp add: settle_def Let_def) blast
  next
    case False
    then show ?thesis using that [of _ "st_ledger st"] n by (simp add: settle_def Let_def)
  qed
  let ?st = "st\<lparr>st_branches := br, st_ledger := L, st_claims := c\<rparr>"
  obtain ca ts where r: "reclaim W (fst maps) ?st =
      ?st\<lparr>st_claims := ca, st_notified := st_notified ?st @ map (\<lambda>t. (t, w_now W)) ts\<rparr>" "set ts \<subseteq> snd ` set (fst maps)"
    using reclaim_effect by blast
  show ?thesis
    by (intro exI [of _ br] exI [of _ ca] exI [of _ ts] exI [of _ L]) (use r l in \<open>simp add: L\<close>)
qed

lemma insert_ref_inserted:
  "insert_ref bn t r = Inr (ch, t') \<Longrightarrow> inserted ch \<noteq> [] \<Longrightarrow> ref_hash r \<in> set (inserted ch)"
  by (auto simp: insert_ref_def and_then_def Let_def split: sum.splits option.splits if_splits prod.splits)

text \<open>How \<open>append\<close> ends when it returns.\<close>

lemma append_commits:
  assumes "append W b st = (Inr (), st')"
  obtains invalid prev h ch t where
      "checkProofOfWork (env_bn W) (env_sha W) (w_scrypt W) (env_chain W) b = Some True"
      "\<not> have_ref (st_tree st) (block_hash W b)" "fits_tree W b (st_tree st) = Inr prev"
      "height_of (st_tree st) (ref_hash prev) = Inr h"
      "insert_ref (env_bn W) (st_tree st) (new_ref W b (ref_hash prev)) = Inr (ch, t)" "st_tree st' = t"
      "inserted ch = [] \<Longrightarrow> st_ledger st' = st_ledger st \<and> st_notified st' = st_notified st"
      "inserted ch \<noteq> [] \<Longrightarrow> \<exists>maps st1 ts. change_chain W b \<bar>h\<bar> ch
          (st\<lparr>st_invalid := invalid, st_tree := t, st_branches := (st_branches st)(block_hash W b \<mapsto> b)\<rparr>) = (Inr maps, st1) \<and>
        (st_ledger st' = st_ledger st1 \<or> (\<exists>a. st_ledger st' = (st_ledger st1)\<lparr>spendables :=
           set_authenticated (unspent_class (env_sha W)) a (spendables (st_ledger st1))\<rparr>)) \<and>
        st_notified st' = st_notified st @ map (\<lambda>t. (t, w_now W)) ts \<and> set ts \<subseteq> snd ` set (fst maps)"
  using assms
proof (cases rule: append_enters)
  case early
  then show ?thesis by simp
next
  case (enters invalid prev h ch t)
  let ?st = "st\<lparr>st_invalid := invalid, st_tree := t, st_branches := (st_branches st)(block_hash W b \<mapsto> b)\<rparr>"
  show ?thesis
  proof (cases "inserted ch = []")
    case True
    then have "st' = ?st" using enters(8) by (auto simp: Let_def split: if_splits)
    then show ?thesis using that [OF enters(1,2,5,6,7)] True by simp
  next
    case False
    obtain r1 st1 where c: "change_chain W b \<bar>h\<bar> ch ?st = (r1, st1)" by (cases "change_chain W b \<bar>h\<bar> ch ?st")
    obtain maps st2 where r1: "r1 = Inr maps" "updateBestLocator W (forget_branches (inserted ch) st1) = Inr st2"
      "st' = settle W (block_hash W b) ch maps st2"
      using enters(8) False c by (auto simp: Let_def split: sum.splits if_splits)
    obtain x where st2: "st2 = (forget_branches (inserted ch) st1)\<lparr>st_locator := x\<rparr>"
      using r1(2) by (auto simp: updateBestLocator_def and_then_def split: sum.splits)
    have "block_hash W b \<in> set (inserted ch)" using insert_ref_inserted [OF enters(7) False] by simp
    then have "st_branches st2 (block_hash W b) = None" by (simp add: st2 forget_branches_def fold_forget)
    from settle_effect [OF this, of W ch maps] obtain br cl ts L where
      e: "st' = st2\<lparr>st_branches := br, st_ledger := L, st_claims := cl,
         st_notified := st_notified st2 @ map (\<lambda>t. (t, w_now W)) ts\<rparr>" "set ts \<subseteq> snd ` set (fst maps)"
        "L = st_ledger st2 \<or> (\<exists>a. L = (st_ledger st2)\<lparr>spendables :=
          set_authenticated (unspent_class (env_sha W)) a (spendables (st_ledger st2))\<rparr>)"
      using r1(3) by blast
    note part = chain_part_fields [OF change_chain_part [OF c]]
    have "st_tree st' = t" "st_notified st' = st_notified st @ map (\<lambda>t. (t, w_now W)) ts"
      "st_ledger st' = L" "st_ledger st2 = st_ledger st1"
      using e(1) st2 part by (simp_all add: forget_branches_def)
    note st' = this
    show ?thesis
    proof (rule that [OF enters(1,2,5,6,7) st'(1)])
      show "\<exists>maps st1 ts. change_chain W b \<bar>h\<bar> ch ?st = (Inr maps, st1) \<and>
        (st_ledger st' = st_ledger st1 \<or> (\<exists>a. st_ledger st' = (st_ledger st1)\<lparr>spendables :=
           set_authenticated (unspent_class (env_sha W)) a (spendables (st_ledger st1))\<rparr>)) \<and>
        st_notified st' = st_notified st @ map (\<lambda>t. (t, w_now W)) ts \<and> set ts \<subseteq> snd ` set (fst maps)"
        by (intro exI [of _ maps] exI [of _ st1] exI [of _ ts] conjI)
          (use c r1(1) e(2,3) st' in simp_all)
    qed (use False in simp)
  qed
qed

text \<open>C11: A block that is accepted passed every check, and the tree then has it: its work is proved and is the work
  that its place asks for, its version is not too old, it is later than the median of the blocks before it, and the
  consistent tree knows one block more, which is the tip exactly if it has more work.\<close>

theorem accepted_block:
  assumes "bn_documented (env_bn W)" and "tree_inv (env_bn W) A (st_tree st)" and "append W b st = (Inr (), st')"
  shows "\<exists>prev A' least past. known (st_tree st) (bh_prevBlock (header b)) = Some prev \<and>
    known (st_tree st) (block_hash W b) = None \<and>
    checkProofOfWork (env_bn W) (env_sha W) (w_scrypt W) (env_chain W) b = Some True \<and>
    required_work W b (st_tree st) prev = Inr () \<and>
    getMinAcceptedBlockVersion (env_chain W) (st_tree st) = Inr least \<and> least \<le> sint (bh_version (header b)) \<and>
    getMedianTimePast (st_tree st) (Some prev) = Inr past \<and> past < bh_time (header b) \<and>
    tree_inv (env_bn W) A' (st_tree st') \<and>
    known (st_tree st') = (known (st_tree st))(block_hash W b \<mapsto> new_ref W b (ref_hash prev)) \<and>
    last (trunk (st_tree st')) =
      (if A (ref_hash prev) + work_of (env_bn W) (new_ref W b (ref_hash prev)) > A (ref_hash (last (trunk (st_tree st))))
       then new_ref W b (ref_hash prev) else last (trunk (st_tree st)))"
  using assms(3)
proof (cases rule: append_commits)
  case c: (1 invalid prev h ch t)
  let ?bn = "env_bn W" and ?t = "st_tree st" and ?r = "new_ref W b (ref_hash prev)"
  obtain least past where fits: "known ?t (bh_prevBlock (header b)) = Some prev" "required_work W b ?t prev = Inr ()"
    "getMinAcceptedBlockVersion (env_chain W) ?t = Inr least" "least \<le> sint (bh_version (header b))"
    "getMedianTimePast ?t (Some prev) = Inr past" "past < bh_time (header b)"
    using c(3)
    by (auto simp: fits_tree_def from_tree_def find_ref_known [OF assms(2)] and_then_def word_less_def
        split: sum.splits option.splits if_splits)
  have fresh: "known ?t (ref_hash ?r) = None" using c(2) by (simp add: known_def have_ref_def sm_has_def)
  have hp: "ref_hash prev = bh_prevBlock (header b)" using known_hash [OF assms(2) fits(1)] .
  have k: "known ?t (ref_prev ?r) \<noteq> None" using fits(1) hp by simp
  have bits: "\<not> bit (ref_bits ?r) 31" using accepted_work_positive(1) [OF assms(1) c(1), of ?r] by simp
  obtain ch' t' common where ins: "insert_ref ?bn ?t ?r = Inr (ch', t')"
    "tree_inv ?bn (A(ref_hash ?r := A (ref_prev ?r) + work_of ?bn ?r)) t'" "known t' = (known ?t)(ref_hash ?r \<mapsto> ?r)"
    "last (trunk t') = (if A (ref_prev ?r) + work_of ?bn ?r > A (ref_hash (last (trunk ?t))) then ?r else last (trunk ?t))"
    using insert_ref_total [OF assms(1,2) k fresh bits] by blast
  have "t' = st_tree st'" using ins(1) c(5,6) by simp
  then show ?thesis
    using fits fresh c(1) ins(2-) by (intro exI conjI) (assumption | simp)+
qed

section \<open>A block that extends the chain\<close>

lemma post_loop_unconfirmed:
  "post_loop e mem claimed blk check i txns (f, [], co) L = (Inr (f', maps), L') \<Longrightarrow> fst maps = []"
proof (induction txns arbitrary: check i f co L)
  case (Cons t ts)
  then show ?case by (auto simp: Let_def next_do_Inr sm_erase_def)
qed auto

lemma attach_unconfirmed:
  assumes "attach e mem claimed h now blk b ([], co) L = (Inr maps, L')"
  shows "fst maps = []"
  using assms by (auto simp: attach_def Let_def next_do_Inr dest!: post_loop_unconfirmed split: if_splits)

text \<open>The ledger as it is, or with the old confirmations purged and the purge depth moved.\<close>

definition purged_from :: "ledger \<Rightarrow> ledger \<Rightarrow> bool" where
  "purged_from L M \<longleftrightarrow> M = L \<or> (\<exists>lim n. M = L\<lparr>db := purge_confs lim (db L), purge_depth := n\<rparr>)"

lemma purge_step_ledger:
  "\<exists>L'. purge_step W n blk st = (Inr (), st\<lparr>st_ledger := L'\<rparr>) \<and> purged_from (st_ledger st) L'"
proof (cases "purge_depth (st_ledger st) \<noteq> 0 \<and> \<not> st_lazy st \<and> bp_count blk \<ge> purge_depth (st_ledger st)")
  case True
  then show ?thesis unfolding purge_step_def Let_def if_P [OF True] purged_from_def by blast
next
  case False
  then show ?thesis unfolding purge_step_def Let_def if_not_P [OF False]
    by (intro exI [of _ "st_ledger st"]) (simp add: purged_from_def)
qed

text \<open>The run between \<open>BEGIN\<close> and \<open>COMMIT\<close> for a block on the tip: one block is attached.\<close>

lemma change_chain_tip:
  assumes "change_chain W b n \<lparr>deleted = [], inserted = [h]\<rparr> st = (Inr maps, st1)" and "st_branches st h = Some b"
  shows "\<exists>blk L. place_of (st_tree st) h = Inr blk \<and>
    attach (env_of W) (w_memory W) (claims_have (st_claims st)) (tree_height (st_tree st)) (w_adjusted W) blk b ([], [])
      (st_ledger st) = (Inr maps, L) \<and>
    purged_from L (st_ledger st1) \<and> fst maps = []"
proof -
  obtain st2 last_blk where a: "attach_all W [h] None ([], []) st = (Inr (maps, last_blk), st2)"
    and rest: "then_do (case last_blk of None \<Rightarrow> pure (Inl Undefined) | Some blk \<Rightarrow> purge_step W n blk)
        (\<lambda>_ st. then_do (pure (check_version W b n (st_tree st))) (\<lambda>_. pure (Inr maps)) st) st2 = (Inr maps, st1)"
    using assms(1)
    by (auto simp: change_chain_def then_do_def pure_def split: prod.splits sum.splits option.splits)
  obtain blk where blk: "place_of (st_tree st) h = Inr blk"
    using a by (cases "place_of (st_tree st) h") (auto simp: then_do_def pure_def from_tree_def)
  have same: "st\<lparr>st_branches := (st_branches st)(h \<mapsto> b)\<rparr> = st" using assms(2) by (simp add: fun_upd_idem)
  obtain L where L: "attach (env_of W) (w_memory W) (claims_have (st_claims st)) (tree_height (st_tree st)) (w_adjusted W) blk b
      ([], []) (st_ledger st) = (Inr maps, L)" "st2 = st\<lparr>st_ledger := L\<rparr>" "last_blk = Some blk"
    using a assms(2) same
    by (auto simp: blk then_do_def pure_def from_tree_def on_ledger_def Let_def split: prod.splits sum.splits)
  obtain L' where step: "purge_step W n blk (st\<lparr>st_ledger := L\<rparr>) = (Inr (), st\<lparr>st_ledger := L'\<rparr>)" "purged_from L L'"
    using purge_step_ledger [of W n blk "st\<lparr>st_ledger := L\<rparr>"] by auto
  then have "purged_from L (st_ledger st1)"
    using rest by (auto simp: L(2,3) then_do_def pure_def split: sum.splits)
  then show ?thesis using blk L(1) attach_unconfirmed [OF L(1)] by blast
qed

text \<open>How the tree changes: the tip is the new block.\<close>

lemma append_tip:
  assumes "bn_documented (env_bn W)" and "tree_inv (env_bn W) A (st_tree st)"
    and "bh_prevBlock (header b) = ref_hash (last (trunk (st_tree st)))" and "append W b st = (Inr (), st')"
  obtains maps blk L A' t where
    "st_tree st' = t" "trunk t = trunk (st_tree st) @ [new_ref W b (bh_prevBlock (header b))]" "tree_inv (env_bn W) A' t"
    "place_of t (block_hash W b) = Inr blk"
    "attach (env_of W) (w_memory W) (claims_have (st_claims st)) (tree_height t) (w_adjusted W) blk b ([], [])
      (st_ledger st) = (Inr maps, L)"
    "\<exists>M. purged_from L M \<and> (st_ledger st' = M \<or> (\<exists>a. st_ledger st' = M\<lparr>spendables :=
           set_authenticated (unspent_class (env_sha W)) a (spendables M)\<rparr>))"
    "st_notified st' = st_notified st"
  using assms(4)
proof (cases rule: append_commits)
  case c: (1 invalid prev h ch t)
  let ?bn = "env_bn W" and ?t = "st_tree st" and ?r = "new_ref W b (ref_hash prev)"
  let ?st = "st\<lparr>st_invalid := invalid, st_tree := t, st_branches := (st_branches st)(block_hash W b \<mapsto> b)\<rparr>"
  have T: "last (trunk ?t) \<in> set (trunk ?t)" using inv_maps(3) [OF assms(2)] by simp
  have "prev = last (trunk ?t)"
    using c(3) known_trunk [OF assms(2) T] unfolding fits_tree_def assms(3)
    by (auto simp: from_tree_def find_ref_known [OF assms(2)] and_then_def split: sum.splits if_splits)
  then have prev: "ref_prev ?r = ref_hash (last (trunk ?t))" by simp
  have fresh: "known ?t (ref_hash ?r) = None" using c(2) by (simp add: known_def have_ref_def sm_has_def)
  have bits: "\<not> bit (ref_bits ?r) 31" and work: "0 < work_of ?bn ?r"
    using accepted_work_positive [OF assms(1) c(1), of ?r] by simp_all
  have ch: "ch = \<lparr>deleted = [], inserted = [block_hash W b]\<rparr>"
    using pop_back_insert [OF assms(1,2) prev fresh bits work] c(5) by auto
  have "known ?t (ref_prev ?r) \<noteq> None" using known_trunk [OF assms(2) T] prev by simp
  then obtain A' common where inv: "tree_inv ?bn A' t" "last (trunk t) = ?r"
    "map ref_hash (trunk ?t) = common" "map ref_hash (trunk t) = common @ [block_hash W b]"
    using insert_ref_total [OF assms(1,2) _ fresh bits] c(5) ch work prev by force
  have tr: "trunk t = trunk ?t @ [?r]"
    using pop_back_insert [OF assms(1,2) prev fresh bits work] c(5) by auto
  have ne: "inserted ch \<noteq> []" by (simp add: ch)
  obtain maps st1 ts where run: "change_chain W b \<bar>h\<bar> ch ?st = (Inr maps, st1)"
    "st_ledger st' = st_ledger st1 \<or> (\<exists>a. st_ledger st' = (st_ledger st1)\<lparr>spendables :=
           set_authenticated (unspent_class (env_sha W)) a (spendables (st_ledger st1))\<rparr>)"
    "st_notified st' = st_notified st @ map (\<lambda>t. (t, w_now W)) ts" "set ts \<subseteq> snd ` set (fst maps)"
    using c(8) [OF ne] by blast
  have b: "st_branches ?st (block_hash W b) = Some b" by simp
  obtain blk L where L: "place_of t (block_hash W b) = Inr blk"
    "attach (env_of W) (w_memory W) (claims_have (st_claims st)) (tree_height t) (w_adjusted W) blk b ([], [])
      (st_ledger st) = (Inr maps, L)" "purged_from L (st_ledger st1)" "fst maps = []"
    using change_chain_tip [OF run(1) [unfolded ch] b] by auto
  show ?thesis
  proof (rule that)
    show "st_tree st' = t" by (rule c(6))
    show "trunk t = trunk ?t @ [new_ref W b (bh_prevBlock (header b))]" using tr prev assms(3) by simp
    show "tree_inv ?bn A' t" by (rule inv(1))
    show "place_of t (block_hash W b) = Inr blk" by (rule L(1))
    show "attach (env_of W) (w_memory W) (claims_have (st_claims st)) (tree_height t) (w_adjusted W) blk b ([], [])
      (st_ledger st) = (Inr maps, L)" by (rule L(2))
    show "st_notified st' = st_notified st" using run(3,4) L(4) by simp
    show "\<exists>M. purged_from L M \<and> (st_ledger st' = M \<or> (\<exists>a. st_ledger st' = M\<lparr>spendables :=
           set_authenticated (unspent_class (env_sha W)) a (spendables M)\<rparr>))"
      using run(2) L(3) by blast
  qed
qed

text \<open>C13: Nobody who listens to the chain hears of the transactions of a block: when a block that extends the
  chain is accepted, the listeners are told nothing, because the loop that tells them reads the block where it has
  just been erased.\<close>

theorem blocks_not_announced:
  assumes "bn_documented (env_bn W)" and "tree_inv (env_bn W) A (st_tree st)"
    and "bh_prevBlock (header b) = ref_hash (last (trunk (st_tree st)))" and "append W b st = (Inr (), st')"
  shows "st_notified st' = st_notified st"
  by (rule append_tip [OF assms])

section \<open>The database mirrors the tree\<close>

text \<open>What the constructor reads of a row of the table of blocks.\<close>

definition row_ref :: "block_row \<Rightarrow> blockref" where
  "row_ref r =
     (let h = br_header r
      in \<lparr>ref_version = bh_version h, ref_hash = br_hash r, ref_prev = bh_prevBlock h, ref_time = bh_time h, ref_bits = bh_bits h\<rparr>)"

definition chain_ok :: "world \<Rightarrow> store \<Rightarrow> bool" where
  "chain_ok W st \<longleftrightarrow> (\<exists>A. tree_inv (env_bn W) A (st_tree st)) \<and> ledger_ok (env_of W) (st_ledger st) \<and>
     map br_count (blocks (db (st_ledger st))) = map int [1..<Suc (length (trunk (st_tree st)))] \<and>
     map row_ref (blocks (db (st_ledger st))) = trunk (st_tree st)"

lemma env_of_sel [simp]:
  "env_chain (env_of W) = env_chain W" "env_sha (env_of W) = env_sha W" "env_bn (env_of W) = env_bn W"
  "env_key (env_of W) = env_key W" "env_crypto (env_of W) = env_crypto W" "env_random (env_of W) = env_random W"
  by (simp_all add: env_of_def env.truncate_def)

lemma ledger_ok_authenticated:
  "ledger_ok e L \<Longrightarrow> ledger_ok e (L\<lparr>spendables := set_authenticated (unspent_class (env_sha e)) a (spendables L)\<rparr>)"
  by (simp add: ledger_ok_def coherent_def tries_agree_def spendables.trie_set_authenticated split: if_splits)

text \<open>Purging forgets confirmations and what they spent, so no reference becomes wrong.\<close>

lemma purged_ledger_ok:
  assumes "purged_from L M" and "ledger_ok e L"
  shows "ledger_ok e M" and "blocks (db M) = blocks (db L)"
proof -
  let ?P = "\<lambda>lim. purge_confs lim (db L)"
  have "refs_ok (?P lim)" for lim
    using assms(2) by (auto simp: ledger_ok_def refs_ok_def purge_confs_def Let_def cnf_known_def block_counts_def distinct_map_filter)
  moreover have "coherent e (L\<lparr>db := ?P lim, purge_depth := n\<rparr>)" for lim n
    using assms(2) by (simp add: ledger_ok_def coherent_def coins_ok_def tries_agree_def purge_confs_def Let_def split: if_splits)
  moreover have "distinct (map cr_cnf (confs (?P lim)))" for lim
    using assms(2) by (simp add: ledger_ok_def purge_confs_def Let_def distinct_map_filter)
  ultimately show "ledger_ok e M"
    using assms by (auto simp: purged_from_def ledger_ok_def)
  show "blocks (db M) = blocks (db L)"
    using assms(1) by (auto simp: purged_from_def purge_confs_def Let_def)
qed

lemma attach_blocks:
  assumes "attach e mem claimed best_height now blk b maps L = (Inr maps', L')" and "coherent e L"
    and "sint (bp_time blk) > timeStamp (env_chain e) BIP0030"
  shows "blocks (db L') = blocks (db L) @
      [\<lparr>br_count = bp_count blk, br_hash = header_getHash (env_sha e) (header b), br_header = header b\<rparr>]"
    and "same_settings L L'"
proof -
  obtain L1 L2 cs fees v where h: "header_effect e (bp_count blk) b L L1"
    and p: "posts e (bp_count blk) 1 (tl (transactions b)) cs 0 fees L1 L2"
    and s: "subsidy_effect e (transactions b ! 0) (bp_count blk) v L2 L'"
    using attach_effect [OF assms] by blast
  show "blocks (db L') = blocks (db L) @
      [\<lparr>br_count = bp_count blk, br_hash = header_getHash (env_sha e) (header b), br_header = header b\<rparr>]"
    using h s posts_same [OF p] by (simp add: header_effect_def subsidy_effect_def Let_def)
  show "same_settings L L'"
    using h s posts_same [OF p] by (auto simp: header_effect_def subsidy_effect_def Let_def same_settings_def)
qed

text \<open>C9: Accepting a block that extends the chain keeps tree and database in agreement: the tree stays consistent, the
  ledger well formed, and the rows of the table of blocks are counted from one up and say what the trunk says, in order.
  This holds whether \<open>append\<close> then purges old confirmations or not, for a block that is later than the rule that
  transactions are unique: before that a block may replace a coin.\<close>

theorem append_keeps_chain_ok:
  assumes "bn_documented (env_bn W)" and "chain_ok W st"
    and "bh_prevBlock (header b) = ref_hash (last (trunk (st_tree st)))" and "append W b st = (Inr (), st')"
    and "sint (bh_time (header b)) > timeStamp (env_chain W) BIP0030"
  shows "chain_ok W st'"
proof -
  obtain A where inv: "tree_inv (env_bn W) A (st_tree st)" using assms(2) by (auto simp: chain_ok_def)
  have ok: "ledger_ok (env_of W) (st_ledger st)" "coherent (env_of W) (st_ledger st)"
    using assms(2) by (simp_all add: chain_ok_def ledger_ok_def)
  obtain maps blk L A' t where t: "st_tree st' = t"
    "trunk t = trunk (st_tree st) @ [new_ref W b (bh_prevBlock (header b))]" "tree_inv (env_bn W) A' t"
    and blk: "place_of t (block_hash W b) = Inr blk"
    and L: "attach (env_of W) (w_memory W) (claims_have (st_claims st)) (tree_height t) (w_adjusted W) blk b ([], [])
      (st_ledger st) = (Inr maps, L)"
    and st': "\<exists>M. purged_from L M \<and> (st_ledger st' = M \<or> (\<exists>a. st_ledger st' = M\<lparr>spendables :=
           set_authenticated (unspent_class (env_sha W)) a (spendables M)\<rparr>))"
    using append_tip [OF assms(1) inv assms(3,4)] by metis
  let ?n = "length (trunk (st_tree st))"
  have h: "sm_get (heights t) (block_hash W b) = Some (int ?n)"
    using inv_maps(7) [OF t(3), of ?n] t(2) by (simp add: nth_append)
  have p: "bp_count blk = int ?n + 1" "bp_time blk = bh_time (header b)"
    using blk t(2) h
    by (auto simp: place_of_def and_then_def ref_at_def count_of_def height_of_def trunk_at_def nth_append split: sum.splits)
  note bt = attach_blocks [OF L ok(2)]
  have time: "sint (bp_time blk) > timeStamp (env_chain (env_of W)) BIP0030" using assms(5) p(2) by simp
  have lok: "ledger_ok (env_of W) L" by (rule attach_ledger_ok(1) [OF L ok(1) time]) (simp add: p)
  obtain M where M: "purged_from L M" "st_ledger st' = M \<or> (\<exists>a. st_ledger st' = M\<lparr>spendables :=
           set_authenticated (unspent_class (env_sha W)) a (spendables M)\<rparr>)" using st' by blast
  have Mok: "ledger_ok (env_of W) M" "blocks (db M) = blocks (db L)" by (rule purged_ledger_ok [OF M(1) lok])+
  have d: "ledger_ok (env_of W) (st_ledger st')" "blocks (db (st_ledger st')) = blocks (db L)"
    using M(2) Mok ledger_ok_authenticated [OF Mok(1)] by auto
  show ?thesis
    using d t assms(2) bt(1) [OF time] p(1) by (auto simp: chain_ok_def block_hash_def row_ref_def new_ref_def Let_def)
qed

section \<open>A block that is accepted\<close>

lemma append_valid:
  assumes "bn_documented (env_bn W)" and "tree_inv (env_bn W) A (st_tree st)"
    and "bh_prevBlock (header b) = ref_hash (last (trunk (st_tree st)))"
    and "checkShare W b = Inr share"
    and "checkProofOfWork (env_bn W) (env_sha W) (w_scrypt W) (env_chain W) b = Some True"
    and "\<not> have_ref (st_tree st) (block_hash W b)" and "\<not> have_ref (st_invalid st) (block_hash W b)"
    and "note_invalid W b (st_invalid st) = Inr invalid" and "fits_tree W b (st_tree st) = Inr prev"
    and "attach (env_of W) (w_memory W) (claims_have (st_claims st)) (tree_count (st_tree st)) (w_adjusted W)
      \<lparr>bp_count = tree_count (st_tree st) + 1, bp_height = tree_count (st_tree st), bp_hash = block_hash W b,
       bp_time = bh_time (header b), bp_prev_hash = ref_hash prev\<rparr> b ([], []) (st_ledger st) = (Inr maps, L)"
    and "sint (bh_version (header b)) \<ge> 2 \<Longrightarrow> getHeight (env_bn W) (plain_block b) = Some (tree_count (st_tree st))"
  shows "\<exists>st'. append W b st = (Inr (), st') \<and>
    trunk (st_tree st') = trunk (st_tree st) @ [new_ref W b (ref_hash prev)]"
proof -
  let ?bn = "env_bn W" and ?t = "st_tree st" and ?r = "new_ref W b (ref_hash prev)" and ?h = "block_hash W b"
  let ?n = "length (trunk ?t)"
  have T: "trunk ?t \<noteq> []" "last (trunk ?t) \<in> set (trunk ?t)" using inv_maps(3) [OF assms(2)] by simp_all
  have prev: "prev = last (trunk ?t)"
    using assms(9) known_trunk [OF assms(2) T(2)] unfolding fits_tree_def assms(3)
    by (auto simp: from_tree_def find_ref_known [OF assms(2)] and_then_def split: sum.splits if_splits)
  then have rp: "ref_prev ?r = ref_hash (last (trunk ?t))" by simp
  have fresh: "known ?t (ref_hash ?r) = None" using assms(6) by (simp add: known_def have_ref_def sm_has_def)
  have bits: "\<not> bit (ref_bits ?r) 31" and work: "0 < work_of ?bn ?r"
    using accepted_work_positive [OF assms(1,5), of ?r] by simp_all
  obtain t where t: "insert_ref ?bn ?t ?r = Inr (\<lparr>deleted = [], inserted = [?h]\<rparr>, t)" "trunk t = trunk ?t @ [?r]"
    using pop_back_insert [OF assms(1,2) rp fresh bits work] by auto
  have "known ?t (ref_prev ?r) \<noteq> None" using known_trunk [OF assms(2) T(2)] rp by simp
  then obtain A' where inv: "tree_inv ?bn A' t"
    using insert_ref_total [OF assms(1,2) _ fresh bits] t(1) by force
  have hp: "height_of ?t (ref_hash prev) = Inr (tree_height ?t)"
    using inv_maps(7) [OF assms(2), of "?n - 1"] T prev
    by (simp add: height_of_def tree_height_def last_conv_nth of_nat_diff Suc_le_eq)
  have hr: "sm_get (heights t) ?h = Some (int ?n)"
    using inv_maps(7) [OF inv, of ?n] t(2) by (simp add: nth_append)
  have pred: "step_back t ?r = Inr prev"
    using step_back_trunk [OF inv, of ?n] t(2) T prev
    by (simp add: step_back_def nth_append last_conv_nth and_then_def)
  let ?p = "\<lparr>bp_count = tree_count ?t + 1, bp_height = tree_count ?t, bp_hash = ?h, bp_time = bh_time (header b),
    bp_prev_hash = ref_hash prev\<rparr>"
  have place: "place_of t ?h = Inr ?p"
    using hr pred t(2)
    by (simp add: place_of_def ref_at_def count_of_def height_of_def trunk_at_def nth_append and_then_def tree_count_def)
  let ?st = "st\<lparr>st_invalid := invalid, st_tree := t, st_branches := (st_branches st)(?h \<mapsto> b)\<rparr>"
  have th: "tree_height t = tree_count ?t" using t(2) by (simp add: tree_height_def tree_count_def)
  have same: "(st_branches st)(?h \<mapsto> b, ?h \<mapsto> b) = (st_branches st)(?h \<mapsto> b)" by simp
  have att: "attach_all W [?h] None ([], []) ?st = (Inr (maps, Some ?p), ?st\<lparr>st_ledger := L\<rparr>)"
    using assms(10) by (simp add: then_do_def pure_def from_tree_def place on_ledger_def th)
  obtain L' where purge: "purge_step W (tree_height ?t) ?p (?st\<lparr>st_ledger := L\<rparr>) = (Inr (), ?st\<lparr>st_ledger := L'\<rparr>)"
    using purge_step_ledger [of W "tree_height ?t" ?p "?st\<lparr>st_ledger := L\<rparr>"] by auto
  obtain least where "getMinEnforcedBlockVersion (env_chain W) t = Inr least" using chain_votes(2) [OF inv] by blast
  then have ver: "check_version W b (tree_height ?t) t = Inr ()"
    using assms(11) by (auto simp: check_version_def from_tree_def and_then_def defined_or_def tree_height_def tree_count_def)
  have run: "change_chain W b (tree_height ?t) \<lparr>deleted = [], inserted = [?h]\<rparr> ?st = (Inr maps, ?st\<lparr>st_ledger := L'\<rparr>)"
    unfolding change_chain_def then_do_def
    by (simp del: attach_all.simps add: att purge ver pure_def)
  have nn: "\<bar>tree_height ?t\<bar> = tree_height ?t" using T by (simp add: tree_height_def Suc_le_eq)
  obtain st2 where loc: "updateBestLocator W (forget_branches [?h] (?st\<lparr>st_ledger := L'\<rparr>)) = Inr st2"
    using bestLocator_tree [OF inv] by (simp add: updateBestLocator_def forget_branches_def and_then_def)
  have tr2: "st_tree st2 = t" "st_branches st2 ?h = None"
    using loc by (auto simp: updateBestLocator_def forget_branches_def and_then_def split: sum.splits)
  have "append W b st = (Inr (), settle W ?h \<lparr>deleted = [], inserted = [?h]\<rparr> maps st2)"
    using assms(4-9) hp t(1) run loc nn
    by (simp add: append_def Let_def then_do_def pure_def defined_or_def)
  moreover have "st_tree (settle W ?h \<lparr>deleted = [], inserted = [?h]\<rparr> maps st2) = t"
    using settle_effect [OF tr2(2), of W "\<lparr>deleted = [], inserted = [?h]\<rparr>" maps] tr2(1) by auto
  ultimately show ?thesis using t(2) by (intro exI conjI) (assumption, simp)
qed


section \<open>A small chain\<close>

definition sample_world :: world where
  "sample_world = env.extend sample_env
     \<lparr>w_scrypt = \<lambda>_. 0, w_memory = \<lambda>_. (0, 0), w_now = 1400000000, w_adjusted = 0, w_no_aux = sample_aux\<rparr>"

definition sample_root :: blockref where
  "sample_root = \<lparr>ref_version = 1, ref_hash = 0, ref_prev = 0, ref_time = 1390000000, ref_bits = 0x1d00ffff\<rparr>"

definition sample_trunk :: tree where
  "sample_trunk = \<lparr>branches = [], heights = [(0, 0)], trunk = [sample_root], acc_work = [0], trimmed = 0\<rparr>"

definition sample_store :: store where
  "sample_store = \<lparr>st_ledger = sample_ledger, st_tree = sample_trunk, st_invalid = empty_tree, st_branches = Map.empty,
     st_claims = no_claims, st_locator = [0], st_lazy = True, st_notified = []\<rparr>"

lemma sample_world_sel [simp]:
  "env_chain sample_world = Testnet3" "env_sha sample_world = env_sha sample_env" "env_bn sample_world = ref_bn"
  "env_of sample_world = sample_env" "w_memory sample_world = (\<lambda>_. (0, 0))" "w_adjusted sample_world = 0"
  by (simp_all add: sample_world_def sample_env_def env.defs env_of_def)

lemma sample_store_sel [simp]:
  "st_ledger sample_store = sample_ledger" "st_tree sample_store = sample_trunk" "st_invalid sample_store = empty_tree"
  "st_claims sample_store = no_claims" "claims_have no_claims = (\<lambda>_. False)"
  by (simp_all add: sample_store_def fun_eq_iff claims_have_def no_claims_def sm_has_def)

lemma rep: "replicate 28 x = [x, x, x, x, x, x, x, x, x, x, x, x, x, x, x, x, x, x, x, x, x, x, x, x, x, x, x, x]"
  "replicate 26 x = [x, x, x, x, x, x, x, x, x, x, x, x, x, x, x, x, x, x, x, x, x, x, x, x, x, x]"
  by (simp_all add: numeral_eq_Suc)

lemma limit_body: "mpi_body (2 ^ 224 - 1) = 0 # replicate 28 255"
  by (simp add: mpi_body_def be_minimal.simps rep)

lemma limit_bits: "GetCompact ref_bn (proofOfWorkLimit ref_bn Testnet3) = 0x1d00ffff"
proof -
  have l: "proofOfWorkLimit ref_bn Testnet3 = 2 ^ 224 - 1"
    using limit_doc [OF ref_bn_documented, of Testnet3] by simp
  show ?thesis
    unfolding l GetCompact_def Let_def
    by (simp only: ref_bn_def bn_lib.select_convs limit_body rep)
      (simp add: be_size_def push_bit_eq_mult)
qed

lemma limit_target: "SetCompact ref_bn 0x1d00ffff = Some (0xffff * 2 ^ 208)"
  by (simp add: SetCompact_def ref_bn_def compact_bytes_def be_size_def mpi_value_def be_value_def rep)

lemma sample_trunk_inv: "tree_inv ref_bn (\<lambda>_. 0) sample_trunk"
  by (simp add: tree_inv_def sample_trunk_def sm_get_def sm_ok_def work_ok_of_bits [OF ref_bn_documented] sample_root_def
      split: if_splits)

lemma sample_header [simp]:
  "header_getHash (env_sha sample_env) h = 80" "block_hash sample_world b = 80"
  by (simp_all add: header_getHash_def Hash_def sample_env_def bytes_to_uint256_def put_header_def block_hash_def)

lemma sample_mined_sel [simp]:
  "bh_prevBlock (header (sample_mined txns)) = 0" "bh_time (header (sample_mined txns)) = 1400000000"
  "bh_version (header (sample_mined txns)) = 1" "bh_bits (header (sample_mined txns)) = 0x1d00ffff"
  by (simp_all add: sample_mined_def)

lemma sample_block_work: "checkProofOfWork ref_bn (env_sha sample_env) s Testnet3 (sample_mined txns) = Some True"
  using getuint256_abs [OF ref_bn_documented, of "0xffff * 2 ^ 208"]
  by (simp add: chain_work target_in_range_def limit_doc [OF ref_bn_documented] bn_doc_arith [OF ref_bn_documented] limit_target)

lemma sample_trunk_reads:
  "find_ref sample_trunk 0 = Inr (Some sample_root)" "height_of sample_trunk 0 = Inr 0"
  "advance sample_trunk (Some sample_root) (- 1) = Inr (Some sample_root)"
  by (simp_all add: sample_trunk_def sample_root_def find_ref_def height_of_def trunk_at_def advance_def sm_get_def)

lemma sample_median: "getMedianTimePast sample_trunk (Some sample_root) = Inr 1390000000"
proof -
  have "median_samples n sample_trunk (Some sample_root) acc = Inr (acc @ replicate n 1390000000)" for n acc
    by (induction n arbitrary: acc) (simp_all add: sample_trunk_reads and_then_def, simp add: sample_root_def replicate_app_Cons_same)
  then show ?thesis
    by (simp add: getMedianTimePast_def and_then_def sorted_sort_id)
qed

lemma sample_fits: "fits_tree sample_world (sample_mined txns) sample_trunk = Inr sample_root"
proof -
  obtain v where v: "getMinAcceptedBlockVersion Testnet3 sample_trunk = Inr v" "voted_version (accept_votes Testnet3) sample_trunk v"
    using chain_votes(1) [OF sample_trunk_inv] by blast
  have "ballots sample_trunk 101 = replicate 101 1"
    by (simp add: ballots_def nth_back_def sample_trunk_def sample_root_def map_replicate_trivial)
  then have "0 < votes_for (replicate 101 1) v" using v(2) by (simp add: voted_version_def elected_def)
  then have "v \<le> 1" by (auto simp: votes_for_def intro: ccontr)
  moreover have "nextWorkRequired ref_bn Testnet3 sample_trunk sample_root = Inr 0x1d00ffff"
    using limit_bits sample_trunk_reads(2) by (simp add: testnet_next_def of_tree_def and_then_def sample_root_def)
  ultimately show ?thesis
    using v(1) by (simp add: fits_tree_def sample_trunk_reads sample_median from_tree_def and_then_def required_work_def from_work_def)
qed

lemma sample_checks:
  "checkShare sample_world (sample_mined txns) = Inr False" "note_invalid sample_world (sample_mined txns) empty_tree = Inr empty_tree"
  "\<not> have_ref sample_trunk 80" "\<not> have_ref empty_tree 80"
  by (simp_all add: checkShare_def note_invalid_def from_tree_def and_then_def find_ref_def have_ref_def empty_tree_def sm_get_def
      sample_trunk_def sm_has_def)

lemma sample_tip: "bh_prevBlock (header (sample_mined txns)) = ref_hash (last (trunk (st_tree sample_store)))"
  by (simp add: sample_trunk_def sample_root_def)

lemma sample_root_sel: "tree_count sample_trunk = 1" "ref_hash sample_root = 0"
  by (simp_all add: sample_trunk_def tree_count_def sample_root_def)

lemma sample_inv: "tree_inv (env_bn sample_world) (\<lambda>_. 0) (st_tree sample_store)" "bn_documented (env_bn sample_world)"
  using sample_trunk_inv ref_bn_documented by simp_all


lemma sample_append: "\<exists>st'. append sample_world sample_block sample_store = (Inr (), st')"
proof -
  obtain maps L where a: "sample_attach = (Inr maps, L)" using sample_attach_returns by blast
  have "\<exists>st'. append sample_world sample_block sample_store = (Inr (), st') \<and>
    trunk (st_tree st') = trunk (st_tree sample_store) @ [new_ref sample_world sample_block (ref_hash sample_root)]"
    by (rule append_valid [where maps = maps and L = L, OF sample_inv(2,1) sample_tip sample_checks(1)])
      (use a in \<open>simp_all add: sample_block_work [simplified] sample_checks sample_fits sample_place_def sample_root_sel\<close>)
  then show ?thesis by blast
qed

theorem accepted_block_witness:
  "\<exists>st' A'. append sample_world sample_block sample_store = (Inr (), st') \<and> tree_inv ref_bn A' (st_tree st') \<and>
    known (st_tree st') 80 = Some (new_ref sample_world sample_block 0)"
proof -
  obtain st' where a: "append sample_world sample_block sample_store = (Inr (), st')" using sample_append by blast
  have "known sample_trunk 0 = Some sample_root" by (simp add: known_def sample_trunk_def sm_get_def)
  with a accepted_block [OF sample_inv(2,1) a] show ?thesis
    by (auto simp: sample_root_sel)
qed

theorem blocks_not_announced_witness:
  "\<exists>st'. append sample_world sample_block sample_store = (Inr (), st') \<and> st_notified st' = []"
proof -
  obtain st' where a: "append sample_world sample_block sample_store = (Inr (), st')" using sample_append by blast
  with blocks_not_announced [OF sample_inv(2,1) sample_tip a] show ?thesis by (simp add: sample_store_def)
qed

text \<open>A store that purges: the confirmations up to the first block go when the second comes.\<close>

definition purging_ledger :: ledger where
  "purging_ledger = sample_ledger\<lparr>purge_depth := 1\<rparr>"

definition purging_store :: store where
  "purging_store = sample_store\<lparr>st_ledger := purging_ledger, st_lazy := False\<rparr>"

lemma purging_sel [simp]:
  "st_ledger purging_store = purging_ledger" "st_tree purging_store = sample_trunk" "st_invalid purging_store = empty_tree"
  "st_claims purging_store = no_claims" "st_lazy purging_store = False" "purge_depth purging_ledger = 1"
  by (simp_all add: purging_store_def purging_ledger_def)

lemma purging_attach_returns:
  "\<exists>maps L. attach sample_env (\<lambda>_. (0, 0)) (\<lambda>_. False) 1 0 (sample_place 1) sample_block ([], []) purging_ledger = (Inr maps, L)"
proof -
  have t: "tx_inputs (spend_first h s) = [\<lparr>prevout = Coin h 0, signature = s, input_sequence = - 1\<rparr>]"
    "tx_outputs (spend_first h s) = [\<lparr>out_value = 3, out_script = []\<rparr>]" "tx_lockTime (spend_first h s) = 0" for h s
    by (simp_all add: spend_first_def)
  have e: "env_chain sample_env = Testnet3" by (simp add: sample_env_def)
  have c: "tx_inputs sample_coinbase = [\<lparr>prevout = Coin 0 (- 1), signature = [1, 2], input_sequence = - 1\<rparr>]"
    "tx_outputs sample_coinbase = [\<lparr>out_value = 7, out_script = [OP_RETURN]\<rparr>]" "tx_lockTime sample_coinbase = 0"
    by (simp_all add: sample_coinbase_def)
  show ?thesis
    by (simp add: purging_ledger_def Let_def tx_COIN_def word_sless_alt isSubsidy_def coin_isNull_def output_isNull_def out_amount_def
        testnet_subsidy_def halving_def adhere_names_def adhere_aux_pow_def checkPoints_def testnet3_checkpoints_def attach_def
        sample_mined_def sample_place_def sample_ledger_def sample_hash t e next_do_def insertBlockHeader_def
        update_db_def post_loop.simps postTransaction_def new_conf_def insert_conf_def give_def redeem_def unspent_at_def
        unspent_is_valid_def spend_coin_def insert_spending_def delete_unspents_def issue_def insert_unspent_def new_name_operation_def
        check_name_fees_def postSubsidy_def isCoinBase_def is_coinbase_conf_def getValueOut_def c
        tx_final_def ChainRules.range_def verifier_success_def)
qed

theorem append_keeps_chain_ok_witness:
  "\<exists>st'. append sample_world sample_block purging_store = (Inr (), st') \<and> chain_ok sample_world st'"
proof -
  obtain maps L where a: "attach sample_env (\<lambda>_. (0, 0)) (\<lambda>_. False) 1 0 (sample_place 1) sample_block ([], []) purging_ledger = (Inr maps, L)"
    using purging_attach_returns by blast
  have tip: "bh_prevBlock (header sample_block) = ref_hash (last (trunk (st_tree purging_store)))"
    using sample_tip by simp
  have inv: "tree_inv (env_bn sample_world) (\<lambda>_. 0) (st_tree purging_store)" using sample_inv(1) by simp
  have "\<exists>st'. append sample_world sample_block purging_store = (Inr (), st') \<and>
    trunk (st_tree st') = trunk (st_tree purging_store) @ [new_ref sample_world sample_block (ref_hash sample_root)]"
    by (rule append_valid [where maps = maps and L = L, OF sample_inv(2) inv tip sample_checks(1)])
      (use a in \<open>simp_all add: sample_block_work [simplified] sample_checks sample_fits sample_place_def sample_root_sel\<close>)
  then obtain st' where st': "append sample_world sample_block purging_store = (Inr (), st')" by blast
  have ok: "chain_ok sample_world purging_store"
    using inv sample_ledger_ok
    by (auto simp: chain_ok_def purging_ledger_def ledger_ok_def coherent_def coins_ok_def sample_ledger_def sample_trunk_def
        sample_root_def row_ref_def sample_mined_def)
  have "chain_ok sample_world st'"
    by (rule append_keeps_chain_ok [OF sample_inv(2) ok tip st']) simp_all
  with st' show ?thesis by blast
qed

abbreviation bad_block :: mined_block where
  "bad_block \<equiv> sample_mined [sample_coinbase, spend_first 8 []]"

lemma bad_attach: "attach sample_env m c h now blk bad_block ([], []) sample_ledger \<noteq> (Inr maps, L)"
proof -
  have t: "tx_inputs (spend_first h s) = [\<lparr>prevout = Coin h 0, signature = s, input_sequence = - 1\<rparr>]" for h s
    by (simp add: spend_first_def)
  have e: "env_chain sample_env = Testnet3" by (simp add: sample_env_def)
  show ?thesis
    by (auto simp: Let_def attach_def sample_mined_def sample_ledger_def t e next_do_Inr insertBlockHeader_def
        update_db_def post_loop.simps postTransaction_def new_conf_def insert_conf_def give_def redeem_def unspent_at_def
        split: if_splits)
qed

theorem refused_block_restores_witness:
  "\<exists>e st'. append sample_world bad_block sample_store = (Inl e, st') \<and> st_tree st' = sample_trunk \<and>
    db (st_ledger st') = db sample_ledger"
proof -
  obtain r st' where a: "append sample_world bad_block sample_store = (r, st')"
    by (cases "append sample_world bad_block sample_store")
  show ?thesis
  proof (cases r)
    case (Inl e)
    with a refused_block_restores [OF sample_inv(2,1) sample_tip, of "[sample_coinbase, spend_first 8 []]" e st'] show ?thesis by simp
  next
    case (Inr u)
    then have "append sample_world bad_block sample_store = (Inr (), st')" using a by simp
    from append_tip [OF sample_inv(2,1) sample_tip this] obtain maps blk L t where
      t: "trunk t = trunk (st_tree sample_store) @ [new_ref sample_world bad_block (bh_prevBlock (header bad_block))]"
        "place_of t (block_hash sample_world bad_block) = Inr blk"
        "attach (env_of sample_world) (w_memory sample_world) (claims_have (st_claims sample_store)) (tree_height t)
           (w_adjusted sample_world) blk bad_block ([], []) (st_ledger sample_store) = (Inr maps, L)" by metis
    then show ?thesis using bad_attach by simp
  qed
qed

theorem min_versions_elected_witness:
  "\<exists>v. getMinAcceptedBlockVersion Testnet3 sample_trunk = Inr v \<and> 75 < votes_for (ballots sample_trunk 101) v"
  using min_versions_elected [OF sample_trunk_inv, of Testnet3] by (auto simp: voted_version_def elected_def)

end
