(* ===== verification/Spec2Isabelle.thy ===== *)
theory Spec2Isabelle
  imports MerkleBlock ChainRules Claims NameOperation LedgerSafety ChainAppend
begin

text \<open>
  A model of the core of libcoin, a C++ library of Bitcoin and related chains, and the theorems that
  make it correct.  Paths are relative to \<^verbatim>\<open>src/\<close> (headers under \<^verbatim>\<open>include/\<close>, implementations
  under \<^verbatim>\<open>src/\<close>).

  The parts and how they interact.  \<^verbatim>\<open>coin/\<close> holds the data of the chain and its wire format:
  transactions and blocks are serialised by the stream operators of \<^verbatim>\<open>Serialization.h\<close>, identified by
  the double SHA-256 of the result, and linked by Merkle trees; scripts are run by a stack machine,
  which the transaction evaluator extends by signature checks.  \<^verbatim>\<open>coinChain/\<close> holds what a node does
  with them: the rules of each chain (which transactions and blocks are well formed, the subsidy,
  the difficulty), the tree of block references with the trunk of most work, and the partial Merkle
  trees served to thin clients.

  Theories, in the order of their imports:

    \<^item> \<open>Prelude\<close>: machine integers by the names of the source, results of fallible code
      (\<open>err + 'a\<close>), lists, the collections \<open>coin_defs\<close> and others.
    \<^item> \<open>Serialization\<close> (\<^verbatim>\<open>coin/Serialization.h\<close>): the little-endian integers, the variable-length
      integers, vectors and strings; the locale \<open>codec\<close> states the law of a writer and its reader and
      is interpreted on each of them.
    \<^item> \<open>Transaction\<close> (\<^verbatim>\<open>coin/Transaction.h\<close>), \<open>Block\<close> (\<^verbatim>\<open>coin/Block.h\<close>, \<^verbatim>\<open>BlockHeader.h\<close>): the
      classes as records with their operators and wire format, the Merkle tree of a block with the
      branch of a transaction and its check; SHA-256 is the parameter \<open>sha\<close>.
    \<^item> \<open>Coinbase\<close>, \<open>AuxPow\<close> (\<^verbatim>\<open>coin/Block.cpp\<close>, \<^verbatim>\<open>AuxPow.cpp\<close>, \<^verbatim>\<open>MerkleTx.cpp\<close>): the fields of a
      coinbase script, and merged mining: the proof that work on another chain counts for this one.
    \<^item> \<open>MerkleBlock\<close> (\<^verbatim>\<open>coinChain/MerkleBlock.cpp\<close>): partial Merkle trees, their construction from a
      block and a filter's answers, their extraction and wire format.
    \<^item> \<open>StdMap\<close>, \<open>BlockTree\<close> (\<^verbatim>\<open>coinChain/BlockTree.h\<close>): the trunk and the branches of block
      references, with \<open>insert_ref\<close>, \<open>pop_back\<close>, \<open>assign\<close> and the iterator.
    \<^item> \<open>BigNum\<close> (\<^verbatim>\<open>coin/BigNum.h\<close>): conversions of big numbers; OpenSSL's \<^verbatim>\<open>BIGNUM\<close> functions are the
      record \<open>bn_lib\<close> of parameters, and \<open>bn_documented\<close> states what their manual promises.  Its witness
      \<open>ref_bn\<close> implements them.
    \<^item> \<open>Uint256\<close> (\<^verbatim>\<open>coin/uint256.h\<close>): the limb loops of \<^verbatim>\<open>base_uint\<close> and their refinement to words.
    \<^item> \<open>Script\<close>, \<open>Evaluator\<close>, \<open>TxVerify\<close> (\<^verbatim>\<open>coin/Script.cpp\<close>, \<^verbatim>\<open>Transaction.cpp\<close>): the format of scripts
      with the scans and the matching of templates, the stack machine with every opcode of its switch,
      the signature hash, the evaluator with signatures, and \<open>verify\<close> with pay-to-script-hash.
      Hash functions are the record \<open>crypto\<close>, elliptic-curve verification is the parameter
      \<open>key_verify\<close>; no law of either is assumed.
    \<^item> \<open>Util\<close> (\<^verbatim>\<open>coin/util.cpp\<close>, \<^verbatim>\<open>Currency.cpp\<close>): hexadecimal and decimal text, the clock adjusted by
      the peers' clocks; the conversion of \<^verbatim>\<open>boost::lexical_cast\<close> is the parameter \<open>lexical\<close>.
    \<^item> \<open>ChainRules\<close> (\<^verbatim>\<open>coinChain/Chain.cpp\<close>): the seven chains with their constants, checkpoints and
      genesis blocks, the checks of transactions and blocks, subsidy, proof of work and difficulty;
      \<^verbatim>\<open>scrypt\<close> and the mersenne twister of Dogecoin's early subsidy are parameters.
    \<^item> \<open>MerkleTrie\<close>, \<open>Spendables\<close> (\<^verbatim>\<open>coinChain/MerkleTrie.h\<close>, \<^verbatim>\<open>Spendables.h\<close>): the trie of the unspent coins
      with its hashes and hash branches; its contract of a set of coins is proved over the parameters of
      the template and holds of the class of unspent coins.
    \<^item> \<open>Claims\<close> (\<^verbatim>\<open>coinChain/Claims.cpp\<close>): the memory pool, its priorities and the selection for a block.
    \<^item> \<open>NameOperation\<close> (\<^verbatim>\<open>coin/NameOperation.cpp\<close>): the values a script drops, the evaluator of names, and the
      name operation of a transaction.
    \<^item> \<open>Ledger\<close> (\<^verbatim>\<open>coinChain/BlockChain.cpp\<close>): the tables of the database as lists of rows, each SQL query of
      the class as a function on them, and the operations that redeem and issue coins, post transactions
      and the subsidy, attach a block and roll it back. An operation is a function from the ledger to a
      result, an error or a value, and the ledger it leaves. \<open>LedgerEffects\<close> says what each changes,
      \<open>LedgerRollback\<close> what rolling back a confirmation does, \<open>LedgerBlocks\<close> puts both together for blocks,
      \<open>LedgerSafety\<close> shows what the ledger guarantees of money and signatures, and where it does not.
    \<^item> \<open>BlockChain\<close> (\<^verbatim>\<open>coinChain/BlockChain.cpp\<close>): the class around its ledger, with the block tree, the tree of
      refused blocks, the blocks of side branches, the pool, the locator and the listeners in the record \<open>store\<close>:
      claims of unconfirmed transactions, \<open>append\<close> with its checks, the transaction of the database, what an
      exception takes back and what follows the commit, the votes on versions, purging. \<open>ChainAppend\<close> has its
      theorems.

  What the lemmas show.  Each component has its state's invariant and the behaviour of every operation
  on it: wire formats are read back; Merkle branches and partial trees prove what they are used to
  prove, or exhibit a collision of the hash; the stack machine keeps its limits and accepts only
  scripts that parse; standard payments verify exactly when hash and signature are right; the block
  tree keeps the trunk of most work; targets and amounts stay in their bounds; the trie of unspent coins is
  a set with a hash that depends on nothing else; the ledger keeps its tables and tries in agreement, creates
  no more money than the subsidies, and
  rolling back a block is the inverse of attaching it, up to the counts of the coins that the block spent, which the
  code does not restore.  The theorems about whole blocks (\<open>rollback_undoes_attach\<close>,
  \<open>attach_keeps_ledger_ok\<close>, \<open>block_creates_subsidy\<close>, \<open>append_keeps_chain_ok\<close>) are about blocks later than the rule
  that transactions are unique (BIP 30): before it a block may replace a coin by one of the same outpoint.  The theorems about
  names leave out the values of one byte from 1 to 15, which the code takes for numbers; what happens then has
  theorems of its own.  Where the code departs
  from what it means to do, the departure is a theorem too (for example in the
  selection of claims, in popping the tip of the tree and in the difficulty of side branches).

  Bounds and fuel.  Most loops are structural recursions over the bytes or blocks
  they consume, or have a measure that their termination proof names.  The others take fuel, and their theorems show
  that the result comes before it is spent, on a tree that satisfies its invariant \<open>tree_inv\<close>:
    \<^item> in \<open>BlockTree\<close>, \<open>work_loop\<close> and \<open>crawl\<close>, which follow a branch down to the trunk, get as many steps as the negative
      height of the branch says (one more for \<open>crawl\<close>), and \<open>demote\<close>, the loop over the trunk above the fork, one more than the
      trunk has blocks; \<open>insert_ref_correct\<close> shows that these are enough.  \<open>pop_demote\<close>, the same loop in \<open>pop_back\<close>, gets as many as
      \<open>demote\<close>; no theorem covers a \<open>pop_back\<close> that reorganises in general, only an example where the tree comes out wrong;
    \<^item> \<open>version_loop\<close>, the vote on versions, gets one step for each block of the quorum and one more (\<open>min_versions_elected\<close>);
    \<^item> \<open>last_regular\<close>, the test network's search back, gets one step more than the height (\<open>testnet_search_ends\<close>);
    \<^item> \<open>toString_loop\<close>, the digits of a number, is given its fuel by the caller; below \<open>16 ^ fuel\<close> the hexadecimal
      digits come out (\<open>hex_roundtrip\<close>).

  Machine integers keep their
  width; reads past the end of a buffer, which are undefined in the source, are the value \<open>None\<close> or a
  fault of their own, never a made-up result.  A check of signatures that would read such a place counts as a failed one in \<open>attach\<close>, and a
  block without transactions is an error there.

  Not modelled: the SQLite and Berkeley DB wrappers themselves (\<^verbatim>\<open>Database\<close>, \<^verbatim>\<open>WalletDB\<close>), sockets and
  threads (\<^verbatim>\<open>Node\<close>, \<^verbatim>\<open>Peer\<close>, \<^verbatim>\<open>coinHTTP\<close> servers and clients), the wallet and its remote
  procedures, JSON, mining loops, port mapping, logging and the applications: they are calls of
  libraries and input and output around the parts above.
\<close>

end
